(* ===== verification/Prelude.thy ===== *)
theory Prelude
  imports Main "HOL-Library.Word" "HOL-Library.Multiset" "HOL-Library.Monad_Syntax"
begin

text \<open>
  What the components share.

  Conventions of the model:
  \<^item> an address is a natural number, \<open>NULL\<close> is 0;
  \<^item> a computation that may abort (a failed assert, a dereference of \<open>NULL\<close>, a write
    past a buffer, a loop that does not end) is a value of an option type: \<open>None\<close> is
    the abort, and the do-notation of Monad\_Syntax sequences the steps;
  \<^item> C strings are HOL strings without the closing NUL byte;
  \<^item> \<open>uint32_t\<close> is a 32-bit word, and the conversion of an unsigned difference to
    \<open>int\<close> is the two's complement reading \<open>sint\<close>.
  The theory also holds the facts on updated arrays, on array prefixes as lists and on the
  option monad that several components use.
\<close>

type_synonym addr = nat
type_synonym u32 = "32 word"
type_synonym u64 = "64 word"

abbreviation (input) NULL :: addr where
  "NULL \<equiv> 0"

named_theorems model_defs \<open>unfolding equations of small accessor definitions\<close>

section \<open>The option monad\<close>

lemma bind_eq_SomeE:
  assumes "Option.bind x f = Some y"
  obtains a where "x = Some a" and "f a = Some y"
  using assms by (cases x) auto

definition guard :: "bool \<Rightarrow> unit option" where
  "guard b = (if b then Some () else None)"

lemma guard_simps [simp]: "guard True = Some ()" "guard False = None"
  by (simp_all add: guard_def)

lemma guard_Some [simp]: "guard b = Some u \<longleftrightarrow> b"
  by (simp add: guard_def)

section \<open>Arrays as functions\<close>

text \<open>
  A C array is a function from indices; the list of its first \<open>n\<close> cells is what the
  code regards as its content.
\<close>

definition prefix_list :: "(nat \<Rightarrow> 'a) \<Rightarrow> nat \<Rightarrow> 'a list" where
  "prefix_list A n = map A [0..<n]"

lemma length_prefix_list [simp]: "length (prefix_list A n) = n"
  by (simp add: prefix_list_def)

lemma nth_prefix_list [simp]: "i < n \<Longrightarrow> prefix_list A n ! i = A i"
  by (simp add: prefix_list_def)

lemma set_prefix_list: "set (prefix_list A n) = A ` {..<n}"
  by (auto simp: prefix_list_def)

lemma prefix_list_Suc [simp]: "prefix_list A (Suc n) = prefix_list A n @ [A n]"
  by (simp add: prefix_list_def)

lemma prefix_list_0 [simp]: "prefix_list A 0 = []"
  by (simp add: prefix_list_def)

lemma prefix_list_cong: "(\<And>i. i < n \<Longrightarrow> A i = B i) \<Longrightarrow> prefix_list A n = prefix_list B n"
  by (simp add: prefix_list_def)

lemma prefix_list_upd: "i < n \<Longrightarrow> prefix_list (A(i := x)) n = (prefix_list A n)[i := x]"
  by (rule nth_equalityI) (auto simp: nth_list_update)

lemma prefix_list_upd_ge [simp]: "n \<le> i \<Longrightarrow> prefix_list (A(i := x)) n = prefix_list A n"
  by (rule prefix_list_cong) auto

text \<open>Exchanging two cells permutes the content.\<close>

definition swap_cells :: "nat \<Rightarrow> nat \<Rightarrow> (nat \<Rightarrow> 'a) \<Rightarrow> nat \<Rightarrow> 'a" where
  "swap_cells i j A = A(i := A j, j := A i)"

lemma swap_cells_apply:
  "swap_cells i j A k = (if k = j then A i else if k = i then A j else A k)"
  by (simp add: swap_cells_def)

lemma mset_swap_cells:
  assumes "i < n" "j < n"
  shows "mset (prefix_list (swap_cells i j A) n) = mset (prefix_list A n)"
proof -
  have "prefix_list (swap_cells i j A) n = (prefix_list A n)[i := A j, j := A i]"
    using assms by (simp add: swap_cells_def prefix_list_upd)
  then show ?thesis
    using assms mset_swap [of j "prefix_list A n" i]
    by (metis length_prefix_list nth_prefix_list list_update_swap mset_swap)
qed

lemma distinct_prefix_list:
  "distinct (prefix_list A n) \<longleftrightarrow> (\<forall>i<n. \<forall>j<n. i \<noteq> j \<longrightarrow> A i \<noteq> A j)"
  by (auto simp: distinct_conv_nth)

lemma prefix_set_mset_eq:
  assumes "mset (prefix_list A n) = mset (prefix_list B n)" "i < n"
  shows "A i \<in> B ` {..<n}"
proof -
  have "A i \<in> set (prefix_list A n)" using assms(2) by (auto simp: set_prefix_list)
  also have "set (prefix_list A n) = set (prefix_list B n)"
    using assms(1) by (metis set_mset_mset)
  finally show ?thesis by (simp add: set_prefix_list)
qed

lemma mset_prefix_first:
  "0 < n \<Longrightarrow> mset (prefix_list A n) = add_mset (A 0) (mset (prefix_list A n) - {#A 0#})"
  by (auto simp: set_prefix_list)

lemma prefix_list_split: "m \<le> n \<Longrightarrow> prefix_list A n = prefix_list A m @ map A [m..<n]"
  unfolding prefix_list_def by (metis le_add_diff_inverse map_append upt_add_eq_append zero_le)

lemma mset_prefix_extend:
  assumes "mset (prefix_list A m) = mset (prefix_list B m)" "\<And>k. m \<le> k \<Longrightarrow> k < n \<Longrightarrow> A k = B k" "m \<le> n"
  shows "mset (prefix_list A n) = mset (prefix_list B n)"
proof -
  have "map A [m..<n] = map B [m..<n]" using assms(2) by simp
  with assms(1,3) show ?thesis by (metis mset_append prefix_list_split)
qed

lemma sorted_wrt_prefix:
  "sorted_wrt P (prefix_list A n) \<longleftrightarrow> (\<forall>i j. i < j \<and> j < n \<longrightarrow> P (A i) (A j))"
  by (auto simp: sorted_wrt_iff_nth_less)

section \<open>Unsigned and signed 32-bit integers\<close>

text \<open>\<open>(int)(a - b)\<close> for two \<open>uint32_t\<close> values: the wrapped difference read as two's
  complement. Its sign compares the operands when both are below \<open>2 ^ 31\<close>.\<close>

definition int_diff :: "u32 \<Rightarrow> u32 \<Rightarrow> int" where
  "int_diff a b = sint (a - b)"

lemma sint_small: "unat x < 2 ^ 31 \<Longrightarrow> sint (x :: u32) = int (unat x)"
proof -
  assume "unat x < 2 ^ 31"
  then have "uint x < 2 ^ 31" by (simp add: uint_nat del: of_nat_unat)
  then have "signed_take_bit 31 (uint x) = uint x"
    by (intro signed_take_bit_int_eq_self) (simp_all add: order_trans [OF _ uint_ge_0])
  then show ?thesis by (simp add: sint_uint)
qed

lemma int_diff_small:
  assumes "unat a < 2 ^ 31" "unat b < 2 ^ 31"
  shows "int_diff a b = int (unat a) - int (unat b)"
proof -
  have "- (2 ^ 31) \<le> int (unat a) - int (unat b)" "int (unat a) - int (unat b) < 2 ^ 31"
    using assms by (simp_all del: of_nat_unat)
  then have "signed_take_bit 31 (int (unat a) - int (unat b)) = int (unat a) - int (unat b)"
    by (rule signed_take_bit_int_eq_self)
  then show ?thesis
    using assms by (simp add: int_diff_def sint_word_diff sint_small del: of_nat_unat)
qed

end
