(* ===== verification/Log_Heap.thy ===== *)
theory Log_Heap
  imports Prelude
begin

text \<open>
  The binary min-heap of \<^verbatim>\<open>log_heap.c\<close> and \<^verbatim>\<open>log_heap.h\<close>: an array of element
  pointers, a length and a comparison callback. The callbacks read and write the memory of
  the elements, which is the type parameter \<open>'s\<close>; \<open>cmp\<close> and the insert callback may abort,
  because the ones of the repository assert that their arguments are not \<open>NULL\<close>. Indices are
  natural numbers: \<open>j \<le> len - 1\<close> of the code is \<open>j < len\<close>, and \<open>len - 2\<close> of the sort is
  the bound \<open>j < len - 1\<close>.
\<close>

section \<open>State and operations\<close>

definition MAX_HEAP_NODE_NUM :: nat where
  "MAX_HEAP_NODE_NUM = 10000"

record ('s, 'p) heap_t =
  heap :: "nat \<Rightarrow> 'p"
  len :: nat
  maxSize :: int
  cmp :: "'s \<Rightarrow> 'p \<Rightarrow> 'p \<Rightarrow> int option"

type_synonym ('s, 'p) insert_func = "'p \<Rightarrow> nat \<Rightarrow> 's \<Rightarrow> 's option"

text \<open>\<open>if (func != NULL) func(e, idx)\<close>.\<close>

fun callback :: "('s, 'p) insert_func option \<Rightarrow> 'p \<Rightarrow> nat \<Rightarrow> 's \<Rightarrow> 's option" where
  "callback None e i s = Some s"
| "callback (Some f) e i s = f e i s"

text \<open>
  The result of \<open>malloc\<close> is a parameter: \<open>None\<close> when it fails, else the uninitialised array.
  The result is \<open>None\<close> where the C function returns \<open>NULL\<close>.
\<close>

definition heap_init ::
    "(nat \<Rightarrow> 'p) option \<Rightarrow> int \<Rightarrow> ('s \<Rightarrow> 'p \<Rightarrow> 'p \<Rightarrow> int option) \<Rightarrow> ('s, 'p) heap_t option" where
  "heap_init mem ms c =
     (if ms \<le> 0 then None
      else if ms > int MAX_HEAP_NODE_NUM then None
      else case mem of
        None \<Rightarrow> None
      | Some junk \<Rightarrow> Some \<lparr>heap = junk, len = 0, maxSize = ms, cmp = c\<rparr>)"

definition heap_value :: "('s, 'p) heap_t \<Rightarrow> nat \<Rightarrow> 'p option" where
  "heap_value hbt i = (if i < MAX_HEAP_NODE_NUM then Some (heap hbt i) else None)"

definition heap_empty :: "('s, 'p) heap_t \<Rightarrow> bool" where
  "heap_empty hbt \<longleftrightarrow> len hbt = 0"

definition heap_reach_roof :: "('s, 'p) heap_t \<Rightarrow> nat \<Rightarrow> bool" where
  "heap_reach_roof hbt roof \<longleftrightarrow> len hbt \<ge> roof"

definition heap_min_less_than :: "('s, 'p) heap_t \<Rightarrow> 's \<Rightarrow> 'p \<Rightarrow> bool option" where
  "heap_min_less_than hbt s e = do { c \<leftarrow> cmp hbt s (heap hbt 0) e; Some (c < 0) }"

text \<open>\<open>heap_traverse\<close> calls the function on the cells in array order.\<close>

fun heap_traverse_from ::
    "nat \<Rightarrow> nat \<Rightarrow> ('s, 'p) heap_t \<Rightarrow> ('p \<Rightarrow> 's \<Rightarrow> 's option) \<Rightarrow> 's \<Rightarrow> 's option" where
  "heap_traverse_from 0 i hbt f s = Some s"
| "heap_traverse_from (Suc n) i hbt f s =
     do { s' \<leftarrow> f (heap hbt i) s; heap_traverse_from n (Suc i) hbt f s' }"

definition heap_traverse ::
    "('s, 'p) heap_t \<Rightarrow> ('p \<Rightarrow> 's \<Rightarrow> 's option) \<Rightarrow> 's \<Rightarrow> 's option" where
  "heap_traverse hbt f s = heap_traverse_from (len hbt) 0 hbt f s"

text \<open>
  The loop of \<open>heap_insert\<close>. It compares the parent with \<open>heap[i]\<close>, not with \<open>x\<close>: from the
  second round on \<open>heap[i]\<close> still holds the element that was just moved down.
\<close>

definition parent_idx :: "nat \<Rightarrow> nat" where
  "parent_idx i = (i - 1) div 2"

lemma parent_idx_less [simp]: "0 < k \<Longrightarrow> parent_idx k < k"
  by (auto simp: parent_idx_def)

lemma child_idx: "0 < k \<Longrightarrow> parent_idx k = i \<longleftrightarrow> k = 2 * i + 1 \<or> k = 2 * i + 2"
  by (auto simp: parent_idx_def)

fun heap_up ::
    "('s, 'p) insert_func option \<Rightarrow> 's \<Rightarrow> ('s, 'p) heap_t \<Rightarrow> nat \<Rightarrow>
     ('s \<times> ('s, 'p) heap_t \<times> nat) option" where
  "heap_up func s hbt i =
     (if i = 0 then Some (s, hbt, i)
      else do {
        c \<leftarrow> cmp hbt s (heap hbt (parent_idx i)) (heap hbt i);
        if c \<le> 0 then Some (s, hbt, i)
        else do {
          s' \<leftarrow> callback func (heap hbt (parent_idx i)) i s;
          heap_up func s' (hbt\<lparr>heap := (heap hbt)(i := heap hbt (parent_idx i))\<rparr>) (parent_idx i)
        }
      })"

declare heap_up.simps [simp del]

lemma heap_up_stop:
  "0 < i \<Longrightarrow> cmp hbt s (heap hbt (parent_idx i)) (heap hbt i) = Some c \<Longrightarrow> c \<le> 0 \<Longrightarrow>
   heap_up func s hbt i = Some (s, hbt, i)"
  by (simp add: heap_up.simps)

lemma heap_up_0 [simp]: "heap_up func s hbt 0 = Some (s, hbt, 0)"
  by (simp add: heap_up.simps)

definition heap_insert ::
    "('s, 'p) insert_func option \<Rightarrow> 's \<Rightarrow> ('s, 'p) heap_t \<Rightarrow> 'p \<Rightarrow>
     ('s \<times> ('s, 'p) heap_t \<times> nat) option" where
  "heap_insert func s hbt x = do {
     guard (len hbt < MAX_HEAP_NODE_NUM);
     s1 \<leftarrow> callback func x (len hbt) s;
     (s2, h2, i) \<leftarrow> heap_up func s1
        (hbt\<lparr>heap := (heap hbt)(len hbt := x), len := len hbt + 1\<rparr>) (len hbt);
     s3 \<leftarrow> callback func x i s2;
     Some (s3, h2\<lparr>heap := (heap h2)(i := x)\<rparr>, i)
   }"

text \<open>
  The loop that \<open>heap_delete\<close>, \<open>heap_sort\<close>, \<open>heap_adjust_siftdown\<close> and
  \<open>heap_replace_least\<close> repeat: from the hole \<open>i\<close> move the smaller child up while it is
  smaller than \<open>x\<close>, among the first \<open>n\<close> cells.
\<close>

definition smaller_child :: "'s \<Rightarrow> ('s, 'p) heap_t \<Rightarrow> nat \<Rightarrow> nat \<Rightarrow> nat option" where
  "smaller_child s hbt n j =
     (if j + 1 < n
      then do { c \<leftarrow> cmp hbt s (heap hbt j) (heap hbt (j + 1)); Some (if c > 0 then j + 1 else j) }
      else Some j)"

lemma smaller_child_cases:
  "smaller_child s hbt n j = Some k \<Longrightarrow> k = j \<or> k = j + 1 \<and> j + 1 < n"
  by (auto simp: smaller_child_def split: if_splits elim!: bind_eq_SomeE)

function heap_down ::
    "('s, 'p) insert_func option \<Rightarrow> 's \<Rightarrow> ('s, 'p) heap_t \<Rightarrow> nat \<Rightarrow> 'p \<Rightarrow> nat \<Rightarrow>
     ('s \<times> ('s, 'p) heap_t \<times> nat) option" where
  "heap_down func s hbt n x i =
     (if 2 * i + 1 < n
      then case smaller_child s hbt n (2 * i + 1) of
        None \<Rightarrow> None
      | Some j \<Rightarrow> do {
          c \<leftarrow> cmp hbt s x (heap hbt j);
          if c \<le> 0 then Some (s, hbt, i)
          else do {
            s' \<leftarrow> callback func (heap hbt j) i s;
            heap_down func s' (hbt\<lparr>heap := (heap hbt)(i := heap hbt j)\<rparr>) n x j
          }
        }
      else Some (s, hbt, i))"
  by pat_completeness auto
termination
  by (relation "measure (\<lambda>(func, s, hbt, n, x, i). n - i)")
    (auto dest!: smaller_child_cases)

declare heap_down.simps [simp del]

text \<open>\<open>heap_delete\<close> of an empty heap prints a message and calls \<open>exit\<close>.\<close>

definition heap_delete :: "'s \<Rightarrow> ('s, 'p) heap_t \<Rightarrow> ('p \<times> ('s, 'p) heap_t) option" where
  "heap_delete s hbt = do {
     guard (len hbt \<noteq> 0);
     let temp = heap hbt 0;
     let h1 = hbt\<lparr>len := len hbt - 1\<rparr>;
     if len h1 = 0 then Some (temp, h1)
     else do {
       let x = heap h1 (len h1);
       (s', h2, i) \<leftarrow> heap_down None s h1 (len h1) x 0;
       Some (temp, h2\<lparr>heap := (heap h2)(i := x)\<rparr>)
     }
   }"

text \<open>\<open>heap_copy\<close>: the cells past the length keep what \<open>malloc\<close> left there.\<close>

definition heap_copy :: "(nat \<Rightarrow> 'p) option \<Rightarrow> ('s, 'p) heap_t \<Rightarrow> ('s, 'p) heap_t option" where
  "heap_copy mem hbt = (case mem of
     None \<Rightarrow> None
   | Some junk \<Rightarrow>
       Some \<lparr>heap = (\<lambda>i. if i < len hbt then heap hbt i else junk i), len = len hbt,
             maxSize = maxSize hbt, cmp = cmp hbt\<rparr>)"

text \<open>One argument of \<open>heap_sort_from\<close> is the loop counter \<open>len\<close>, which runs down.\<close>

fun heap_sort_from :: "'s \<Rightarrow> nat \<Rightarrow> ('s, 'p) heap_t \<Rightarrow> ('s, 'p) heap_t option" where
  "heap_sort_from s 0 hbt = Some hbt"
| "heap_sort_from s (Suc m) hbt = do {
     let elem = heap hbt m;
     let h1 = hbt\<lparr>heap := (heap hbt)(m := heap hbt 0)\<rparr>;
     let h2 = h1\<lparr>heap := (heap h1)(0 := elem)\<rparr>;
     if Suc m = 2 then Some h2
     else do {
       (s', h3, i) \<leftarrow> heap_down None s h2 m elem 0;
       heap_sort_from s m (h3\<lparr>heap := (heap h3)(i := elem)\<rparr>)
     }
   }"

definition heap_sort :: "'s \<Rightarrow> ('s, 'p) heap_t \<Rightarrow> ('s, 'p) heap_t option" where
  "heap_sort s hbt = heap_sort_from s (len hbt) hbt"

definition heap_adjust_siftdown ::
    "('s, 'p) insert_func option \<Rightarrow> 's \<Rightarrow> ('s, 'p) heap_t \<Rightarrow> nat \<Rightarrow>
     ('s \<times> ('s, 'p) heap_t) option" where
  "heap_adjust_siftdown func s hbt index = do {
     elem \<leftarrow> heap_value hbt index;
     (s1, h1, i) \<leftarrow> heap_down func s hbt (len hbt) elem index;
     if i \<noteq> index then do {
       s2 \<leftarrow> callback func elem i s1;
       Some (s2, h1\<lparr>heap := (heap h1)(i := elem)\<rparr>)
     }
     else Some (s1, h1)
   }"

text \<open>\<open>heap_replace_least\<close> returns the pointer that is not in the heap afterwards.\<close>

definition heap_replace_least ::
    "('s, 'p) insert_func option \<Rightarrow> 's \<Rightarrow> ('s, 'p) heap_t \<Rightarrow> 'p \<Rightarrow>
     ('s \<times> ('s, 'p) heap_t \<times> 'p) option" where
  "heap_replace_least func s hbt new = do {
     let temp = heap hbt 0;
     c \<leftarrow> cmp hbt s new temp;
     if c \<le> 0 then Some (s, hbt, new)
     else do {
       (s1, h1, i) \<leftarrow> heap_down func s hbt (len hbt) new 0;
       s2 \<leftarrow> callback func new i s1;
       Some (s2, h1\<lparr>heap := (heap h1)(i := new)\<rparr>, temp)
     }
   }"

section \<open>Order of the array\<close>

definition heap_ordered :: "('p \<Rightarrow> nat) \<Rightarrow> nat \<Rightarrow> (nat \<Rightarrow> 'p) \<Rightarrow> bool" where
  "heap_ordered key n A \<longleftrightarrow> (\<forall>k. 0 < k \<and> k < n \<longrightarrow> key (A (parent_idx k)) \<le> key (A k))"

text \<open>The order may fail between \<open>i\<close> and its children, and nowhere else.\<close>

definition heap_almost :: "('p \<Rightarrow> nat) \<Rightarrow> nat \<Rightarrow> (nat \<Rightarrow> 'p) \<Rightarrow> nat \<Rightarrow> bool" where
  "heap_almost key n A i \<longleftrightarrow>
     (\<forall>k. 0 < k \<and> k < n \<and> parent_idx k \<noteq> i \<longrightarrow> key (A (parent_idx k)) \<le> key (A k)) \<and>
     (0 < i \<longrightarrow> (\<forall>k. 0 < k \<and> k < n \<and> parent_idx k = i \<longrightarrow>
        key (A (parent_idx i)) \<le> key (A k)))"

lemma heap_orderedD: "heap_ordered key n A \<Longrightarrow> 0 < k \<Longrightarrow> k < n \<Longrightarrow> key (A (parent_idx k)) \<le> key (A k)"
  by (simp add: heap_ordered_def)

lemma heap_almostD: "heap_almost key n A i \<Longrightarrow> 0 < k \<Longrightarrow> k < n \<Longrightarrow> parent_idx k \<noteq> i \<Longrightarrow>
    key (A (parent_idx k)) \<le> key (A k)"
  by (simp add: heap_almost_def)

lemma heap_almostD2: "heap_almost key n A (parent_idx k) \<Longrightarrow> 0 < k \<Longrightarrow> k < n \<Longrightarrow>
    0 < parent_idx k \<Longrightarrow> key (A (parent_idx (parent_idx k))) \<le> key (A k)"
  by (simp add: heap_almost_def)

lemma heap_ordered_mono: "heap_ordered key n A \<Longrightarrow> m \<le> n \<Longrightarrow> heap_ordered key m A"
  by (auto simp: heap_ordered_def)

lemma heap_ordered_cong:
  assumes "\<And>k. k < n \<Longrightarrow> A k = B k"
  shows "heap_ordered key n A = heap_ordered key n B"
proof -
  have "A (parent_idx k) = B (parent_idx k)" if "0 < k" "k < n" for k
    using assms parent_idx_less [OF that(1)] that(2) by simp
  with assms show ?thesis by (auto simp: heap_ordered_def)
qed

lemma heap_ordered_imp_almost: "heap_ordered key n A \<Longrightarrow> i < n \<Longrightarrow> heap_almost key n A i"
  unfolding heap_almost_def heap_ordered_def by (metis le_trans)

lemma heap_ordered_min:
  "heap_ordered key n A \<Longrightarrow> k < n \<Longrightarrow> key (A 0) \<le> key (A k)"
proof (induction k rule: less_induct)
  case (less k)
  show ?case
  proof (cases "k = 0")
    case False
    then have "parent_idx k < k" by simp
    with less have "key (A 0) \<le> key (A (parent_idx k))" by auto
    also have "\<dots> \<le> key (A k)" using less.prems False by (simp add: heap_orderedD)
    finally show ?thesis .
  qed simp
qed

lemma heap_almost_stop:
  assumes "heap_almost key n A i"
    and "\<And>k. 0 < k \<Longrightarrow> k < n \<Longrightarrow> parent_idx k = i \<Longrightarrow> key (A i) \<le> key (A k)"
  shows "heap_ordered key n A"
  using assms unfolding heap_ordered_def heap_almost_def by metis

text \<open>Exchanging the element at the defect with its smaller child moves the defect down.\<close>

lemma heap_almost_step:
  assumes al: "heap_almost key n A i" and j: "0 < j" "j < n" "parent_idx j = i"
    and lt: "key (A j) < key (A i)"
    and min: "\<And>k. 0 < k \<Longrightarrow> k < n \<Longrightarrow> parent_idx k = i \<Longrightarrow> key (A j) \<le> key (A k)"
  shows "heap_almost key n (swap_cells i j A) j"
proof -
  have ij: "i < j" using j parent_idx_less by blast
  let ?B = "swap_cells i j A"
  have 1: "key (?B (parent_idx k)) \<le> key (?B k)" if k: "0 < k" "k < n" "parent_idx k \<noteq> j" for k
  proof (cases "k = i")
    case True
    with k have "key (A (parent_idx i)) \<le> key (A j)" using al j by (auto simp: heap_almostD2)
    moreover have "parent_idx i < i" using k True by simp
    ultimately show ?thesis using True ij by (simp add: swap_cells_apply)
  next
    case False
    show ?thesis
    proof (cases "parent_idx k = i")
      case True
      then show ?thesis using k j lt min [of k] ij False
        by (simp add: swap_cells_apply)
    next
      case False': False
      then have "key (A (parent_idx k)) \<le> key (A k)" using al k by (simp add: heap_almostD)
      moreover have "k \<noteq> j" using False' j by auto
      ultimately show ?thesis using False False' k by (simp add: swap_cells_apply)
    qed
  qed
  have 2: "key (?B (parent_idx j)) \<le> key (?B k)" if k: "0 < k" "k < n" "parent_idx k = j" for k
  proof -
    have "key (A (parent_idx k)) \<le> key (A k)" using heap_almostD [OF al k(1,2)] k ij by simp
    moreover have "k \<noteq> i" "k \<noteq> j" using k ij parent_idx_less [of k] by auto
    ultimately show ?thesis using k j ij by (simp add: swap_cells_apply)
  qed
  from 1 2 show ?thesis unfolding heap_almost_def by blast
qed

text \<open>The array with the element \<open>x\<close> put in the hole \<open>i\<close>.\<close>

definition filled :: "('s, 'p) heap_t \<Rightarrow> nat \<Rightarrow> 'p \<Rightarrow> nat \<Rightarrow> 'p" where
  "filled hbt i x = (heap hbt)(i := x)"

lemma filled_apply: "filled hbt i x k = (if k = i then x else heap hbt k)"
  by (simp add: filled_def)

lemma filled_move:
  "i \<noteq> j \<Longrightarrow> filled (hbt\<lparr>heap := (heap hbt)(i := heap hbt j)\<rparr>) j x = swap_cells i j (filled hbt i x)"
  by (auto simp: filled_def swap_cells_def fun_eq_iff)

text \<open>The elements that the heap holds.\<close>

definition heap_content :: "('s, 'p) heap_t \<Rightarrow> 'p multiset" where
  "heap_content hbt = mset (prefix_list (heap hbt) (len hbt))"

lemma filled_same [simp]: "filled hbt i (heap hbt i) = heap hbt"
  by (simp add: filled_def)

section \<open>The contract of the callbacks\<close>

text \<open>
  What the heap relies on: \<open>cmp\<close> answers for the elements that are \<open>good\<close> and its sign
  compares their keys; the insert callback stores the index of its element and changes no key.
\<close>

locale heap_elems =
  fixes good :: "'s \<Rightarrow> 'p \<Rightarrow> bool"
    and key :: "'s \<Rightarrow> 'p \<Rightarrow> nat"
    and idx :: "'s \<Rightarrow> 'p \<Rightarrow> int"
    and cmpf :: "'s \<Rightarrow> 'p \<Rightarrow> 'p \<Rightarrow> int option"
    and setidx :: "('s, 'p) insert_func"
  assumes cmpf_sign: "good s p \<Longrightarrow> good s q \<Longrightarrow>
      \<exists>c. cmpf s p q = Some c \<and> (c \<le> 0 \<longleftrightarrow> key s p \<le> key s q) \<and> (c < 0 \<longleftrightarrow> key s p < key s q)"
    and setidx_total: "good s p \<Longrightarrow> \<exists>s'. setidx p i s = Some s'"
    and setidx_good: "setidx p i s = Some s' \<Longrightarrow> good s' q = good s q"
    and setidx_key: "setidx p i s = Some s' \<Longrightarrow> key s' q = key s q"
    and setidx_idx: "setidx p i s = Some s' \<Longrightarrow> idx s' q = (if q = p then int i else idx s q)"
begin

definition is_cb :: "('s, 'p) insert_func option \<Rightarrow> bool" where
  "is_cb func \<longleftrightarrow> func = None \<or> func = Some setidx"

lemma is_cb_simps [simp]: "is_cb None" "is_cb (Some setidx)"
  by (simp_all add: is_cb_def)

lemma callback_ok:
  assumes "is_cb func" "good s p"
  obtains s' where "callback func p i s = Some s'" "key s' = key s" "good s' = good s"
    "idx s' = (if func = None then idx s else (idx s)(p := int i))"
proof (cases func)
  case None
  with that [of s] show ?thesis by simp
next
  case (Some f)
  with assms(1) have f: "f = setidx" by (simp add: is_cb_def)
  from setidx_total [OF assms(2), of i] obtain s' where s': "setidx p i s = Some s'" by blast
  show ?thesis
  proof (rule that [of s'])
    show "callback func p i s = Some s'" using Some f s' by simp
    show "key s' = key s" "good s' = good s"
      using setidx_key [OF s'] setidx_good [OF s'] by auto
    show "idx s' = (if func = None then idx s else (idx s)(p := int i))"
      using Some setidx_idx [OF s'] by auto
  qed
qed

lemma cmpf_cases:
  assumes "good s p" "good s q"
  obtains (le) c where "cmpf s p q = Some c" "c \<le> 0" "key s p \<le> key s q"
    | (gt) c where "cmpf s p q = Some c" "0 < c" "key s q < key s p"
proof -
  obtain c where "cmpf s p q = Some c" "c \<le> 0 \<longleftrightarrow> key s p \<le> key s q"
    using cmpf_sign [OF assms] by blast
  then show ?thesis using le gt by (cases "c \<le> 0") auto
qed

lemma smaller_child_ok:
  assumes "cmp hbt = cmpf" "2 * i + 1 < n" "\<And>k. k < n \<Longrightarrow> k \<noteq> i \<Longrightarrow> good s (heap hbt k)"
  obtains j where "smaller_child s hbt n (2 * i + 1) = Some j" "0 < j" "j < n" "parent_idx j = i"
    "\<And>k. 0 < k \<Longrightarrow> k < n \<Longrightarrow> parent_idx k = i \<Longrightarrow> key s (heap hbt j) \<le> key s (heap hbt k)"
proof (cases "2 * i + 2 < n")
  case False
  then show ?thesis using assms(2) that [of "2 * i + 1"]
    by (auto simp: smaller_child_def child_idx)
next
  case True
  have g: "good s (heap hbt (2 * i + 1))" "good s (heap hbt (2 * i + 2))"
    using assms True by auto
  from g show ?thesis
  proof (cases rule: cmpf_cases)
    case (le c)
    then show ?thesis using True assms(1) that [of "2 * i + 1"]
      by (auto simp: smaller_child_def child_idx)
  next
    case (gt c)
    show ?thesis
    proof (rule that [of "2 * i + 2"])
      show "smaller_child s hbt n (2 * i + 1) = Some (2 * i + 2)"
        using gt True assms(1) by (simp add: smaller_child_def)
      show "key s (heap hbt (2 * i + 2)) \<le> key s (heap hbt k)"
        if "0 < k" "k < n" "parent_idx k = i" for k
        using gt that by (auto simp: child_idx)
    qed (use True in \<open>simp_all add: child_idx\<close>)
  qed
qed

definition down_post ::
    "'s \<Rightarrow> ('s, 'p) heap_t \<Rightarrow> nat \<Rightarrow> 'p \<Rightarrow> nat \<Rightarrow> 's \<Rightarrow> ('s, 'p) heap_t \<Rightarrow> nat \<Rightarrow> bool" where
  "down_post s h n x i s' h' i' \<longleftrightarrow> i' < n \<and>
     (heap_almost (key s) n (filled h i x) i \<longrightarrow> heap_ordered (key s) n (filled h' i' x)) \<and>
     mset (prefix_list (filled h' i' x) n) = mset (prefix_list (filled h i x) n) \<and>
     (i' = i \<longrightarrow> h' = h \<and> s' = s) \<and> i \<le> i' \<and>
     len h' = len h \<and> maxSize h' = maxSize h \<and> cmp h' = cmp h \<and>
     (\<forall>k\<ge>n. heap h' k = heap h k) \<and> key s' = key s \<and> good s' = good s"

lemma heap_down_correct:
  assumes "is_cb func" "cmp h = cmpf" "\<And>k. k < n \<Longrightarrow> good s (filled h i x k)" "i < n"
  shows "\<exists>s' h' i'. heap_down func s h n x i = Some (s', h', i') \<and> down_post s h n x i s' h' i'"
  using assms
proof (induction func s h n x i rule: heap_down.induct)
  case (1 func s h n x i)
  let ?A = "filled h i x"
  show ?case
  proof (cases "2 * i + 1 < n")
    case False
    then have "parent_idx k \<noteq> i" if "0 < k" "k < n" for k
      using that child_idx [of k i] by auto
    then have "heap_almost (key s) n ?A i \<longrightarrow> heap_ordered (key s) n ?A"
      using heap_almost_stop by blast
    then show ?thesis using False "1.prems" by (simp add: heap_down.simps [of func s h] down_post_def)
  next
    case True
    have g: "good s (heap h k)" if "k < n" "k \<noteq> i" for k
      using "1.prems"(3) [of k] that by (simp add: filled_apply)
    obtain j where j: "smaller_child s h n (2 * i + 1) = Some j" "0 < j" "j < n" "parent_idx j = i"
      and min: "\<And>k. 0 < k \<Longrightarrow> k < n \<Longrightarrow> parent_idx k = i \<Longrightarrow> key s (heap h j) \<le> key s (heap h k)"
      using smaller_child_ok [OF "1.prems"(2) True g] by blast
    have ij: "i < j" using j parent_idx_less by blast
    have min': "key s (?A j) \<le> key s (?A k)" if "0 < k" "k < n" "parent_idx k = i" for k
      using min [OF that] parent_idx_less [OF that(1)] that ij by (simp add: filled_apply)
    have gx: "good s x" using "1.prems"(3) [of i] "1.prems"(4) by (simp add: filled_apply)
    have gj: "good s (heap h j)" using g j ij by simp
    from gx gj show ?thesis
    proof (cases rule: cmpf_cases)
      case (le c)
      have "heap_almost (key s) n ?A i \<longrightarrow> heap_ordered (key s) n ?A"
      proof (rule impI, erule heap_almost_stop)
        fix k assume k: "0 < k" "k < n" "parent_idx k = i"
        have "key s (?A i) \<le> key s (?A j)" using le ij by (simp add: filled_apply)
        also have "\<dots> \<le> key s (?A k)" using k by (rule min')
        finally show "key s (?A i) \<le> key s (?A k)" .
      qed
      then show ?thesis using True j le "1.prems"
        by (simp add: heap_down.simps [of func s h] down_post_def)
    next
      case (gt c)
      let ?h = "h\<lparr>heap := (heap h)(i := heap h j)\<rparr>"
      obtain s1 where s1: "callback func (heap h j) i s = Some s1" "key s1 = key s" "good s1 = good s"
        using callback_ok [OF "1.prems"(1) gj] by blast
      have sw: "filled ?h j x = swap_cells i j ?A" using ij by (simp add: filled_move)
      have nc: "\<not> c \<le> 0" using gt by simp
      have al: "heap_almost (key s) n ?A i \<longrightarrow> heap_almost (key s) n (swap_cells i j ?A) j"
        using j gt ij min' by (intro impI heap_almost_step) (simp_all add: filled_apply)
      have good': "good s1 (filled ?h j x k)" if "k < n" for k
        using that "1.prems"(3) "1.prems"(4) j s1(3) unfolding sw by (simp add: swap_cells_apply)
      have "\<exists>s' h' i'. heap_down func s1 ?h n x j = Some (s', h', i') \<and> down_post s1 ?h n x j s' h' i'"
        using True j gt nc s1 "1.prems"(1,2) good' sw by (intro "1.IH") simp_all
      then obtain s' h' i' where r: "heap_down func s1 ?h n x j = Some (s', h', i')"
        and post: "down_post s1 ?h n x j s' h' i'" by blast
      have eq: "heap_down func s h n x i = Some (s', h', i')"
        using True j gt s1 r "1.prems"(2) by (simp add: heap_down.simps [of func s h])
      have "down_post s h n x i s' h' i'"
        using post s1 ij j "1.prems"(4) al mset_swap_cells [of i n j ?A]
        unfolding down_post_def sw by auto
      with eq show ?thesis by blast
    qed
  qed
qed

text \<open>
  With the callback the indices stay those of the elements: only the element in the hole
  has a stale index.
\<close>

lemma heap_down_idx:
  assumes "heap_down (Some setidx) s h n x i = Some (s', h', i')" "i < n" "cmp h = cmpf"
    and "distinct (prefix_list (filled h i x) n)"
    and "\<And>k. k < n \<Longrightarrow> k \<noteq> i \<Longrightarrow> idx s (heap h k) = int k"
  shows "(\<forall>k<n. k \<noteq> i' \<longrightarrow> idx s' (heap h' k) = int k) \<and>
     (\<forall>p. p \<notin> heap h ` ({..<n} - {i}) \<longrightarrow> idx s' p = idx s p)"
  using assms
proof (induction "Some setidx" s h n x i rule: heap_down.induct)
  case (1 s h n x i)
  show ?case
  proof (cases "2 * i + 1 < n")
    case False
    then show ?thesis using "1.prems" by (simp add: heap_down.simps [of _ s h])
  next
    case True
    then obtain j where j: "smaller_child s h n (2 * i + 1) = Some j"
      using "1.prems"(1) by (auto simp: heap_down.simps [of _ s h] split: option.splits)
    with True have jn: "j < n" "i < j" by (auto dest: smaller_child_cases)
    obtain c where c: "cmp h s x (heap h j) = Some c"
      using "1.prems"(1) True j by (auto simp: heap_down.simps [of _ s h] elim: bind_eq_SomeE)
    show ?thesis
    proof (cases "c \<le> 0")
      case le: True
      then show ?thesis using "1.prems" True j c by (auto simp: heap_down.simps [of _ s h])
    next
      case gt: False
      let ?h = "h\<lparr>heap := (heap h)(i := heap h j)\<rparr>"
      obtain s1 where s1: "setidx (heap h j) i s = Some s1"
        and r: "heap_down (Some setidx) s1 ?h n x j = Some (s', h', i')"
        using "1.prems"(1) True j c gt by (auto simp: heap_down.simps [of _ s h] elim: bind_eq_SomeE)
      have sw: "filled ?h j x = swap_cells i j (filled h i x)" using jn by (simp add: filled_move)
      have d: "distinct (prefix_list (filled ?h j x) n)"
        unfolding sw using "1.prems"(2,4) jn
        by (metis mset_swap_cells mset_eq_imp_distinct_iff)
      have neq: "heap h k \<noteq> heap h j" if "k < n" "k \<noteq> i" "k \<noteq> j" for k
        using "1.prems"(4) that jn unfolding distinct_prefix_list filled_apply by (metis less_irrefl)
      have "(\<forall>k<n. k \<noteq> i' \<longrightarrow> idx s' (heap h' k) = int k) \<and>
          (\<forall>p. p \<notin> heap ?h ` ({..<n} - {j}) \<longrightarrow> idx s' p = idx s1 p)"
        using True j c gt s1 r jn d "1.prems"(3,5) setidx_idx [OF s1] neq
        by (intro "1.hyps") (auto split: if_splits)
      then show ?thesis using setidx_idx [OF s1] jn "1.prems"(2) by (auto simp: image_iff)
    qed
  qed
qed

definition wf_heap :: "'s \<Rightarrow> ('s, 'p) heap_t \<Rightarrow> bool" where
  "wf_heap s h \<longleftrightarrow> cmp h = cmpf \<and> len h \<le> MAX_HEAP_NODE_NUM \<and> (\<forall>k<len h. good s (heap h k))"

definition coherent :: "'s \<Rightarrow> ('s, 'p) heap_t \<Rightarrow> bool" where
  "coherent s h \<longleftrightarrow>
     distinct (prefix_list (heap h) (len h)) \<and> (\<forall>k<len h. idx s (heap h k) = int k)"

abbreviation ordered :: "'s \<Rightarrow> ('s, 'p) heap_t \<Rightarrow> bool" where
  "ordered s h \<equiv> heap_ordered (key s) (len h) (heap h)"

lemma wf_heap_mset:
  assumes "wf_heap s h" "good s' = good s" "len h' = len h" "cmp h' = cmp h"
    and "heap_content h' = heap_content h"
  shows "wf_heap s' h'"
proof -
  have "good s (heap h' k)" if "k < len h" for k
    using assms prefix_set_mset_eq [of "heap h'" "len h" "heap h" k] that
    by (auto simp: heap_content_def wf_heap_def)
  with assms show ?thesis by (simp add: wf_heap_def)
qed

subsection \<open>Sift down\<close>

lemma heap_adjust_siftdown_correct:
  assumes "is_cb func" "wf_heap s h" "i < len h"
  shows "\<exists>s' h'. heap_adjust_siftdown func s h i = Some (s', h') \<and>
    (heap_almost (key s) (len h) (heap h) i \<longrightarrow> ordered s' h') \<and>
    heap_content h' = heap_content h \<and> len h' = len h \<and> maxSize h' = maxSize h \<and>
    wf_heap s' h' \<and> key s' = key s \<and> good s' = good s"
proof -
  let ?x = "heap h i"
  have v: "heap_value h i = Some ?x"
    using assms(2,3) by (simp add: heap_value_def wf_heap_def)
  obtain s1 h1 j where d: "heap_down func s h (len h) ?x i = Some (s1, h1, j)"
    and post: "down_post s h (len h) ?x i s1 h1 j"
    using heap_down_correct [of func h "len h" s i ?x] assms by (auto simp: wf_heap_def)
  let ?h = "h1\<lparr>heap := filled h1 j ?x\<rparr>"
  have ok: "heap_almost (key s) (len h) (heap h) i \<longrightarrow> ordered s1 ?h" "heap_content ?h = heap_content h" "len ?h = len h"
      "maxSize ?h = maxSize h" "cmp ?h = cmp h" "key s1 = key s" "good s1 = good s"
    using post by (simp_all add: down_post_def heap_content_def)
  show ?thesis
  proof (cases "j = i")
    case True
    then have "h1 = h" "s1 = s" using post by (simp_all add: down_post_def)
    with True d v ok assms(2) show ?thesis
      by (simp add: heap_adjust_siftdown_def)
  next
    case False
    have "good s1 ?x" using assms(2,3) ok(7) by (simp add: wf_heap_def)
    then obtain s2 where s2: "callback func ?x j s1 = Some s2" "key s2 = key s1" "good s2 = good s1"
      using callback_ok [OF assms(1)] by blast
    have "heap_adjust_siftdown func s h i = Some (s2, ?h)"
      using False d v s2 by (simp add: heap_adjust_siftdown_def filled_def)
    moreover have "wf_heap s2 ?h"
      using wf_heap_mset [OF assms(2), of s2 ?h] ok s2 by simp
    ultimately show ?thesis using ok s2 by simp
  qed
qed

lemma heap_adjust_siftdown_coherent:
  assumes "heap_adjust_siftdown (Some setidx) s h i = Some (s', h')"
    and "wf_heap s h" "coherent s h" "i < len h"
  shows "coherent s' h' \<and> (\<forall>p. p \<notin># heap_content h \<longrightarrow> idx s' p = idx s p)"
proof -
  let ?x = "heap h i"
  have v: "heap_value h i = Some ?x"
    using assms by (simp add: heap_value_def wf_heap_def)
  obtain s1 h1 j where d: "heap_down (Some setidx) s h (len h) ?x i = Some (s1, h1, j)"
    and post: "down_post s h (len h) ?x i s1 h1 j"
    using heap_down_correct [of "Some setidx" h "len h" s i ?x] assms by (auto simp: wf_heap_def)
  have ix: "\<forall>k<len h. k \<noteq> j \<longrightarrow> idx s1 (heap h1 k) = int k"
    "\<forall>p. p \<notin> heap h ` ({..<len h} - {i}) \<longrightarrow> idx s1 p = idx s p"
    using heap_down_idx [OF d] assms by (auto simp: wf_heap_def coherent_def)
  show ?thesis
  proof (cases "j = i")
    case True
    then have "h1 = h" "s1 = s" using post by (simp_all add: down_post_def)
    with True d v assms show ?thesis by (simp add: heap_adjust_siftdown_def)
  next
    case False
    with assms(1) d v obtain "setidx ?x j s1 = Some s'" "h' = h1\<lparr>heap := filled h1 j ?x\<rparr>"
      by (auto simp: heap_adjust_siftdown_def filled_def elim!: bind_eq_SomeE)
    note e = this
    have di: "distinct (prefix_list (filled h1 j ?x) (len h))"
      using post assms(3) unfolding down_post_def coherent_def
      by (metis filled_same mset_eq_imp_distinct_iff)
    then have ne: "filled h1 j ?x k \<noteq> ?x" if "k < len h" "k \<noteq> j" for k
      using that post unfolding distinct_prefix_list down_post_def by (metis filled_apply)
    have "idx s' (filled h1 j ?x k) = int k" if "k < len h" for k
      using ix(1) setidx_idx [OF e(1)] ne that by (auto simp: filled_apply)
    moreover have "idx s' p = idx s p" if "p \<notin># heap_content h" for p
      using that ix(2) setidx_idx [OF e(1)] assms(4)
      by (auto simp: heap_content_def set_prefix_list)
    ultimately show ?thesis using di e post by (simp add: coherent_def down_post_def)
  qed
qed

subsection \<open>Replacing the least element\<close>

lemma almost_root:
  assumes "heap_ordered k n A" "\<And>i. 0 < i \<Longrightarrow> i < n \<Longrightarrow> B i = A i"
  shows "heap_almost k n B 0"
proof -
  have "B (parent_idx i) = A (parent_idx i)" if "0 < i" "i < n" "parent_idx i \<noteq> 0" for i
    using that parent_idx_less [OF that(1)] by (intro assms(2)) auto
  with assms show ?thesis by (simp add: heap_almost_def heap_ordered_def)
qed

lemma filled_root_content:
  assumes "0 < len h"
  shows "mset (prefix_list (filled h 0 x) (len h)) = heap_content h - {#heap h 0#} + {#x#}"
  using assms by (simp add: filled_def heap_content_def prefix_list_upd mset_update)

lemma heap_down_root:
  assumes "is_cb func" "cmp h = cmpf" "good s x" "\<And>k. 0 < k \<Longrightarrow> k < n \<Longrightarrow> good s (heap h k)"
    and "0 < n" "\<And>i. 0 < i \<Longrightarrow> i < n \<Longrightarrow> heap h i = A i"
  obtains s' h' i' where "heap_down func s h n x 0 = Some (s', h', i')" "down_post s h n x 0 s' h' i'"
    "heap_ordered (key s) n A \<Longrightarrow> heap_ordered (key s) n (filled h' i' x)"
proof -
  have al: "heap_almost (key s) n (filled h 0 x) 0" if "heap_ordered (key s) n A"
    using assms(6) by (intro almost_root [OF that]) (simp add: filled_apply)
  have "good s (filled h 0 x k)" if "k < n" for k
    using assms(3,4) that by (simp add: filled_apply)
  then obtain s' h' i' where "heap_down func s h n x 0 = Some (s', h', i')"
      "down_post s h n x 0 s' h' i'"
    using heap_down_correct [of func h n s 0 x] assms(1,2,5) by blast
  with al show ?thesis using that [of s' h' i'] by (simp add: down_post_def)
qed

lemma heap_replace_least_correct:
  assumes "is_cb func" "wf_heap s h" "0 < len h" "good s x" "key s (heap h 0) < key s x"
  shows "\<exists>s' h'. heap_replace_least func s h x = Some (s', h', heap h 0) \<and>
    (ordered s h \<longrightarrow> ordered s' h') \<and>
    heap_content h' = heap_content h - {#heap h 0#} + {#x#} \<and> len h' = len h \<and>
    wf_heap s' h' \<and> key s' = key s \<and> good s' = good s"
proof -
  have g0: "good s (heap h 0)" using assms(2,3) by (simp add: wf_heap_def)
  obtain c where c: "cmp h s x (heap h 0) = Some c" "\<not> c \<le> 0"
    using cmpf_sign [OF assms(4) g0] assms(2,5) by (auto simp: wf_heap_def)
  obtain s1 h1 j where d: "heap_down func s h (len h) x 0 = Some (s1, h1, j)"
    and post: "down_post s h (len h) x 0 s1 h1 j"
    and ord: "ordered s h \<Longrightarrow> heap_ordered (key s) (len h) (filled h1 j x)"
    by (rule heap_down_root [of func h s x "len h" "heap h"])
      (use assms in \<open>simp_all add: wf_heap_def\<close>)
  let ?h = "h1\<lparr>heap := filled h1 j x\<rparr>"
  have "good s1 x" using post assms(4) by (simp add: down_post_def)
  then obtain s2 where s2: "callback func x j s1 = Some s2" "key s2 = key s1" "good s2 = good s1"
    using callback_ok [OF assms(1)] by blast
  have eq: "heap_replace_least func s h x = Some (s2, ?h, heap h 0)"
    using c d s2 by (simp add: heap_replace_least_def filled_def)
  have ok: "len ?h = len h" "cmp ?h = cmp h" "key s1 = key s" "good s1 = good s"
    and m: "heap_content ?h = heap_content h - {#heap h 0#} + {#x#}"
    using post filled_root_content [OF assms(3), of x]
    by (simp_all add: down_post_def heap_content_def)
  have "good s (filled h1 j x k)" if k: "k < len h" for k
  proof -
    have "filled h1 j x k \<in> filled h 0 x ` {..<len h}"
      using post k by (intro prefix_set_mset_eq) (simp_all add: down_post_def)
    then show ?thesis using assms(2,4) by (auto simp: filled_apply wf_heap_def)
  qed
  then have "wf_heap s2 ?h" using assms(2) ok s2 by (simp add: wf_heap_def)
  with eq ok m s2 ord show ?thesis by simp
qed

lemma heap_replace_least_keep:
  assumes "wf_heap s h" "0 < len h" "good s x" "key s x \<le> key s (heap h 0)"
  shows "heap_replace_least func s h x = Some (s, h, x)"
proof -
  have "good s (heap h 0)" using assms by (simp add: wf_heap_def)
  from cmpf_sign [OF assms(3) this] assms show ?thesis
    by (auto simp: heap_replace_least_def wf_heap_def)
qed

text \<open>
  The element that leaves the heap keeps the index it had: nothing tells it that it is no
  longer at the root.
\<close>

lemma heap_replace_least_stale:
  assumes "wf_heap s h" "coherent s h" "0 < len h" "good s x"
    and "key s (heap h 0) < key s x" "x \<notin># heap_content h"
    and "heap_replace_least (Some setidx) s h x = Some (s', h', heap h 0)"
  shows "coherent s' h' \<and> idx s' (heap h 0) = 0"
proof -
  have nx: "heap h k \<noteq> x" if "k < len h" for k
    using assms(6) that by (auto simp: heap_content_def set_prefix_list)
  have g0: "good s (heap h 0)" using assms(1,3) by (simp add: wf_heap_def)
  obtain c where c: "cmp h s x (heap h 0) = Some c" "\<not> c \<le> 0"
    using cmpf_sign [OF assms(4) g0] assms(1,5) by (auto simp: wf_heap_def)
  obtain s1 h1 j where d: "heap_down (Some setidx) s h (len h) x 0 = Some (s1, h1, j)"
    and post: "down_post s h (len h) x 0 s1 h1 j"
    by (rule heap_down_root [of "Some setidx" h s x "len h" "heap h"])
      (use assms in \<open>simp_all add: wf_heap_def\<close>)
  have dist: "distinct (prefix_list (filled h 0 x) (len h))"
    using assms(2) nx unfolding coherent_def distinct_prefix_list filled_apply by metis
  have ix: "\<forall>k<len h. k \<noteq> j \<longrightarrow> idx s1 (heap h1 k) = int k"
    "\<forall>p. p \<notin> heap h ` ({..<len h} - {0}) \<longrightarrow> idx s1 p = idx s p"
    using heap_down_idx [OF d] assms dist by (auto simp: wf_heap_def coherent_def)
  have e: "setidx x j s1 = Some s'" "h' = h1\<lparr>heap := filled h1 j x\<rparr>"
    using assms(7) c d by (auto simp: heap_replace_least_def filled_def elim!: bind_eq_SomeE)
  have di: "distinct (prefix_list (filled h1 j x) (len h))"
    using post dist unfolding down_post_def by (metis mset_eq_imp_distinct_iff)
  then have ne: "filled h1 j x k \<noteq> x" if "k < len h" "k \<noteq> j" for k
    using that post unfolding distinct_prefix_list down_post_def by (metis filled_apply)
  have "idx s' (filled h1 j x k) = int k" if "k < len h" for k
    using ix(1) setidx_idx [OF e(1)] ne that by (auto simp: filled_apply)
  moreover have "heap h 0 \<notin> heap h ` ({..<len h} - {0})"
    using assms(2,3) by (auto simp: coherent_def distinct_prefix_list)
  moreover have "idx s (heap h 0) = 0" using assms(2,3) by (simp add: coherent_def)
  ultimately show ?thesis
    using di e post ix(2) setidx_idx [OF e(1)] nx [OF assms(3)] by (simp add: coherent_def down_post_def)
qed

subsection \<open>Delete\<close>

lemma heap_delete_correct:
  assumes "wf_heap s h" "0 < len h"
  shows "\<exists>h'. heap_delete s h = Some (heap h 0, h') \<and>
    heap_content h = add_mset (heap h 0) (heap_content h') \<and> len h' = len h - 1 \<and> wf_heap s h' \<and>
    (ordered s h \<longrightarrow> ordered s h' \<and> (\<forall>p \<in># heap_content h. key s (heap h 0) \<le> key s p))"
proof -
  have min: "ordered s h \<longrightarrow> (\<forall>p \<in># heap_content h. key s (heap h 0) \<le> key s p)"
    by (auto simp: heap_content_def set_prefix_list heap_ordered_min)
  obtain m where n: "len h = Suc m" using assms(2) by (cases "len h") auto
  let ?h1 = "h\<lparr>len := m\<rparr>"
  let ?x = "heap h m"
  show ?thesis
  proof (cases "m = 0")
    case True
    then show ?thesis using assms min n
      by (auto simp: heap_delete_def heap_content_def heap_ordered_def wf_heap_def)
  next
    case False
    obtain s1 h2 j where d: "heap_down None s ?h1 m ?x 0 = Some (s1, h2, j)"
      and post: "down_post s ?h1 m ?x 0 s1 h2 j"
      and ord: "heap_ordered (key s) m (heap h) \<Longrightarrow> heap_ordered (key s) m (filled h2 j ?x)"
      by (rule heap_down_root [of None ?h1 s ?x m "heap h"])
        (use assms n False in \<open>simp_all add: wf_heap_def\<close>)
    let ?h = "h2\<lparr>heap := filled h2 j ?x\<rparr>"
    have eq: "heap_delete s h = Some (heap h 0, ?h)"
      using d n False by (simp add: heap_delete_def filled_def Let_def)
    have ok: "ordered s h \<longrightarrow> ordered s ?h" "len ?h = m" "cmp ?h = cmp h"
      using post ord n heap_ordered_mono [of "key s" "Suc m" "heap h" m] by (simp_all add: down_post_def)
    have "heap_content ?h = mset (prefix_list (filled ?h1 0 ?x) m)"
      using post by (simp add: heap_content_def down_post_def)
    also have "\<dots> = add_mset ?x (mset (prefix_list (heap h) m) - {#heap h 0#})"
      using filled_root_content [of ?h1 ?x] False by (simp add: heap_content_def)
    finally have m: "heap_content h = add_mset (heap h 0) (heap_content ?h)"
      using mset_prefix_first [of m "heap h"] False n by (simp add: heap_content_def)
    have "good s (filled h2 j ?x k)" if "k < m" for k
    proof -
      have "filled h2 j ?x k \<in># heap_content ?h"
        using that ok(2) by (auto simp: heap_content_def set_prefix_list)
      then have "filled h2 j ?x k \<in># heap_content h" using m by simp
      then show ?thesis using assms(1) by (auto simp: heap_content_def set_prefix_list wf_heap_def)
    qed
    then have "wf_heap s ?h" using assms(1) ok n by (simp add: wf_heap_def)
    with eq ok m min n show ?thesis by simp
  qed
qed

subsection \<open>Sort\<close>

text \<open>
  Round \<open>m\<close> of the sort: the first \<open>m\<close> cells are a heap, the cells from \<open>m\<close> on are in
  descending order, and no cell of the heap is below one of them.
\<close>

definition sort_inv :: "'s \<Rightarrow> nat \<Rightarrow> nat \<Rightarrow> (nat \<Rightarrow> 'p) \<Rightarrow> bool" where
  "sort_inv s n m A \<longleftrightarrow> heap_ordered (key s) m A \<and>
     (\<forall>i j. m \<le> j \<and> i < j \<and> j < n \<longrightarrow> key s (A j) \<le> key s (A i))"

lemma sort_inv_swap:
  assumes "sort_inv s n (Suc m) A"
  shows "\<forall>i j. m \<le> j \<and> i < j \<and> j < n \<longrightarrow>
    key s (swap_cells 0 m A j) \<le> key s (swap_cells 0 m A i)"
proof (intro allI impI)
  fix i j assume ij: "m \<le> j \<and> i < j \<and> j < n"
  have o: "heap_ordered (key s) (Suc m) A"
    and d: "\<And>i j. Suc m \<le> j \<Longrightarrow> i < j \<Longrightarrow> j < n \<Longrightarrow> key s (A j) \<le> key s (A i)"
    using assms by (auto simp: sort_inv_def)
  show "key s (swap_cells 0 m A j) \<le> key s (swap_cells 0 m A i)"
  proof (cases "j = m")
    case True
    with ij heap_ordered_min [OF o, of i] heap_ordered_min [OF o, of m] show ?thesis
      by (auto simp: swap_cells_apply)
  next
    case False
    with ij have "Suc m \<le> j" by auto
    with d [of j i] d [of j 0] d [of j m] ij show ?thesis by (auto simp: swap_cells_apply)
  qed
qed

lemma heap_sort_from_correct:
  assumes "cmp h = cmpf" "\<And>k. k < n \<Longrightarrow> good s (heap h k)" "m \<le> n"
  shows "\<exists>h'. heap_sort_from s m h = Some h' \<and>
    (sort_inv s n m (heap h) \<longrightarrow>
      sorted_wrt (\<lambda>p q. key s q \<le> key s p) (prefix_list (heap h') n)) \<and>
    mset (prefix_list (heap h') n) = mset (prefix_list (heap h) n) \<and>
    len h' = len h \<and> maxSize h' = maxSize h \<and> cmp h' = cmp h"
  using assms
proof (induction m arbitrary: h)
  case 0
  then show ?case by (auto simp: sorted_wrt_prefix sort_inv_def)
next
  case (Suc m)
  let ?S = "swap_cells 0 m (heap h)"
  let ?h2 = "h\<lparr>heap := ?S\<rparr>"
  let ?e = "heap h m"
  have mn: "m < n" using Suc.prems(3) by simp
  have h2: "(h\<lparr>heap := (heap h)(m := heap h 0)\<rparr>)
      \<lparr>heap := (heap (h\<lparr>heap := (heap h)(m := heap h 0)\<rparr>))(0 := ?e)\<rparr> = ?h2"
    by (auto simp: swap_cells_def fun_eq_iff)
  have msw: "mset (prefix_list ?S n) = mset (prefix_list (heap h) n)"
    using mn by (intro mset_swap_cells) auto
  have gS: "good s (?S k)" if "k < n" for k
    using that mn Suc.prems(2) by (simp add: swap_cells_apply)
  show ?case
  proof (cases "m = 1")
    case True
    have "sorted_wrt (\<lambda>p q. key s q \<le> key s p) (prefix_list ?S n)"
      if "sort_inv s n (Suc m) (heap h)"
      using sort_inv_swap [OF that] True by (auto simp: sorted_wrt_prefix)
    then show ?thesis using True msw h2 by (simp add: Let_def)
  next
    case False
    have "\<exists>s1 h3 i. heap_down None s ?h2 m ?e 0 = Some (s1, h3, i) \<and>
        (sort_inv s n (Suc m) (heap h) \<longrightarrow> sort_inv s n m (filled h3 i ?e)) \<and>
        mset (prefix_list (filled h3 i ?e) n) = mset (prefix_list ?S n) \<and>
        len h3 = len h \<and> maxSize h3 = maxSize h \<and> cmp h3 = cmp h"
    proof (cases "m = 0")
      case True
      then have S: "?S = heap h" by (simp add: swap_cells_def)
      have "sort_inv s n 0 (filled h 0 ?e)" if "sort_inv s n (Suc m) (heap h)"
        using sort_inv_swap [OF that] S True by (simp add: sort_inv_def heap_ordered_def)
      with True S show ?thesis by (simp add: heap_down.simps [of _ _ h])
    next
      case False
      have ge: "good s ?e" using mn Suc.prems(2) by simp
      obtain s1 h3 i where d: "heap_down None s ?h2 m ?e 0 = Some (s1, h3, i)"
        and post: "down_post s ?h2 m ?e 0 s1 h3 i"
        and ord: "heap_ordered (key s) m (heap h) \<Longrightarrow> heap_ordered (key s) m (filled h3 i ?e)"
        by (rule heap_down_root [of None ?h2 s ?e m "heap h"])
          (use False mn Suc.prems(1,2) ge in \<open>simp_all add: swap_cells_apply\<close>)
      have f0: "filled ?h2 0 ?e = ?S"
        using False by (auto simp: filled_def swap_cells_def fun_eq_iff)
      have hi: "filled h3 i ?e k = ?S k" if "m \<le> k" for k
        using post that by (auto simp: down_post_def filled_apply)
      have lo: "\<exists>k'<m. filled h3 i ?e k = ?S k'" if "k < m" for k
        using post that prefix_set_mset_eq [of "filled h3 i ?e" m ?S k]
        by (auto simp: down_post_def f0)
      have "sort_inv s n m (filled h3 i ?e)" if si: "sort_inv s n (Suc m) (heap h)"
      proof -
        note desc = sort_inv_swap [OF si]
        have "key s (filled h3 i ?e b) \<le> key s (filled h3 i ?e a)" if "m \<le> b" "a < b" "b < n" for a b
        proof (cases "a < m")
          case True
          then obtain k' where "k' < m" "filled h3 i ?e a = ?S k'" using lo by blast
          with desc that hi show ?thesis by auto
        qed (use desc that hi in auto)
        moreover have "heap_ordered (key s) m (heap h)"
          using si heap_ordered_mono [of "key s" "Suc m" "heap h" m] by (simp add: sort_inv_def)
        ultimately show ?thesis using ord by (simp add: sort_inv_def)
      qed
      moreover have "mset (prefix_list (filled h3 i ?e) n) = mset (prefix_list ?S n)"
      proof (rule mset_prefix_extend)
        show "mset (prefix_list (filled h3 i ?e) m) = mset (prefix_list ?S m)"
          using post unfolding down_post_def f0 by blast
      qed (use mn hi in simp_all)
      ultimately show ?thesis using d post unfolding down_post_def by fastforce
    qed
    then obtain s1 h3 i where d: "heap_down None s ?h2 m ?e 0 = Some (s1, h3, i)"
      and inv: "sort_inv s n (Suc m) (heap h) \<longrightarrow> sort_inv s n m (filled h3 i ?e)"
      and m3: "mset (prefix_list (filled h3 i ?e) n) = mset (prefix_list ?S n)"
      and fr: "len h3 = len h" "maxSize h3 = maxSize h" "cmp h3 = cmp h" by blast
    let ?h4 = "h3\<lparr>heap := filled h3 i ?e\<rparr>"
    have eq: "heap_sort_from s (Suc m) h = heap_sort_from s m ?h4"
      using False d h2 by (simp add: Let_def filled_def)
    have g4: "good s (filled h3 i ?e k)" if "k < n" for k
      using prefix_set_mset_eq [OF m3 that] gS by auto
    have "\<exists>h'. heap_sort_from s m ?h4 = Some h' \<and>
        (sort_inv s n m (heap ?h4) \<longrightarrow>
          sorted_wrt (\<lambda>p q. key s q \<le> key s p) (prefix_list (heap h') n)) \<and>
        mset (prefix_list (heap h') n) = mset (prefix_list (heap ?h4) n) \<and>
        len h' = len ?h4 \<and> maxSize h' = maxSize ?h4 \<and> cmp h' = cmp ?h4"
      using Suc.prems(1) fr g4 mn by (intro Suc.IH) simp_all
    then obtain h' where h': "heap_sort_from s m ?h4 = Some h'"
      "sort_inv s n m (filled h3 i ?e) \<longrightarrow>
        sorted_wrt (\<lambda>p q. key s q \<le> key s p) (prefix_list (heap h') n)"
      "mset (prefix_list (heap h') n) = mset (prefix_list (filled h3 i ?e) n)"
      "len h' = len h" "maxSize h' = maxSize h" "cmp h' = cmp h"
      using fr by auto
    show ?thesis
      by (rule exI [of _ h']) (use h' eq m3 msw inv in simp)
  qed
qed

lemma heap_sort_correct:
  assumes "wf_heap s h"
  shows "\<exists>h'. heap_sort s h = Some h' \<and> heap_content h' = heap_content h \<and> len h' = len h \<and>
    (ordered s h \<longrightarrow>
      sorted_wrt (\<lambda>p q. key s q \<le> key s p) (prefix_list (heap h') (len h')))"
proof -
  have "\<exists>h'. heap_sort_from s (len h) h = Some h' \<and>
    (sort_inv s (len h) (len h) (heap h) \<longrightarrow>
      sorted_wrt (\<lambda>p q. key s q \<le> key s p) (prefix_list (heap h') (len h))) \<and>
    mset (prefix_list (heap h') (len h)) = mset (prefix_list (heap h) (len h)) \<and>
    len h' = len h \<and> maxSize h' = maxSize h \<and> cmp h' = cmp h"
    using assms by (intro heap_sort_from_correct) (auto simp: wf_heap_def)
  then show ?thesis by (auto simp: heap_sort_def heap_content_def sort_inv_def)
qed

subsection \<open>Insert\<close>

definition up_post ::
    "'s \<Rightarrow> ('s, 'p) heap_t \<Rightarrow> nat \<Rightarrow> 'p \<Rightarrow> nat \<Rightarrow> 's \<Rightarrow> ('s, 'p) heap_t \<Rightarrow> nat \<Rightarrow> bool" where
  "up_post s h n x i s' h' i' \<longleftrightarrow> i' \<le> i \<and>
     mset (prefix_list (filled h' i' x) n) = mset (prefix_list (filled h i x) n) \<and>
     len h' = len h \<and> maxSize h' = maxSize h \<and> cmp h' = cmp h \<and>
     (\<forall>k\<ge>n. heap h' k = heap h k) \<and> key s' = key s \<and> good s' = good s"

lemma heap_up_total:
  assumes "is_cb func" "cmp h = cmpf" "\<And>k. k < n \<Longrightarrow> good s (heap h k)" "i < n"
  shows "\<exists>s' h' i'. heap_up func s h i = Some (s', h', i') \<and> up_post s h n x i s' h' i'"
  using assms
proof (induction func s h i rule: heap_up.induct)
  case (1 func s h i)
  show ?case
  proof (cases "i = 0")
    case True
    then show ?thesis by (simp add: heap_up.simps [of _ _ h] up_post_def)
  next
    case False
    let ?j = "parent_idx i"
    have j: "?j < i" using False by simp
    have gj: "good s (heap h ?j)" and gi: "good s (heap h i)" using "1.prems"(3,4) j by auto
    from gj gi show ?thesis
    proof (cases rule: cmpf_cases)
      case (le c)
      then show ?thesis using False "1.prems"(2) by (simp add: heap_up.simps [of _ _ h] up_post_def)
    next
      case (gt c)
      then have nc: "\<not> c \<le> 0" by simp
      let ?h = "h\<lparr>heap := (heap h)(i := heap h ?j)\<rparr>"
      obtain s1 where s1: "callback func (heap h ?j) i s = Some s1" "key s1 = key s" "good s1 = good s"
        using callback_ok [OF "1.prems"(1) gj] by blast
      have "\<exists>s' h' i'. heap_up func s1 ?h ?j = Some (s', h', i') \<and> up_post s1 ?h n x ?j s' h' i'"
        using False gt nc s1 "1.prems" j gj less_trans [OF j] by (intro "1.IH") simp_all
      then obtain s' h' i' where r: "heap_up func s1 ?h ?j = Some (s', h', i')"
        and post: "up_post s1 ?h n x ?j s' h' i'" by blast
      have sw: "filled ?h ?j x = swap_cells i ?j (filled h i x)" using j by (simp add: filled_move)
      have "up_post s h n x i s' h' i'"
        using post s1 j "1.prems"(4) mset_swap_cells [of i n ?j "filled h i x"]
        unfolding up_post_def sw by auto
      then show ?thesis
        using False gt s1 r "1.prems"(2) by (simp add: heap_up.simps [of _ _ h])
    qed
  qed
qed

lemma heap_up_idx:
  assumes "heap_up (Some setidx) s h i = Some (s', h', i')" "i < n" "cmp h = cmpf"
    and "distinct (prefix_list (filled h i x) n)"
    and "\<And>k. k < n \<Longrightarrow> k \<noteq> i \<Longrightarrow> idx s (heap h k) = int k"
  shows "(\<forall>k<n. k \<noteq> i' \<longrightarrow> idx s' (heap h' k) = int k) \<and>
     (\<forall>p. p \<notin> heap h ` ({..<n} - {i}) \<longrightarrow> idx s' p = idx s p)"
  using assms
proof (induction "Some setidx" s h i rule: heap_up.induct)
  case (1 s h i)
  let ?j = "parent_idx i"
  show ?case
  proof (cases "i = 0")
    case True
    then show ?thesis using "1.prems" by (simp add: heap_up.simps [of _ s h])
  next
    case False
    then have "?j < i" by simp
    then have jn: "?j < i" "?j < n" using "1.prems"(2) by simp_all
    obtain c where c: "cmp h s (heap h ?j) (heap h i) = Some c"
      using "1.prems"(1) False by (auto simp: heap_up.simps [of _ s h] elim: bind_eq_SomeE)
    show ?thesis
    proof (cases "c \<le> 0")
      case le: True
      then show ?thesis using "1.prems" False c by (auto simp: heap_up.simps [of _ s h])
    next
      case gt: False
      let ?h = "h\<lparr>heap := (heap h)(i := heap h ?j)\<rparr>"
      obtain s1 where s1: "setidx (heap h ?j) i s = Some s1"
        and r: "heap_up (Some setidx) s1 ?h ?j = Some (s', h', i')"
        using "1.prems"(1) False c gt by (auto simp: heap_up.simps [of _ s h] elim: bind_eq_SomeE)
      have sw: "filled ?h ?j x = swap_cells i ?j (filled h i x)" using jn by (simp add: filled_move)
      have d: "distinct (prefix_list (filled ?h ?j x) n)"
        unfolding sw using "1.prems"(2,4) jn by (metis mset_swap_cells mset_eq_imp_distinct_iff)
      have neq: "heap h k \<noteq> heap h ?j" if "k < n" "k \<noteq> i" "k \<noteq> ?j" for k
        using "1.prems"(4) that jn unfolding distinct_prefix_list filled_apply by (metis less_irrefl)
      have "(\<forall>k<n. k \<noteq> i' \<longrightarrow> idx s' (heap h' k) = int k) \<and>
          (\<forall>p. p \<notin> heap ?h ` ({..<n} - {?j}) \<longrightarrow> idx s' p = idx s1 p)"
        using False c gt s1 r jn d "1.prems"(3,5) setidx_idx [OF s1] neq
        by (intro "1.hyps") (auto split: if_splits)
      then show ?thesis using setidx_idx [OF s1] jn "1.prems"(2) by (auto simp: image_iff)
    qed
  qed
qed

lemma heap_insert_correct:
  assumes "is_cb func" "wf_heap s h" "len h < MAX_HEAP_NODE_NUM" "good s x"
  shows "\<exists>s' h' i. heap_insert func s h x = Some (s', h', i) \<and>
    heap_content h' = add_mset x (heap_content h) \<and> len h' = len h + 1 \<and>
    i \<le> len h \<and> heap h' i = x \<and> wf_heap s' h' \<and> key s' = key s \<and> good s' = good s"
proof -
  let ?hi = "h\<lparr>heap := (heap h)(len h := x), len := Suc (len h)\<rparr>"
  obtain s1 where s1: "callback func x (len h) s = Some s1" "key s1 = key s" "good s1 = good s"
    using callback_ok [OF assms(1,4)] by blast
  have "\<exists>s2 h2 i. heap_up func s1 ?hi (len h) = Some (s2, h2, i) \<and>
      up_post s1 ?hi (Suc (len h)) x (len h) s2 h2 i"
    using assms s1 by (intro heap_up_total) (auto simp: wf_heap_def less_Suc_eq)
  then obtain s2 h2 i where u: "heap_up func s1 ?hi (len h) = Some (s2, h2, i)"
    and post: "up_post s1 ?hi (Suc (len h)) x (len h) s2 h2 i" by blast
  have "good s2 x" using post s1 assms(4) by (simp add: up_post_def)
  then obtain s3 where s3: "callback func x i s2 = Some s3" "key s3 = key s2" "good s3 = good s2"
    using callback_ok [OF assms(1)] by blast
  let ?h = "h2\<lparr>heap := filled h2 i x\<rparr>"
  have eq: "heap_insert func s h x = Some (s3, ?h, i)"
    using assms(3) s1 u s3 by (simp add: heap_insert_def filled_def)
  have ok: "len ?h = len h + 1" "cmp ?h = cmp h" "key s3 = key s" "good s3 = good s" "i \<le> len h"
    using post s1 s3 by (simp_all add: up_post_def)
  have "filled ?hi (len h) x = (heap h)(len h := x)" by (simp add: filled_def)
  then have c: "heap_content ?h = add_mset x (heap_content h)"
    using post unfolding up_post_def heap_content_def by simp
  have "good s (filled h2 i x k)" if "k < len h + 1" for k
  proof -
    have "filled h2 i x k \<in># heap_content ?h"
      using that ok(1) by (auto simp: heap_content_def set_prefix_list simp del: prefix_list_Suc)
    then have "filled h2 i x k \<in># add_mset x (heap_content h)" unfolding c .
    then show ?thesis using assms(2,4)
      by (auto simp: heap_content_def set_prefix_list wf_heap_def)
  qed
  then have "wf_heap s3 ?h" using assms(2,3) ok by (simp add: wf_heap_def)
  with eq c ok show ?thesis by (simp add: filled_apply)
qed

lemma heap_insert_coherent:
  assumes "wf_heap s h" "coherent s h" "good s x" "x \<notin># heap_content h"
    and "heap_insert (Some setidx) s h x = Some (s', h', i)"
  shows "coherent s' h' \<and> (\<forall>p. p \<notin># heap_content h' \<longrightarrow> idx s' p = idx s p)"
proof -
  let ?hi = "h\<lparr>heap := (heap h)(len h := x), len := Suc (len h)\<rparr>"
  obtain s1 s2 h2 where s1: "setidx x (len h) s = Some s1"
    and u: "heap_up (Some setidx) s1 ?hi (len h) = Some (s2, h2, i)"
    and s3: "setidx x i s2 = Some s'" and h': "h' = h2\<lparr>heap := filled h2 i x\<rparr>"
    and l: "len h < MAX_HEAP_NODE_NUM"
    using assms(5) by (auto simp: heap_insert_def filled_def elim!: bind_eq_SomeE)
  have nx: "heap h k \<noteq> x" if "k < len h" for k
    using assms(4) that by (auto simp: heap_content_def set_prefix_list)
  have c: "heap_content h' = add_mset x (heap_content h)" and len': "len h' = len h + 1"
    and il: "i \<le> len h"
    using heap_insert_correct [of "Some setidx" s h x] assms(1,3,5) l by auto
  have f: "filled ?hi (len h) x = (heap h)(len h := x)" by (simp add: filled_def)
  have d0: "distinct (prefix_list (filled ?hi (len h) x) (Suc (len h)))"
    unfolding f using assms(2) nx by (auto simp: coherent_def set_prefix_list)
  have d: "distinct (prefix_list (heap h') (len h'))"
  proof -
    have "mset (prefix_list (heap h') (len h')) =
        mset (prefix_list (filled ?hi (len h) x) (Suc (len h)))"
      using c unfolding f heap_content_def by simp
    with d0 show ?thesis by (metis mset_eq_imp_distinct_iff)
  qed
  have ix: "\<forall>k<Suc (len h). k \<noteq> i \<longrightarrow> idx s2 (heap h2 k) = int k"
    "\<forall>p. p \<notin> heap ?hi ` ({..<Suc (len h)} - {len h}) \<longrightarrow> idx s2 p = idx s1 p"
    using heap_up_idx [OF u _ _ d0] assms(1,2) setidx_idx [OF s1] nx
    by (auto simp: wf_heap_def coherent_def less_Suc_eq)
  have ne: "filled h2 i x k \<noteq> x" if "k < Suc (len h)" "k \<noteq> i" for k
  proof -
    have "i < len h'" "k < len h'" using that il len' by simp_all
    then have "heap h' k \<noteq> heap h' i" using d that(2) unfolding distinct_prefix_list by blast
    then show ?thesis by (simp add: h' filled_apply)
  qed
  have "idx s' (filled h2 i x k) = int k" if "k < Suc (len h)" for k
    using ix(1) setidx_idx [OF s3] ne that by (auto simp: filled_apply)
  moreover have "idx s' p = idx s p" if "p \<notin># heap_content h'" for p
  proof -
    have "{..<Suc (len h)} - {len h} = {..<len h}" by auto
    then show ?thesis
      using that ix(2) setidx_idx [OF s1] setidx_idx [OF s3] unfolding c
      by (simp add: heap_content_def set_prefix_list)
  qed
  ultimately show ?thesis using d len' h' by (simp add: coherent_def)
qed

text \<open>
  The exact result on an ordered heap: the new element moves up by one level at most, because
  the second round compares the grandparent with the parent that was moved down.
\<close>

lemma heap_insert_shape:
  assumes "is_cb func" "wf_heap s h" "ordered s h" "len h < MAX_HEAP_NODE_NUM" "good s x"
  shows "\<exists>s' h' i. heap_insert func s h x = Some (s', h', i) \<and>
    (if len h = 0 \<or> key s (heap h (parent_idx (len h))) \<le> key s x
     then i = len h \<and> heap h' = (heap h)(len h := x)
     else i = parent_idx (len h) \<and>
       heap h' = swap_cells (len h) (parent_idx (len h)) ((heap h)(len h := x)))"
proof -
  let ?n = "len h"
  let ?p = "parent_idx ?n"
  let ?hi = "h\<lparr>heap := (heap h)(?n := x), len := Suc ?n\<rparr>"
  obtain s1 where s1: "callback func x ?n s = Some s1" "key s1 = key s" "good s1 = good s"
    using callback_ok [OF assms(1,5)] by blast
  have cm: "cmp h = cmpf" and g: "\<And>k. k < ?n \<Longrightarrow> good s (heap h k)"
    using assms(2) by (auto simp: wf_heap_def)
  show ?thesis
  proof (cases "?n = 0")
    case True
    obtain s3 where "callback func x 0 s1 = Some s3"
      using callback_ok [OF assms(1)] assms(5) s1(3) by metis
    moreover have "heap_up func s1 ?hi 0 = Some (s1, ?hi, 0)" by (simp add: heap_up.simps)
    ultimately show ?thesis using True s1 assms(4) by (simp add: heap_insert_def)
  next
    case False
    then have p: "?p < ?n" by simp
    have gp: "good s1 (heap h ?p)" and gx: "good s1 x" using g p assms(5) s1(3) by auto
    from gp gx show ?thesis
    proof (cases rule: cmpf_cases)
      case (le c)
      obtain s3 where "callback func x ?n s1 = Some s3"
        using callback_ok [OF assms(1) gx] by metis
      moreover have "heap_up func s1 ?hi ?n = Some (s1, ?hi, ?n)"
        using False le p cm by (simp add: heap_up.simps [of _ _ ?hi])
      ultimately show ?thesis using False s1 assms(4) le by (simp add: heap_insert_def)
    next
      case (gt c)
      let ?h1 = "?hi\<lparr>heap := (heap ?hi)(?n := heap h ?p)\<rparr>"
      obtain s2 where s2: "callback func (heap h ?p) ?n s1 = Some s2" "key s2 = key s1" "good s2 = good s1"
        using callback_ok [OF assms(1) gp] by blast
      have stop: "heap_up func s2 ?h1 ?p = Some (s2, ?h1, ?p)"
      proof (cases "?p = 0")
        case True
        then show ?thesis by simp
      next
        case p0: False
        then have pp: "parent_idx ?p < ?p" by simp
        have "good s2 (heap h (parent_idx ?p))" "good s2 (heap h ?p)"
          using g p pp s1 s2 by auto
        moreover have "key s2 (heap h (parent_idx ?p)) \<le> key s2 (heap h ?p)"
          using heap_orderedD [OF assms(3), of ?p] p p0 s1 s2 by simp
        ultimately obtain d where "cmpf s2 (heap h (parent_idx ?p)) (heap h ?p) = Some d" "d \<le> 0"
          using cmpf_sign by blast
        then show ?thesis using p0 p pp cm by (intro heap_up_stop) simp_all
      qed
      have up: "heap_up func s1 ?hi ?n = heap_up func s2 ?h1 ?p"
        using False gt s2(1) p cm by (simp add: heap_up.simps [of _ _ ?hi])
      have "good s2 x" using gx s2 by simp
      then obtain s3 where s3: "callback func x ?p s2 = Some s3"
        using callback_ok [OF assms(1)] by metis
      have "heap_insert func s h x = Some (s3, ?h1\<lparr>heap := (heap ?h1)(?p := x)\<rparr>, ?p)"
        using assms(4) s1 up stop s3 by (simp add: heap_insert_def)
      moreover have "(heap ?h1)(?p := x) = swap_cells ?n ?p ((heap h)(?n := x))"
        using p by (auto simp: swap_cells_def fun_eq_iff)
      ultimately show ?thesis using False gt s1(2) by (simp add: not_le)
    qed
  qed
qed

end

end
