(* ===== verification/Node_Value.thy ===== *)
theory Node_Value
  imports Log_Heap
begin

text \<open>
  The elements of the top-N heap: \<open>struct node_value\<close> of \<^verbatim>\<open>log_name_tree.h\<close> and the callbacks
  of \<^verbatim>\<open>log_name_tree.c\<close> that compare two of them and store their heap index. The memory of the
  node values is a function from addresses. The callbacks satisfy the contract of the heap
  as long as the counters are below \<open>2 ^ 31\<close>; the heap lemmas, read over the node values, are
  the properties at the end of the theory.
\<close>

section \<open>State and callbacks\<close>

record node_value =
  fqdn :: string
  nv_count :: u32
  heap_index :: int
  nv_ptr :: addr

type_synonym nv_store = "addr \<Rightarrow> node_value"

type_synonym name_heap = "(nv_store, addr) heap_t"

definition elem_compare :: "nv_store \<Rightarrow> addr \<Rightarrow> addr \<Rightarrow> int option" where
  "elem_compare nvs e1 e2 = do {
     guard (e1 \<noteq> NULL \<and> e2 \<noteq> NULL);
     Some (int_diff (nv_count (nvs e1)) (nv_count (nvs e2)))
   }"

definition elem_insert :: "addr \<Rightarrow> nat \<Rightarrow> nv_store \<Rightarrow> nv_store option" where
  "elem_insert e1 i nvs = do {
     guard (e1 \<noteq> NULL);
     Some (nvs(e1 := (nvs e1)\<lparr>heap_index := int i\<rparr>))
   }"

section \<open>The contract holds\<close>

definition nv_good :: "nv_store \<Rightarrow> addr \<Rightarrow> bool" where
  "nv_good nvs p \<longleftrightarrow> p \<noteq> NULL \<and> unat (nv_count (nvs p)) < 2 ^ 31"

definition nv_key :: "nv_store \<Rightarrow> addr \<Rightarrow> nat" where
  "nv_key nvs p = unat (nv_count (nvs p))"

definition nv_idx :: "nv_store \<Rightarrow> addr \<Rightarrow> int" where
  "nv_idx nvs p = heap_index (nvs p)"

lemma elem_compare_sign:
  assumes "nv_good nvs p" "nv_good nvs q"
  shows "\<exists>c. elem_compare nvs p q = Some c \<and> (c \<le> 0 \<longleftrightarrow> nv_key nvs p \<le> nv_key nvs q) \<and>
    (c < 0 \<longleftrightarrow> nv_key nvs p < nv_key nvs q)"
  using assms by (simp add: elem_compare_def nv_good_def nv_key_def int_diff_small del: of_nat_unat)

lemma elem_insert_SomeD:
  "elem_insert p i nvs = Some nvs' \<Longrightarrow> nvs' = nvs(p := (nvs p)\<lparr>heap_index := int i\<rparr>) \<and> p \<noteq> NULL"
  by (auto simp: elem_insert_def elim: bind_eq_SomeE)

interpretation nvh: heap_elems nv_good nv_key nv_idx elem_compare elem_insert
proof unfold_locales
  fix s s' :: nv_store and p q :: addr and i :: nat
  show "nv_good s p \<Longrightarrow> nv_good s q \<Longrightarrow> \<exists>c. elem_compare s p q = Some c \<and>
    (c \<le> 0 \<longleftrightarrow> nv_key s p \<le> nv_key s q) \<and> (c < 0 \<longleftrightarrow> nv_key s p < nv_key s q)"
    by (rule elem_compare_sign)
  show "nv_good s p \<Longrightarrow> \<exists>s'. elem_insert p i s = Some s'"
    by (simp add: elem_insert_def nv_good_def)
  show "elem_insert p i s = Some s' \<Longrightarrow> nv_good s' q = nv_good s q"
    by (auto dest!: elem_insert_SomeD simp: nv_good_def split: if_splits)
  show "elem_insert p i s = Some s' \<Longrightarrow> nv_key s' q = nv_key s q"
    by (auto dest!: elem_insert_SomeD simp: nv_key_def)
  show "elem_insert p i s = Some s' \<Longrightarrow> nv_idx s' q = (if q = p then int i else nv_idx s q)"
    by (auto dest!: elem_insert_SomeD simp: nv_idx_def)
qed

section \<open>What the heap guarantees for node values\<close>

text \<open>
  A heap of live node values: the comparison is the repository's, the length is within the
  array, and every element is not \<open>NULL\<close> and has a counter below \<open>2 ^ 31\<close>.
\<close>

definition nv_heap :: "nv_store \<Rightarrow> name_heap \<Rightarrow> bool" where
  "nv_heap nvs h \<longleftrightarrow> cmp h = elem_compare \<and> len h \<le> MAX_HEAP_NODE_NUM \<and>
     (\<forall>k<len h. nv_good nvs (heap h k))"

text \<open>The stored indices are those of the elements, and no element occurs twice.\<close>

definition nv_indexed :: "nv_store \<Rightarrow> name_heap \<Rightarrow> bool" where
  "nv_indexed nvs h \<longleftrightarrow> distinct (prefix_list (heap h) (len h)) \<and>
     (\<forall>k<len h. heap_index (nvs (heap h k)) = int k)"

definition nv_ordered :: "nv_store \<Rightarrow> name_heap \<Rightarrow> bool" where
  "nv_ordered nvs h \<longleftrightarrow>
     (\<forall>k. 0 < k \<and> k < len h \<longrightarrow> nv_key nvs (heap h (parent_idx k)) \<le> nv_key nvs (heap h k))"

lemma nv_heap_wf: "nvh.wf_heap = nv_heap"
  by (simp add: nvh.wf_heap_def nv_heap_def fun_eq_iff)

lemma nv_indexed_coherent: "nvh.coherent = nv_indexed"
  by (simp add: nvh.coherent_def nv_indexed_def nv_idx_def fun_eq_iff)

lemma nv_ordered_iff: "heap_ordered (nv_key nvs) (len h) (heap h) = nv_ordered nvs h"
  by (simp add: heap_ordered_def nv_ordered_def)

lemmas nv_heap_simps = nv_heap_wf nv_indexed_coherent nv_ordered_iff

text \<open>A heap of \<open>n\<close> node values with the counts \<open>1, 2, \<dots>, n\<close>, for the examples.\<close>

definition demo_nvs :: nv_store where
  "demo_nvs p = \<lparr>fqdn = '''', nv_count = of_nat p, heap_index = int p - 1, nv_ptr = NULL\<rparr>"

definition demo_heap :: "nat \<Rightarrow> name_heap" where
  "demo_heap n = \<lparr>heap = Suc, len = n, maxSize = 1000, cmp = elem_compare\<rparr>"

lemma demo_key: "p < 2 ^ 31 \<Longrightarrow> nv_key demo_nvs p = p"
  by (simp add: nv_key_def demo_nvs_def unat_of_nat)

lemma demo_good: "0 < p \<Longrightarrow> p < 2 ^ 31 \<Longrightarrow> nv_good demo_nvs p"
  using demo_key [of p] by (simp add: nv_good_def nv_key_def)

lemma demo_heap_ok:
  assumes "n \<le> MAX_HEAP_NODE_NUM"
  shows "nv_heap demo_nvs (demo_heap n)" "nv_indexed demo_nvs (demo_heap n)"
    "nv_ordered demo_nvs (demo_heap n)"
proof -
  have b: "Suc k < 2 ^ 31" if "k < n" for k
    using that assms by (simp add: MAX_HEAP_NODE_NUM_def)
  then show "nv_heap demo_nvs (demo_heap n)"
    using assms by (simp add: nv_heap_def demo_heap_def demo_good)
  show "nv_indexed demo_nvs (demo_heap n)"
    by (simp add: nv_indexed_def demo_heap_def demo_nvs_def distinct_prefix_list)
  show "nv_ordered demo_nvs (demo_heap n)"
    using b by (auto simp: nv_ordered_def demo_heap_def demo_key less_trans [OF parent_idx_less]
      intro!: less_imp_le)
qed

lemma demo_content: "set_mset (heap_content (demo_heap n)) = {1..n}"
  by (simp add: heap_content_def demo_heap_def set_prefix_list image_Suc_lessThan)

lemma demo_heap_sel [simp]: "heap (demo_heap n) = Suc" "len (demo_heap n) = n"
  by (simp_all add: demo_heap_def)

section \<open>Properties\<close>

text \<open>\<open>heap_insert\<close> of a new element always returns: the heap then holds exactly one more
  element, every element knows its own index, and no counter changes.\<close>

lemma heap_insert_nodes:
  assumes "nv_heap nvs h" "nv_indexed nvs h" "len h < MAX_HEAP_NODE_NUM"
    and "nv_good nvs x" "x \<notin># heap_content h"
  shows "\<exists>nvs' h' i. heap_insert (Some elem_insert) nvs h x = Some (nvs', h', i) \<and>
    heap_content h' = add_mset x (heap_content h) \<and> nv_heap nvs' h' \<and> nv_indexed nvs' h' \<and>
    nv_key nvs' = nv_key nvs"
proof -
  obtain nvs' h' i where r: "heap_insert (Some elem_insert) nvs h x = Some (nvs', h', i)"
    "heap_content h' = add_mset x (heap_content h)" "nv_heap nvs' h'" "nv_key nvs' = nv_key nvs"
    using nvh.heap_insert_correct [of "Some elem_insert" nvs h x] assms
    unfolding nv_heap_simps by auto
  moreover have "nv_indexed nvs' h'"
    using nvh.heap_insert_coherent [of nvs h x nvs' h' i] assms r unfolding nv_heap_simps by blast
  ultimately show ?thesis by blast
qed

lemma heap_insert_nodes_witness:
  "\<exists>nvs' h' i. heap_insert (Some elem_insert) demo_nvs (demo_heap 3) 9 = Some (nvs', h', i) \<and>
    heap_content h' = add_mset 9 (heap_content (demo_heap 3)) \<and> nv_heap nvs' h' \<and>
    nv_indexed nvs' h' \<and> nv_key nvs' = nv_key demo_nvs"
  by (rule heap_insert_nodes)
    (simp_all add: demo_heap_ok demo_good demo_content MAX_HEAP_NODE_NUM_def)

lemma swapped_order:
  assumes o: "nv_ordered nvs h" and n: "0 < len h" and lt: "nv_key nvs x < nv_key nvs (heap h (parent_idx (len h)))"
    and H: "heap h' = swap_cells (len h) (parent_idx (len h)) ((heap h)(len h := x))"
    and l: "len h' = Suc (len h)" "nv_key nvs' = nv_key nvs"
  shows "nv_ordered nvs' h' \<longleftrightarrow> len h \<le> 2 \<or> nv_key nvs (heap h (parent_idx (parent_idx (len h)))) \<le> nv_key nvs x"
proof -
  let ?n = "len h" and ?H = "heap h" and ?key = "nv_key nvs"
  let ?p = "parent_idx ?n"
  have p: "?p < ?n" using n by simp
  have cell: "heap h' k = (if k = ?p then x else if k = ?n then ?H ?p else ?H k)" for k
    using p by (simp add: H swap_cells_apply)
  have key: "?key (heap h' (parent_idx k)) \<le> ?key (heap h' k)" if "0 < k" "k < Suc ?n" "k \<noteq> ?p" for k
  proof -
    have pk: "parent_idx k < k" using that by simp
    then have "parent_idx k \<noteq> ?n" using that(2) by linarith
    moreover have "?key (?H (parent_idx k)) \<le> ?key (?H k)" if "k < ?n"
      using o that \<open>0 < k\<close> by (simp add: nv_ordered_def)
    ultimately show ?thesis using that lt pk by (auto simp: cell less_Suc_eq)
  qed
  have small: "?p = 0 \<longleftrightarrow> ?n \<le> 2" by (auto simp: parent_idx_def)
  show ?thesis
  proof (cases "?p = 0")
    case True
    then show ?thesis using key l small by (auto simp: nv_ordered_def)
  next
    case False
    then have pp: "parent_idx ?p < ?p" by simp
    then have "nv_ordered nvs' h' \<longleftrightarrow> ?key (heap h' (parent_idx ?p)) \<le> ?key (heap h' ?p)"
      using key l p False unfolding nv_ordered_def by (metis gr0I less_SucI)
    then show ?thesis using pp p False small by (simp add: cell)
  qed
qed

text \<open>C19. What \<open>heap_insert\<close> does to the order of an ordered heap, exactly: it stays ordered if
  and only if the new element is not below its grandparent position. The loop compares the
  grandparent with the parent it has just moved down instead of with the new element, so the
  new element climbs one level at most.\<close>

theorem heap_insert_order:
  assumes "nv_heap nvs h" "nv_ordered nvs h" "len h < MAX_HEAP_NODE_NUM" "nv_good nvs x"
  shows "\<exists>nvs' h' i. heap_insert (Some elem_insert) nvs h x = Some (nvs', h', i) \<and>
    (nv_ordered nvs' h' \<longleftrightarrow>
       len h \<le> 2 \<or> nv_key nvs (heap h (parent_idx (len h))) \<le> nv_key nvs x \<or>
       nv_key nvs (heap h (parent_idx (parent_idx (len h)))) \<le> nv_key nvs x)"
proof -
  let ?n = "len h" and ?H = "heap h" and ?key = "nv_key nvs"
  let ?p = "parent_idx ?n"
  obtain nvs' h' i where r: "heap_insert (Some elem_insert) nvs h x = Some (nvs', h', i)"
    and shape: "if ?n = 0 \<or> ?key (?H ?p) \<le> ?key x then i = ?n \<and> heap h' = ?H(?n := x)
      else i = ?p \<and> heap h' = swap_cells ?n ?p (?H(?n := x))"
    using nvh.heap_insert_shape [of "Some elem_insert" nvs h x] assms
    unfolding nv_heap_simps by auto
  have l: "len h' = Suc ?n" "nv_key nvs' = ?key"
    using nvh.heap_insert_correct [of "Some elem_insert" nvs h x] assms r unfolding nv_heap_simps by auto
  show ?thesis
  proof (cases "?n = 0 \<or> ?key (?H ?p) \<le> ?key x")
    case True
    then have "heap h' = ?H(?n := x)" using shape by auto
    moreover have "parent_idx k \<noteq> ?n" if "0 < k" "k < Suc ?n" for k
      using that parent_idx_less [OF that(1)] by (metis less_antisym less_asym)
    ultimately have "nv_ordered nvs' h'"
      using True assms(2) l by (auto simp: nv_ordered_def less_Suc_eq)
    then show ?thesis using r True by auto
  next
    case False
    then show ?thesis using r shape swapped_order [OF assms(2) _ _ _ l, of x] by (auto simp: not_le)
  qed
qed

theorem heap_insert_order_witness:
  "\<exists>nvs' h' i. heap_insert (Some elem_insert) demo_nvs (demo_heap 3) 9 = Some (nvs', h', i) \<and>
    (nv_ordered nvs' h' \<longleftrightarrow>
       len (demo_heap 3) \<le> 2 \<or>
       nv_key demo_nvs (heap (demo_heap 3) (parent_idx (len (demo_heap 3)))) \<le> nv_key demo_nvs 9 \<or>
       nv_key demo_nvs (heap (demo_heap 3) (parent_idx (parent_idx (len (demo_heap 3)))))
         \<le> nv_key demo_nvs 9)"
  by (rule heap_insert_order) (simp_all add: demo_heap_ok demo_good MAX_HEAP_NODE_NUM_def)

text \<open>\<open>heap_adjust_siftdown\<close>, called after the counter at index \<open>i\<close> grew, restores the order;
  the elements and their counters stay the same and every element knows its index.\<close>

lemma heap_adjust_siftdown_nodes:
  assumes "nv_heap nvs h" "nv_indexed nvs h" "i < len h"
  shows "\<exists>nvs' h'. heap_adjust_siftdown (Some elem_insert) nvs h i = Some (nvs', h') \<and>
    heap_content h' = heap_content h \<and> nv_heap nvs' h' \<and> nv_indexed nvs' h' \<and>
    nv_key nvs' = nv_key nvs \<and>
    (heap_almost (nv_key nvs) (len h) (heap h) i \<longrightarrow> nv_ordered nvs' h')"
proof -
  obtain nvs' h' where r: "heap_adjust_siftdown (Some elem_insert) nvs h i = Some (nvs', h')"
    "heap_content h' = heap_content h" "nv_heap nvs' h'" "nv_key nvs' = nv_key nvs"
    "heap_almost (nv_key nvs) (len h) (heap h) i \<longrightarrow> nv_ordered nvs' h'"
    using nvh.heap_adjust_siftdown_correct [of "Some elem_insert" nvs h i] assms
    unfolding nv_heap_simps by auto
  moreover have "nv_indexed nvs' h'"
    using nvh.heap_adjust_siftdown_coherent [of nvs h i nvs' h'] assms r unfolding nv_heap_simps by blast
  ultimately show ?thesis by blast
qed

lemma heap_adjust_siftdown_nodes_witness:
  "\<exists>nvs' h'. heap_adjust_siftdown (Some elem_insert) demo_nvs (demo_heap 4) 1 = Some (nvs', h') \<and>
    heap_content h' = heap_content (demo_heap 4) \<and> nv_heap nvs' h' \<and> nv_indexed nvs' h' \<and>
    nv_key nvs' = nv_key demo_nvs \<and>
    (heap_almost (nv_key demo_nvs) (len (demo_heap 4)) (heap (demo_heap 4)) 1 \<longrightarrow> nv_ordered nvs' h')"
  by (rule heap_adjust_siftdown_nodes) (simp_all add: demo_heap_ok MAX_HEAP_NODE_NUM_def)

text \<open>\<open>heap_replace_least\<close> with an element that beats the root: the root leaves the heap, the
  new element enters, order and indices hold again; but the element that left still stores
  index 0, as if it were at the root.\<close>

lemma heap_replace_least_nodes:
  assumes "nv_heap nvs h" "nv_indexed nvs h" "nv_ordered nvs h" "0 < len h"
    and "nv_good nvs x" "x \<notin># heap_content h" "nv_key nvs (heap h 0) < nv_key nvs x"
  shows "\<exists>nvs' h'. heap_replace_least (Some elem_insert) nvs h x = Some (nvs', h', heap h 0) \<and>
    heap_content h' = heap_content h - {#heap h 0#} + {#x#} \<and> nv_ordered nvs' h' \<and>
    nv_heap nvs' h' \<and> nv_indexed nvs' h' \<and> heap_index (nvs' (heap h 0)) = 0"
proof -
  obtain nvs' h' where r: "heap_replace_least (Some elem_insert) nvs h x = Some (nvs', h', heap h 0)"
    "heap_content h' = heap_content h - {#heap h 0#} + {#x#}" "nv_heap nvs' h'" "nv_ordered nvs' h'"
    using nvh.heap_replace_least_correct [of "Some elem_insert" nvs h x] assms
    unfolding nv_heap_simps by auto
  moreover have "nv_indexed nvs' h' \<and> nv_idx nvs' (heap h 0) = 0"
    using nvh.heap_replace_least_stale [of nvs h x nvs' h'] assms r unfolding nv_heap_simps by blast
  ultimately show ?thesis by (auto simp: nv_idx_def)
qed

lemma heap_replace_least_nodes_witness:
  "\<exists>nvs' h'. heap_replace_least (Some elem_insert) demo_nvs (demo_heap 3) 9
      = Some (nvs', h', heap (demo_heap 3) 0) \<and>
    heap_content h' = heap_content (demo_heap 3) - {#heap (demo_heap 3) 0#} + {#9#} \<and>
    nv_ordered nvs' h' \<and> nv_heap nvs' h' \<and> nv_indexed nvs' h' \<and>
    heap_index (nvs' (heap (demo_heap 3) 0)) = 0"
  by (rule heap_replace_least_nodes)
    (simp_all add: demo_heap_ok demo_good demo_content demo_key MAX_HEAP_NODE_NUM_def)

text \<open>C20. \<open>heap_sort\<close> permutes the elements, whatever their order was; on an ordered heap the
  result is in descending order of the counters.\<close>

theorem heap_sort_nodes:
  assumes "nv_heap nvs h"
  shows "\<exists>h'. heap_sort nvs h = Some h' \<and> heap_content h' = heap_content h \<and> len h' = len h \<and>
    (nv_ordered nvs h \<longrightarrow>
       sorted_wrt (\<lambda>p q. nv_key nvs q \<le> nv_key nvs p) (prefix_list (heap h') (len h')))"
  using nvh.heap_sort_correct [of nvs h] assms unfolding nv_heap_simps by blast

theorem heap_sort_nodes_witness:
  "\<exists>h'. heap_sort demo_nvs (demo_heap 5) = Some h' \<and>
    heap_content h' = heap_content (demo_heap 5) \<and> len h' = len (demo_heap 5) \<and>
    (nv_ordered demo_nvs (demo_heap 5) \<longrightarrow>
       sorted_wrt (\<lambda>p q. nv_key demo_nvs q \<le> nv_key demo_nvs p) (prefix_list (heap h') (len h')))"
  by (rule heap_sort_nodes) (simp add: demo_heap_ok MAX_HEAP_NODE_NUM_def)

text \<open>\<open>heap_delete\<close> of a non-empty heap returns the root and removes exactly it; on an
  ordered heap the root has the least counter and the order is kept.\<close>

lemma heap_delete_nodes:
  assumes "nv_heap nvs h" "0 < len h"
  shows "\<exists>h'. heap_delete nvs h = Some (heap h 0, h') \<and>
    heap_content h = add_mset (heap h 0) (heap_content h') \<and> nv_heap nvs h' \<and>
    (nv_ordered nvs h \<longrightarrow>
       nv_ordered nvs h' \<and> (\<forall>p \<in># heap_content h. nv_key nvs (heap h 0) \<le> nv_key nvs p))"
  using nvh.heap_delete_correct [of nvs h] assms unfolding nv_heap_simps by blast

lemma heap_delete_nodes_witness:
  "\<exists>h'. heap_delete demo_nvs (demo_heap 4) = Some (heap (demo_heap 4) 0, h') \<and>
    heap_content (demo_heap 4) = add_mset (heap (demo_heap 4) 0) (heap_content h') \<and>
    nv_heap demo_nvs h' \<and>
    (nv_ordered demo_nvs (demo_heap 4) \<longrightarrow> nv_ordered demo_nvs h' \<and>
       (\<forall>p \<in># heap_content (demo_heap 4).
          nv_key demo_nvs (heap (demo_heap 4) 0) \<le> nv_key demo_nvs p))"
  by (rule heap_delete_nodes) (simp_all add: demo_heap_ok MAX_HEAP_NODE_NUM_def)

end
