(* ===== verification/Heap_State.thy ===== *)
theory Heap_State
  imports Node_Value
begin

text \<open>
  What the heap operations do to the memory of the elements, whatever the order of the heap is:
  they call the index callback only, and only with positions inside the heap. For the node values
  of \<^verbatim>\<open>log_name_tree.c\<close> this means that names, counters and list pointers stay, and a stored index
  is either the old one or a position of the heap. Nothing here needs the elements to be
  distinct or in order, so the facts also hold for a heap with stale entries.
\<close>

section \<open>Any property that the callback keeps\<close>

definition cb_keeps :: "('s, 'p) insert_func option \<Rightarrow> nat \<Rightarrow> ('s \<Rightarrow> bool) \<Rightarrow> bool" where
  "cb_keeps func n Q \<longleftrightarrow> (\<forall>p j u u'. j < n \<longrightarrow> callback func p j u = Some u' \<longrightarrow> Q u \<longrightarrow> Q u')"

lemma cb_keepsD: "cb_keeps func n Q \<Longrightarrow> j < n \<Longrightarrow> callback func p j u = Some u' \<Longrightarrow> Q u \<Longrightarrow> Q u'"
  by (auto simp: cb_keeps_def)

lemma heap_up_keeps:
  "heap_up func s h i = Some (s', h', k) \<Longrightarrow> cb_keeps func n Q \<Longrightarrow> i < n \<Longrightarrow> Q s \<Longrightarrow> Q s' \<and> k < n"
proof (induction func s h i rule: heap_up.induct)
  case (1 func s h i)
  show ?case
  proof (cases "i = 0")
    case True
    then show ?thesis using 1 by simp
  next
    case False
    obtain c where c: "cmp h s (heap h (parent_idx i)) (heap h i) = Some c"
      using 1(2) False by (subst (asm) heap_up.simps) (auto elim: bind_eq_SomeE)
    show ?thesis
    proof (cases "c \<le> 0")
      case True
      then show ?thesis using 1 c False by (simp add: heap_up.simps)
    next
      case notle: False
      obtain u where u: "callback func (heap h (parent_idx i)) i s = Some u"
        "heap_up func u (h\<lparr>heap := (heap h)(i := heap h (parent_idx i))\<rparr>) (parent_idx i) = Some (s', h', k)"
        using 1(2) False c notle by (subst (asm) heap_up.simps) (auto elim: bind_eq_SomeE)
      have "parent_idx i < n" using 1(4) False parent_idx_less [of i] by linarith
      with 1(1) [OF False c notle u(1) u(2) 1(3)] cb_keepsD [OF 1(3,4) u(1) 1(5)] show ?thesis by blast
    qed
  qed
qed

lemma heap_down_keeps:
  "heap_down func s h m x i = Some (s', h', k) \<Longrightarrow> cb_keeps func n Q \<Longrightarrow> i < n \<Longrightarrow> m \<le> n \<Longrightarrow> Q s \<Longrightarrow>
   Q s' \<and> k < n"
proof (induction func s h m x i rule: heap_down.induct)
  case (1 func s h m x i)
  show ?case
  proof (cases "2 * i + 1 < m")
    case False
    then show ?thesis using 1 by (simp add: heap_down.simps)
  next
    case True
    obtain j where j: "smaller_child s h m (2 * i + 1) = Some j"
      using 1(2) True by (subst (asm) heap_down.simps) (auto split: option.splits)
    obtain c where c: "cmp h s x (heap h j) = Some c"
      using 1(2) True j by (subst (asm) heap_down.simps) (auto elim: bind_eq_SomeE)
    show ?thesis
    proof (cases "c \<le> 0")
      case le: True
      then show ?thesis using 1 c True j by (simp add: heap_down.simps)
    next
      case notle: False
      obtain u where u: "callback func (heap h j) i s = Some u"
        "heap_down func u (h\<lparr>heap := (heap h)(i := heap h j)\<rparr>) m x j = Some (s', h', k)"
        using 1(2) True j c notle by (subst (asm) heap_down.simps) (auto elim: bind_eq_SomeE)
      have "j < n" using smaller_child_cases [OF j] True 1(5) by auto
      with 1(1) [OF True j c notle u(1) u(2) 1(3) _ 1(5)] cb_keepsD [OF 1(3,4) u(1) 1(6)] show ?thesis
        by blast
    qed
  qed
qed

lemma heap_insert_keeps:
  assumes "heap_insert func s h x = Some (s', h', k)" "cb_keeps func (len h + 1) Q" "Q s"
  shows "Q s'"
proof -
  let ?h = "h\<lparr>heap := (heap h)(len h := x), len := len h + 1\<rparr>"
  obtain s1 s2 h2 i where s: "callback func x (len h) s = Some s1"
    "heap_up func s1 ?h (len h) = Some (s2, h2, i)" "callback func x i s2 = Some s'"
    using assms(1) by (auto simp: heap_insert_def elim!: bind_eq_SomeE)
  have "Q s1" using cb_keepsD [OF assms(2) _ s(1) assms(3)] by simp
  then have "Q s2 \<and> i < len h + 1" using heap_up_keeps [OF s(2) assms(2)] by simp
  then show ?thesis using cb_keepsD [OF assms(2) _ s(3)] by blast
qed

lemma heap_adjust_siftdown_keeps:
  assumes "heap_adjust_siftdown func s h i = Some (s', h')" "cb_keeps func (len h) Q" "i < len h" "Q s"
  shows "Q s'"
proof -
  obtain x s1 h1 j where s: "heap_down func s h (len h) x i = Some (s1, h1, j)"
    and r: "(if j \<noteq> i then map_option (\<lambda>s2. s2) (callback func x j s1) else Some s1) = Some s'"
    using assms(1) by (auto simp: heap_adjust_siftdown_def elim!: bind_eq_SomeE split: if_splits)
  have "Q s1 \<and> j < len h" using heap_down_keeps [OF s assms(2,3) _ assms(4)] by simp
  then show ?thesis using r cb_keepsD [OF assms(2)] by (auto split: if_splits)
qed

lemma heap_replace_least_keeps:
  assumes "heap_replace_least func s h x = Some (s', h', old)" "cb_keeps func (len h) Q" "0 < len h" "Q s"
  shows "Q s'"
proof (cases "s' = s")
  case True
  then show ?thesis using assms(4) by simp
next
  case False
  obtain s1 h1 j where s: "heap_down func s h (len h) x 0 = Some (s1, h1, j)" "callback func x j s1 = Some s'"
    using assms(1) False unfolding heap_replace_least_def Let_def by (auto elim!: bind_eq_SomeE split: if_splits)
  have "Q s1 \<and> j < len h" using heap_down_keeps [OF s(1) assms(2,3) _ assms(4)] by simp
  then show ?thesis using s(2) cb_keepsD [OF assms(2)] by blast
qed

section \<open>The memory of the node values\<close>

text \<open>\<open>reindexed n nvs nvs'\<close>: only stored indices differ, and the new ones are below \<open>n\<close>.\<close>

definition reindexed :: "nat \<Rightarrow> nv_store \<Rightarrow> nv_store \<Rightarrow> bool" where
  "reindexed n nvs nvs' \<longleftrightarrow>
     (\<forall>p. fqdn (nvs' p) = fqdn (nvs p) \<and> nv_count (nvs' p) = nv_count (nvs p) \<and> nv_ptr (nvs' p) = nv_ptr (nvs p) \<and>
       (heap_index (nvs' p) = heap_index (nvs p) \<or> 0 \<le> heap_index (nvs' p) \<and> heap_index (nvs' p) < int n))"

lemma reindexed_refl [simp]: "reindexed n nvs nvs"
  by (simp add: reindexed_def)

lemma reindexed_mono: "reindexed m nvs nvs' \<Longrightarrow> m \<le> n \<Longrightarrow> reindexed n nvs nvs'"
  by (fastforce simp: reindexed_def)

lemma elem_insert_reindexed: "cb_keeps (Some elem_insert) n (reindexed n nvs)"
  by (auto simp: cb_keeps_def reindexed_def dest!: elem_insert_SomeD split: if_splits)

lemmas heap_ops_reindexed =
  heap_insert_keeps [where func = "Some elem_insert" and Q = "reindexed n nvs" and s = nvs for n nvs]
  heap_adjust_siftdown_keeps [where func = "Some elem_insert" and Q = "reindexed n nvs" and s = nvs for n nvs]
  heap_replace_least_keeps [where func = "Some elem_insert" and Q = "reindexed n nvs" and s = nvs for n nvs]

lemma heap_insert_reindexed:
  "heap_insert (Some elem_insert) nvs h x = Some (nvs', h', k) \<Longrightarrow> reindexed (len h + 1) nvs nvs'"
  using heap_ops_reindexed(1) elem_insert_reindexed reindexed_refl by blast

lemma heap_adjust_siftdown_reindexed:
  "heap_adjust_siftdown (Some elem_insert) nvs h i = Some (nvs', h') \<Longrightarrow> i < len h \<Longrightarrow> reindexed (len h) nvs nvs'"
  using heap_ops_reindexed(2) elem_insert_reindexed reindexed_refl by blast

lemma heap_replace_least_reindexed:
  "heap_replace_least (Some elem_insert) nvs h x = Some (nvs', h', d) \<Longrightarrow> 0 < len h \<Longrightarrow> reindexed (len h) nvs nvs'"
  using heap_ops_reindexed(3) elem_insert_reindexed reindexed_refl by blast

end
