(* ===== verification/C_String.thy ===== *)
theory C_String
  imports Prelude "HOL-Library.List_Lexorder" "HOL-Library.Char_ord"
begin

text \<open>
  The functions of \<^verbatim>\<open>string.h\<close> that the program calls, on HOL strings without the closing NUL.
  A copy into a buffer of \<open>n\<close> bytes is the abort \<open>None\<close> when the string and its NUL do not fit.
\<close>

fun strcmp :: "string \<Rightarrow> string \<Rightarrow> int" where
  "strcmp [] [] = 0"
| "strcmp [] (y # ys) = - 1"
| "strcmp (x # xs) [] = 1"
| "strcmp (x # xs) (y # ys) =
     (if x = y then strcmp xs ys else if (of_char x :: nat) < of_char y then - 1 else 1)"

lemma strcmp_sign: "strcmp s t < 0 \<longleftrightarrow> s < t" "strcmp s t = 0 \<longleftrightarrow> s = t"
  by (induction s t rule: strcmp.induct) (auto simp: less_char_def)

definition strcpy_buf :: "nat \<Rightarrow> string \<Rightarrow> string option" where
  "strcpy_buf n s = (if length s < n then Some s else None)"

lemma strcpy_buf_Some [simp]: "strcpy_buf n s = Some t \<longleftrightarrow> t = s \<and> length s < n"
  by (auto simp: strcpy_buf_def)

lemma strcpy_buf_None [simp]: "strcpy_buf n s = None \<longleftrightarrow> n \<le> length s"
  by (auto simp: strcpy_buf_def)

text \<open>\<open>strchr\<close> as the suffix from the first occurrence; \<open>None\<close> is \<open>NULL\<close>.\<close>

fun strchr :: "string \<Rightarrow> char \<Rightarrow> string option" where
  "strchr [] c = None"
| "strchr (x # xs) c = (if x = c then Some (x # xs) else strchr xs c)"

lemma strchr_split: "strchr s c = Some t \<longleftrightarrow> (\<exists>u. s = u @ t \<and> c \<notin> set u \<and> t \<noteq> [] \<and> hd t = c)"
proof (induction s)
  case Nil
  then show ?case by auto
next
  case (Cons x xs)
  show ?case
  proof (cases "x = c")
    case True
    then show ?thesis by (force simp: Cons_eq_append_conv)
  next
    case False
    then show ?thesis using Cons by (auto simp: Cons_eq_append_conv)
  qed
qed

lemma strchr_None: "strchr s c = None \<longleftrightarrow> c \<notin> set s"
  by (induction s) auto

end
