(* ===== verification/Rb_Tree.thy ===== *)
theory Rb_Tree
  imports Prelude
begin

text \<open>
  The red-black tree of \<^verbatim>\<open>dig_rb_tree.c\<close> with parent pointers and a sentinel. A tree record
  holds the struct \<open>rbtree_t\<close> and, as functions from addresses, the fields of the nodes
  (\<open>rbnode_t\<close>): field assignment is function update, so aliasing is as in the code. The sentinel
  \<open>rbtree_null_node\<close> is the address \<open>NIL\<close>, a node like any other. A comparison reads the caller's
  store \<open>'s\<close>; an assert that fails, a comparison that faults and a loop that does not end are
  \<open>None\<close>. Operations are stated on the pointers; this theory holds the definitions, the theories
  Rb\_Rep, Rb\_Insert and Rb\_Delete their proofs.
\<close>

section \<open>State\<close>

datatype rbcolor = BLACK | RED

definition NIL :: addr where
  "NIL = 1"

lemma NIL_not_NULL [simp]: "NIL \<noteq> NULL"
  by (simp add: NIL_def)

record 's rbtree =
  rb_root :: addr
  rb_count :: u64
  rb_walk :: addr
  rb_cmp :: "'s \<Rightarrow> addr \<Rightarrow> addr \<Rightarrow> int option"
  parent :: "addr \<Rightarrow> addr"
  left :: "addr \<Rightarrow> addr"
  right :: "addr \<Rightarrow> addr"
  node_val :: "addr \<Rightarrow> addr"
  color :: "addr \<Rightarrow> rbcolor"

definition set_parent :: "addr \<Rightarrow> addr \<Rightarrow> 's rbtree \<Rightarrow> 's rbtree" where
  "set_parent a v h = h\<lparr>parent := (parent h)(a := v)\<rparr>"

definition set_left :: "addr \<Rightarrow> addr \<Rightarrow> 's rbtree \<Rightarrow> 's rbtree" where
  "set_left a v h = h\<lparr>left := (left h)(a := v)\<rparr>"

definition set_right :: "addr \<Rightarrow> addr \<Rightarrow> 's rbtree \<Rightarrow> 's rbtree" where
  "set_right a v h = h\<lparr>right := (right h)(a := v)\<rparr>"

definition set_color :: "addr \<Rightarrow> rbcolor \<Rightarrow> 's rbtree \<Rightarrow> 's rbtree" where
  "set_color a c h = h\<lparr>color := (color h)(a := c)\<rparr>"

definition set_node_val :: "addr \<Rightarrow> addr \<Rightarrow> 's rbtree \<Rightarrow> 's rbtree" where
  "set_node_val a v h = h\<lparr>node_val := (node_val h)(a := v)\<rparr>"

lemmas set_field_defs = set_parent_def set_left_def set_right_def set_color_def set_node_val_def

text \<open>A new tree; only the sentinel is initialised, the rest of the node memory is \<open>m\<close>.\<close>

definition rbtree_create :: "('s \<Rightarrow> addr \<Rightarrow> addr \<Rightarrow> int option) \<Rightarrow> 's rbtree \<Rightarrow> 's rbtree" where
  "rbtree_create cmpf m =
     \<lparr>rb_root = NIL, rb_count = 0, rb_walk = NIL, rb_cmp = cmpf,
      parent = (parent m)(NIL := NIL), left = (left m)(NIL := NIL), right = (right m)(NIL := NIL),
      node_val = (node_val m)(NIL := NULL), color = (color m)(NIL := BLACK)\<rparr>"

section \<open>Rotations\<close>

definition rotate_left :: "addr \<Rightarrow> 's rbtree \<Rightarrow> 's rbtree" where
  "rotate_left node h =
     (let r = right h node;
          h = set_right node (left h r) h;
          h = (if left h r \<noteq> NIL then set_parent (left h r) node h else h);
          h = set_parent r (parent h node) h;
          h = (if parent h node \<noteq> NIL
               then (if node = left h (parent h node) then set_left (parent h node) r h
                     else set_right (parent h node) r h)
               else h\<lparr>rb_root := r\<rparr>);
          h = set_left r node h
      in set_parent node r h)"

definition rotate_right :: "addr \<Rightarrow> 's rbtree \<Rightarrow> 's rbtree" where
  "rotate_right node h =
     (let l = left h node;
          h = set_left node (right h l) h;
          h = (if right h l \<noteq> NIL then set_parent (right h l) node h else h);
          h = set_parent l (parent h node) h;
          h = (if parent h node \<noteq> NIL
               then (if node = right h (parent h node) then set_right (parent h node) l h
                     else set_left (parent h node) l h)
               else h\<lparr>rb_root := l\<rparr>);
          h = set_right l node h
      in set_parent node l h)"

section \<open>Insertion\<close>

text \<open>One round of the loop of \<open>rbtree_insert_fixup\<close>: the new value of \<open>node\<close> and of the memory.\<close>

definition insert_fixup_left :: "addr \<Rightarrow> 's rbtree \<Rightarrow> addr \<times> 's rbtree" where
  "insert_fixup_left node h =
     (let uncle = right h (parent h (parent h node)) in
      if color h uncle = RED
      then
        let h = set_color (parent h node) BLACK h;
            h = set_color uncle BLACK h;
            h = set_color (parent h (parent h node)) RED h
        in (parent h (parent h node), h)
      else
        let (node, h) = (if node = right h (parent h node)
                         then (parent h node, rotate_left (parent h node) h) else (node, h));
            h = set_color (parent h node) BLACK h;
            h = set_color (parent h (parent h node)) RED h
        in (node, rotate_right (parent h (parent h node)) h))"

definition insert_fixup_right :: "addr \<Rightarrow> 's rbtree \<Rightarrow> addr \<times> 's rbtree" where
  "insert_fixup_right node h =
     (let uncle = left h (parent h (parent h node)) in
      if color h uncle = RED
      then
        let h = set_color (parent h node) BLACK h;
            h = set_color uncle BLACK h;
            h = set_color (parent h (parent h node)) RED h
        in (parent h (parent h node), h)
      else
        let (node, h) = (if node = left h (parent h node)
                         then (parent h node, rotate_right (parent h node) h) else (node, h));
            h = set_color (parent h node) BLACK h;
            h = set_color (parent h (parent h node)) RED h
        in (node, rotate_left (parent h (parent h node)) h))"

partial_function (option) insert_fixup_loop :: "addr \<Rightarrow> 's rbtree \<Rightarrow> 's rbtree option" where
  "insert_fixup_loop node h =
     (if node \<noteq> rb_root h \<and> color h (parent h node) = RED
      then let st = (if parent h node = left h (parent h (parent h node))
                     then insert_fixup_left node h else insert_fixup_right node h)
           in insert_fixup_loop (fst st) (snd st)
      else Some h)"

definition rbtree_insert_fixup :: "addr \<Rightarrow> 's rbtree \<Rightarrow> 's rbtree option" where
  "rbtree_insert_fixup node h =
     map_option (\<lambda>h. set_color (rb_root h) BLACK h) (insert_fixup_loop node h)"

text \<open>
  The search for the parent of a new node: the result is the node with an equal key, or \<open>NIL\<close>,
  and the parent with the last comparison.
\<close>

partial_function (option) insert_descend ::
    "'s rbtree \<Rightarrow> 's \<Rightarrow> addr \<Rightarrow> addr \<Rightarrow> addr \<Rightarrow> int \<Rightarrow> (addr \<times> addr \<times> int) option" where
  "insert_descend h s v node par r =
     (if node = NIL then Some (NIL, par, r)
      else do {
        r \<leftarrow> rb_cmp h s v (node_val h node);
        if r = 0 then Some (node, par, r)
        else insert_descend h s v (if r < 0 then left h node else right h node) node r
      })"

definition rbtree_insert :: "'s \<Rightarrow> addr \<Rightarrow> 's rbtree \<Rightarrow> ('s rbtree \<times> addr) option" where
  "rbtree_insert s nd h = do {
     (dup, par, r) \<leftarrow> insert_descend h s (node_val h nd) (rb_root h) NIL 0;
     if dup \<noteq> NIL then Some (h, dup)
     else do {
       let h = set_parent nd par h;
       let h = set_left nd NIL (set_right nd NIL h);
       let h = set_color nd RED h;
       let h = h\<lparr>rb_count := rb_count h + 1\<rparr>;
       let h = (if par \<noteq> NIL then (if r < 0 then set_left par nd h else set_right par nd h)
                else h\<lparr>rb_root := nd\<rparr>);
       h \<leftarrow> rbtree_insert_fixup nd h;
       Some (h, nd)
     }
   }"

section \<open>Search\<close>

partial_function (option) find_less_equal_loop ::
    "'s rbtree \<Rightarrow> 's \<Rightarrow> addr \<Rightarrow> addr \<Rightarrow> addr \<Rightarrow> (bool \<times> addr) option" where
  "find_less_equal_loop h s key node result =
     (if node = NIL then Some (False, result)
      else do {
        r \<leftarrow> rb_cmp h s key (node_val h node);
        if r = 0 then Some (True, node)
        else find_less_equal_loop h s key (if r < 0 then left h node else right h node)
               (if r < 0 then result else node)
      })"

definition rbtree_find_less_equal :: "'s rbtree \<Rightarrow> 's \<Rightarrow> addr \<Rightarrow> (bool \<times> addr) option" where
  "rbtree_find_less_equal h s key = find_less_equal_loop h s key (rb_root h) NULL"

definition rbtree_search :: "'s rbtree \<Rightarrow> 's \<Rightarrow> addr \<Rightarrow> addr option" where
  "rbtree_search h s key = do {
     (found, node) \<leftarrow> rbtree_find_less_equal h s key;
     Some (if found then node else NULL)
   }"

section \<open>Deletion\<close>

definition change_parent_ptr :: "addr \<Rightarrow> addr \<Rightarrow> addr \<Rightarrow> 's rbtree \<Rightarrow> 's rbtree option" where
  "change_parent_ptr par old new h =
     (if par = NIL
      then do { _ \<leftarrow> guard (rb_root h = old); Some (h\<lparr>rb_root := new\<rparr>) }
      else do {
        _ \<leftarrow> guard (left h par = old \<or> right h par = old \<or> left h par = new \<or> right h par = new);
        let h = (if left h par = old then set_left par new h else h);
        Some (if right h par = old then set_right par new h else h)
      })"

definition change_child_ptr :: "addr \<Rightarrow> addr \<Rightarrow> addr \<Rightarrow> 's rbtree \<Rightarrow> 's rbtree option" where
  "change_child_ptr child old new h =
     (if child = NIL then Some h
      else do {
        _ \<leftarrow> guard (parent h child = old \<or> parent h child = new);
        Some (if parent h child = old then set_parent child new h else h)
      })"

text \<open>The other child of the parent: \<open>sibling = parent->right == child ? parent->left : parent->right\<close>.\<close>

definition sibling_of :: "addr \<Rightarrow> addr \<Rightarrow> 's rbtree \<Rightarrow> addr" where
  "sibling_of cp child h = (if right h cp = child then left h cp else right h cp)"

text \<open>Rotation that turns a red sibling into a black one; the result is the new sibling.\<close>

definition delete_fixup_red :: "addr \<Rightarrow> addr \<Rightarrow> addr \<Rightarrow> 's rbtree \<Rightarrow> addr \<times> 's rbtree" where
  "delete_fixup_red child cp sib h =
     (if color h sib = RED
      then let h = set_color cp RED h;
               h = set_color sib BLACK h;
               h = (if right h cp = child then rotate_right cp h else rotate_left cp h)
           in (sibling_of cp child h, h)
      else (sib, h))"

definition black_sibling :: "addr \<Rightarrow> 's rbtree \<Rightarrow> bool" where
  "black_sibling sib h \<longleftrightarrow>
     color h sib = BLACK \<and> color h (left h sib) = BLACK \<and> color h (right h sib) = BLACK"

text \<open>
  The loop of \<open>rbtree_delete_fixup\<close>; the flag of the result says that the loop was left by
  \<open>return\<close>.
\<close>

partial_function (option) delete_fixup_loop ::
    "addr \<Rightarrow> addr \<Rightarrow> addr \<Rightarrow> 's rbtree \<Rightarrow> (bool \<times> addr \<times> addr \<times> addr \<times> 's rbtree) option" where
  "delete_fixup_loop child cp sib h =
     (if cp = NIL then Some (True, child, cp, sib, h)
      else let st = delete_fixup_red child cp sib h; sib = fst st; h = snd st
           in if color h cp = BLACK \<and> black_sibling sib h
              then let h = (if sib \<noteq> NIL then set_color sib RED h else h)
                   in delete_fixup_loop cp (parent h cp) (sibling_of (parent h cp) cp h) h
              else Some (False, child, cp, sib, h))"

text \<open>A red nephew on the near side is rotated to the far side.\<close>

definition delete_fixup_near :: "addr \<Rightarrow> addr \<Rightarrow> addr \<Rightarrow> 's rbtree \<Rightarrow> addr \<times> 's rbtree" where
  "delete_fixup_near child cp sib h =
     (if right h cp = child \<and> color h sib = BLACK \<and> color h (right h sib) = RED \<and>
         color h (left h sib) = BLACK
      then let h = set_color sib RED h;
               h = set_color (right h sib) BLACK h;
               h = rotate_left sib h
           in (sibling_of cp child h, h)
      else if left h cp = child \<and> color h sib = BLACK \<and> color h (left h sib) = RED \<and>
         color h (right h sib) = BLACK
      then let h = set_color sib RED h;
               h = set_color (left h sib) BLACK h;
               h = rotate_right sib h
           in (sibling_of cp child h, h)
      else (sib, h))"

definition delete_fixup_far :: "addr \<Rightarrow> addr \<Rightarrow> addr \<Rightarrow> 's rbtree \<Rightarrow> 's rbtree option" where
  "delete_fixup_far child cp sib h =
     (let h = set_color sib (color h cp) h;
          h = set_color cp BLACK h
      in if right h cp = child
         then do {
           _ \<leftarrow> guard (color h (left h sib) = RED);
           let h = set_color (left h sib) BLACK h;
           Some (rotate_right cp h)
         }
         else do {
           _ \<leftarrow> guard (color h (right h sib) = RED);
           let h = set_color (right h sib) BLACK h;
           Some (rotate_left cp h)
         })"

definition rbtree_delete_fixup :: "addr \<Rightarrow> addr \<Rightarrow> 's rbtree \<Rightarrow> 's rbtree option" where
  "rbtree_delete_fixup child cp h = do {
     (returned, child, cp, sib, h) \<leftarrow> delete_fixup_loop child cp (sibling_of cp child h) h;
     if returned then Some h
     else if color h cp = RED \<and> black_sibling sib h
     then let h = (if sib \<noteq> NIL then set_color sib RED h else h)
          in Some (set_color cp BLACK h)
     else do {
       _ \<leftarrow> guard (sib \<noteq> NIL);
       let st = delete_fixup_near child cp sib h;
       delete_fixup_far child cp (fst st) (snd st)
     }
   }"

partial_function (option) leftmost :: "addr \<Rightarrow> 's rbtree \<Rightarrow> addr option" where
  "leftmost node h = (if left h node \<noteq> NIL then leftmost (left h node) h else Some node)"

partial_function (option) rightmost :: "addr \<Rightarrow> 's rbtree \<Rightarrow> addr option" where
  "rightmost node h = (if right h node \<noteq> NIL then rightmost (right h node) h else Some node)"

text \<open>The exchange of the positions of the node to delete \<open>d\<close> and its successor \<open>m\<close>.\<close>

definition swap_nodes :: "addr \<Rightarrow> addr \<Rightarrow> 's rbtree \<Rightarrow> 's rbtree option" where
  "swap_nodes d m h = do {
     let h = h\<lparr>color := (color h)(d := color h m, m := color h d)\<rparr>;
     h \<leftarrow> change_parent_ptr (parent h d) d m h;
     h \<leftarrow> (if right h d \<noteq> m then change_parent_ptr (parent h m) m d h else Some h);
     h \<leftarrow> change_child_ptr (left h m) m d h;
     h \<leftarrow> change_child_ptr (left h m) m d h;
     h \<leftarrow> change_child_ptr (right h m) m d h;
     h \<leftarrow> change_child_ptr (right h m) m d h;
     h \<leftarrow> change_child_ptr (left h d) d m h;
     h \<leftarrow> (if right h d \<noteq> m then change_child_ptr (right h d) d m h else Some h);
     let h = (if right h d = m then set_parent m m (set_right d d h) else h);
     let h = h\<lparr>parent := (parent h)(d := parent h m, m := parent h d)\<rparr>;
     let h = h\<lparr>left := (left h)(d := left h m, m := left h d)\<rparr>;
     Some (h\<lparr>right := (right h)(d := right h m, m := right h d)\<rparr>)
   }"

definition rbtree_delete :: "'s \<Rightarrow> addr \<Rightarrow> 's rbtree \<Rightarrow> ('s rbtree \<times> addr) option" where
  "rbtree_delete s key h = do {
     d \<leftarrow> rbtree_search h s key;
     if d = NULL then Some (h, NULL)
     else do {
       let h = h\<lparr>rb_count := rb_count h - 1\<rparr>;
       h \<leftarrow> (if left h d \<noteq> NIL \<and> right h d \<noteq> NIL
            then do { m \<leftarrow> leftmost (right h d) h; swap_nodes d m h } else Some h);
       _ \<leftarrow> guard (left h d = NIL \<or> right h d = NIL);
       let child = (if left h d \<noteq> NIL then left h d else right h d);
       h \<leftarrow> change_parent_ptr (parent h d) d child h;
       h \<leftarrow> change_child_ptr child d (parent h d) h;
       h \<leftarrow> (if color h d = RED then Some h
            else if color h child = RED
            then Some (if child \<noteq> NIL then set_color child BLACK h else h)
            else rbtree_delete_fixup child (parent h d) h);
       let h = set_parent d NIL h;
       let h = set_left d NIL h;
       let h = set_right d NIL h;
       Some (set_color d BLACK h, d)
     }
   }"

section \<open>Walking\<close>

definition rbtree_first :: "'s rbtree \<Rightarrow> addr option" where
  "rbtree_first h = leftmost (rb_root h) h"

definition rbtree_last :: "'s rbtree \<Rightarrow> addr option" where
  "rbtree_last h = rightmost (rb_root h) h"

partial_function (option) climb_right :: "addr \<Rightarrow> addr \<Rightarrow> 's rbtree \<Rightarrow> addr option" where
  "climb_right node par h =
     (if par \<noteq> NIL \<and> node = right h par then climb_right par (parent h par) h else Some par)"

partial_function (option) climb_left :: "addr \<Rightarrow> addr \<Rightarrow> 's rbtree \<Rightarrow> addr option" where
  "climb_left node par h =
     (if par \<noteq> NIL \<and> node = left h par then climb_left par (parent h par) h else Some par)"

definition rbtree_next :: "addr \<Rightarrow> 's rbtree \<Rightarrow> addr option" where
  "rbtree_next node h =
     (if right h node \<noteq> NIL then leftmost (right h node) h else climb_right node (parent h node) h)"

definition rbtree_previous :: "addr \<Rightarrow> 's rbtree \<Rightarrow> addr option" where
  "rbtree_previous node h =
     (if left h node \<noteq> NIL then rightmost (left h node) h else climb_left node (parent h node) h)"

text \<open>\<open>RBTREE_FOR\<close> with a body \<open>f\<close> that does not change the tree.\<close>

partial_function (option) rbtree_for_from ::
    "'s rbtree \<Rightarrow> (addr \<Rightarrow> 't \<Rightarrow> 't option) \<Rightarrow> addr \<Rightarrow> 't \<Rightarrow> 't option" where
  "rbtree_for_from h f node st =
     (if node \<noteq> NIL
      then do {
        st \<leftarrow> f node st;
        nxt \<leftarrow> rbtree_next node h;
        rbtree_for_from h f nxt st
      }
      else Some st)"

definition rbtree_for :: "'s rbtree \<Rightarrow> (addr \<Rightarrow> 't \<Rightarrow> 't option) \<Rightarrow> 't \<Rightarrow> 't option" where
  "rbtree_for h f st = do { node \<leftarrow> rbtree_first h; rbtree_for_from h f node st }"

partial_function (option) rbtree_delete_node ::
    "'s rbtree \<Rightarrow> (addr \<Rightarrow> 't \<Rightarrow> 't option) \<Rightarrow> addr \<Rightarrow> 't \<Rightarrow> 't option" where
  "rbtree_delete_node h func node st =
     (if node = NULL \<or> node = NIL then Some st
      else do {
        st \<leftarrow> (if left h node \<noteq> NULL then rbtree_delete_node h func (left h node) st else Some st);
        st \<leftarrow> (if right h node \<noteq> NULL then rbtree_delete_node h func (right h node) st else Some st);
        func node st
      })"

definition rbtree_destory :: "'s rbtree \<Rightarrow> (addr \<Rightarrow> 't \<Rightarrow> 't option) option \<Rightarrow> 't \<Rightarrow> 't option" where
  "rbtree_destory h func st =
     (case func of Some f \<Rightarrow> rbtree_delete_node h f (rb_root h) st | None \<Rightarrow> Some st)"

end
