(* ===== verification/Rb_Rep.thy ===== *)
theory Rb_Rep
  imports Rb_Tree
begin

text \<open>
  The tree that the pointers of a red-black tree represent. \<open>rep h t\<close> says that the nodes of \<open>h\<close>
  form the tree \<open>t\<close> of addresses and colours, that every parent pointer is right, and that the
  sentinel is intact. A position in a tree is a zipper: a subtree and the list of frames above it.
  Field assignments, colour changes and rotations at a position are lemmas on the zipper, so the
  proofs about insertion and deletion never look at a pointer again.
\<close>

section \<open>Trees and positions\<close>

datatype rbt = Lf | Nd rbt addr rbcolor rbt

fun ptr :: "rbt \<Rightarrow> addr" where
  "ptr Lf = NIL"
| "ptr (Nd l a c r) = a"

fun inorder :: "rbt \<Rightarrow> addr list" where
  "inorder Lf = []"
| "inorder (Nd l a c r) = inorder l @ a # inorder r"

abbreviation addrs :: "rbt \<Rightarrow> addr set" where
  "addrs t \<equiv> set (inorder t)"

datatype frame = LeftOf addr rbcolor rbt | RightOf rbt addr rbcolor

fun plug :: "rbt \<Rightarrow> frame list \<Rightarrow> rbt" where
  "plug t [] = t"
| "plug t (LeftOf a c r # fs) = plug (Nd t a c r) fs"
| "plug t (RightOf l a c # fs) = plug (Nd l a c t) fs"

fun frame_addr :: "frame \<Rightarrow> addr" where
  "frame_addr (LeftOf a c r) = a"
| "frame_addr (RightOf l a c) = a"

fun frame_color :: "frame \<Rightarrow> rbcolor" where
  "frame_color (LeftOf a c r) = c"
| "frame_color (RightOf l a c) = c"

fun upper :: "frame list \<Rightarrow> addr" where
  "upper [] = NIL"
| "upper (f # fs) = frame_addr f"

text \<open>The addresses before and after the hole.\<close>

fun before :: "frame list \<Rightarrow> addr list" where
  "before [] = []"
| "before (LeftOf a c r # fs) = before fs"
| "before (RightOf l a c # fs) = before fs @ inorder l @ [a]"

fun after :: "frame list \<Rightarrow> addr list" where
  "after [] = []"
| "after (LeftOf a c r # fs) = a # inorder r @ after fs"
| "after (RightOf l a c # fs) = after fs"

lemma inorder_plug: "inorder (plug t fs) = before fs @ inorder t @ after fs"
  by (induction t fs rule: plug.induct) auto

lemma plug_append: "plug t (fs @ gs) = plug (plug t fs) gs"
  by (induction t fs rule: plug.induct) auto

lemma frame_exhaust_list:
  obtains "fs = []" | a c r gs where "fs = LeftOf a c r # gs" | l a c gs where "fs = RightOf l a c # gs"
  by (cases fs) (auto, metis frame.exhaust)

section \<open>Representation\<close>

text \<open>\<open>P\<close>, \<open>L\<close>, \<open>R\<close>, \<open>C\<close> are the fields parent, left, right and color.\<close>

fun shape :: "(addr \<Rightarrow> addr) \<Rightarrow> (addr \<Rightarrow> addr) \<Rightarrow> (addr \<Rightarrow> addr) \<Rightarrow> (addr \<Rightarrow> rbcolor) \<Rightarrow> rbt \<Rightarrow> addr \<Rightarrow> bool" where
  "shape P L R C Lf par = True"
| "shape P L R C (Nd l a c r) par =
     (P a = par \<and> L a = ptr l \<and> R a = ptr r \<and> C a = c \<and> shape P L R C l a \<and> shape P L R C r a)"

fun cshape :: "(addr \<Rightarrow> addr) \<Rightarrow> (addr \<Rightarrow> addr) \<Rightarrow> (addr \<Rightarrow> addr) \<Rightarrow> (addr \<Rightarrow> rbcolor) \<Rightarrow> frame list \<Rightarrow> addr \<Rightarrow> bool" where
  "cshape P L R C [] p = True"
| "cshape P L R C (LeftOf a c r # fs) p =
     (P a = upper fs \<and> L a = p \<and> R a = ptr r \<and> C a = c \<and> shape P L R C r a \<and> cshape P L R C fs a)"
| "cshape P L R C (RightOf l a c # fs) p =
     (P a = upper fs \<and> L a = ptr l \<and> R a = p \<and> C a = c \<and> shape P L R C l a \<and> cshape P L R C fs a)"

fun plug_root :: "frame list \<Rightarrow> addr \<Rightarrow> addr" where
  "plug_root [] p = p"
| "plug_root (f # fs) p = plug_root fs (frame_addr f)"

abbreviation caddrs :: "frame list \<Rightarrow> addr set" where
  "caddrs fs \<equiv> set (before fs) \<union> set (after fs)"

lemma shape_plug: "shape P L R C (plug t fs) NIL \<longleftrightarrow> shape P L R C t (upper fs) \<and> cshape P L R C fs (ptr t)"
  by (induction t fs rule: plug.induct) auto

lemma ptr_plug: "ptr (plug t fs) = plug_root fs (ptr t)"
  by (induction t fs rule: plug.induct) auto

lemma plug_root_cases: "plug_root fs p = (if fs = [] then p else plug_root fs q)"
  by (cases fs) auto

lemma shape_upd [simp]:
  assumes "a \<notin> addrs t"
  shows "shape (P(a := v)) L R C t par = shape P L R C t par"
    "shape P (L(a := v)) R C t par = shape P L R C t par"
    "shape P L (R(a := v)) C t par = shape P L R C t par"
    "shape P L R (C(a := c)) t par = shape P L R C t par"
  using assms by (induction t arbitrary: par) auto

lemma cshape_upd [simp]:
  assumes "a \<notin> set (before fs)" "a \<notin> set (after fs)"
  shows "cshape (P(a := v)) L R C fs p = cshape P L R C fs p"
    "cshape P (L(a := v)) R C fs p = cshape P L R C fs p"
    "cshape P L (R(a := v)) C fs p = cshape P L R C fs p"
    "cshape P L R (C(a := c)) fs p = cshape P L R C fs p"
  using assms by (induction fs arbitrary: p rule: before.induct) auto

definition sentinel :: "'s rbtree \<Rightarrow> bool" where
  "sentinel h \<longleftrightarrow> parent h NIL = NIL \<and> left h NIL = NIL \<and> right h NIL = NIL \<and> color h NIL = BLACK"

definition rep :: "'s rbtree \<Rightarrow> rbt \<Rightarrow> bool" where
  "rep h t \<longleftrightarrow> sentinel h \<and> rb_root h = ptr t \<and> shape (parent h) (left h) (right h) (color h) t NIL \<and>
     distinct (inorder t) \<and> NIL \<notin> addrs t \<and> NULL \<notin> addrs t"

lemma rep_plug:
  "rep h (plug t fs) \<longleftrightarrow> sentinel h \<and> rb_root h = plug_root fs (ptr t) \<and>
     shape (parent h) (left h) (right h) (color h) t (upper fs) \<and>
     cshape (parent h) (left h) (right h) (color h) fs (ptr t) \<and>
     distinct (before fs @ inorder t @ after fs) \<and> NIL \<notin> addrs t \<union> caddrs fs \<and> NULL \<notin> addrs t \<union> caddrs fs"
  by (auto simp: rep_def shape_plug ptr_plug inorder_plug)

lemma frame_addr_in: "f \<in> set fs \<Longrightarrow> frame_addr f \<in> caddrs fs"
  by (induction fs rule: before.induct) auto

lemma upper_in: "upper fs = NIL \<or> upper fs \<in> caddrs fs"
  by (cases fs rule: frame_exhaust_list) auto

text \<open>Reading the fields at a position.\<close>

lemma rep_read:
  assumes "rep h (plug (Nd l a c r) fs)"
  shows "parent h a = upper fs" "left h a = ptr l" "right h a = ptr r" "color h a = c" "a \<noteq> NIL" "a \<noteq> NULL"
  using assms by (auto simp: rep_plug)

lemma rep_sentinel:
  assumes "rep h t"
  shows "parent h NIL = NIL" "left h NIL = NIL" "right h NIL = NIL" "color h NIL = BLACK"
  using assms by (auto simp: rep_def sentinel_def)

lemma rep_upper_nil:
  assumes "rep h (plug t fs)"
  shows "upper fs = NIL \<longleftrightarrow> fs = []"
  using assms by (cases fs rule: frame_exhaust_list) (auto simp: rep_plug)

lemma plug_root_in: "fs \<noteq> [] \<Longrightarrow> plug_root fs p \<in> caddrs fs"
proof (induction fs p rule: plug_root.induct)
  case (2 f fs p)
  then show ?case by (cases "fs = []"; cases f) auto
qed simp

lemma rep_at_root:
  assumes "rep h (plug (Nd l a c r) fs)"
  shows "rb_root h = a \<longleftrightarrow> fs = []"
  using assms plug_root_in [of fs a] by (auto simp: rep_plug)

fun root_color :: "rbt \<Rightarrow> rbcolor" where
  "root_color Lf = BLACK"
| "root_color (Nd l a c r) = c"

section \<open>Changes at a position\<close>

lemma rep_set_color:
  assumes "rep h (plug (Nd l a c r) fs)"
  shows "rep (set_color a c' h) (plug (Nd l a c' r) fs)"
  using assms by (auto simp: rep_plug set_color_def sentinel_def)

text \<open>The fields after an assignment.\<close>

lemma set_parent_fields [simp]:
  "parent (set_parent a v h) = (parent h)(a := v)" "left (set_parent a v h) = left h" "right (set_parent a v h) = right h"
  "node_val (set_parent a v h) = node_val h" "color (set_parent a v h) = color h" "rb_root (set_parent a v h) = rb_root h"
  "rb_count (set_parent a v h) = rb_count h" "rb_cmp (set_parent a v h) = rb_cmp h"
  by (simp_all add: set_parent_def)

lemma set_left_fields [simp]:
  "parent (set_left a v h) = parent h" "left (set_left a v h) = (left h)(a := v)" "right (set_left a v h) = right h"
  "node_val (set_left a v h) = node_val h" "color (set_left a v h) = color h" "rb_root (set_left a v h) = rb_root h"
  "rb_count (set_left a v h) = rb_count h" "rb_cmp (set_left a v h) = rb_cmp h"
  by (simp_all add: set_left_def)

lemma set_right_fields [simp]:
  "parent (set_right a v h) = parent h" "left (set_right a v h) = left h" "right (set_right a v h) = (right h)(a := v)"
  "node_val (set_right a v h) = node_val h" "color (set_right a v h) = color h" "rb_root (set_right a v h) = rb_root h"
  "rb_count (set_right a v h) = rb_count h" "rb_cmp (set_right a v h) = rb_cmp h"
  by (simp_all add: set_right_def)

lemma set_color_fields [simp]:
  "parent (set_color a v h) = parent h" "left (set_color a v h) = left h" "right (set_color a v h) = right h"
  "node_val (set_color a v h) = node_val h" "color (set_color a v h) = (color h)(a := v)" "rb_root (set_color a v h) = rb_root h"
  "rb_count (set_color a v h) = rb_count h" "rb_cmp (set_color a v h) = rb_cmp h"
  by (simp_all add: set_color_def)

lemma set_node_val_fields [simp]:
  "parent (set_node_val a v h) = parent h" "left (set_node_val a v h) = left h" "right (set_node_val a v h) = right h"
  "node_val (set_node_val a v h) = (node_val h)(a := v)" "color (set_node_val a v h) = color h" "rb_root (set_node_val a v h) = rb_root h"
  "rb_count (set_node_val a v h) = rb_count h" "rb_cmp (set_node_val a v h) = rb_cmp h"
  by (simp_all add: set_node_val_def)

lemma rotate_left_fields:
  assumes "right h a = b" "left h b = m" "parent h a = p" "b \<noteq> a" "m \<noteq> a" "m \<noteq> b" "p \<noteq> a" "p \<noteq> b"
  shows "parent (rotate_left a h) = (if m \<noteq> NIL then (parent h)(m := a) else parent h)(b := p, a := b)"
    "left (rotate_left a h) = (if p \<noteq> NIL \<and> left h p = a then (left h)(p := b) else left h)(b := a)"
    "right (rotate_left a h) = (if p \<noteq> NIL \<and> left h p \<noteq> a then (right h)(a := m, p := b) else (right h)(a := m))"
    "rb_root (rotate_left a h) = (if p = NIL then b else rb_root h)"
    "color (rotate_left a h) = color h" "node_val (rotate_left a h) = node_val h"
    "rb_count (rotate_left a h) = rb_count h" "rb_cmp (rotate_left a h) = rb_cmp h"
  using assms by (cases "left h p = a"; simp add: rotate_left_def Let_def eq_commute [of a])+

lemma rotate_right_fields:
  assumes "left h a = b" "right h b = m" "parent h a = p" "b \<noteq> a" "m \<noteq> a" "m \<noteq> b" "p \<noteq> a" "p \<noteq> b"
  shows "parent (rotate_right a h) = (if m \<noteq> NIL then (parent h)(m := a) else parent h)(b := p, a := b)"
    "right (rotate_right a h) = (if p \<noteq> NIL \<and> right h p = a then (right h)(p := b) else right h)(b := a)"
    "left (rotate_right a h) = (if p \<noteq> NIL \<and> right h p \<noteq> a then (left h)(a := m, p := b) else (left h)(a := m))"
    "rb_root (rotate_right a h) = (if p = NIL then b else rb_root h)"
    "color (rotate_right a h) = color h" "node_val (rotate_right a h) = node_val h"
    "rb_count (rotate_right a h) = rb_count h" "rb_cmp (rotate_right a h) = rb_cmp h"
  using assms by (cases "right h p = a"; simp add: rotate_right_def Let_def eq_commute [of a])+

lemma ptr_in: "ptr t = NIL \<or> ptr t \<in> addrs t"
  by (cases t) auto

lemma ptr_eqD: "ptr t = a \<Longrightarrow> a = NIL \<or> a \<in> addrs t"
  by (cases t) auto

lemma rep_rotate_left:
  assumes r: "rep h (plug (Nd l a c (Nd m b d r)) fs)"
  shows "rep (rotate_left a h) (plug (Nd (Nd l a c m) b d r) fs)"
proof -
  have dist: "distinct (before fs @ inorder (Nd (Nd l a c m) b d r) @ after fs)"
    and nil: "NIL \<notin> addrs (Nd (Nd l a c m) b d r) \<union> caddrs fs" "NULL \<notin> addrs (Nd (Nd l a c m) b d r) \<union> caddrs fs"
    and se: "sentinel h" and root: "rb_root h = plug_root fs a"
    and sh: "shape (parent h) (left h) (right h) (color h) (Nd l a c (Nd m b d r)) (upper fs)"
    and cs: "cshape (parent h) (left h) (right h) (color h) fs a"
    using r [unfolded rep_plug] by simp_all
  have a: "a \<noteq> b" "a \<notin> addrs l" "a \<notin> addrs m" "a \<notin> addrs r" "a \<notin> set (before fs)" "a \<notin> set (after fs)"
    and b: "b \<notin> addrs l" "b \<notin> addrs m" "b \<notin> addrs r" "b \<notin> set (before fs)" "b \<notin> set (after fs)"
    and m: "addrs m \<inter> addrs l = {}" "addrs m \<inter> addrs r = {}" "addrs m \<inter> set (before fs) = {}"
      "addrs m \<inter> set (after fs) = {}" "distinct (inorder m)"
    and t: "addrs l \<inter> caddrs fs = {}" "addrs r \<inter> caddrs fs = {}" and fsd: "distinct (before fs @ after fs)"
    using dist by auto
  have n: "a \<noteq> NIL" "b \<noteq> NIL" "NIL \<notin> addrs m" "NIL \<notin> caddrs fs" using nil(1) by auto
  have pm: "ptr m = NIL \<or> ptr m \<in> addrs m" by (rule ptr_in)
  have pu: "upper fs = NIL \<or> upper fs \<in> caddrs fs" by (rule upper_in)
  have rd: "right h a = b" "left h b = ptr m" "parent h a = upper fs" using sh by simp_all
  have ne: "b \<noteq> a" "ptr m \<noteq> a" "ptr m \<noteq> b" "upper fs \<noteq> a" "upper fs \<noteq> b"
    using a b n pm pu by auto
  note f0 = rotate_left_fields [OF rd ne]
  have f3: "right (rotate_left a h) =
      (if upper fs \<noteq> NIL \<and> left h (upper fs) \<noteq> a then (right h)(upper fs := b) else right h)(a := ptr m)"
    unfolding f0(3) using ne(4) by (simp add: fun_upd_twist)
  note fl = f0(1,2) f3 f0(4-8)
  have "sentinel (rotate_left a h)"
    using se n pu by (auto simp: sentinel_def fl)
  moreover have "shape (parent (rotate_left a h)) (left (rotate_left a h)) (right (rotate_left a h))
      (color (rotate_left a h)) (Nd (Nd l a c m) b d r) (upper fs)"
  proof -
    define P where "P = (if ptr m \<noteq> NIL then (parent h)(ptr m := a) else parent h)"
    define L where "L = (if upper fs \<noteq> NIL \<and> left h (upper fs) = a then (left h)(upper fs := b) else left h)"
    define R where "R = (if upper fs \<noteq> NIL \<and> left h (upper fs) \<noteq> a then (right h)(upper fs := b) else right h)"
    have ml: "ptr m = NIL \<or> ptr m \<notin> addrs l" and mr: "ptr m = NIL \<or> ptr m \<notin> addrs r"
      using pm m by auto
    have "shape P (left h) (right h) (color h) m a" using sh m(5) n(3) unfolding P_def by (cases m) auto
    moreover have "shape P (left h) (right h) (color h) l a" using sh ml unfolding P_def by auto
    moreover have "shape P (left h) (right h) (color h) r b" using sh mr unfolding P_def by auto
    moreover have "shape P L R (color h) t p"
      if "shape P (left h) (right h) (color h) t p" "addrs t \<inter> caddrs fs = {}" for t p
    proof -
      have "upper fs = NIL \<or> upper fs \<notin> addrs t" using pu that(2) by auto
      then show ?thesis using that(1) by (auto simp: L_def R_def)
    qed
    moreover have "addrs m \<inter> caddrs fs = {}" using m by auto
    ultimately have lmr: "shape P L R (color h) l a" "shape P L R (color h) m a" "shape P L R (color h) r b"
      using t by blast+
    have "color h a = c" "color h b = d" "L a = ptr l" "R b = ptr r"
      using sh ne(4,5) n(1) by (auto simp: L_def R_def)
    with lmr a b ne show ?thesis
      unfolding fl P_def [symmetric] L_def [symmetric] R_def [symmetric] by simp
  qed
  moreover have "cshape (parent (rotate_left a h)) (left (rotate_left a h)) (right (rotate_left a h))
      (color (rotate_left a h)) fs b"
  proof -
    have pm': "ptr m = NIL \<or> ptr m \<notin> caddrs fs" using pm m by auto
    show ?thesis
      by (cases fs rule: frame_exhaust_list) (use cs a b n fsd pm' in \<open>auto simp: fl dest: ptr_eqD\<close>)
  qed
  moreover have "rb_root (rotate_left a h) = plug_root fs b"
    using root pu n rep_upper_nil [OF r] by (cases fs) (auto simp: fl)
  ultimately show ?thesis using dist nil by (simp add: rep_plug)
qed

lemma rep_rotate_right:
  assumes r: "rep h (plug (Nd (Nd l b d m) a c r) fs)"
  shows "rep (rotate_right a h) (plug (Nd l b d (Nd m a c r)) fs)"
proof -
  have dist: "distinct (before fs @ inorder (Nd l b d (Nd m a c r)) @ after fs)"
    and nil: "NIL \<notin> addrs (Nd l b d (Nd m a c r)) \<union> caddrs fs" "NULL \<notin> addrs (Nd l b d (Nd m a c r)) \<union> caddrs fs"
    and se: "sentinel h" and root: "rb_root h = plug_root fs a"
    and sh: "shape (parent h) (left h) (right h) (color h) (Nd (Nd l b d m) a c r) (upper fs)"
    and cs: "cshape (parent h) (left h) (right h) (color h) fs a"
    using r [unfolded rep_plug] by simp_all
  have a: "a \<noteq> b" "a \<notin> addrs l" "a \<notin> addrs m" "a \<notin> addrs r" "a \<notin> set (before fs)" "a \<notin> set (after fs)"
    and b: "b \<notin> addrs l" "b \<notin> addrs m" "b \<notin> addrs r" "b \<notin> set (before fs)" "b \<notin> set (after fs)"
    and m: "addrs m \<inter> addrs l = {}" "addrs m \<inter> addrs r = {}" "addrs m \<inter> set (before fs) = {}"
      "addrs m \<inter> set (after fs) = {}" "distinct (inorder m)"
    and t: "addrs l \<inter> caddrs fs = {}" "addrs r \<inter> caddrs fs = {}" and fsd: "distinct (before fs @ after fs)"
    using dist by auto
  have n: "a \<noteq> NIL" "b \<noteq> NIL" "NIL \<notin> addrs m" "NIL \<notin> caddrs fs" using nil(1) by auto
  have pm: "ptr m = NIL \<or> ptr m \<in> addrs m" by (rule ptr_in)
  have pu: "upper fs = NIL \<or> upper fs \<in> caddrs fs" by (rule upper_in)
  have rd: "left h a = b" "right h b = ptr m" "parent h a = upper fs" using sh by simp_all
  have ne: "b \<noteq> a" "ptr m \<noteq> a" "ptr m \<noteq> b" "upper fs \<noteq> a" "upper fs \<noteq> b"
    using a b n pm pu by auto
  note f0 = rotate_right_fields [OF rd ne]
  have f3: "left (rotate_right a h) =
      (if upper fs \<noteq> NIL \<and> right h (upper fs) \<noteq> a then (left h)(upper fs := b) else left h)(a := ptr m)"
    unfolding f0(3) using ne(4) by (simp add: fun_upd_twist)
  note fl = f0(1,2) f3 f0(4-8)
  have "sentinel (rotate_right a h)"
    using se n pu by (auto simp: sentinel_def fl)
  moreover have "shape (parent (rotate_right a h)) (left (rotate_right a h)) (right (rotate_right a h))
      (color (rotate_right a h)) (Nd l b d (Nd m a c r)) (upper fs)"
  proof -
    define P where "P = (if ptr m \<noteq> NIL then (parent h)(ptr m := a) else parent h)"
    define R where "R = (if upper fs \<noteq> NIL \<and> right h (upper fs) = a then (right h)(upper fs := b) else right h)"
    define L where "L = (if upper fs \<noteq> NIL \<and> right h (upper fs) \<noteq> a then (left h)(upper fs := b) else left h)"
    have ml: "ptr m = NIL \<or> ptr m \<notin> addrs l" and mr: "ptr m = NIL \<or> ptr m \<notin> addrs r"
      using pm m by auto
    have "shape P (left h) (right h) (color h) m a" using sh m(5) n(3) unfolding P_def by (cases m) auto
    moreover have "shape P (left h) (right h) (color h) l b" using sh ml unfolding P_def by auto
    moreover have "shape P (left h) (right h) (color h) r a" using sh mr unfolding P_def by auto
    moreover have "shape P L R (color h) t p"
      if "shape P (left h) (right h) (color h) t p" "addrs t \<inter> caddrs fs = {}" for t p
    proof -
      have "upper fs = NIL \<or> upper fs \<notin> addrs t" using pu that(2) by auto
      then show ?thesis using that(1) by (auto simp: L_def R_def)
    qed
    moreover have "addrs m \<inter> caddrs fs = {}" using m by auto
    ultimately have lmr: "shape P L R (color h) l b" "shape P L R (color h) m a" "shape P L R (color h) r a"
      using t by blast+
    have "color h a = c" "color h b = d" "R a = ptr r" "L b = ptr l"
      using sh ne(4,5) n(1) by (auto simp: L_def R_def)
    with lmr a b ne show ?thesis
      unfolding fl P_def [symmetric] L_def [symmetric] R_def [symmetric] by simp
  qed
  moreover have "cshape (parent (rotate_right a h)) (left (rotate_right a h)) (right (rotate_right a h))
      (color (rotate_right a h)) fs b"
  proof -
    have pm': "ptr m = NIL \<or> ptr m \<notin> caddrs fs" using pm m by auto
    show ?thesis
      by (cases fs rule: frame_exhaust_list) (use cs a b n fsd pm' in \<open>auto simp: fl dest: ptr_eqD\<close>)
  qed
  moreover have "rb_root (rotate_right a h) = plug_root fs b"
    using root pu n rep_upper_nil [OF r] by (cases fs) (auto simp: fl)
  ultimately show ?thesis using dist nil by (simp add: rep_plug)
qed

lemma rotate_keep [simp]:
  "node_val (rotate_left a h) = node_val h" "rb_count (rotate_left a h) = rb_count h"
  "rb_cmp (rotate_left a h) = rb_cmp h" "color (rotate_left a h) = color h"
  "node_val (rotate_right a h) = node_val h" "rb_count (rotate_right a h) = rb_count h"
  "rb_cmp (rotate_right a h) = rb_cmp h" "color (rotate_right a h) = color h"
  by (simp_all add: rotate_left_def rotate_right_def set_field_defs Let_def)

lemma set_color_keep [simp]:
  "parent (set_color a c h) = parent h" "left (set_color a c h) = left h"
  "right (set_color a c h) = right h" "node_val (set_color a c h) = node_val h"
  "rb_root (set_color a c h) = rb_root h" "rb_count (set_color a c h) = rb_count h"
  "rb_cmp (set_color a c h) = rb_cmp h" "color (set_color a c h) = (color h)(a := c)"
  by (simp_all add: set_color_def)

text \<open>What the balancing operations leave alone.\<close>

definition same_data :: "'s rbtree \<Rightarrow> 's rbtree \<Rightarrow> bool" where
  "same_data h h' \<longleftrightarrow> node_val h' = node_val h \<and> rb_count h' = rb_count h \<and> rb_cmp h' = rb_cmp h"

lemma same_data_refl [simp]: "same_data h h"
  by (simp add: same_data_def)

lemma same_data_trans: "same_data h h' \<Longrightarrow> same_data h' h'' \<Longrightarrow> same_data h h''"
  by (simp add: same_data_def)

section \<open>Balance\<close>

fun invc :: "rbt \<Rightarrow> bool" where
  "invc Lf = True"
| "invc (Nd l a c r) = (invc l \<and> invc r \<and> (c = RED \<longrightarrow> root_color l = BLACK \<and> root_color r = BLACK))"

fun bheight :: "rbt \<Rightarrow> nat" where
  "bheight Lf = 0"
| "bheight (Nd l a c r) = bheight l + (if c = BLACK then 1 else 0)"

fun invh :: "rbt \<Rightarrow> bool" where
  "invh Lf = True"
| "invh (Nd l a c r) = (invh l \<and> invh r \<and> bheight l = bheight r)"

definition rb_ok :: "rbt \<Rightarrow> bool" where
  "rb_ok t \<longleftrightarrow> invc t \<and> invh t \<and> root_color t = BLACK"

text \<open>The frame above the hole is black; at the root it is not there.\<close>

fun top_black :: "frame list \<Rightarrow> bool" where
  "top_black [] = False"
| "top_black (f # fs) = (frame_color f = BLACK)"

text \<open>A context that is balanced around a hole of black height \<open>n\<close>.\<close>

fun cok :: "frame list \<Rightarrow> nat \<Rightarrow> bool" where
  "cok [] n = True"
| "cok (LeftOf a c r # fs) n =
     (invc r \<and> invh r \<and> bheight r = n \<and> (c = RED \<longrightarrow> root_color r = BLACK \<and> top_black fs) \<and>
      cok fs (n + (if c = BLACK then 1 else 0)))"
| "cok (RightOf l a c # fs) n =
     (invc l \<and> invh l \<and> bheight l = n \<and> (c = RED \<longrightarrow> root_color l = BLACK \<and> top_black fs) \<and>
      cok fs (n + (if c = BLACK then 1 else 0)))"

lemma rb_ok_plug:
  "rb_ok (plug t fs) \<longleftrightarrow> cok fs (bheight t) \<and> invc t \<and> invh t \<and> (root_color t = RED \<longrightarrow> top_black fs)"
proof (induction t fs rule: plug.induct)
  case (1 t)
  then show ?case by (cases "root_color t") (auto simp: rb_ok_def)
next
  case (2 t a c r fs)
  then show ?case by (cases c; cases "root_color t") auto
next
  case (3 t l a c fs)
  then show ?case by (cases c; cases "root_color t") auto
qed

lemma not_BLACK [simp]: "c \<noteq> BLACK \<longleftrightarrow> c = RED"
  by (cases c) auto

lemma not_RED [simp]: "c \<noteq> RED \<longleftrightarrow> c = BLACK"
  by (cases c) auto

fun paint :: "rbcolor \<Rightarrow> rbt \<Rightarrow> rbt" where
  "paint c Lf = Lf"
| "paint c (Nd l a d r) = Nd l a c r"

lemma inorder_paint [simp]: "inorder (paint c t) = inorder t"
  by (cases t) auto

lemma paint_root_black [simp]: "root_color t = BLACK \<Longrightarrow> paint BLACK t = t"
  by (cases t) auto

text \<open>A node above or beside a position is not the root of the subtree there.\<close>

lemma rep_ptr_apart:
  assumes "rep h (plug t fs)" "a \<in> caddrs fs"
  shows "ptr t \<noteq> a"
proof
  assume e: "ptr t = a"
  have "distinct (before fs @ inorder t @ after fs)" "NIL \<notin> caddrs fs" using assms(1) by (simp_all add: rep_plug)
  then have "a \<notin> addrs t" "a \<noteq> NIL" using assms(2) by auto
  with e show False by (cases t) auto
qed

lemma rep_color_ptr:
  assumes "rep h (plug t fs)"
  shows "color h (ptr t) = root_color t"
proof (cases t)
  case Lf
  then show ?thesis using rep_sentinel(4) [OF assms] by simp
next
  case (Nd l a c r)
  then show ?thesis using rep_read(4) [OF assms [unfolded Nd]] by simp
qed

end
