(* ===== verification/Rb_Insert.thy ===== *)
theory Rb_Insert
  imports Rb_Rep
begin

text \<open>
  Insertion into the red-black tree: the rounds of \<open>rbtree_insert_fixup\<close>, each as a step from
  one position to another, then the whole loop, whose termination and balance are one induction
  on the length of the context.
\<close>

section \<open>One round\<close>

lemma fixup_left_red_uncle:
  assumes r: "rep h (plug (Nd (Nd pl p RED pr) g BLACK (Nd ul ua RED ur)) gs)" and x: "parent h x = p"
  obtains h' where "insert_fixup_left x h = (g, h')" "same_data h h'"
    "rep h' (plug (Nd (Nd pl p BLACK pr) g RED (Nd ul ua BLACK ur)) gs)"
proof -
  have g: "parent h p = g" using rep_read(1) [of h pl p RED pr "LeftOf g BLACK (Nd ul ua RED ur) # gs"] r by simp
  have u: "right h g = ua" using rep_read(3) [OF r] by simp
  have ua: "color h ua = RED"
    using rep_read(4) [of h ul ua RED ur "RightOf (Nd pl p RED pr) g BLACK # gs"] r by simp
  define h1 where "h1 = set_color p BLACK h"
  define h2 where "h2 = set_color ua BLACK h1"
  define h3 where "h3 = set_color g RED h2"
  have "rep h1 (plug (Nd (Nd pl p BLACK pr) g BLACK (Nd ul ua RED ur)) gs)"
    using rep_set_color [of h pl p RED pr "LeftOf g BLACK (Nd ul ua RED ur) # gs" BLACK] r by (simp add: h1_def)
  then have "rep h2 (plug (Nd (Nd pl p BLACK pr) g BLACK (Nd ul ua BLACK ur)) gs)"
    using rep_set_color [of h1 ul ua RED ur "RightOf (Nd pl p BLACK pr) g BLACK # gs" BLACK] by (simp add: h2_def)
  then have "rep h3 (plug (Nd (Nd pl p BLACK pr) g RED (Nd ul ua BLACK ur)) gs)"
    using rep_set_color [of h2 "Nd pl p BLACK pr" g BLACK "Nd ul ua BLACK ur" gs RED] by (simp add: h3_def)
  moreover have "insert_fixup_left x h = (g, h3)"
    by (simp add: insert_fixup_left_def x g u ua h1_def h2_def h3_def)
  moreover have "same_data h h3" by (simp add: same_data_def h1_def h2_def h3_def)
  ultimately show thesis using that by blast
qed

lemma fixup_left_outer:
  assumes r: "rep h (plug (Nd (Nd (Nd xl x RED xr) p RED s) g BLACK u) gs)" and u: "root_color u = BLACK"
  obtains h' where "insert_fixup_left x h = (x, h')" "same_data h h'"
    "rep h' (plug (Nd (Nd xl x RED xr) p BLACK (Nd s g RED u)) gs)"
proof -
  have p: "parent h x = p" using rep_read(1) [of h xl x RED xr "LeftOf p RED s # LeftOf g BLACK u # gs"] r by simp
  have g: "parent h p = g" "right h p = ptr s"
    using rep_read(1,3) [of h "Nd xl x RED xr" p RED s "LeftOf g BLACK u # gs"] r by simp_all
  have ug: "right h g = ptr u" using rep_read(3) [OF r] by simp
  have uc: "color h (ptr u) = BLACK"
    using rep_color_ptr [of h u "RightOf (Nd (Nd xl x RED xr) p RED s) g BLACK # gs"] r u by simp
  have xs: "x \<noteq> ptr s" using rep_ptr_apart [of h s "RightOf (Nd xl x RED xr) p RED # LeftOf g BLACK u # gs" x] r by auto
  define h1 where "h1 = set_color p BLACK h"
  define h2 where "h2 = set_color g RED h1"
  have "rep h1 (plug (Nd (Nd (Nd xl x RED xr) p BLACK s) g BLACK u) gs)"
    using rep_set_color [of h "Nd xl x RED xr" p RED s "LeftOf g BLACK u # gs" BLACK] r by (simp add: h1_def)
  then have "rep h2 (plug (Nd (Nd (Nd xl x RED xr) p BLACK s) g RED u) gs)"
    using rep_set_color [of h1 "Nd (Nd xl x RED xr) p BLACK s" g BLACK u gs RED] by (simp add: h2_def)
  then have "rep (rotate_right g h2) (plug (Nd (Nd xl x RED xr) p BLACK (Nd s g RED u)) gs)"
    by (rule rep_rotate_right)
  moreover have "insert_fixup_left x h = (x, rotate_right g h2)"
    using xs by (simp add: insert_fixup_left_def p g ug uc h1_def h2_def)
  moreover have "same_data h (rotate_right g h2)" by (simp add: same_data_def h1_def h2_def)
  ultimately show thesis using that by blast
qed

lemma fixup_left_inner:
  assumes r: "rep h (plug (Nd (Nd s p RED (Nd xl x RED xr)) g BLACK u) gs)" and u: "root_color u = BLACK"
  obtains h' where "insert_fixup_left x h = (p, h')" "same_data h h'"
    "rep h' (plug (Nd (Nd s p RED xl) x BLACK (Nd xr g RED u)) gs)"
proof -
  have p: "parent h x = p" using rep_read(1) [of h xl x RED xr "RightOf s p RED # LeftOf g BLACK u # gs"] r by simp
  have g: "parent h p = g" "right h p = x"
    using rep_read(1,3) [of h s p RED "Nd xl x RED xr" "LeftOf g BLACK u # gs"] r by simp_all
  have ug: "right h g = ptr u" using rep_read(3) [OF r] by simp
  have uc: "color h (ptr u) = BLACK"
    using rep_color_ptr [of h u "RightOf (Nd s p RED (Nd xl x RED xr)) g BLACK # gs"] r u by simp
  define h0 where "h0 = rotate_left p h"
  define h1 where "h1 = set_color x BLACK h0"
  define h2 where "h2 = set_color g RED h1"
  have r0: "rep h0 (plug (Nd (Nd (Nd s p RED xl) x RED xr) g BLACK u) gs)"
    using rep_rotate_left [of h s p RED xl x RED xr "LeftOf g BLACK u # gs"] r by (simp add: h0_def)
  then have px: "parent h0 p = x"
    using rep_read(1) [of h0 s p RED xl "LeftOf x RED xr # LeftOf g BLACK u # gs"] by simp
  have gx: "parent h0 x = g"
    using rep_read(1) [of h0 "Nd s p RED xl" x RED xr "LeftOf g BLACK u # gs"] r0 by simp
  have "rep h1 (plug (Nd (Nd (Nd s p RED xl) x BLACK xr) g BLACK u) gs)"
    using rep_set_color [of h0 "Nd s p RED xl" x RED xr "LeftOf g BLACK u # gs" BLACK] r0 by (simp add: h1_def)
  then have "rep h2 (plug (Nd (Nd (Nd s p RED xl) x BLACK xr) g RED u) gs)"
    using rep_set_color [of h1 "Nd (Nd s p RED xl) x BLACK xr" g BLACK u gs RED] by (simp add: h2_def)
  then have "rep (rotate_right g h2) (plug (Nd (Nd s p RED xl) x BLACK (Nd xr g RED u)) gs)"
    by (rule rep_rotate_right)
  moreover have "insert_fixup_left x h = (p, rotate_right g h2)"
    by (simp add: insert_fixup_left_def p g ug uc h0_def [symmetric] px gx h1_def h2_def)
  moreover have "same_data h (rotate_right g h2)" by (simp add: same_data_def h0_def h1_def h2_def)
  ultimately show thesis using that by blast
qed

lemma fixup_right_red_uncle:
  assumes r: "rep h (plug (Nd (Nd ur ua RED ul) g BLACK (Nd pr p RED pl)) gs)" and x: "parent h x = p"
  obtains h' where "insert_fixup_right x h = (g, h')" "same_data h h'"
    "rep h' (plug (Nd (Nd ur ua BLACK ul) g RED (Nd pr p BLACK pl)) gs)"
proof -
  have g: "parent h p = g" using rep_read(1) [of h pr p RED pl "RightOf (Nd ur ua RED ul) g BLACK # gs"] r by simp
  have u: "left h g = ua" using rep_read(2) [OF r] by simp
  have ua: "color h ua = RED"
    using rep_read(4) [of h ur ua RED ul "LeftOf g BLACK (Nd pr p RED pl) # gs"] r by simp
  define h1 where "h1 = set_color p BLACK h"
  define h2 where "h2 = set_color ua BLACK h1"
  define h3 where "h3 = set_color g RED h2"
  have "rep h1 (plug (Nd (Nd ur ua RED ul) g BLACK (Nd pr p BLACK pl)) gs)"
    using rep_set_color [of h pr p RED pl "RightOf (Nd ur ua RED ul) g BLACK # gs" BLACK] r by (simp add: h1_def)
  then have "rep h2 (plug (Nd (Nd ur ua BLACK ul) g BLACK (Nd pr p BLACK pl)) gs)"
    using rep_set_color [of h1 ur ua RED ul "LeftOf g BLACK (Nd pr p BLACK pl) # gs" BLACK] by (simp add: h2_def)
  then have "rep h3 (plug (Nd (Nd ur ua BLACK ul) g RED (Nd pr p BLACK pl)) gs)"
    using rep_set_color [of h2 "Nd ur ua BLACK ul" g BLACK "Nd pr p BLACK pl" gs RED] by (simp add: h3_def)
  moreover have "insert_fixup_right x h = (g, h3)"
    by (simp add: insert_fixup_right_def x g u ua h1_def h2_def h3_def)
  moreover have "same_data h h3" by (simp add: same_data_def h1_def h2_def h3_def)
  ultimately show thesis using that by blast
qed

lemma fixup_right_outer:
  assumes r: "rep h (plug (Nd u g BLACK (Nd s p RED (Nd xr x RED xl))) gs)" and u: "root_color u = BLACK"
  obtains h' where "insert_fixup_right x h = (x, h')" "same_data h h'"
    "rep h' (plug (Nd (Nd u g RED s) p BLACK (Nd xr x RED xl)) gs)"
proof -
  have p: "parent h x = p" using rep_read(1) [of h xr x RED xl "RightOf s p RED # RightOf u g BLACK # gs"] r by simp
  have g: "parent h p = g" "left h p = ptr s"
    using rep_read(1,2) [of h s p RED "Nd xr x RED xl" "RightOf u g BLACK # gs"] r by simp_all
  have ug: "left h g = ptr u" using rep_read(2) [OF r] by simp
  have uc: "color h (ptr u) = BLACK"
    using rep_color_ptr [of h u "LeftOf g BLACK (Nd s p RED (Nd xr x RED xl)) # gs"] r u by simp
  have xs: "x \<noteq> ptr s" using rep_ptr_apart [of h s "LeftOf p RED (Nd xr x RED xl) # RightOf u g BLACK # gs" x] r by auto
  define h1 where "h1 = set_color p BLACK h"
  define h2 where "h2 = set_color g RED h1"
  have "rep h1 (plug (Nd u g BLACK (Nd s p BLACK (Nd xr x RED xl))) gs)"
    using rep_set_color [of h s p RED "Nd xr x RED xl" "RightOf u g BLACK # gs" BLACK] r by (simp add: h1_def)
  then have "rep h2 (plug (Nd u g RED (Nd s p BLACK (Nd xr x RED xl))) gs)"
    using rep_set_color [of h1 u g BLACK "Nd s p BLACK (Nd xr x RED xl)" gs RED] by (simp add: h2_def)
  then have "rep (rotate_left g h2) (plug (Nd (Nd u g RED s) p BLACK (Nd xr x RED xl)) gs)"
    by (rule rep_rotate_left)
  moreover have "insert_fixup_right x h = (x, rotate_left g h2)"
    using xs by (simp add: insert_fixup_right_def p g ug uc h1_def h2_def)
  moreover have "same_data h (rotate_left g h2)" by (simp add: same_data_def h1_def h2_def)
  ultimately show thesis using that by blast
qed

lemma fixup_right_inner:
  assumes r: "rep h (plug (Nd u g BLACK (Nd (Nd xr x RED xl) p RED s)) gs)" and u: "root_color u = BLACK"
  obtains h' where "insert_fixup_right x h = (p, h')" "same_data h h'"
    "rep h' (plug (Nd (Nd u g RED xr) x BLACK (Nd xl p RED s)) gs)"
proof -
  have p: "parent h x = p" using rep_read(1) [of h xr x RED xl "LeftOf p RED s # RightOf u g BLACK # gs"] r by simp
  have g: "parent h p = g" "left h p = x"
    using rep_read(1,2) [of h "Nd xr x RED xl" p RED s "RightOf u g BLACK # gs"] r by simp_all
  have ug: "left h g = ptr u" using rep_read(2) [OF r] by simp
  have uc: "color h (ptr u) = BLACK"
    using rep_color_ptr [of h u "LeftOf g BLACK (Nd (Nd xr x RED xl) p RED s) # gs"] r u by simp
  define h0 where "h0 = rotate_right p h"
  define h1 where "h1 = set_color x BLACK h0"
  define h2 where "h2 = set_color g RED h1"
  have r0: "rep h0 (plug (Nd u g BLACK (Nd xr x RED (Nd xl p RED s))) gs)"
    using rep_rotate_right [of h xr x RED xl p RED s "RightOf u g BLACK # gs"] r by (simp add: h0_def)
  then have px: "parent h0 p = x"
    using rep_read(1) [of h0 xl p RED s "RightOf xr x RED # RightOf u g BLACK # gs"] by simp
  have gx: "parent h0 x = g"
    using rep_read(1) [of h0 xr x RED "Nd xl p RED s" "RightOf u g BLACK # gs"] r0 by simp
  have "rep h1 (plug (Nd u g BLACK (Nd xr x BLACK (Nd xl p RED s))) gs)"
    using rep_set_color [of h0 xr x RED "Nd xl p RED s" "RightOf u g BLACK # gs" BLACK] r0 by (simp add: h1_def)
  then have "rep h2 (plug (Nd u g RED (Nd xr x BLACK (Nd xl p RED s))) gs)"
    using rep_set_color [of h1 u g BLACK "Nd xr x BLACK (Nd xl p RED s)" gs RED] by (simp add: h2_def)
  then have "rep (rotate_left g h2) (plug (Nd (Nd u g RED xr) x BLACK (Nd xl p RED s)) gs)"
    by (rule rep_rotate_left)
  moreover have "insert_fixup_right x h = (p, rotate_left g h2)"
    by (simp add: insert_fixup_right_def p g ug uc h0_def [symmetric] px gx h1_def h2_def)
  moreover have "same_data h (rotate_left g h2)" by (simp add: same_data_def h0_def h1_def h2_def)
  ultimately show thesis using that by blast
qed

section \<open>The loop\<close>

lemma rep_frame:
  assumes "rep h (plug t (F # fs))"
  shows "color h (frame_addr F) = frame_color F" "parent h (frame_addr F) = upper fs"
  using assms by (cases F; auto simp: rep_plug)+

lemma insert_loop_stop:
  assumes "rep h (plug (Nd l x c r) fs)" "fs = [] \<or> top_black fs"
  shows "insert_fixup_loop x h = Some h"
proof (cases fs)
  case Nil
  then show ?thesis using rep_at_root [OF assms(1)] by (simp add: insert_fixup_loop.simps [of x h])
next
  case (Cons F gs)
  then have "color h (parent h x) = BLACK"
    using rep_frame(1) [of h "Nd l x c r" F gs] rep_read(1) [OF assms(1)] assms by simp
  then show ?thesis by (simp add: insert_fixup_loop.simps [of x h])
qed

lemma insert_loop_step:
  assumes "rep h (plug (Nd l x c r) (F # G # gs))" "frame_color F = RED"
  shows "insert_fixup_loop x h =
    (let st = (case G of LeftOf _ _ _ \<Rightarrow> insert_fixup_left x h | RightOf _ _ _ \<Rightarrow> insert_fixup_right x h)
     in insert_fixup_loop (fst st) (snd st))"
proof -
  have p: "parent h x = frame_addr F" using rep_read(1) [OF assms(1)] by simp
  have c: "color h (frame_addr F) = RED" using rep_frame(1) [OF assms(1)] assms(2) by simp
  have x: "x \<noteq> rb_root h" using rep_at_root [OF assms(1)] by auto
  obtain F' where F': "plug (Nd l x c r) [F] = F'" "ptr F' = frame_addr F" by (cases F) auto
  have r: "rep h (plug F' (G # gs))" using assms(1) F'(1) plug_append [of _ "[F]" "G # gs"] by simp
  have g: "parent h (frame_addr F) = frame_addr G" using rep_frame(2) [OF assms(1)] by simp
  show ?thesis
  proof (cases G)
    case (LeftOf g gc u)
    then have "left h g = frame_addr F" using rep_read(2) [of h F' g gc u gs] r F'(2) by simp
    then show ?thesis using p c x g LeftOf by (simp add: insert_fixup_loop.simps [of x h])
  next
    case (RightOf u g gc)
    have "left h g = ptr u" using rep_read(2) [of h u g gc F' gs] r RightOf by simp
    moreover have "ptr u \<noteq> frame_addr F"
    proof -
      have "frame_addr F \<in> addrs F'" using F' by (cases F) auto
      then show ?thesis using rep_ptr_apart [of h u "LeftOf g gc F' # gs" "frame_addr F"] r RightOf by simp
    qed
    ultimately show ?thesis using p c x g RightOf by (simp add: insert_fixup_loop.simps [of x h])
  qed
qed

definition fixed :: "'s rbtree \<Rightarrow> rbt \<Rightarrow> 's rbtree \<Rightarrow> rbt \<Rightarrow> bool" where
  "fixed h t h' t' \<longleftrightarrow>
     rep h' t' \<and> inorder t' = inorder t \<and> rb_ok (paint BLACK t') \<and> same_data h h'"

text \<open>A round that ends the loop: the new subtree at the position of the grandparent is black.\<close>

lemma insert_loop_last:
  assumes h1: "rep h1 (plug t1 gs)" "same_data h h1" "inorder t1 = inorder t"
    and stop: "insert_fixup_loop y h1 = Some h1"
    and ok: "invc t1" "invh t1" "root_color t1 = BLACK" "cok gs (bheight t1)"
  shows "\<exists>h'. insert_fixup_loop y h1 = Some h' \<and> (\<exists>t'. fixed h (plug t gs) h' t')"
proof -
  have "rb_ok (plug t1 gs)" using ok by (simp add: rb_ok_plug)
  then have "rb_ok (paint BLACK (plug t1 gs))" by (simp add: rb_ok_def)
  then show ?thesis
    using h1 stop by (auto simp: fixed_def inorder_plug intro!: exI [of _ "plug t1 gs"])
qed

lemma fixed_trans:
  "same_data h h1 \<Longrightarrow> inorder t1 = inorder t \<Longrightarrow> fixed h1 t1 h2 t2 \<Longrightarrow> fixed h t h2 t2"
  by (auto simp: fixed_def intro: same_data_trans)

lemma insert_fixup_loop_ok:
  assumes "rep h (plug (Nd l x RED r) fs)" "invc (Nd l x RED r)" "invh (Nd l x RED r)"
    "cok fs (bheight (Nd l x RED r))"
  shows "\<exists>h'. insert_fixup_loop x h = Some h' \<and> (\<exists>t'. fixed h (plug (Nd l x RED r) fs) h' t')"
  using assms
proof (induction "length fs" arbitrary: fs h l x r rule: less_induct)
  case less
  note rep = less.prems(1) and ok = less.prems(2-4)
  consider "fs = []" | "top_black fs" | F gs where "fs = F # gs" "frame_color F = RED"
    by (cases fs; cases "frame_color (hd fs)") auto
  then show ?case
  proof cases
    case 1
    have "rb_ok (paint BLACK (plug (Nd l x RED r) fs))" using ok 1 by (simp add: rb_ok_def)
    then show ?thesis
      using insert_loop_stop [OF rep] rep 1
      by (intro exI [of _ h]) (auto simp: fixed_def intro!: exI [of _ "plug (Nd l x RED r) fs"])
  next
    case 2
    have "rb_ok (plug (Nd l x RED r) fs)" using ok 2 by (simp add: rb_ok_plug)
    then have "rb_ok (paint BLACK (plug (Nd l x RED r) fs))" by (simp add: rb_ok_def)
    then show ?thesis
      using insert_loop_stop [OF rep] rep 2
      by (intro exI [of _ h]) (auto simp: fixed_def intro!: exI [of _ "plug (Nd l x RED r) fs"])
  next
    case (3 F gs0)
    then obtain G gs where fs: "fs = F # G # gs" "frame_color G = BLACK"
      using ok(3) by (cases gs0; cases F) auto
    have len: "length gs < length fs" by (simp add: fs)
    note step = insert_loop_step [OF rep [unfolded fs(1)] 3(2)]
    text \<open>a red uncle: the loop goes on at the grandparent\<close>
    have up: "\<exists>h'. insert_fixup_loop x h = Some h' \<and> (\<exists>t'. fixed h (plug (Nd l x RED r) fs) h' t')"
      if "insert_fixup_loop x h = insert_fixup_loop g h1" "same_data h h1" "rep h1 (plug (Nd a g RED b) gs)"
        "inorder (plug (Nd a g RED b) gs) = inorder (plug (Nd l x RED r) fs)"
        "invc (Nd a g RED b)" "invh (Nd a g RED b)" "cok gs (bheight (Nd a g RED b))" for g h1 a b
    proof -
      from less.hyps [OF len that(3,5-7)] obtain h2 t2 where "insert_fixup_loop g h1 = Some h2"
        "fixed h1 (plug (Nd a g RED b) gs) h2 t2" by blast
      with that(1) fixed_trans [OF that(2,4)] show ?thesis by auto
    qed
    text \<open>a black uncle: the loop ends after a rotation\<close>
    have stop: "\<exists>h'. insert_fixup_loop x h = Some h' \<and> (\<exists>t'. fixed h (plug (Nd l x RED r) fs) h' t')"
      if "insert_fixup_loop x h = insert_fixup_loop y h1" "same_data h h1" "rep h1 (plug t1 gs)"
        "plug t1 gs = plug (Nd a y c b) (Fp # gs)" "frame_color Fp = BLACK"
        "inorder (plug t1 gs) = inorder (plug (Nd l x RED r) fs)"
        "invc t1" "invh t1" "root_color t1 = BLACK" "cok gs (bheight t1)" for y h1 t1 a c b Fp
    proof -
      have "insert_fixup_loop y h1 = Some h1"
        using insert_loop_stop [of h1 a y c b "Fp # gs"] that(3-5) by simp
      from insert_loop_last [OF that(3,2) refl this that(7-10)] obtain h2 t2 where
        "insert_fixup_loop y h1 = Some h2" "fixed h (plug t1 gs) h2 t2" by blast
      with that(1) fixed_trans [OF same_data_refl that(6)] show ?thesis by auto
    qed
    show ?thesis
    proof (cases G)
      case G: (LeftOf g gc u)
      with fs(2) have [simp]: "gc = BLACK" by simp
      show ?thesis
      proof (cases F)
        case F: (LeftOf p c s)
        with 3(2) have [simp]: "c = RED" by simp
        have r: "rep h (plug (Nd (Nd (Nd l x RED r) p RED s) g BLACK u) gs)" using rep fs(1) F G by simp
        show ?thesis
        proof (cases "root_color u")
          case RED
          then obtain ul ua ur where u: "u = Nd ul ua RED ur" by (cases u) auto
          have px: "parent h x = p" using rep_read(1) [OF rep] F fs(1) by simp
          obtain h1 where h1: "insert_fixup_left x h = (g, h1)" "same_data h h1"
            "rep h1 (plug (Nd (Nd (Nd l x RED r) p BLACK s) g RED (Nd ul ua BLACK ur)) gs)"
            using fixup_left_red_uncle [OF r [unfolded u] px] by blast
          show ?thesis by (rule up [OF _ h1(2,3)]) (use step h1(1) ok fs F G u in \<open>auto simp: inorder_plug\<close>)
        next
          case BLACK
          obtain h1 where h1: "insert_fixup_left x h = (x, h1)" "same_data h h1"
            "rep h1 (plug (Nd (Nd l x RED r) p BLACK (Nd s g RED u)) gs)"
            using fixup_left_outer [OF r BLACK] by blast
          show ?thesis
            by (rule stop [OF _ h1(2,3), where Fp = "LeftOf p BLACK (Nd s g RED u)" and a = l and c = RED and b = r])
              (use step h1(1) ok fs F G BLACK in \<open>auto simp: inorder_plug\<close>)
        qed
      next
        case F: (RightOf s p c)
        with 3(2) have [simp]: "c = RED" by simp
        have r: "rep h (plug (Nd (Nd s p RED (Nd l x RED r)) g BLACK u) gs)" using rep fs(1) F G by simp
        show ?thesis
        proof (cases "root_color u")
          case RED
          then obtain ul ua ur where u: "u = Nd ul ua RED ur" by (cases u) auto
          have px: "parent h x = p" using rep_read(1) [OF rep] F fs(1) by simp
          obtain h1 where h1: "insert_fixup_left x h = (g, h1)" "same_data h h1"
            "rep h1 (plug (Nd (Nd s p BLACK (Nd l x RED r)) g RED (Nd ul ua BLACK ur)) gs)"
            using fixup_left_red_uncle [OF r [unfolded u] px] by blast
          show ?thesis by (rule up [OF _ h1(2,3)]) (use step h1(1) ok fs F G u in \<open>auto simp: inorder_plug\<close>)
        next
          case BLACK
          obtain h1 where h1: "insert_fixup_left x h = (p, h1)" "same_data h h1"
            "rep h1 (plug (Nd (Nd s p RED l) x BLACK (Nd r g RED u)) gs)"
            using fixup_left_inner [OF r BLACK] by blast
          show ?thesis
            by (rule stop [OF _ h1(2,3), where Fp = "LeftOf x BLACK (Nd r g RED u)" and a = s and c = RED and b = l])
              (use step h1(1) ok fs F G BLACK in \<open>auto simp: inorder_plug\<close>)
        qed
      qed
    next
      case G: (RightOf u g gc)
      with fs(2) have [simp]: "gc = BLACK" by simp
      show ?thesis
      proof (cases F)
        case F: (RightOf s p c)
        with 3(2) have [simp]: "c = RED" by simp
        have r: "rep h (plug (Nd u g BLACK (Nd s p RED (Nd l x RED r))) gs)" using rep fs(1) F G by simp
        show ?thesis
        proof (cases "root_color u")
          case RED
          then obtain ul ua ur where u: "u = Nd ur ua RED ul" by (cases u) auto
          have px: "parent h x = p" using rep_read(1) [OF rep] F fs(1) by simp
          obtain h1 where h1: "insert_fixup_right x h = (g, h1)" "same_data h h1"
            "rep h1 (plug (Nd (Nd ur ua BLACK ul) g RED (Nd s p BLACK (Nd l x RED r))) gs)"
            using fixup_right_red_uncle [OF r [unfolded u] px] by blast
          show ?thesis by (rule up [OF _ h1(2,3)]) (use step h1(1) ok fs F G u in \<open>auto simp: inorder_plug\<close>)
        next
          case BLACK
          obtain h1 where h1: "insert_fixup_right x h = (x, h1)" "same_data h h1"
            "rep h1 (plug (Nd (Nd u g RED s) p BLACK (Nd l x RED r)) gs)"
            using fixup_right_outer [OF r BLACK] by blast
          show ?thesis
            by (rule stop [OF _ h1(2,3), where Fp = "RightOf (Nd u g RED s) p BLACK" and a = l and c = RED and b = r])
              (use step h1(1) ok fs F G BLACK in \<open>auto simp: inorder_plug\<close>)
        qed
      next
        case F: (LeftOf p c s)
        with 3(2) have [simp]: "c = RED" by simp
        have r: "rep h (plug (Nd u g BLACK (Nd (Nd l x RED r) p RED s)) gs)" using rep fs(1) F G by simp
        show ?thesis
        proof (cases "root_color u")
          case RED
          then obtain ul ua ur where u: "u = Nd ur ua RED ul" by (cases u) auto
          have px: "parent h x = p" using rep_read(1) [OF rep] F fs(1) by simp
          obtain h1 where h1: "insert_fixup_right x h = (g, h1)" "same_data h h1"
            "rep h1 (plug (Nd (Nd ur ua BLACK ul) g RED (Nd (Nd l x RED r) p BLACK s)) gs)"
            using fixup_right_red_uncle [OF r [unfolded u] px] by blast
          show ?thesis by (rule up [OF _ h1(2,3)]) (use step h1(1) ok fs F G u in \<open>auto simp: inorder_plug\<close>)
        next
          case BLACK
          obtain h1 where h1: "insert_fixup_right x h = (p, h1)" "same_data h h1"
            "rep h1 (plug (Nd (Nd u g RED l) x BLACK (Nd r p RED s)) gs)"
            using fixup_right_inner [OF r BLACK] by blast
          show ?thesis
            by (rule stop [OF _ h1(2,3), where Fp = "RightOf (Nd u g RED l) x BLACK" and a = r and c = RED and b = s])
              (use step h1(1) ok fs F G BLACK in \<open>auto simp: inorder_plug\<close>)
        qed
      qed
    qed
  qed
qed

end
