(* ===== verification/Rb_Map.thy ===== *)
theory Rb_Map
  imports Rb_Insert
begin

text \<open>
  The red-black tree as an ordered set of nodes. The locale \<open>rb_keys\<close> is what the tree needs of its
  comparison function: on readable values it is the order of their keys. Inside it the search and
  the insertion are shown correct against the sorted list of the nodes; an instance follows where
  a comparison is defined.
\<close>

section \<open>Linking a new node\<close>

lemma rep_link:
  assumes r: "rep h (plug Lf gs)" and nd: "nd \<notin> addrs (plug Lf gs)" "nd \<noteq> NIL" "nd \<noteq> NULL"
    and f: "parent h' = (parent h)(nd := upper gs)" "color h' = (color h)(nd := RED)"
      "left h' = (case gs of LeftOf p _ _ # _ \<Rightarrow> (left h)(nd := NIL, p := nd) | _ \<Rightarrow> (left h)(nd := NIL))"
      "right h' = (case gs of RightOf _ p _ # _ \<Rightarrow> (right h)(nd := NIL, p := nd) | _ \<Rightarrow> (right h)(nd := NIL))"
      "rb_root h' = (if gs = [] then nd else rb_root h)"
  shows "rep h' (plug (Nd Lf nd RED Lf) gs)"
proof -
  have nb: "nd \<notin> set (before gs)" "nd \<notin> set (after gs)" using nd(1) by (simp_all add: inorder_plug)
  have cs: "cshape (parent h) (left h) (right h) (color h) gs NIL" and se: "sentinel h"
    and root: "rb_root h = plug_root gs NIL" and dist: "distinct (before gs @ after gs)"
    and nn: "NIL \<notin> caddrs gs" "NULL \<notin> caddrs gs"
    using r [unfolded rep_plug] by simp_all
  show ?thesis
  proof (cases gs rule: frame_exhaust_list)
    case 1
    then show ?thesis using f se nd by (auto simp: rep_def sentinel_def)
  next
    case (2 p c u fs)
    then show ?thesis using f se nd cs dist nn nb root by (auto simp: rep_plug sentinel_def)
  next
    case (3 l p c fs)
    then show ?thesis using f se nd cs dist nn nb root by (auto simp: rep_plug sentinel_def)
  qed
qed

lemma rep_paint_root:
  assumes "rep h t" "t \<noteq> Lf"
  shows "rep (set_color (rb_root h) BLACK h) (paint BLACK t)"
proof -
  obtain l a c r where t: "t = Nd l a c r" using assms(2) by (cases t) auto
  have "rb_root h = a" using assms(1) t by (simp add: rep_def)
  then show ?thesis using rep_set_color [of h l a c r "[]" BLACK] assms(1) t by simp
qed

text \<open>Whether the hole is on the side that the last comparison says.\<close>

fun side_ok :: "frame list \<Rightarrow> int \<Rightarrow> bool" where
  "side_ok [] r = True"
| "side_ok (LeftOf a c t # fs) r = (r < 0)"
| "side_ok (RightOf t a c # fs) r = (\<not> r < 0)"

section \<open>Trees ordered by a comparison\<close>

locale rb_keys =
  fixes good :: "'s \<Rightarrow> addr \<Rightarrow> bool"
    and key :: "'s \<Rightarrow> addr \<Rightarrow> 'k :: linorder"
    and cmpf :: "'s \<Rightarrow> addr \<Rightarrow> addr \<Rightarrow> int option"
  assumes cmp_law: "good s v \<Longrightarrow> good s w \<Longrightarrow>
    \<exists>r. cmpf s v w = Some r \<and> (r < 0 \<longleftrightarrow> key s v < key s w) \<and> (r = 0 \<longleftrightarrow> key s v = key s w)"
begin

definition nkey :: "'s \<Rightarrow> 's rbtree \<Rightarrow> addr \<Rightarrow> 'k" where
  "nkey s h a = key s (node_val h a)"

definition ordered :: "'s \<Rightarrow> 's rbtree \<Rightarrow> addr list \<Rightarrow> bool" where
  "ordered s h xs \<longleftrightarrow> sorted_wrt (\<lambda>a b. nkey s h a < nkey s h b) xs \<and> (\<forall>a \<in> set xs. good s (node_val h a))"

definition tree_inv :: "'s \<Rightarrow> 's rbtree \<Rightarrow> addr list \<Rightarrow> bool" where
  "tree_inv s h xs \<longleftrightarrow>
     (\<exists>t. rep h t \<and> rb_ok t \<and> inorder t = xs) \<and> rb_cmp h = cmpf \<and> ordered s h xs \<and>
     rb_count h = of_nat (length xs)"

lemma ordered_append:
  "ordered s h (xs @ ys) \<longleftrightarrow> ordered s h xs \<and> ordered s h ys \<and>
     (\<forall>a \<in> set xs. \<forall>b \<in> set ys. nkey s h a < nkey s h b)"
  by (auto simp: ordered_def sorted_wrt_append)

lemma ordered_Cons:
  "ordered s h (x # xs) \<longleftrightarrow> good s (node_val h x) \<and> ordered s h xs \<and> (\<forall>b \<in> set xs. nkey s h x < nkey s h b)"
  by (auto simp: ordered_def)

subsection \<open>Search\<close>

text \<open>The answer of \<open>rbtree_find_less_equal\<close>: the node with the key, or the last smaller one.\<close>

definition find_spec :: "'s \<Rightarrow> 's rbtree \<Rightarrow> 'k \<Rightarrow> addr list \<Rightarrow> addr \<Rightarrow> bool \<times> addr" where
  "find_spec s h k xs res =
     (case filter (\<lambda>a. nkey s h a = k) xs of
        a # _ \<Rightarrow> (True, a)
      | [] \<Rightarrow> (False, last (res # filter (\<lambda>a. nkey s h a < k) xs)))"

lemma find_spec_left:
  assumes "ordered s h (xs @ a # ys)" "k < nkey s h a"
  shows "find_spec s h k (xs @ a # ys) res = find_spec s h k xs res"
proof -
  have gt: "\<And>b. b \<in> set (a # ys) \<Longrightarrow> k < nkey s h b"
    using assms by (auto simp: ordered_append ordered_Cons)
  have "filter (\<lambda>b. nkey s h b = k) (a # ys) = []" "filter (\<lambda>b. nkey s h b < k) (a # ys) = []"
    using gt unfolding filter_empty_conv by force+
  then show ?thesis by (simp only: find_spec_def filter_append append_Nil2)
qed

lemma find_spec_right:
  assumes "ordered s h (xs @ a # ys)" "nkey s h a < k"
  shows "find_spec s h k (xs @ a # ys) res = find_spec s h k ys a"
proof -
  have lt: "\<And>b. b \<in> set xs \<Longrightarrow> nkey s h b < k"
    using assms by (auto simp: ordered_append ordered_Cons)
  have "filter (\<lambda>b. nkey s h b = k) xs = []" using lt unfolding filter_empty_conv by force
  moreover have "filter (\<lambda>b. nkey s h b < k) xs = xs" using lt by (simp add: filter_id_conv)
  ultimately show ?thesis using assms(2) by (auto simp: find_spec_def split: list.splits)
qed

lemma find_loop_ok:
  assumes "rep h (plug t fs)" "ordered s h (inorder t)" "rb_cmp h = cmpf" "good s v"
  shows "find_less_equal_loop h s v (ptr t) res = Some (find_spec s h (key s v) (inorder t) res)"
  using assms
proof (induction t arbitrary: fs res)
  case Lf
  then show ?case by (simp add: find_less_equal_loop.simps find_spec_def)
next
  case (Nd l a c r)
  note rd = rep_read [OF Nd.prems(1)]
  have o: "ordered s h (inorder l)" "ordered s h (inorder r)" "good s (node_val h a)"
    using Nd.prems(2) by (auto simp: ordered_append ordered_Cons)
  obtain i where i: "cmpf s v (node_val h a) = Some i" "i < 0 \<longleftrightarrow> key s v < nkey s h a"
    "i = 0 \<longleftrightarrow> key s v = nkey s h a"
    using cmp_law [OF Nd.prems(4) o(3)] unfolding nkey_def by blast
  have rl: "rep h (plug l (LeftOf a c r # fs))" "rep h (plug r (RightOf l a c # fs))"
    using Nd.prems(1) by simp_all
  note L = Nd.IH(1) [OF rl(1) o(1) Nd.prems(3,4)] and R = Nd.IH(2) [OF rl(2) o(2) Nd.prems(3,4)]
  have st: "find_less_equal_loop h s v a res =
    (if i = 0 then Some (True, a)
     else find_less_equal_loop h s v (if i < 0 then ptr l else ptr r) (if i < 0 then res else a))"
    using rd i(1) Nd.prems(3) by (simp add: find_less_equal_loop.simps [of h s v a])
  consider "i = 0" | "i < 0" | "0 < i" by linarith
  then show ?case
  proof cases
    case 1
    then have k: "nkey s h a = key s v" using i(3) by simp
    have "filter (\<lambda>b. nkey s h b = key s v) (inorder l) = []"
      using Nd.prems(2) k unfolding filter_empty_conv by (force simp: ordered_append)
    then show ?thesis using 1 st k by (simp add: find_spec_def)
  next
    case 2
    then show ?thesis using st L i(2) find_spec_left [of s h "inorder l" a "inorder r" "key s v" res] Nd.prems(2)
      by simp
  next
    case 3
    then have "nkey s h a < key s v" using i(2,3) by (metis less_irrefl linorder_neqE not_less_iff_gr_or_eq)
    then show ?thesis using 3 st R find_spec_right [of s h "inorder l" a "inorder r" "key s v" res] Nd.prems(2)
      by simp
  qed
qed

lemma find_less_equal_ok:
  assumes "tree_inv s h xs" "good s v"
  shows "rbtree_find_less_equal h s v = Some (find_spec s h (key s v) xs NULL)"
proof -
  obtain t where t: "rep h t" "inorder t = xs" "rb_cmp h = cmpf" "ordered s h xs"
    using assms(1) by (auto simp: tree_inv_def)
  then show ?thesis
    using find_loop_ok [of h t "[]" s v NULL] assms(2) by (simp add: rbtree_find_less_equal_def rep_def)
qed

lemma find_spec_hit:
  assumes "ordered s h xs" "a \<in> set xs" "nkey s h a = k"
  shows "find_spec s h k xs res = (True, a)"
proof -
  obtain ys zs where xs: "xs = ys @ a # zs" using assms(2) by (meson split_list)
  have "filter (\<lambda>b. nkey s h b = k) ys = []"
    using assms(1,3) unfolding xs filter_empty_conv by (force simp: ordered_append)
  then show ?thesis using assms(3) by (simp add: find_spec_def xs)
qed

lemma find_spec_miss:
  assumes "\<And>a. a \<in> set xs \<Longrightarrow> nkey s h a \<noteq> k"
  shows "find_spec s h k xs res = (False, last (res # filter (\<lambda>a. nkey s h a < k) xs))"
proof -
  have "filter (\<lambda>a. nkey s h a = k) xs = []" using assms unfolding filter_empty_conv by auto
  then show ?thesis by (simp add: find_spec_def)
qed

lemma search_ok:
  assumes "tree_inv s h xs" "good s v"
  shows "a \<in> set xs \<Longrightarrow> nkey s h a = key s v \<Longrightarrow> rbtree_search h s v = Some a"
    and "(\<And>a. a \<in> set xs \<Longrightarrow> nkey s h a \<noteq> key s v) \<Longrightarrow> rbtree_search h s v = Some NULL"
  using find_less_equal_ok [OF assms] assms(1) find_spec_hit [of s h xs a "key s v" NULL]
    find_spec_miss [of xs s h "key s v" NULL]
  by (simp_all add: rbtree_search_def tree_inv_def)

subsection \<open>Insertion\<close>

text \<open>The descent ends at the node with the key or at a hole between the smaller and the greater keys.\<close>

lemma descend_ok:
  assumes "rep h (plug t fs)" "ordered s h (inorder (plug t fs))" "rb_cmp h = cmpf" "good s v"
    "\<And>a. a \<in> set (before fs) \<Longrightarrow> nkey s h a < key s v" "\<And>a. a \<in> set (after fs) \<Longrightarrow> key s v < nkey s h a"
    "side_ok fs i"
  shows "(\<exists>a p i'. insert_descend h s v (ptr t) (upper fs) i = Some (a, p, i') \<and> a \<in> addrs t \<and> nkey s h a = key s v) \<or>
    (\<exists>gs i'. insert_descend h s v (ptr t) (upper fs) i = Some (NIL, upper gs, i') \<and>
       plug t fs = plug Lf gs \<and> side_ok gs i' \<and>
       (\<forall>a \<in> set (before gs). nkey s h a < key s v) \<and> (\<forall>a \<in> set (after gs). key s v < nkey s h a))"
  using assms
proof (induction t arbitrary: fs i)
  case Lf
  then show ?case by (auto simp: insert_descend.simps)
next
  case (Nd l a c r)
  note rd = rep_read [OF Nd.prems(1)]
  have o: "ordered s h (inorder l @ a # inorder r)"
    using Nd.prems(2) ordered_append [of s h "inorder (Nd l a c r)" "after fs"]
      ordered_append [of s h "before fs" "inorder (Nd l a c r) @ after fs"]
    by (simp add: inorder_plug)
  then have good: "good s (node_val h a)" by (simp add: ordered_append ordered_Cons)
  obtain j where j: "cmpf s v (node_val h a) = Some j" "j < 0 \<longleftrightarrow> key s v < nkey s h a"
    "j = 0 \<longleftrightarrow> key s v = nkey s h a"
    using cmp_law [OF Nd.prems(4) good] unfolding nkey_def by blast
  have st: "insert_descend h s v a (upper fs) i =
    (if j = 0 then Some (a, upper fs, j)
     else insert_descend h s v (if j < 0 then ptr l else ptr r) a j)"
    using rd j(1) Nd.prems(3) by (simp add: insert_descend.simps [of h s v a])
  consider "j = 0" | "j < 0" | "0 < j" by linarith
  then show ?case
  proof cases
    case 1
    then show ?thesis using st j(3) by simp
  next
    case 2
    have "key s v < nkey s h a" using 2 j(2) by simp
    moreover have "\<And>b. b \<in> addrs r \<Longrightarrow> nkey s h a < nkey s h b" using o by (simp add: ordered_append ordered_Cons)
    ultimately have "\<And>b. b \<in> set (after (LeftOf a c r # fs)) \<Longrightarrow> key s v < nkey s h b"
      using Nd.prems(6) by (auto intro: less_trans)
    then show ?thesis
      using Nd.IH(1) [of "LeftOf a c r # fs" j] Nd.prems(1-5) 2 st by auto
  next
    case 3
    then have "nkey s h a < key s v" using j(2,3) by (metis less_irrefl linorder_neqE not_less_iff_gr_or_eq)
    moreover have "\<And>b. b \<in> addrs l \<Longrightarrow> nkey s h b < nkey s h a" using o by (simp add: ordered_append ordered_Cons)
    ultimately have "\<And>b. b \<in> set (before (RightOf l a c # fs)) \<Longrightarrow> nkey s h b < key s v"
      using Nd.prems(5) by (auto intro: less_trans)
    then show ?thesis
      using Nd.IH(2) [of "RightOf l a c # fs" j] Nd.prems(1-4,6) 3 st by auto
  qed
qed

lemma ordered_same:
  assumes "node_val h' = node_val h"
  shows "ordered s h' xs = ordered s h xs" "nkey s h' = nkey s h"
  using assms by (simp_all add: ordered_def nkey_def fun_eq_iff)

text \<open>
  Insertion: with the key present the tree is unchanged and the present node is returned; otherwise
  the new node takes its place in the order.
\<close>

lemma insert_present:
  assumes "tree_inv s h xs" "good s (node_val h nd)" "a \<in> set xs" "nkey s h a = nkey s h nd"
  shows "rbtree_insert s nd h = Some (h, a)"
proof -
  obtain t where t: "rep h t" "inorder t = xs" "rb_cmp h = cmpf" "ordered s h xs"
    using assms(1) by (auto simp: tree_inv_def)
  have root: "rb_root h = ptr t" using t(1) by (simp add: rep_def)
  have nil: "NIL \<notin> set xs" using t(1,2) by (auto simp: rep_def)
  from descend_ok [of h t "[]" s "node_val h nd" 0] t assms(2)
  consider b p i where "insert_descend h s (node_val h nd) (ptr t) NIL 0 = Some (b, p, i)"
      "b \<in> set xs" "nkey s h b = key s (node_val h nd)"
    | gs where "t = plug Lf gs" "\<forall>a \<in> set (before gs). nkey s h a < key s (node_val h nd)"
      "\<forall>a \<in> set (after gs). key s (node_val h nd) < nkey s h a"
    by auto
  then show ?thesis
  proof cases
    case 1
    have "b = a"
    proof (rule ccontr)
      assume ne: "b \<noteq> a"
      have "nkey s h b = nkey s h nd" using 1(3) by (simp add: nkey_def)
      from find_spec_hit [OF t(4) 1(2) this, of NULL] find_spec_hit [OF t(4) assms(3,4), of NULL] ne
      show False by simp
    qed
    moreover have "b \<noteq> NIL" using 1(2) nil by auto
    ultimately show ?thesis using 1(1) root by (simp add: rbtree_insert_def)
  next
    case 2
    then have "a \<in> caddrs gs" using assms(3) t(2) by (auto simp: inorder_plug)
    then show ?thesis using 2(2,3) assms(4) by (auto simp: nkey_def)
  qed
qed

lemma insert_absent:
  assumes inv: "tree_inv s h xs" and good: "good s (node_val h nd)"
    and nd: "nd \<notin> set xs" "nd \<noteq> NIL" "nd \<noteq> NULL"
    and new: "\<And>a. a \<in> set xs \<Longrightarrow> nkey s h a \<noteq> nkey s h nd"
  shows "\<exists>h' ys zs. rbtree_insert s nd h = Some (h', nd) \<and> xs = ys @ zs \<and> tree_inv s h' (ys @ nd # zs) \<and>
    node_val h' = node_val h"
proof -
  obtain t where t: "rep h t" "inorder t = xs" "rb_cmp h = cmpf" "ordered s h xs" "rb_ok t"
    "rb_count h = of_nat (length xs)"
    using inv by (auto simp: tree_inv_def)
  define v where "v = node_val h nd"
  have root: "rb_root h = ptr t" using t(1) by (simp add: rep_def)
  have kv: "key s v = nkey s h nd" by (simp add: nkey_def v_def)
  from descend_ok [of h t "[]" s v 0] t good new
  obtain gs i where d: "insert_descend h s v (ptr t) NIL 0 = Some (NIL, upper gs, i)"
    "t = plug Lf gs" "side_ok gs i" "\<forall>a \<in> set (before gs). nkey s h a < key s v"
    "\<forall>a \<in> set (after gs). key s v < nkey s h a"
    unfolding kv v_def [symmetric] by auto
  have xs: "xs = before gs @ after gs" using t(2) d(2) by (auto simp: inorder_plug)
  have rp: "rep h (plug Lf gs)" using t(1) d(2) by simp
  have un: "upper gs = NIL \<longleftrightarrow> gs = []" by (rule rep_upper_nil [OF rp])
  have upn: "upper gs \<noteq> nd" using upper_in [of gs] nd xs by auto
  define h1 where "h1 = (let h = set_parent nd (upper gs) h;
       h = set_left nd NIL (set_right nd NIL h);
       h = set_color nd RED h;
       h = h\<lparr>rb_count := rb_count h + 1\<rparr>
     in (if upper gs \<noteq> NIL then (if i < 0 then set_left (upper gs) nd h else set_right (upper gs) nd h)
         else h\<lparr>rb_root := nd\<rparr>))"
  have h1: "node_val h1 = node_val h" "rb_cmp h1 = rb_cmp h" "rb_count h1 = rb_count h + 1"
    by (simp_all add: h1_def Let_def set_field_defs)
  have "rep h1 (plug (Nd Lf nd RED Lf) gs)"
  proof (rule rep_link [OF rp _ nd(2,3)])
    show "nd \<notin> addrs (plug Lf gs)" using nd(1) xs by (simp add: inorder_plug)
    show "parent h1 = (parent h)(nd := upper gs)" by (simp add: h1_def Let_def set_field_defs)
    show "color h1 = (color h)(nd := RED)" by (simp add: h1_def Let_def set_field_defs)
    show "rb_root h1 = (if gs = [] then nd else rb_root h)" using un by (simp add: h1_def Let_def set_field_defs)
    show "left h1 = (case gs of LeftOf p _ _ # _ \<Rightarrow> (left h)(nd := NIL, p := nd) | _ \<Rightarrow> (left h)(nd := NIL))"
      using un d(3) by (cases gs rule: frame_exhaust_list) (simp_all add: h1_def Let_def set_field_defs)
    show "right h1 = (case gs of RightOf _ p _ # _ \<Rightarrow> (right h)(nd := NIL, p := nd) | _ \<Rightarrow> (right h)(nd := NIL))"
      using un d(3) by (cases gs rule: frame_exhaust_list) (simp_all add: h1_def Let_def set_field_defs)
  qed
  moreover have "cok gs 0" using t(5) d(2) by (simp add: rb_ok_plug)
  ultimately obtain h2 t2 where f: "insert_fixup_loop nd h1 = Some h2" "fixed h1 (plug (Nd Lf nd RED Lf) gs) h2 t2"
    using insert_fixup_loop_ok [of h1 Lf nd Lf gs] by auto
  define h3 where "h3 = set_color (rb_root h2) BLACK h2"
  have in2: "inorder t2 = before gs @ nd # after gs" using f(2) by (simp add: fixed_def inorder_plug)
  then have "t2 \<noteq> Lf" by auto
  then have r3: "rep h3 (paint BLACK t2)" "rb_ok (paint BLACK t2)"
    using rep_paint_root [of h2 t2] f(2) by (simp_all add: fixed_def h3_def)
  have same: "node_val h3 = node_val h" "rb_cmp h3 = rb_cmp h" "rb_count h3 = rb_count h + 1"
    using f(2) h1 by (simp_all add: h3_def fixed_def same_data_def)
  have "ordered s h (before gs @ nd # after gs)"
    using t(4) d(4,5) good unfolding xs kv by (auto simp: ordered_append ordered_Cons)
  then have "tree_inv s h3 (before gs @ nd # after gs)"
    using r3 in2 same t(3,6) xs
    by (auto simp: tree_inv_def ordered_same [OF same(1)] intro!: exI [of _ "paint BLACK t2"])
  moreover have "rbtree_insert s nd h = Some (h3, nd)"
  proof -
    have "rbtree_insert s nd h = do { h \<leftarrow> rbtree_insert_fixup nd h1; Some (h, nd) }"
      using d(1) root by (simp add: rbtree_insert_def v_def [symmetric] h1_def Let_def)
    then show ?thesis using f(1) by (simp add: rbtree_insert_fixup_def h3_def)
  qed
  ultimately show ?thesis using xs same(1) by blast
qed

end
end
