(* ===== verification/Rb_Delete.thy ===== *)
theory Rb_Delete
  imports Rb_Map
begin

text \<open>
  Deletion from the red-black tree: the rounds of \<open>rbtree_delete_fixup\<close> as steps between
  positions, the loop by induction on the context, the exchange of a node with its successor as a
  renaming of addresses, and the removal as a whole.
\<close>

section \<open>Reading around the missing black\<close>

fun sib_tree :: "frame \<Rightarrow> rbt" where
  "sib_tree (LeftOf a c r) = r"
| "sib_tree (RightOf l a c) = l"

fun kids_black :: "rbt \<Rightarrow> bool" where
  "kids_black Lf = True"
| "kids_black (Nd l a c r) = (root_color l = BLACK \<and> root_color r = BLACK)"

lemma rep_sib_apart:
  assumes "rep h (plug X (F # gs))" "sib_tree F \<noteq> Lf"
  shows "ptr X \<noteq> ptr (sib_tree F)"
proof -
  have "ptr (sib_tree F) \<in> addrs (sib_tree F)" using assms(2) by (cases "sib_tree F") auto
  then have "ptr (sib_tree F) \<in> caddrs (F # gs)" by (cases F) auto
  then show ?thesis by (rule rep_ptr_apart [OF assms(1)])
qed

lemma rep_child_side:
  assumes "rep h (plug X (F # gs))" "sib_tree F \<noteq> Lf"
  shows "right h (frame_addr F) = ptr X \<longleftrightarrow> (case F of LeftOf _ _ _ \<Rightarrow> False | RightOf _ _ _ \<Rightarrow> True)"
    "left h (frame_addr F) = ptr X \<longleftrightarrow> (case F of LeftOf _ _ _ \<Rightarrow> True | RightOf _ _ _ \<Rightarrow> False)"
    "sibling_of (frame_addr F) (ptr X) h = ptr (sib_tree F)"
  using rep_sib_apart [OF assms] assms
  by (cases F; auto simp: rep_plug sibling_of_def)+

lemma black_sibling_rep:
  assumes "rep h (plug X (F # gs))" "root_color (sib_tree F) = BLACK"
  shows "black_sibling (ptr (sib_tree F)) h \<longleftrightarrow> kids_black (sib_tree F)"
proof -
  obtain ks where r: "rep h (plug (sib_tree F) ks)"
    using assms(1) by (cases F) (auto intro: that [of "RightOf X a c # gs" for a c] that [of "LeftOf a c X # gs" for a c])
  show ?thesis
  proof (cases "sib_tree F")
    case Lf
    then show ?thesis using rep_sentinel [OF r] by (simp add: black_sibling_def)
  next
    case (Nd l s c t)
    have "rep h (plug l (LeftOf s c t # ks))" "rep h (plug t (RightOf l s c # ks))" using r Nd by simp_all
    then have "color h (ptr l) = root_color l" "color h (ptr t) = root_color t"
      using rep_color_ptr [of h l "LeftOf s c t # ks"] rep_color_ptr [of h t "RightOf l s c # ks"] by simp_all
    then show ?thesis using rep_read [OF r [unfolded Nd]] assms(2) Nd by (simp add: black_sibling_def)
  qed
qed

section \<open>Rounds of the loop\<close>

lemma delete_red_left:
  assumes r: "rep h (plug (Nd X p BLACK (Nd sl s RED sr)) gs)" and sl: "sl \<noteq> Lf"
  obtains h' where "delete_fixup_red (ptr X) p s h = (ptr sl, h')" "same_data h h'"
    "rep h' (plug (Nd (Nd X p RED sl) s BLACK sr) gs)"
proof -
  have rs: "right h p = s" using rep_read(3) [OF r] by simp
  have sc: "color h s = RED" using rep_read(4) [of h sl s RED sr "RightOf X p BLACK # gs"] r by simp
  have Xs: "ptr X \<noteq> s" using rep_sib_apart [of h X "LeftOf p BLACK (Nd sl s RED sr)" gs] r by simp
  define h1 where "h1 = set_color p RED h"
  define h2 where "h2 = set_color s BLACK h1"
  have "rep h1 (plug (Nd X p RED (Nd sl s RED sr)) gs)"
    using rep_set_color [of h X p BLACK "Nd sl s RED sr" gs RED] r by (simp add: h1_def)
  then have "rep h2 (plug (Nd X p RED (Nd sl s BLACK sr)) gs)"
    using rep_set_color [of h1 sl s RED sr "RightOf X p RED # gs" BLACK] by (simp add: h2_def)
  then have r3: "rep (rotate_left p h2) (plug (Nd (Nd X p RED sl) s BLACK sr) gs)"
    by (rule rep_rotate_left)
  have "sibling_of p (ptr X) (rotate_left p h2) = ptr sl"
    using rep_child_side(3) [of "rotate_left p h2" X "LeftOf p RED sl" "LeftOf s BLACK sr # gs"] r3 sl by simp
  then have "delete_fixup_red (ptr X) p s h = (ptr sl, rotate_left p h2)"
    using Xs rs sc by (simp add: delete_fixup_red_def h1_def h2_def)
  moreover have "same_data h (rotate_left p h2)" by (simp add: same_data_def h1_def h2_def)
  ultimately show thesis using r3 that by blast
qed

lemma delete_near_left:
  assumes r: "rep h (plug (Nd X p c (Nd (Nd nl n RED nr) s BLACK sr)) gs)" and sr: "root_color sr = BLACK"
  obtains h' where "delete_fixup_near (ptr X) p s h = (n, h')" "same_data h h'"
    "rep h' (plug (Nd X p c (Nd nl n BLACK (Nd nr s RED sr))) gs)"
proof -
  have rs: "right h p = s" "left h p = ptr X" using rep_read(2,3) [OF r] by simp_all
  have sc: "color h s = BLACK" "left h s = n" "right h s = ptr sr"
    using rep_read(2,3,4) [of h "Nd nl n RED nr" s BLACK sr "RightOf X p c # gs"] r by simp_all
  have nc: "color h n = RED" using rep_read(4) [of h nl n RED nr "LeftOf s BLACK sr # RightOf X p c # gs"] r by simp
  have tc: "color h (ptr sr) = BLACK"
    using rep_color_ptr [of h sr "RightOf (Nd nl n RED nr) s BLACK # RightOf X p c # gs"] r sr by simp
  have Xs: "ptr X \<noteq> s" using rep_sib_apart [of h X "LeftOf p c (Nd (Nd nl n RED nr) s BLACK sr)" gs] r by simp
  define h1 where "h1 = set_color s RED h"
  define h2 where "h2 = set_color n BLACK h1"
  have "rep h1 (plug (Nd X p c (Nd (Nd nl n RED nr) s RED sr)) gs)"
    using rep_set_color [of h "Nd nl n RED nr" s BLACK sr "RightOf X p c # gs" RED] r by (simp add: h1_def)
  then have "rep h2 (plug (Nd X p c (Nd (Nd nl n BLACK nr) s RED sr)) gs)"
    using rep_set_color [of h1 nl n RED nr "LeftOf s RED sr # RightOf X p c # gs" BLACK] by (simp add: h2_def)
  then have r3: "rep (rotate_right s h2) (plug (Nd X p c (Nd nl n BLACK (Nd nr s RED sr))) gs)"
    using rep_rotate_right [of h2 nl n BLACK nr s RED sr "RightOf X p c # gs"] by simp
  have "sibling_of p (ptr X) (rotate_right s h2) = n"
    using rep_child_side(3) [of "rotate_right s h2" X "LeftOf p c (Nd nl n BLACK (Nd nr s RED sr))" gs] r3 by simp
  then have "delete_fixup_near (ptr X) p s h = (n, rotate_right s h2)"
    using Xs rs sc nc tc by (simp add: delete_fixup_near_def h1_def h2_def)
  moreover have "same_data h (rotate_right s h2)" by (simp add: same_data_def h1_def h2_def)
  ultimately show thesis using r3 that by blast
qed

lemma delete_near_left_skip:
  assumes r: "rep h (plug (Nd X p c (Nd sl s BLACK sr)) gs)" and sr: "root_color sr = RED"
  shows "delete_fixup_near (ptr X) p s h = (s, h)"
proof -
  have rs: "right h p = s" using rep_read(3) [OF r] by simp
  have sc: "right h s = ptr sr"
    using rep_read(3) [of h sl s BLACK sr "RightOf X p c # gs"] r by simp
  have tc: "color h (ptr sr) = RED"
    using rep_color_ptr [of h sr "RightOf sl s BLACK # RightOf X p c # gs"] r sr by simp
  have Xs: "ptr X \<noteq> s" using rep_sib_apart [of h X "LeftOf p c (Nd sl s BLACK sr)" gs] r by simp
  show ?thesis using rs sc tc Xs by (simp add: delete_fixup_near_def)
qed

lemma delete_far_left:
  assumes r: "rep h (plug (Nd X p c (Nd sl s BLACK (Nd ta t RED tb))) gs)"
  obtains h' where "delete_fixup_far (ptr X) p s h = Some h'" "same_data h h'"
    "rep h' (plug (Nd (Nd X p BLACK sl) s c (Nd ta t BLACK tb)) gs)"
proof -
  have rs: "right h p = s" "color h p = c" using rep_read(3,4) [OF r] by simp_all
  have sc: "right h s = t"
    using rep_read(3) [of h sl s BLACK "Nd ta t RED tb" "RightOf X p c # gs"] r by simp
  have Xs: "ptr X \<noteq> s" using rep_sib_apart [of h X "LeftOf p c (Nd sl s BLACK (Nd ta t RED tb))" gs] r by simp
  define h1 where "h1 = set_color s c h"
  define h2 where "h2 = set_color p BLACK h1"
  define h3 where "h3 = set_color t BLACK h2"
  have "rep h1 (plug (Nd X p c (Nd sl s c (Nd ta t RED tb))) gs)"
    using rep_set_color [of h sl s BLACK "Nd ta t RED tb" "RightOf X p c # gs" c] r by (simp add: h1_def)
  then have r2: "rep h2 (plug (Nd X p BLACK (Nd sl s c (Nd ta t RED tb))) gs)"
    using rep_set_color [of h1 X p c "Nd sl s c (Nd ta t RED tb)" gs BLACK] by (simp add: h2_def)
  then have tc: "color h2 t = RED"
    using rep_read(4) [of h2 ta t RED tb "RightOf sl s c # RightOf X p BLACK # gs"] by simp
  have "rep h3 (plug (Nd X p BLACK (Nd sl s c (Nd ta t BLACK tb))) gs)"
    using rep_set_color [of h2 ta t RED tb "RightOf sl s c # RightOf X p BLACK # gs" BLACK] r2 by (simp add: h3_def)
  then have r3: "rep (rotate_left p h3) (plug (Nd (Nd X p BLACK sl) s c (Nd ta t BLACK tb)) gs)"
    by (rule rep_rotate_left)
  have "right h1 p = s" "right h2 p = s" "right h2 s = t" using rs sc by (simp_all add: h1_def h2_def)
  then have "delete_fixup_far (ptr X) p s h = Some (rotate_left p h3)"
    using Xs rs(2) tc by (simp add: delete_fixup_far_def Let_def h1_def [symmetric] h2_def [symmetric] h3_def [symmetric])
  moreover have "same_data h (rotate_left p h3)" by (simp add: same_data_def h1_def h2_def h3_def)
  ultimately show thesis using r3 that by blast
qed

lemma delete_red_right:
  assumes r: "rep h (plug (Nd (Nd sr s RED sl) p BLACK X) gs)" and sl: "sl \<noteq> Lf"
  obtains h' where "delete_fixup_red (ptr X) p s h = (ptr sl, h')" "same_data h h'"
    "rep h' (plug (Nd sr s BLACK (Nd sl p RED X)) gs)"
proof -
  have rs: "left h p = s" "right h p = ptr X" using rep_read(2,3) [OF r] by simp_all
  have sc: "color h s = RED" using rep_read(4) [of h sr s RED sl "LeftOf p BLACK X # gs"] r by simp
  have Xs: "ptr X \<noteq> s" using rep_sib_apart [of h X "RightOf (Nd sr s RED sl) p BLACK" gs] r by simp
  define h1 where "h1 = set_color p RED h"
  define h2 where "h2 = set_color s BLACK h1"
  have "rep h1 (plug (Nd (Nd sr s RED sl) p RED X) gs)"
    using rep_set_color [of h "Nd sr s RED sl" p BLACK X gs RED] r by (simp add: h1_def)
  then have "rep h2 (plug (Nd (Nd sr s BLACK sl) p RED X) gs)"
    using rep_set_color [of h1 sr s RED sl "LeftOf p RED X # gs" BLACK] by (simp add: h2_def)
  then have r3: "rep (rotate_right p h2) (plug (Nd sr s BLACK (Nd sl p RED X)) gs)"
    by (rule rep_rotate_right)
  have "sibling_of p (ptr X) (rotate_right p h2) = ptr sl"
    using rep_child_side(3) [of "rotate_right p h2" X "RightOf sl p RED" "RightOf sr s BLACK # gs"] r3 sl by simp
  then have "delete_fixup_red (ptr X) p s h = (ptr sl, rotate_right p h2)"
    using Xs rs sc by (simp add: delete_fixup_red_def h1_def h2_def)
  moreover have "same_data h (rotate_right p h2)" by (simp add: same_data_def h1_def h2_def)
  ultimately show thesis using r3 that by blast
qed

lemma delete_near_right:
  assumes r: "rep h (plug (Nd (Nd sr s BLACK (Nd nr n RED nl)) p c X) gs)" and sr: "root_color sr = BLACK"
  obtains h' where "delete_fixup_near (ptr X) p s h = (n, h')" "same_data h h'"
    "rep h' (plug (Nd (Nd (Nd sr s RED nr) n BLACK nl) p c X) gs)"
proof -
  have rs: "left h p = s" "right h p = ptr X" using rep_read(3,2) [OF r] by simp_all
  have sc: "color h s = BLACK" "right h s = n" "left h s = ptr sr"
    using rep_read(3,2,4) [of h sr s BLACK "Nd nr n RED nl" "LeftOf p c X # gs"] r by simp_all
  have nc: "color h n = RED" using rep_read(4) [of h nr n RED nl "RightOf sr s BLACK # LeftOf p c X # gs"] r by simp
  have tc: "color h (ptr sr) = BLACK"
    using rep_color_ptr [of h sr "LeftOf s BLACK (Nd nr n RED nl) # LeftOf p c X # gs"] r sr by simp
  have Xs: "ptr X \<noteq> s" using rep_sib_apart [of h X "RightOf (Nd sr s BLACK (Nd nr n RED nl)) p c" gs] r by simp
  define h1 where "h1 = set_color s RED h"
  define h2 where "h2 = set_color n BLACK h1"
  have "rep h1 (plug (Nd (Nd sr s RED (Nd nr n RED nl)) p c X) gs)"
    using rep_set_color [of h sr s BLACK "Nd nr n RED nl" "LeftOf p c X # gs" RED] r by (simp add: h1_def)
  then have "rep h2 (plug (Nd (Nd sr s RED (Nd nr n BLACK nl)) p c X) gs)"
    using rep_set_color [of h1 nr n RED nl "RightOf sr s RED # LeftOf p c X # gs" BLACK] by (simp add: h2_def)
  then have r3: "rep (rotate_left s h2) (plug (Nd (Nd (Nd sr s RED nr) n BLACK nl) p c X) gs)"
    using rep_rotate_left [of h2 sr s RED nr n BLACK nl "LeftOf p c X # gs"] by simp
  have "sibling_of p (ptr X) (rotate_left s h2) = n"
    using rep_child_side(3) [of "rotate_left s h2" X "RightOf (Nd (Nd sr s RED nr) n BLACK nl) p c" gs] r3 by simp
  then have "delete_fixup_near (ptr X) p s h = (n, rotate_left s h2)"
    using Xs rs sc nc tc by (simp add: delete_fixup_near_def h1_def h2_def)
  moreover have "same_data h (rotate_left s h2)" by (simp add: same_data_def h1_def h2_def)
  ultimately show thesis using r3 that by blast
qed

lemma delete_near_right_skip:
  assumes r: "rep h (plug (Nd (Nd sr s BLACK sl) p c X) gs)" and sr: "root_color sr = RED"
  shows "delete_fixup_near (ptr X) p s h = (s, h)"
proof -
  have rs: "left h p = s" "right h p = ptr X" using rep_read(2,3) [OF r] by simp_all
  have sc: "left h s = ptr sr"
    using rep_read(2) [of h sr s BLACK sl "LeftOf p c X # gs"] r by simp
  have tc: "color h (ptr sr) = RED"
    using rep_color_ptr [of h sr "LeftOf s BLACK sl # LeftOf p c X # gs"] r sr by simp
  have Xs: "ptr X \<noteq> s" using rep_sib_apart [of h X "RightOf (Nd sr s BLACK sl) p c" gs] r by simp
  show ?thesis using rs sc tc Xs by (simp add: delete_fixup_near_def)
qed

lemma delete_far_right:
  assumes r: "rep h (plug (Nd (Nd (Nd tb t RED ta) s BLACK sl) p c X) gs)"
  obtains h' where "delete_fixup_far (ptr X) p s h = Some h'" "same_data h h'"
    "rep h' (plug (Nd (Nd tb t BLACK ta) s c (Nd sl p BLACK X)) gs)"
proof -
  have rs: "left h p = s" "color h p = c" "right h p = ptr X" using rep_read(2,4,3) [OF r] by simp_all
  have sc: "left h s = t"
    using rep_read(2) [of h "Nd tb t RED ta" s BLACK sl "LeftOf p c X # gs"] r by simp
  have Xs: "ptr X \<noteq> s" using rep_sib_apart [of h X "RightOf (Nd (Nd tb t RED ta) s BLACK sl) p c" gs] r by simp
  define h1 where "h1 = set_color s c h"
  define h2 where "h2 = set_color p BLACK h1"
  define h3 where "h3 = set_color t BLACK h2"
  have "rep h1 (plug (Nd (Nd (Nd tb t RED ta) s c sl) p c X) gs)"
    using rep_set_color [of h "Nd tb t RED ta" s BLACK sl "LeftOf p c X # gs" c] r by (simp add: h1_def)
  then have r2: "rep h2 (plug (Nd (Nd (Nd tb t RED ta) s c sl) p BLACK X) gs)"
    using rep_set_color [of h1 "Nd (Nd tb t RED ta) s c sl" p c X gs BLACK] by (simp add: h2_def)
  then have tc: "color h2 t = RED"
    using rep_read(4) [of h2 tb t RED ta "LeftOf s c sl # LeftOf p BLACK X # gs"] by simp
  have "rep h3 (plug (Nd (Nd (Nd tb t BLACK ta) s c sl) p BLACK X) gs)"
    using rep_set_color [of h2 tb t RED ta "LeftOf s c sl # LeftOf p BLACK X # gs" BLACK] r2 by (simp add: h3_def)
  then have r3: "rep (rotate_right p h3) (plug (Nd (Nd tb t BLACK ta) s c (Nd sl p BLACK X)) gs)"
    by (rule rep_rotate_right)
  have "right h1 p = ptr X" "left h2 p = s" "left h2 s = t" using rs sc by (simp_all add: h1_def h2_def)
  then have "delete_fixup_far (ptr X) p s h = Some (rotate_right p h3)"
    using Xs rs(2) tc by (simp add: delete_fixup_far_def Let_def h1_def [symmetric] h2_def [symmetric] h3_def [symmetric])
  moreover have "same_data h (rotate_right p h3)" by (simp add: same_data_def h1_def h2_def h3_def)
  ultimately show thesis using r3 that by blast
qed

section \<open>The loop\<close>

definition dfix :: "'s rbtree \<Rightarrow> rbt \<Rightarrow> 's rbtree \<Rightarrow> bool" where
  "dfix h t h' \<longleftrightarrow> (\<exists>t'. rep h' t' \<and> inorder t' = inorder t \<and> rb_ok t' \<and> same_data h h')"

definition stuck :: "'s rbtree \<Rightarrow> rbt \<Rightarrow> addr \<Rightarrow> addr \<Rightarrow> addr \<Rightarrow> 's rbtree \<Rightarrow> bool" where
  "stuck h t ch cp sib h' \<longleftrightarrow>
     (\<exists>Y F gs. rep h' (plug Y (F # gs)) \<and> inorder (plug Y (F # gs)) = inorder t \<and> same_data h h' \<and>
        ch = ptr Y \<and> cp = frame_addr F \<and> sib = ptr (sib_tree F) \<and> root_color Y = BLACK \<and> invc Y \<and> invh Y \<and>
        cok (F # gs) (Suc (bheight Y)) \<and> root_color (sib_tree F) = BLACK \<and>
        (frame_color F = BLACK \<longrightarrow> \<not> kids_black (sib_tree F)))"

definition loop_post :: "'s rbtree \<Rightarrow> rbt \<Rightarrow> (bool \<times> addr \<times> addr \<times> addr \<times> 's rbtree) option \<Rightarrow> bool" where
  "loop_post h t res \<longleftrightarrow>
     (case res of None \<Rightarrow> False
      | Some (returned, ch, cp, sib, h') \<Rightarrow> if returned then dfix h t h' else stuck h t ch cp sib h')"

lemma loop_post_trans:
  "same_data h h1 \<Longrightarrow> inorder t1 = inorder t \<Longrightarrow> loop_post h1 t1 res \<Longrightarrow> loop_post h t res"
  by (fastforce simp: loop_post_def dfix_def stuck_def split: option.splits prod.splits if_splits
      intro: same_data_trans)

lemma cok_sib:
  assumes "cok (F # gs) (Suc n)"
  shows "sib_tree F \<noteq> Lf" "root_color (sib_tree F) = RED \<Longrightarrow> frame_color F = BLACK"
    "invc (sib_tree F)" "invh (sib_tree F)" "bheight (sib_tree F) = Suc n"
  using assms by (cases F; auto)+

lemma delete_fixup_red_skip: "color h sib = BLACK \<Longrightarrow> delete_fixup_red ch cp sib h = (sib, h)"
  by (simp add: delete_fixup_red_def)

lemma loop_red_sibling:
  assumes r: "rep h (plug X (F # gs))" and ok: "invc X" "invh X" "root_color X = BLACK" "cok (F # gs) (Suc (bheight X))"
    and red: "root_color (sib_tree F) = RED"
  shows "loop_post h (plug X (F # gs)) (delete_fixup_loop (ptr X) (frame_addr F) (ptr (sib_tree F)) h)"
proof -
  note sib = cok_sib [OF ok(4)]
  have nil: "frame_addr F \<noteq> NIL" using r by (cases F) (auto simp: rep_plug)
  show ?thesis
  proof (cases F)
    case (LeftOf p c S)
    with red sib obtain sl s sr where S: "S = Nd sl s RED sr" "c = BLACK" by (cases S) auto
    have nl: "sl \<noteq> Lf" using ok(4) LeftOf S by auto
    obtain h' where h': "delete_fixup_red (ptr X) p s h = (ptr sl, h')" "same_data h h'"
      "rep h' (plug (Nd (Nd X p RED sl) s BLACK sr) gs)"
      using delete_red_left [of h X p sl s sr gs] r LeftOf S nl by auto
    have "color h' p = RED" using rep_read(4) [of h' X p RED sl "LeftOf s BLACK sr # gs"] h'(3) by simp
    then have "delete_fixup_loop (ptr X) p s h = Some (False, ptr X, p, ptr sl, h')"
      using h'(1) nil LeftOf by (simp add: delete_fixup_loop.simps [of "ptr X" p s h])
    moreover have "stuck h (plug X (F # gs)) (ptr X) p (ptr sl) h'"
      unfolding stuck_def
      by (intro exI [of _ X] exI [of _ "LeftOf p RED sl"] exI [of _ "LeftOf s BLACK sr # gs"])
        (use h' ok LeftOf S in \<open>auto simp: inorder_plug\<close>)
    ultimately show ?thesis using LeftOf S by (simp add: loop_post_def)
  next
    case (RightOf S p c)
    with red sib obtain sl s sr where S: "S = Nd sl s RED sr" "c = BLACK" by (cases S) auto
    have nl: "sr \<noteq> Lf" using ok(4) RightOf S by auto
    obtain h' where h': "delete_fixup_red (ptr X) p s h = (ptr sr, h')" "same_data h h'"
      "rep h' (plug (Nd sl s BLACK (Nd sr p RED X)) gs)"
      using delete_red_right [of h sl s sr p X gs] r RightOf S nl by auto
    have "color h' p = RED" using rep_read(4) [of h' sr p RED X "RightOf sl s BLACK # gs"] h'(3) by simp
    then have "delete_fixup_loop (ptr X) p s h = Some (False, ptr X, p, ptr sr, h')"
      using h'(1) nil RightOf by (simp add: delete_fixup_loop.simps [of "ptr X" p s h])
    moreover have "stuck h (plug X (F # gs)) (ptr X) p (ptr sr) h'"
      unfolding stuck_def
      by (intro exI [of _ X] exI [of _ "RightOf sr p RED"] exI [of _ "RightOf sl s BLACK # gs"])
        (use h' ok RightOf S in \<open>auto simp: inorder_plug\<close>)
    ultimately show ?thesis using RightOf S by (simp add: loop_post_def)
  qed
qed

lemma delete_loop_ok:
  assumes "rep h (plug X fs)" "invc X" "invh X" "root_color X = BLACK" "cok fs (Suc (bheight X))"
  shows "loop_post h (plug X fs)
    (delete_fixup_loop (ptr X) (upper fs) (sibling_of (upper fs) (ptr X) h) h)"
  using assms
proof (induction fs arbitrary: h X)
  case Nil
  then have "dfix h X h" by (auto simp: dfix_def rb_ok_def)
  then show ?case by (simp add: delete_fixup_loop.simps loop_post_def)
next
  case (Cons F gs)
  note r = Cons.prems(1) and ok = Cons.prems(2-5)
  note sib = cok_sib [OF ok(4)]
  have nil: "frame_addr F \<noteq> NIL" using r by (cases F) (auto simp: rep_plug)
  have sb: "sibling_of (frame_addr F) (ptr X) h = ptr (sib_tree F)" by (rule rep_child_side(3) [OF r sib(1)])
  show ?case
  proof (cases "root_color (sib_tree F)")
    case RED
    then show ?thesis using loop_red_sibling [OF r ok] sb by simp
  next
    case BLACK
    obtain ks where rs: "rep h (plug (sib_tree F) ks)"
      using r by (cases F) (auto intro: that [of "RightOf X a c # gs" for a c] that [of "LeftOf a c X # gs" for a c])
    have skip: "delete_fixup_red (ptr X) (frame_addr F) (ptr (sib_tree F)) h = (ptr (sib_tree F), h)"
      using rep_color_ptr [OF rs] BLACK by (simp add: delete_fixup_red_skip)
    have fc: "color h (frame_addr F) = frame_color F" by (rule rep_frame(1) [OF r])
    note bs = black_sibling_rep [OF r BLACK]
    show ?thesis
    proof (cases "frame_color F = BLACK \<and> kids_black (sib_tree F)")
      case False
      then have "delete_fixup_loop (ptr X) (frame_addr F) (ptr (sib_tree F)) h =
          Some (False, ptr X, frame_addr F, ptr (sib_tree F), h)"
        using nil skip fc bs by (auto simp: delete_fixup_loop.simps [of "ptr X"] Let_def)
      moreover have "stuck h (plug X (F # gs)) (ptr X) (frame_addr F) (ptr (sib_tree F)) h"
        unfolding stuck_def
        by (intro exI [of _ X] exI [of _ F] exI [of _ gs]) (use r ok BLACK False in auto)
      ultimately show ?thesis using sb by (simp add: loop_post_def)
    next
      case True
      obtain sl s sr where S: "sib_tree F = Nd sl s BLACK sr" using sib(1) BLACK by (cases "sib_tree F") auto
      have sn: "s \<noteq> NIL" using rep_read(5) [OF rs [unfolded S]] by simp
      define h1 where "h1 = set_color s RED h"
      obtain Y where Y: "rep h1 (plug Y gs)" "inorder (plug Y gs) = inorder (plug X (F # gs))" "ptr Y = frame_addr F"
        "invc Y" "invh Y" "root_color Y = BLACK" "bheight Y = Suc (bheight X)"
      proof (cases F)
        case (LeftOf p c t)
        then have "rep h1 (plug (Nd X p BLACK (Nd sl s RED sr)) gs)"
          using rep_set_color [of h sl s BLACK sr "RightOf X p BLACK # gs" RED] r S True by (simp add: h1_def)
        then show ?thesis by (rule that) (use LeftOf S True ok in \<open>auto simp: inorder_plug\<close>)
      next
        case (RightOf t p c)
        then have "rep h1 (plug (Nd (Nd sl s RED sr) p BLACK X) gs)"
          using rep_set_color [of h sl s BLACK sr "LeftOf p BLACK X # gs" RED] r S True by (simp add: h1_def)
        then show ?thesis by (rule that) (use RightOf S True ok in \<open>auto simp: inorder_plug\<close>)
      qed
      have "cok gs (Suc (bheight Y))" using ok(4) True Y(7) by (cases F) auto
      from Cons.IH [OF Y(1,4,5,6) this]
      have "loop_post h (plug X (F # gs))
          (delete_fixup_loop (ptr Y) (upper gs) (sibling_of (upper gs) (ptr Y) h1) h1)"
        by (rule loop_post_trans [rotated 2]) (use Y(2) in \<open>simp_all add: same_data_def h1_def\<close>)
      moreover have "parent h (frame_addr F) = upper gs" by (rule rep_frame(2) [OF r])
      moreover have "black_sibling s h" using bs S True by simp
      ultimately show ?thesis
        using nil skip fc sb S sn True Y(3)
        by (simp add: delete_fixup_loop.simps [of "ptr X"] h1_def Let_def)
    qed
  qed
qed

section \<open>The rest of the fix-up\<close>

lemma dfixI:
  assumes "rep h' (plug t' gs)" "inorder (plug t' gs) = inorder t" "same_data h h'"
    "invc t'" "invh t'" "cok gs (bheight t')" "root_color t' = RED \<Longrightarrow> top_black gs"
  shows "dfix h t h'"
  unfolding dfix_def by (rule exI [of _ "plug t' gs"]) (use assms in \<open>auto simp: rb_ok_plug\<close>)

lemma dfix_trans:
  "same_data h h1 \<Longrightarrow> inorder t1 = inorder t \<Longrightarrow> dfix h1 t1 h2 \<Longrightarrow> dfix h t h2"
  by (auto simp: dfix_def intro: same_data_trans)

definition fixup_tail :: "addr \<Rightarrow> addr \<Rightarrow> addr \<Rightarrow> 's rbtree \<Rightarrow> 's rbtree option" where
  "fixup_tail child cp sib h =
     (if color h cp = RED \<and> black_sibling sib h
      then let h = (if sib \<noteq> NIL then set_color sib RED h else h) in Some (set_color cp BLACK h)
      else do {
        _ \<leftarrow> guard (sib \<noteq> NIL);
        let st = delete_fixup_near child cp sib h;
        delete_fixup_far child cp (fst st) (snd st)
      })"

lemma tail_left:
  assumes r: "rep h (plug (Nd X p c S) gs)" and ok: "invc X" "invh X" "root_color X = BLACK"
    "cok (LeftOf p c S # gs) (Suc (bheight X))" "root_color S = BLACK" "c = BLACK \<Longrightarrow> \<not> kids_black S"
  shows "\<exists>h'. fixup_tail (ptr X) p (ptr S) h = Some h' \<and> dfix h (plug (Nd X p c S) gs) h'"
proof -
  obtain sl s sr where S: "S = Nd sl s BLACK sr" using ok(4,5) by (cases S) auto
  have rF: "rep h (plug X (LeftOf p c S # gs))" using r by simp
  have cp: "color h p = c" using rep_read(4) [OF r] by simp
  have bs: "black_sibling s h \<longleftrightarrow> kids_black S" using black_sibling_rep [OF rF] ok(5) S by simp
  have sn: "s \<noteq> NIL" using rep_read(5) [of h sl s BLACK sr "RightOf X p c # gs"] r S by simp
  show ?thesis
  proof (cases "c = RED \<and> kids_black S")
    case True
    define h1 where "h1 = set_color s RED h"
    define h2 where "h2 = set_color p BLACK h1"
    have "rep h1 (plug (Nd X p c (Nd sl s RED sr)) gs)"
      using rep_set_color [of h sl s BLACK sr "RightOf X p c # gs" RED] r S by (simp add: h1_def)
    then have "rep h2 (plug (Nd X p BLACK (Nd sl s RED sr)) gs)"
      using rep_set_color [of h1 X p c "Nd sl s RED sr" gs BLACK] by (simp add: h2_def)
    then have "dfix h (plug (Nd X p c S) gs) h2"
      by (rule dfixI) (use ok S True in \<open>auto simp: inorder_plug same_data_def h1_def h2_def\<close>)
    moreover have "fixup_tail (ptr X) p (ptr S) h = Some h2"
      using cp bs True S sn by (simp add: fixup_tail_def h1_def h2_def)
    ultimately show ?thesis by blast
  next
    case False
    then have nk: "root_color sl = RED \<or> root_color sr = RED" using ok(6) S by (cases c) auto
    have tail: "fixup_tail (ptr X) p (ptr S) h =
        delete_fixup_far (ptr X) p (fst (delete_fixup_near (ptr X) p s h)) (snd (delete_fixup_near (ptr X) p s h))"
      using False cp bs S sn by (auto simp: fixup_tail_def Let_def)
    show ?thesis
    proof (cases "root_color sr")
      case RED
      then obtain ta t tb where sr: "sr = Nd ta t RED tb" by (cases sr) auto
      have "delete_fixup_near (ptr X) p s h = (s, h)" using delete_near_left_skip r S RED by blast
      moreover obtain h' where h': "delete_fixup_far (ptr X) p s h = Some h'" "same_data h h'"
        "rep h' (plug (Nd (Nd X p BLACK sl) s c (Nd ta t BLACK tb)) gs)"
        using delete_far_left [of h X p c sl s ta t tb gs] r S sr by auto
      moreover have "dfix h (plug (Nd X p c S) gs) h'"
        using h'(3) by (rule dfixI) (use ok S sr h'(2) in \<open>auto simp: inorder_plug\<close>)
      ultimately show ?thesis using tail by simp
    next
      case BLACK
      then obtain nl n nr where sl: "sl = Nd nl n RED nr" using nk by (cases sl) auto
      obtain h1 where h1: "delete_fixup_near (ptr X) p s h = (n, h1)" "same_data h h1"
        "rep h1 (plug (Nd X p c (Nd nl n BLACK (Nd nr s RED sr))) gs)"
        using delete_near_left [of h X p c nl n nr s sr gs] r S sl BLACK by auto
      moreover obtain h' where h': "delete_fixup_far (ptr X) p n h1 = Some h'" "same_data h1 h'"
        "rep h' (plug (Nd (Nd X p BLACK nl) n c (Nd nr s BLACK sr)) gs)"
        using delete_far_left [OF h1(3)] by auto
      moreover have "dfix h (plug (Nd X p c S) gs) h'"
        using h'(3) by (rule dfixI)
          (use ok S sl BLACK h'(2) h1(2) in \<open>auto simp: inorder_plug intro: same_data_trans\<close>)
      ultimately show ?thesis using tail by simp
    qed
  qed
qed

lemma tail_right:
  assumes r: "rep h (plug (Nd S p c X) gs)" and ok: "invc X" "invh X" "root_color X = BLACK"
    "cok (RightOf S p c # gs) (Suc (bheight X))" "root_color S = BLACK" "c = BLACK \<Longrightarrow> \<not> kids_black S"
  shows "\<exists>h'. fixup_tail (ptr X) p (ptr S) h = Some h' \<and> dfix h (plug (Nd S p c X) gs) h'"
proof -
  obtain sl s sr where S: "S = Nd sr s BLACK sl" using ok(4,5) by (cases S) auto
  have rF: "rep h (plug X (RightOf S p c # gs))" using r by simp
  have cp: "color h p = c" using rep_read(4) [OF r] by simp
  have bs: "black_sibling s h \<longleftrightarrow> kids_black S" using black_sibling_rep [OF rF] ok(5) S by simp
  have sn: "s \<noteq> NIL" using rep_read(5) [of h sr s BLACK sl "LeftOf p c X # gs"] r S by simp
  show ?thesis
  proof (cases "c = RED \<and> kids_black S")
    case True
    define h1 where "h1 = set_color s RED h"
    define h2 where "h2 = set_color p BLACK h1"
    have "rep h1 (plug (Nd (Nd sr s RED sl) p c X) gs)"
      using rep_set_color [of h sr s BLACK sl "LeftOf p c X # gs" RED] r S by (simp add: h1_def)
    then have "rep h2 (plug (Nd (Nd sr s RED sl) p BLACK X) gs)"
      using rep_set_color [of h1 "Nd sr s RED sl" p c X gs BLACK] by (simp add: h2_def)
    then have "dfix h (plug (Nd S p c X) gs) h2"
      by (rule dfixI) (use ok S True in \<open>auto simp: inorder_plug same_data_def h1_def h2_def\<close>)
    moreover have "fixup_tail (ptr X) p (ptr S) h = Some h2"
      using cp bs True S sn by (simp add: fixup_tail_def h1_def h2_def)
    ultimately show ?thesis by blast
  next
    case False
    then have nk: "root_color sl = RED \<or> root_color sr = RED" using ok(6) S by (cases c) auto
    have tail: "fixup_tail (ptr X) p (ptr S) h =
        delete_fixup_far (ptr X) p (fst (delete_fixup_near (ptr X) p s h)) (snd (delete_fixup_near (ptr X) p s h))"
      using False cp bs S sn by (auto simp: fixup_tail_def Let_def)
    show ?thesis
    proof (cases "root_color sr")
      case RED
      then obtain ta t tb where sr: "sr = Nd tb t RED ta" by (cases sr) auto
      have "delete_fixup_near (ptr X) p s h = (s, h)" using delete_near_right_skip r S RED by blast
      moreover obtain h' where h': "delete_fixup_far (ptr X) p s h = Some h'" "same_data h h'"
        "rep h' (plug (Nd (Nd tb t BLACK ta) s c (Nd sl p BLACK X)) gs)"
        using delete_far_right [of h tb t ta s sl p c X gs] r S sr by auto
      moreover have "dfix h (plug (Nd S p c X) gs) h'"
        using h'(3) by (rule dfixI) (use ok S sr h'(2) in \<open>auto simp: inorder_plug\<close>)
      ultimately show ?thesis using tail by simp
    next
      case BLACK
      then obtain nl n nr where sl: "sl = Nd nr n RED nl" using nk by (cases sl) auto
      obtain h1 where h1: "delete_fixup_near (ptr X) p s h = (n, h1)" "same_data h h1"
        "rep h1 (plug (Nd (Nd (Nd sr s RED nr) n BLACK nl) p c X) gs)"
        using delete_near_right [of h sr s nr n nl p c X gs] r S sl BLACK by auto
      moreover obtain h' where h': "delete_fixup_far (ptr X) p n h1 = Some h'" "same_data h1 h'"
        "rep h' (plug (Nd (Nd sr s BLACK nr) n c (Nd nl p BLACK X)) gs)"
        using delete_far_right [OF h1(3)] by auto
      moreover have "dfix h (plug (Nd S p c X) gs) h'"
        using h'(3) by (rule dfixI)
          (use ok S sl BLACK h'(2) h1(2) in \<open>auto simp: inorder_plug intro: same_data_trans\<close>)
      ultimately show ?thesis using tail by simp
    qed
  qed
qed

lemma delete_fixup_ok:
  assumes "rep h (plug X fs)" "invc X" "invh X" "root_color X = BLACK" "cok fs (Suc (bheight X))"
  shows "\<exists>h'. rbtree_delete_fixup (ptr X) (upper fs) h = Some h' \<and> dfix h (plug X fs) h'"
proof -
  from delete_loop_ok [OF assms]
  obtain ret ch cp sib h1 where l: "delete_fixup_loop (ptr X) (upper fs) (sibling_of (upper fs) (ptr X) h) h =
      Some (ret, ch, cp, sib, h1)" "if ret then dfix h (plug X fs) h1 else stuck h (plug X fs) ch cp sib h1"
    by (auto simp: loop_post_def split: option.splits prod.splits)
  show ?thesis
  proof (cases ret)
    case True
    then show ?thesis using l by (simp add: rbtree_delete_fixup_def)
  next
    case False
    then obtain Y F gs where st: "rep h1 (plug Y (F # gs))" "inorder (plug Y (F # gs)) = inorder (plug X fs)"
      "same_data h h1" "ch = ptr Y" "cp = frame_addr F" "sib = ptr (sib_tree F)" "root_color Y = BLACK" "invc Y"
      "invh Y" "cok (F # gs) (Suc (bheight Y))" "root_color (sib_tree F) = BLACK"
      "frame_color F = BLACK \<longrightarrow> \<not> kids_black (sib_tree F)"
      using l(2) by (auto simp: stuck_def)
    have "\<exists>h'. fixup_tail ch cp sib h1 = Some h' \<and> dfix h1 (plug Y (F # gs)) h'"
    proof (cases F)
      case (LeftOf p c S)
      then show ?thesis using tail_left [of h1 Y p c S gs] st by simp
    next
      case (RightOf S p c)
      then show ?thesis using tail_right [of h1 S p c Y gs] st by simp
    qed
    then obtain h' where "fixup_tail ch cp sib h1 = Some h'" "dfix h1 (plug Y (F # gs)) h'" by blast
    then show ?thesis
      using l(1) False dfix_trans [OF st(3,2)] by (auto simp: rbtree_delete_fixup_def fixup_tail_def Let_def)
  qed
qed

section \<open>Unlinking a node with at most one child\<close>

lemma rep_unlink:
  assumes r: "rep h (plug (Nd l d c r) fs)" and one: "l = Lf \<or> r = Lf" and ch: "ch = (if l = Lf then r else l)"
  obtains h1 h2 where "change_parent_ptr (upper fs) d (ptr ch) h = Some h1" "parent h1 d = upper fs"
    "change_child_ptr (ptr ch) d (upper fs) h1 = Some h2" "rep h2 (plug ch fs)" "same_data h h2"
    "parent h2 d = upper fs" "color h2 = color h"
proof -
  have dist: "distinct (before fs @ inorder ch @ after fs)" "d \<notin> addrs ch" "d \<notin> caddrs fs"
    and nn: "NIL \<notin> addrs ch \<union> caddrs fs" "NULL \<notin> addrs ch \<union> caddrs fs"
    and se: "sentinel h" and root: "rb_root h = plug_root fs d" and dn: "d \<noteq> NIL" and dp: "parent h d = upper fs"
    and sh: "shape (parent h) (left h) (right h) (color h) ch d"
    and cs: "cshape (parent h) (left h) (right h) (color h) fs d"
    using r [unfolded rep_plug] one ch by auto
  define h1 where "h1 = (case fs of [] \<Rightarrow> h\<lparr>rb_root := ptr ch\<rparr>
    | LeftOf p _ _ # _ \<Rightarrow> set_left p (ptr ch) h | RightOf _ p _ # _ \<Rightarrow> set_right p (ptr ch) h)"
  have c1: "change_parent_ptr (upper fs) d (ptr ch) h = Some h1"
  proof (cases fs rule: frame_exhaust_list)
    case 1
    then show ?thesis using root by (simp add: change_parent_ptr_def h1_def)
  next
    case (2 p k u gs)
    have "ptr u \<noteq> d" using dist(3) dn 2 ptr_eqD [of u d] by auto
    then show ?thesis using 2 cs nn by (auto simp: change_parent_ptr_def h1_def)
  next
    case (3 u p k gs)
    have "ptr u \<noteq> d" using dist(3) dn 3 ptr_eqD [of u d] by auto
    then show ?thesis using 3 cs nn by (auto simp: change_parent_ptr_def h1_def)
  qed
  have k1: "parent h1 = parent h" "color h1 = color h" "node_val h1 = node_val h" "rb_count h1 = rb_count h"
    "rb_cmp h1 = rb_cmp h"
    by (simp_all add: h1_def split: list.splits frame.splits)
  define h2 where "h2 = (if ptr ch = NIL then h1 else set_parent (ptr ch) (upper fs) h1)"
  have c2: "change_child_ptr (ptr ch) d (upper fs) h1 = Some h2"
    using sh by (cases ch) (simp_all add: change_child_ptr_def h2_def k1)
  have k2: "color h2 = color h" "same_data h h2" "left h2 = left h1" "right h2 = right h1" "rb_root h2 = rb_root h1"
    by (simp_all add: h2_def k1 same_data_def)
  have p2: "parent h2 = (if ptr ch = NIL then parent h else (parent h)(ptr ch := upper fs))"
    by (simp add: h2_def k1)
  have dc: "ptr ch \<noteq> d" using dist(2) dn ptr_eqD [of ch d] by auto
  have pc: "ptr ch \<notin> set (before fs)" "ptr ch \<notin> set (after fs)"
    using ptr_in [of ch] nn(1) dist(1) by auto
  have sh': "shape (parent h2) (left h) (right h) (color h) ch (upper fs)"
    using sh dist(1) nn(1) unfolding p2 by (cases ch) auto
  have "rep h2 (plug ch fs)"
  proof (cases fs rule: frame_exhaust_list)
    case 1
    then show ?thesis
      using sh' se dist nn k2 p2 by (auto simp: rep_def h1_def sentinel_def)
  next
    case (2 p k u gs)
    then show ?thesis
      using sh' se dist nn k2 p2 cs root pc by (auto simp: rep_plug h1_def sentinel_def)
  next
    case (3 u p k gs)
    then show ?thesis
      using sh' se dist nn k2 p2 cs root pc by (auto simp: rep_plug h1_def sentinel_def)
  qed
  moreover have "parent h2 d = upper fs" using p2 dc dp by simp
  ultimately show thesis using that [OF c1 _ c2] k1(1) k2(1,2) dp by simp
qed

text \<open>Fields of a node outside the tree may change.\<close>

lemma rep_outside:
  assumes "rep h t" "d \<notin> addrs t" "d \<noteq> NIL"
  shows "rep (set_parent d a h) t" "rep (set_left d a h) t" "rep (set_right d a h) t" "rep (set_color d c h) t"
  using assms by (auto simp: rep_def sentinel_def)

definition clear_node :: "addr \<Rightarrow> 's rbtree \<Rightarrow> 's rbtree" where
  "clear_node d h = set_color d BLACK (set_right d NIL (set_left d NIL (set_parent d NIL h)))"

lemma rep_clear:
  assumes "rep h t" "d \<notin> addrs t" "d \<noteq> NIL"
  shows "rep (clear_node d h) t" "same_data h (clear_node d h)"
proof -
  show "rep (clear_node d h) t" unfolding clear_node_def using assms by (intro rep_outside)
  show "same_data h (clear_node d h)" by (simp add: clear_node_def same_data_def)
qed

definition unlink_node :: "addr \<Rightarrow> 's rbtree \<Rightarrow> 's rbtree option" where
  "unlink_node d h = do {
     _ \<leftarrow> guard (left h d = NIL \<or> right h d = NIL);
     let child = (if left h d \<noteq> NIL then left h d else right h d);
     h \<leftarrow> change_parent_ptr (parent h d) d child h;
     h \<leftarrow> change_child_ptr child d (parent h d) h;
     h \<leftarrow> (if color h d = RED then Some h
          else if color h child = RED
          then Some (if child \<noteq> NIL then set_color child BLACK h else h)
          else rbtree_delete_fixup child (parent h d) h);
     Some (clear_node d h)
   }"

lemma ptr_NIL:
  assumes "rep h (plug t fs)"
  shows "ptr t = NIL \<longleftrightarrow> t = Lf"
  using assms by (cases t) (auto simp: rep_plug)

lemma unlink_ok:
  assumes r: "rep h (plug (Nd l d c r) fs)" and one: "l = Lf \<or> r = Lf" and ok: "rb_ok (plug (Nd l d c r) fs)"
  shows "\<exists>h' t'. unlink_node d h = Some h' \<and> rep h' t' \<and> rb_ok t' \<and>
    inorder t' = before fs @ inorder l @ inorder r @ after fs \<and> same_data h h'"
proof -
  define ch where "ch = (if l = Lf then r else l)"
  obtain h1 h2 where u: "change_parent_ptr (upper fs) d (ptr ch) h = Some h1" "parent h1 d = upper fs"
    "change_child_ptr (ptr ch) d (upper fs) h1 = Some h2" "rep h2 (plug ch fs)" "same_data h h2"
    "parent h2 d = upper fs" "color h2 = color h"
    using rep_unlink [OF r one ch_def] by metis
  note rd = rep_read [OF r]
  have ll: "left h d = NIL \<longleftrightarrow> l = Lf" using rd(2) ptr_NIL [of h l "LeftOf d c r # fs"] r by simp
  have rr: "right h d = NIL \<longleftrightarrow> r = Lf" using rd(3) ptr_NIL [of h r "RightOf l d c # fs"] r by simp
  have child: "(if left h d \<noteq> NIL then left h d else right h d) = ptr ch"
    using ll rd(2,3) by (simp add: ch_def)
  have cc: "color h2 (ptr ch) = root_color ch" using rep_color_ptr u(4) by blast
  have dout: "d \<notin> addrs (plug ch fs)" "d \<noteq> NIL"
    using r rd(5) one by (auto simp: rep_plug inorder_plug ch_def)
  have okn: "cok fs (bheight (Nd l d c r))" "invc (Nd l d c r)" "invh (Nd l d c r)" "c = RED \<Longrightarrow> top_black fs"
    using ok unfolding rb_ok_plug root_color.simps by blast+
  have "\<exists>h3. (if color h2 d = RED then Some h2
      else if color h2 (ptr ch) = RED then Some (if ptr ch \<noteq> NIL then set_color (ptr ch) BLACK h2 else h2)
      else rbtree_delete_fixup (ptr ch) (parent h2 d) h2) = Some h3 \<and> dfix h2 (plug ch fs) h3"
  proof (cases c)
    case RED
    have "ch = Lf" using okn(2,3) one RED by (cases ch) (auto simp: ch_def split: if_splits)
    then have "dfix h2 (plug ch fs) h2"
      using u(4) okn RED one by (intro dfixI [OF u(4)]) (auto simp: ch_def split: if_splits)
    then show ?thesis using rd(4) RED u(7) by simp
  next
    case BLACK
    show ?thesis
    proof (cases "root_color ch")
      case RED
      then obtain cl b cr where b: "ch = Nd cl b RED cr" by (cases ch) auto
      have "rep (set_color b BLACK h2) (plug (Nd cl b BLACK cr) fs)"
        using rep_set_color [of h2 cl b RED cr fs BLACK] u(4) b by simp
      then have "dfix h2 (plug ch fs) (set_color b BLACK h2)"
        by (rule dfixI) (use okn one BLACK b in \<open>auto simp: inorder_plug same_data_def ch_def split: if_splits\<close>)
      moreover have "b \<noteq> NIL" using rep_read(5) u(4) b by blast
      ultimately show ?thesis using rd(4) BLACK RED cc u(7) b by simp
    next
      case BLACK2: BLACK
      have "invc ch" "invh ch" "cok fs (Suc (bheight ch))"
        using okn one BLACK by (auto simp: ch_def split: if_splits)
      from delete_fixup_ok [OF u(4) this(1,2) BLACK2 this(3)] show ?thesis
        using rd(4) BLACK BLACK2 cc u(6,7) by simp
    qed
  qed
  then obtain h3 where h3: "(if color h2 d = RED then Some h2
      else if color h2 (ptr ch) = RED then Some (if ptr ch \<noteq> NIL then set_color (ptr ch) BLACK h2 else h2)
      else rbtree_delete_fixup (ptr ch) (parent h2 d) h2) = Some h3" "dfix h2 (plug ch fs) h3"
    by blast
  from h3(2) obtain t' where t': "rep h3 t'" "inorder t' = inorder (plug ch fs)" "rb_ok t'" "same_data h2 h3"
    by (auto simp: dfix_def)
  have "d \<notin> addrs t'" using t'(2) dout by simp
  note cl = rep_clear [OF t'(1) this dout(2)]
  have "unlink_node d h = Some (clear_node d h3)"
    using u(1,2,3) h3(1) rd(1) child ll rr one by (simp add: unlink_node_def)
  moreover have "inorder t' = before fs @ inorder l @ inorder r @ after fs"
    using t'(2) one by (auto simp: inorder_plug ch_def)
  moreover have "same_data h (clear_node d h3)"
    using u(5) t'(4) cl(2) by (blast intro: same_data_trans)
  ultimately show ?thesis using cl(1) t'(3) by blast
qed

end
