(* ===== verification/Rb_Swap.thy ===== *)
theory Rb_Swap
  imports Rb_Delete
begin

text \<open>
  The first step of \<open>rbtree_delete\<close>: a node with two children changes places with its successor.
  The pointer surgery of the code is shown to be a renaming of the two addresses in the tree.
\<close>

section \<open>Renaming\<close>

fun rename :: "(addr \<Rightarrow> addr) \<Rightarrow> rbt \<Rightarrow> rbt" where
  "rename f Lf = Lf"
| "rename f (Nd l a c r) = Nd (rename f l) (f a) c (rename f r)"

lemma inorder_rename: "inorder (rename f t) = map f (inorder t)"
  by (induction t) auto

lemma ptr_rename: "f NIL = NIL \<Longrightarrow> ptr (rename f t) = f (ptr t)"
  by (cases t) auto

lemma root_color_rename [simp]: "root_color (rename f t) = root_color t"
  by (cases t) auto

lemma bheight_rename [simp]: "bheight (rename f t) = bheight t"
  by (induction t) auto

lemma balance_rename [simp]: "invc (rename f t) = invc t" "invh (rename f t) = invh t"
  by (induction t) auto

lemma rb_ok_rename [simp]: "rb_ok (rename f t) = rb_ok t"
  by (simp add: rb_ok_def)

lemma rename_id: "(\<And>a. a \<in> addrs t \<Longrightarrow> f a = a) \<Longrightarrow> rename f t = t"
  by (induction t) auto

lemma shape_rename:
  assumes "shape P L R C t par" "f NIL = NIL"
    "\<And>a. a \<in> addrs t \<Longrightarrow> P' (f a) = f (P a) \<and> L' (f a) = f (L a) \<and> R' (f a) = f (R a) \<and> C' (f a) = C a"
  shows "shape P' L' R' C' (rename f t) (f par)"
  using assms by (induction t arbitrary: par) (auto simp: ptr_rename)

fun rename_frame :: "(addr \<Rightarrow> addr) \<Rightarrow> frame \<Rightarrow> frame" where
  "rename_frame f (LeftOf a c r) = LeftOf (f a) c (rename f r)"
| "rename_frame f (RightOf l a c) = RightOf (rename f l) (f a) c"

lemma rename_plug: "rename f (plug t fs) = plug (rename f t) (map (rename_frame f) fs)"
  by (induction t fs rule: plug.induct) auto

lemma rename_frames_id: "(\<And>a. a \<in> caddrs fs \<Longrightarrow> f a = a) \<Longrightarrow> map (rename_frame f) fs = fs"
  by (induction fs rule: before.induct) (auto simp: rename_id)

definition swp :: "addr \<Rightarrow> addr \<Rightarrow> addr \<Rightarrow> addr" where
  "swp d m a = (if a = d then m else if a = m then d else a)"

lemma swp_simps [simp]: "swp d m d = m" "swp d m m = d" "a \<noteq> d \<Longrightarrow> a \<noteq> m \<Longrightarrow> swp d m a = a"
  "swp d m (swp d m a) = a"
  by (auto simp: swp_def)

lemma inj_swp: "inj (swp d m)"
  by (rule inj_on_inverseI [of _ "swp d m"]) simp

lemma rep_rename:
  assumes r: "rep h t" and dm: "d \<in> addrs t" "m \<in> addrs t"
    and s: "sentinel h'" "rb_root h' = swp d m (rb_root h)"
    and f: "\<And>a. a \<in> addrs t \<Longrightarrow> parent h' a = swp d m (parent h (swp d m a))"
      "\<And>a. a \<in> addrs t \<Longrightarrow> left h' a = swp d m (left h (swp d m a))"
      "\<And>a. a \<in> addrs t \<Longrightarrow> right h' a = swp d m (right h (swp d m a))"
      "\<And>a. a \<in> addrs t \<Longrightarrow> color h' a = color h (swp d m a)"
  shows "rep h' (rename (swp d m) t)"
proof -
  have n: "swp d m NIL = NIL" using r dm by (auto simp: rep_def swp_def)
  have in_t: "swp d m a \<in> addrs t \<longleftrightarrow> a \<in> addrs t" for a using dm by (auto simp: swp_def)
  have "shape (parent h') (left h') (right h') (color h') (rename (swp d m) t) (swp d m NIL)"
    by (rule shape_rename [of "parent h" "left h" "right h" "color h"]) (use r n f in_t in \<open>auto simp: rep_def\<close>)
  moreover have "distinct (map (swp d m) (inorder t))"
    using r inj_swp by (auto simp: rep_def distinct_map intro: inj_on_subset)
  moreover have "a \<notin> swp d m ` addrs t" if "a \<notin> addrs t" for a
    using that in_t by auto
  ultimately show ?thesis
    using r s n by (auto simp: rep_def inorder_rename ptr_rename)
qed

section \<open>Links between parents and children\<close>

lemma shape_child:
  assumes "shape P L R C t par" "a \<in> addrs t"
  shows "L a \<noteq> NIL \<Longrightarrow> P (L a) = a" "R a \<noteq> NIL \<Longrightarrow> P (R a) = a"
proof -
  have "(L a \<noteq> NIL \<longrightarrow> P (L a) = a) \<and> (R a \<noteq> NIL \<longrightarrow> P (R a) = a)"
    using assms
  proof (induction t arbitrary: par)
    case (Nd l b c r)
    have "ptr l \<noteq> NIL \<longrightarrow> P (ptr l) = b" "ptr r \<noteq> NIL \<longrightarrow> P (ptr r) = b"
      using Nd.prems(1) by (cases l; cases r; auto)+
    then show ?case using Nd by auto
  qed simp
  then show "L a \<noteq> NIL \<Longrightarrow> P (L a) = a" "R a \<noteq> NIL \<Longrightarrow> P (R a) = a" by auto
qed

lemma shape_parent:
  assumes "shape P L R C t par" "a \<in> addrs t"
  shows "a = ptr t \<and> P a = par \<or> P a \<in> addrs t \<and> (L (P a) = a \<or> R (P a) = a)"
  using assms
proof (induction t arbitrary: par)
  case (Nd l b c r)
  have s: "shape P L R C l b" "shape P L R C r b" "L b = ptr l" "R b = ptr r" "P b = par"
    using Nd.prems(1) by auto
  consider "a = b" | "a \<in> addrs l" | "a \<in> addrs r" using Nd.prems(2) by auto
  then show ?case
  proof cases
    case 1
    then show ?thesis using s by simp
  next
    case 2
    then show ?thesis using Nd.IH(1) [OF s(1) 2] s(3) by auto
  next
    case 3
    then show ?thesis using Nd.IH(2) [OF s(2) 3] s(4) by auto
  qed
qed simp

section \<open>The pointer exchange\<close>

definition put_child :: "addr \<Rightarrow> addr \<Rightarrow> addr \<Rightarrow> 's rbtree \<Rightarrow> 's rbtree" where
  "put_child par old new h =
     (if par = NIL then h\<lparr>rb_root := new\<rparr>
      else if left h par = old then set_left par new h else set_right par new h)"

lemma put_child_fields [simp]:
  "parent (put_child par old new h) = parent h" "color (put_child par old new h) = color h"
  "node_val (put_child par old new h) = node_val h" "rb_count (put_child par old new h) = rb_count h"
  "rb_cmp (put_child par old new h) = rb_cmp h"
  "rb_root (put_child par old new h) = (if par = NIL then new else rb_root h)"
  "left (put_child par old new h) = (if par \<noteq> NIL \<and> left h par = old then (left h)(par := new) else left h)"
  "right (put_child par old new h) = (if par \<noteq> NIL \<and> left h par \<noteq> old then (right h)(par := new) else right h)"
  by (simp_all add: put_child_def)

lemma change_parent_put:
  assumes "par = NIL \<Longrightarrow> rb_root h = old" "par \<noteq> NIL \<Longrightarrow> left h par = old \<or> right h par = old"
    "par \<noteq> NIL \<Longrightarrow> left h par \<noteq> right h par"
  shows "change_parent_ptr par old new h = Some (put_child par old new h)"
  using assms by (auto simp: change_parent_ptr_def put_child_def)

lemma change_child_set:
  assumes "ch \<noteq> NIL \<Longrightarrow> parent h ch = old"
  shows "change_child_ptr ch old new h = Some (if ch = NIL then h else set_parent ch new h)"
  using assms by (simp add: change_child_ptr_def)

lemma change_child_again:
  assumes "ch \<noteq> NIL \<Longrightarrow> parent h ch = new" "old \<noteq> new"
  shows "change_child_ptr ch old new h = Some h"
  using assms by (auto simp: change_child_ptr_def)

text \<open>The last assignments of the exchange: the links of the two nodes change places.\<close>

definition swap_links :: "addr \<Rightarrow> addr \<Rightarrow> 's rbtree \<Rightarrow> 's rbtree" where
  "swap_links d m h =
     (let h = h\<lparr>parent := (parent h)(d := parent h m, m := parent h d)\<rparr>;
          h = h\<lparr>left := (left h)(d := left h m, m := left h d)\<rparr>
      in h\<lparr>right := (right h)(d := right h m, m := right h d)\<rparr>)"

definition swap_colors :: "addr \<Rightarrow> addr \<Rightarrow> 's rbtree \<Rightarrow> 's rbtree" where
  "swap_colors d m h = h\<lparr>color := (color h)(d := color h m, m := color h d)\<rparr>"

lemma swap_links_fields [simp]:
  "parent (swap_links d m h) = (parent h)(d := parent h m, m := parent h d)"
  "left (swap_links d m h) = (left h)(d := left h m, m := left h d)"
  "right (swap_links d m h) = (right h)(d := right h m, m := right h d)"
  "color (swap_links d m h) = color h" "node_val (swap_links d m h) = node_val h"
  "rb_root (swap_links d m h) = rb_root h" "rb_count (swap_links d m h) = rb_count h"
  "rb_cmp (swap_links d m h) = rb_cmp h"
  by (simp_all add: swap_links_def)

lemma swap_colors_fields [simp]:
  "parent (swap_colors d m h) = parent h" "left (swap_colors d m h) = left h"
  "right (swap_colors d m h) = right h" "color (swap_colors d m h) = (color h)(d := color h m, m := color h d)"
  "node_val (swap_colors d m h) = node_val h" "rb_root (swap_colors d m h) = rb_root h"
  "rb_count (swap_colors d m h) = rb_count h" "rb_cmp (swap_colors d m h) = rb_cmp h"
  by (simp_all add: swap_colors_def)

text \<open>The state after the exchange, assignment by assignment.\<close>

definition exchanged :: "addr \<Rightarrow> addr \<Rightarrow> 's rbtree \<Rightarrow> 's rbtree" where
  "exchanged d m h =
     (let rm = right h m; rd = right h d; ld = left h d;
          h = swap_colors d m h;
          h = put_child (parent h d) d m h;
          h = (if rd \<noteq> m then put_child (parent h m) m d h else h);
          h = (if rm = NIL then h else set_parent rm d h);
          h = set_parent ld m h
      in swap_links d m (if rd \<noteq> m then set_parent rd m h else set_parent m m (set_right d d h)))"

text \<open>What the exchange needs to know of the two nodes; \<open>m\<close> is the leftmost node right of \<open>d\<close>.\<close>

definition exchangeable :: "addr \<Rightarrow> addr \<Rightarrow> 's rbtree \<Rightarrow> bool" where
  "exchangeable d m h \<longleftrightarrow>
     d \<noteq> m \<and> d \<noteq> NIL \<and> m \<noteq> NIL \<and> left h d \<noteq> NIL \<and> right h d \<noteq> NIL \<and> left h m = NIL \<and>
     left h d \<noteq> m \<and> right h d \<noteq> left h d \<and> right h m \<noteq> d \<and> right h m \<noteq> m \<and>
     right h m \<noteq> left h d \<and> right h m \<noteq> right h d \<and> left h d \<noteq> d \<and> right h d \<noteq> d \<and>
     parent h (left h d) = d \<and> parent h (right h d) = d \<and> (right h m \<noteq> NIL \<longrightarrow> parent h (right h m) = m) \<and>
     parent h d \<noteq> d \<and> parent h d \<noteq> m \<and> parent h m \<noteq> m \<and> parent h m \<noteq> NIL \<and> parent h m \<noteq> parent h d \<and>
     (parent h d = NIL \<longrightarrow> rb_root h = d) \<and>
     (parent h d \<noteq> NIL \<longrightarrow> (left h (parent h d) = d \<or> right h (parent h d) = d) \<and>
        left h (parent h d) \<noteq> right h (parent h d)) \<and>
     (right h d = m \<longleftrightarrow> parent h m = d) \<and>
     (right h d \<noteq> m \<longrightarrow> left h (parent h m) = m \<and> right h (parent h m) \<noteq> m)"

lemma swap_nodes_eval:
  assumes "exchangeable d m h"
  shows "swap_nodes d m h = Some (exchanged d m h)"
proof -
  note a = assms [unfolded exchangeable_def]
  define h0 where "h0 = swap_colors d m h"
  define h1 where "h1 = put_child (parent h0 d) d m h0"
  define h2 where "h2 = (if right h d \<noteq> m then put_child (parent h1 m) m d h1 else h1)"
  define h3 where "h3 = (if right h m = NIL then h2 else set_parent (right h m) d h2)"
  define h4 where "h4 = set_parent (left h d) m h3"
  define h5 where "h5 = (if right h d \<noteq> m then set_parent (right h d) m h4 else set_parent m m (set_right d d h4))"
  have k0: "parent h0 = parent h" "left h0 = left h" "right h0 = right h" "rb_root h0 = rb_root h"
    by (simp_all add: h0_def)
  have c1: "change_parent_ptr (parent h0 d) d m h0 = Some h1"
    using a unfolding h1_def by (intro change_parent_put) (simp_all add: k0)
  have k1: "parent h1 = parent h" "left h1 d = left h d" "right h1 d = right h d" "left h1 m = NIL"
    "right h1 m = right h m"
    using a by (auto simp: h1_def k0)
  have c2: "(if right h1 d \<noteq> m then change_parent_ptr (parent h1 m) m d h1 else Some h1) = Some h2"
    using a by (auto simp: k0 k1 h2_def h1_def intro!: change_parent_put split: if_splits)
  have k2: "parent h2 = parent h" "left h2 d = left h d" "right h2 d = right h d" "left h2 m = NIL"
    "right h2 m = right h m"
    using a by (auto simp: h2_def k1)
  have c3: "change_child_ptr (left h2 m) m d h2 = Some h2" by (simp add: k2 change_child_ptr_def)
  have c4: "change_child_ptr (right h2 m) m d h2 = Some h3"
    using a by (simp add: k2 h3_def change_child_set)
  have k3: "parent h3 = (if right h m = NIL then parent h else (parent h)(right h m := d))"
    "left h3 = left h2" "right h3 = right h2"
    by (simp_all add: h3_def k2)
  have c5: "change_child_ptr (right h3 m) m d h3 = Some h3"
    using a by (intro change_child_again) (auto simp: k2 k3)
  have c6: "change_child_ptr (left h3 d) d m h3 = Some h4"
    using a by (simp add: k2 k3 h4_def change_child_set)
  have k4: "parent h4 = (parent h3)(left h d := m)" "left h4 = left h2" "right h4 = right h2"
    by (simp_all add: h4_def k3)
  define h4' where "h4' = (if right h d \<noteq> m then set_parent (right h d) m h4 else h4)"
  have c7: "(if right h4 d \<noteq> m then change_child_ptr (right h4 d) d m h4 else Some h4) = Some h4'"
    using a by (simp add: k2 k3 k4 change_child_set h4'_def)
  have c8: "(if right h4' d = m then set_parent m m (set_right d d h4') else h4') = h5"
    using a by (simp add: h5_def h4'_def k4 k2)
  have e: "exchanged d m h = swap_links d m h5"
    unfolding exchanged_def Let_def h0_def [symmetric] h1_def [symmetric] h2_def [symmetric] h3_def [symmetric]
      h4_def [symmetric] h5_def [symmetric] ..
  show ?thesis
    unfolding swap_nodes_def Let_def swap_colors_def [symmetric] h0_def [symmetric] c1 bind.bind_lunit
      c2 c3 c4 c5 c6 c7 c8
    unfolding e swap_links_def Let_def ..
qed

lemma exchanged_fields:
  assumes "exchangeable d m h"
  shows "parent (exchanged d m h) a =
      (if a = d then if right h d = m then m else parent h m
       else if a = m then parent h d
       else if a = left h d \<or> a = right h d then m
       else if right h m \<noteq> NIL \<and> a = right h m then d else parent h a)"
    and "left (exchanged d m h) a =
      (if a = d then NIL else if a = m then left h d
       else if right h d \<noteq> m \<and> a = parent h m then d
       else if a \<noteq> NIL \<and> a = parent h d \<and> left h a = d then m else left h a)"
    and "right (exchanged d m h) a =
      (if a = d then right h m else if a = m then if right h d = m then d else right h d
       else if a \<noteq> NIL \<and> a = parent h d \<and> left h a \<noteq> d then m else right h a)"
    and "color (exchanged d m h) a = color h (swp d m a)"
    and "rb_root (exchanged d m h) = (if parent h d = NIL then m else rb_root h)"
    and "same_data h (exchanged d m h)"
proof -
  note x = assms [unfolded exchangeable_def]
  show "color (exchanged d m h) a = color h (swp d m a)"
    by (simp add: exchanged_def Let_def swp_def)
  show "rb_root (exchanged d m h) = (if parent h d = NIL then m else rb_root h)"
    using x by (simp add: exchanged_def Let_def)
  show "same_data h (exchanged d m h)"
    by (simp add: exchanged_def Let_def same_data_def)
  have y: "d \<noteq> m" "m \<noteq> d" "d \<noteq> NIL" "m \<noteq> NIL" "parent h d \<noteq> d" "parent h d \<noteq> m" "parent h m \<noteq> m" "parent h m \<noteq> NIL"
    "parent h m \<noteq> parent h d" "left h m = NIL" "left h d \<noteq> m" "left h d \<noteq> d" "right h m \<noteq> d" "right h m \<noteq> m"
    "right h d \<noteq> d" "right h m \<noteq> left h d" "right h m \<noteq> right h d" "right h d \<noteq> left h d"
    using x by auto
  have far: "parent h m \<noteq> d" "left h (parent h m) = m" if "right h d \<noteq> m" using x that by auto
  show "parent (exchanged d m h) a =
      (if a = d then if right h d = m then m else parent h m
       else if a = m then parent h d
       else if a = left h d \<or> a = right h d then m
       else if right h m \<noteq> NIL \<and> a = right h m then d else parent h a)"
    using y by (cases "right h d = m"; cases "right h m = NIL") (simp_all add: exchanged_def Let_def)
  show "left (exchanged d m h) a =
      (if a = d then NIL else if a = m then left h d
       else if right h d \<noteq> m \<and> a = parent h m then d
       else if a \<noteq> NIL \<and> a = parent h d \<and> left h a = d then m else left h a)"
    using y far by (cases "right h d = m"; cases "parent h d = NIL"; cases "left h (parent h d) = d")
      (auto simp: exchanged_def Let_def)
  show "right (exchanged d m h) a =
      (if a = d then right h m else if a = m then if right h d = m then d else right h d
       else if a \<noteq> NIL \<and> a = parent h d \<and> left h a \<noteq> d then m else right h a)"
    using y far by (cases "right h d = m"; cases "parent h d = NIL"; cases "left h (parent h d) = d")
      (auto simp: exchanged_def Let_def)
qed

section \<open>The exchange in a tree\<close>

lemma leftmost_ok:
  assumes "rep h (plug t fs)" "t \<noteq> Lf"
  shows "\<exists>m cm mr gs. leftmost (ptr t) h = Some m \<and> t = plug (Nd Lf m cm mr) gs \<and> before gs = []"
  using assms
proof (induction t arbitrary: fs)
  case (Nd l a c r)
  have la: "left h a = ptr l" using rep_read(2) [OF Nd.prems(1)] .
  have rl: "rep h (plug l (LeftOf a c r # fs))" using Nd.prems(1) by simp
  show ?case
  proof (cases "l = Lf")
    case True
    then have "leftmost a h = Some a" using la by (simp add: leftmost.simps [of a h])
    then show ?thesis using True by (intro exI [of _ a] exI [of _ c] exI [of _ r] exI [of _ "[]"]) simp
  next
    case False
    obtain m cm mr gs where m: "leftmost (ptr l) h = Some m" "l = plug (Nd Lf m cm mr) gs" "before gs = []"
      using Nd.IH(1) [OF rl False] by blast
    have "ptr l \<noteq> NIL" using ptr_NIL [OF rl] False by simp
    then have "leftmost a h = Some m" using la m(1) by (simp add: leftmost.simps [of a h])
    moreover have "before (gs @ [LeftOf a c r]) = []" using m(3)
      by (induction gs rule: before.induct) auto
    moreover have "Nd l a c r = plug (Nd Lf m cm mr) (gs @ [LeftOf a c r])" using m(2) by (simp add: plug_append)
    ultimately show ?thesis unfolding ptr.simps by blast
  qed
qed simp

lemma exchangeable_ok:
  assumes r: "rep h (plug (Nd l d c t) fs)" and t: "t = plug (Nd Lf m cm mr) gs" "before gs = []" and l: "l \<noteq> Lf"
  shows "exchangeable d m h"
proof -
  note rd = rep_read [OF r]
  have rt: "rep h (plug t (RightOf l d c # fs))" and rl: "rep h (plug l (LeftOf d c t # fs))" using r by simp_all
  have rm: "rep h (plug (Nd Lf m cm mr) (gs @ RightOf l d c # fs))" using rt t(1) by (simp add: plug_append)
  note rdm = rep_read [OF rm]
  have dist: "distinct (before fs @ (inorder l @ d # inorder t) @ after fs)"
    and nil: "NIL \<notin> addrs l \<union> addrs t \<union> caddrs fs" "NULL \<notin> addrs l \<union> addrs t \<union> caddrs fs"
    and root: "rb_root h = plug_root fs d"
    and cs: "cshape (parent h) (left h) (right h) (color h) fs d"
    using r [unfolded rep_plug] by auto
  have it: "inorder t = m # inorder mr @ after gs" using t by (simp add: inorder_plug)
  have tl: "t \<noteq> Lf" using it by auto
  have "ptr x \<in> addrs x" if "x \<noteq> Lf" for x using that by (cases x) auto
  then have tn: "ptr t \<in> addrs t" "ptr l \<in> addrs l" using l tl by blast+
  have mrn: "ptr mr = NIL \<or> ptr mr \<in> addrs mr" by (rule ptr_in)
  have un: "upper fs = NIL \<or> upper fs \<in> caddrs fs" by (rule upper_in)
  have "ptr t \<notin> addrs mr"
  proof (cases gs)
    case Nil
    then show ?thesis using t dist it by simp
  next
    case (Cons F gs')
    then have "plug_root gs m \<in> set (after gs)" using plug_root_in [of gs m] t(2) by simp
    then show ?thesis using t dist it by (auto simp: ptr_plug)
  qed
  note mrt = this
  have up: "parent h (ptr x) = upper ks" if "rep h (plug x ks)" "x \<noteq> Lf" for x ks
    using that rep_read(1) by (cases x) auto
  have P: "parent h (ptr l) = d" "parent h (ptr t) = d" using up [OF rl l] up [OF rt tl] by simp_all
  have M: "ptr mr \<noteq> NIL \<longrightarrow> parent h (ptr mr) = m"
    using up [of mr "RightOf Lf m cm # gs @ RightOf l d c # fs"] rm by (cases "mr = Lf") auto
  have S: "upper fs \<noteq> NIL \<Longrightarrow> (left h (upper fs) = d \<or> right h (upper fs) = d) \<and> left h (upper fs) \<noteq> right h (upper fs)"
    and R: "upper fs = NIL \<Longrightarrow> rb_root h = d"
  proof -
    show "upper fs = NIL \<Longrightarrow> rb_root h = d" using rep_upper_nil [OF r] root by auto
    show "(left h (upper fs) = d \<or> right h (upper fs) = d) \<and> left h (upper fs) \<noteq> right h (upper fs)" if "upper fs \<noteq> NIL"
    proof (cases fs rule: frame_exhaust_list)
      case (2 p k u ks)
      then have "ptr u \<noteq> d" using ptr_eqD [of u d] dist rd(5) by auto
      then show ?thesis using 2 cs by auto
    next
      case (3 u p k ks)
      then have "ptr u \<noteq> d" using ptr_eqD [of u d] dist rd(5) by auto
      then show ?thesis using 3 cs by auto
    qed (use that in simp)
  qed
  have G: "(ptr t = m \<longleftrightarrow> parent h m = d) \<and> parent h m \<in> insert d (set (after gs)) \<and>
    (ptr t \<noteq> m \<longrightarrow> left h (parent h m) = m \<and> right h (parent h m) \<noteq> m)"
  proof (cases gs)
    case Nil
    then show ?thesis using t rdm(1) by simp
  next
    case (Cons F gs')
    then obtain p k u where F: "F = LeftOf p k u" using t(2) by (cases F) auto
    have pm: "parent h m = p" using rdm(1) Cons F by simp
    have rp: "rep h (plug (Nd (Nd Lf m cm mr) p k u) (gs' @ RightOf l d c # fs))"
      using rm Cons F by simp
    have "ptr u \<noteq> m" using ptr_eqD [of u m] dist rdm(5) it Cons F by auto
    moreover have "ptr t \<noteq> m"
    proof -
      have "ptr t \<in> set (after gs)" using plug_root_in [of gs m] t Cons by (simp add: ptr_plug)
      then show ?thesis using dist it by auto
    qed
    moreover have "p \<noteq> d" using dist it Cons F by auto
    ultimately show ?thesis using pm rep_read(2,3) [OF rp] Cons F by simp
  qed
  have mt: "m \<in> addrs t" "addrs mr \<subseteq> addrs t" "set (after gs) \<subseteq> addrs t" "m \<notin> addrs mr" "m \<notin> set (after gs)"
    using it dist by auto
  have dj: "addrs l \<inter> addrs t = {}" "d \<notin> addrs l" "d \<notin> addrs t" "d \<notin> caddrs fs" "caddrs fs \<inter> addrs t = {}"
    "NIL \<notin> addrs l" "NIL \<notin> addrs t" "NIL \<notin> caddrs fs"
    using dist nil by auto
  have q: "d \<noteq> m" "m \<noteq> NIL" "ptr l \<noteq> NIL" "ptr t \<noteq> NIL" "ptr l \<noteq> m" "ptr t \<noteq> ptr l" "ptr l \<noteq> d" "ptr t \<noteq> d"
    using tn mt dj by auto
  have qr: "ptr mr \<noteq> d" "ptr mr \<noteq> m" "ptr mr \<noteq> ptr l" "ptr mr \<noteq> ptr t"
    using mrn mrt q tn mt dj rd(5) by auto
  have qu: "upper fs \<noteq> d" "upper fs \<noteq> m"
    using un mt dj rd(5) q by auto
  have qm: "parent h m \<noteq> m" "parent h m \<noteq> NIL" "parent h m \<noteq> upper fs"
    using G un mt dj rd(5) q by auto
  show ?thesis
    unfolding exchangeable_def rd(1,2,3) rdm(2,3) ptr.simps
    using q qr qu qm P M R S G rd(5) by simp
qed

lemma exchange_rep:
  assumes r: "rep h (plug (Nd l d c t) fs)" and t: "t = plug (Nd Lf m cm mr) gs" "before gs = []" and l: "l \<noteq> Lf"
  shows "rep (exchanged d m h) (rename (swp d m) (plug (Nd l d c t) fs))"
proof -
  define T where "T = plug (Nd l d c t) fs"
  have rT: "rep h T" using r by (simp add: T_def)
  have x: "exchangeable d m h" by (rule exchangeable_ok [OF r t l])
  note xx = x [unfolded exchangeable_def]
  note ef = exchanged_fields [OF x]
  have "m \<in> addrs t" by (simp add: t inorder_plug)
  then have dm: "d \<in> addrs T" "m \<in> addrs T" by (auto simp: T_def inorder_plug)
  have nT: "NIL \<notin> addrs T" using rT by (simp add: rep_def)
  have shp: "shape (parent h) (left h) (right h) (color h) T NIL" and se: "sentinel h" using rT by (auto simp: rep_def)
  have ch: "left h a \<noteq> NIL \<Longrightarrow> parent h (left h a) = a" "right h a \<noteq> NIL \<Longrightarrow> parent h (right h a) = a"
    if "a \<in> addrs T" for a using shape_child [OF shp that] by auto
  have par: "parent h a = NIL \<or> left h (parent h a) = a \<or> right h (parent h a) = a" if "a \<in> addrs T" for a
    using shape_parent [OF shp that] by auto
  have xd: "d \<noteq> m" "d \<noteq> NIL" "m \<noteq> NIL" "left h m = NIL" "NIL \<noteq> d" "NIL \<noteq> m" "NIL \<noteq> left h d"
    "NIL \<noteq> right h d" "NIL \<noteq> parent h m" "parent h d \<noteq> m"
    "right h m \<noteq> left h d" "right h m \<noteq> right h d" "left h d \<noteq> d" "left h d \<noteq> m" "right h d \<noteq> d" "right h m \<noteq> d" "right h m \<noteq> m" "parent h d \<noteq> d" "parent h m \<noteq> m"
    using xx by metis+
  have xc: "parent h (left h d) = d" "parent h (right h d) = d" "right h m \<noteq> NIL \<Longrightarrow> parent h (right h m) = m"
    "parent h d = NIL \<Longrightarrow> rb_root h = d"
    "parent h d \<noteq> NIL \<Longrightarrow> left h (parent h d) \<noteq> d \<Longrightarrow> right h (parent h d) = d"
    "parent h d \<noteq> NIL \<Longrightarrow> left h (parent h d) = d \<Longrightarrow> right h (parent h d) \<noteq> d"
    "right h d = m \<longleftrightarrow> parent h m = d"
    "right h d \<noteq> m \<Longrightarrow> left h (parent h m) = m" "right h d \<noteq> m \<Longrightarrow> right h (parent h m) \<noteq> m"
    using xx by metis+
  show ?thesis
    unfolding T_def [symmetric]
  proof (rule rep_rename [OF rT dm])
    show "sentinel (exchanged d m h)"
      using se xd by (cases "NIL = right h m") (simp_all add: sentinel_def ef)
    have "parent h (rb_root h) = NIL"
      using rT rep_sentinel(1) [OF rT] by (cases T) (auto simp: rep_def)
    then show "rb_root (exchanged d m h) = swp d m (rb_root h)"
      using xd xc(4) by (cases "parent h d = NIL"; auto simp: ef swp_def)
    fix a assume a: "a \<in> addrs T"
    have an: "a \<noteq> NIL" using a nT by auto
    show "color (exchanged d m h) a = color h (swp d m a)" by (rule ef(4))
    have pd: "parent h a = d \<Longrightarrow> a = left h d \<or> a = right h d" and pm: "parent h a = m \<Longrightarrow> a = right h m"
      using par [OF a] an xd by auto
    have ld: "left h a = d \<Longrightarrow> a = parent h d" "right h a = d \<Longrightarrow> a = parent h d"
      and lm: "left h a = m \<Longrightarrow> a = parent h m" "right h a = m \<Longrightarrow> a = parent h m"
      using ch [OF a] xd by auto
    consider "a = d" | "a = m" | "a \<noteq> d" "a \<noteq> m" by blast
    note cs = this
    show "parent (exchanged d m h) a = swp d m (parent h (swp d m a))"
    proof (cases rule: cs)
      case 1
      then show ?thesis using xd xc(7) by (cases "right h d = m") (simp_all add: ef(1))
    next
      case 2
      then show ?thesis using xd by (simp add: ef(1))
    next
      case 3
      show ?thesis
      proof (cases "a = left h d \<or> a = right h d \<or> a = right h m")
        case True
        then show ?thesis using 3 xd xc an unfolding ef(1) by (elim disjE) (simp_all add: swp_def)
      next
        case False
        then have "parent h a \<noteq> d" "parent h a \<noteq> m" using pd pm by auto
        then show ?thesis using 3 False by (simp add: ef(1))
      qed
    qed
    show "left (exchanged d m h) a = swp d m (left h (swp d m a))"
    proof (cases rule: cs)
      case 3
      show ?thesis
      proof (cases "left h a = d \<or> left h a = m")
        case True
        then show ?thesis
        proof
          assume "left h a = d"
          then show ?thesis using 3 ld(1) an xc(8) xd by (auto simp: ef(2))
        next
          assume m: "left h a = m"
          then have "a = parent h m" by (rule lm(1))
          then show ?thesis using m 3 xc(7) by (cases "right h d = m") (simp_all add: ef(2))
        qed
      next
        case False
        then show ?thesis using 3 xc(8) by (auto simp: ef(2))
      qed
    qed (use xd in \<open>simp_all add: ef(2)\<close>)
    show "right (exchanged d m h) a = swp d m (right h (swp d m a))"
    proof (cases rule: cs)
      case 3
      show ?thesis
      proof (cases "right h a = d \<or> right h a = m")
        case True
        then show ?thesis
        proof
          assume r: "right h a = d"
          then have e: "a = parent h d" by (rule ld(2))
          then have "left h a \<noteq> d" using r xc(6) an by auto
          then show ?thesis using r 3 an e by (simp add: ef(3))
        next
          assume m: "right h a = m"
          then have e: "a = parent h m" by (rule lm(2))
          then have "right h d = m" using m xc(9) by auto
          then show ?thesis using e 3 xc(7) by simp
        qed
      next
        case False
        then show ?thesis using 3 xc(5) by (auto simp: ef(3))
      qed
    qed (use xd xc(7) in \<open>auto simp: ef(3)\<close>)
  qed
qed

section \<open>Deletion as a whole\<close>

lemma rbtree_delete_eq:
  "rbtree_delete s v h = do {
     d \<leftarrow> rbtree_search h s v;
     if d = NULL then Some (h, NULL)
     else do {
       let h = h\<lparr>rb_count := rb_count h - 1\<rparr>;
       h \<leftarrow> (if left h d \<noteq> NIL \<and> right h d \<noteq> NIL
            then do { m \<leftarrow> leftmost (right h d) h; swap_nodes d m h } else Some h);
       h \<leftarrow> unlink_node d h;
       Some (h, d)
     }
   }"
  unfolding rbtree_delete_def unlink_node_def clear_node_def Let_def Option.bind_assoc bind.bind_lunit by (rule refl)

lemma position:
  assumes "a \<in> addrs t"
  shows "\<exists>l c r fs. t = plug (Nd l a c r) fs"
  using assms
proof (induction t)
  case (Nd l b c r)
  consider "a = b" | "a \<in> addrs l" | "a \<in> addrs r" using Nd.prems by auto
  then show ?case
  proof cases
    case 1
    then have "Nd l b c r = plug (Nd l a c r) []" by simp
    then show ?thesis by blast
  next
    case 2
    then obtain l' c' r' fs where "l = plug (Nd l' a c' r') fs" using Nd.IH(1) by blast
    then have "Nd l b c r = plug (Nd l' a c' r') (fs @ [LeftOf b c r])" by (simp add: plug_append)
    then show ?thesis by blast
  next
    case 3
    then obtain l' c' r' fs where "r = plug (Nd l' a c' r') fs" using Nd.IH(2) by blast
    then have "Nd l b c r = plug (Nd l' a c' r') (fs @ [RightOf l b c])" by (simp add: plug_append)
    then show ?thesis by blast
  qed
qed simp

lemma rep_count [simp]: "rep (h\<lparr>rb_count := n\<rparr>) t = rep h t"
  by (simp add: rep_def sentinel_def)

lemma before_append: "before (gs @ fs) = before fs @ before gs" "after (gs @ fs) = after gs @ after fs"
  by (induction gs rule: before.induct) auto

text \<open>From the node with the key, present in the tree, to the tree without it.\<close>

lemma delete_node_ok:
  assumes r: "rep h t" and ok: "rb_ok t" and d: "d \<in> addrs t"
  shows "\<exists>h1 h2 t' ys zs.
    (if left h d \<noteq> NIL \<and> right h d \<noteq> NIL then do { m \<leftarrow> leftmost (right h d) h; swap_nodes d m h } else Some h) = Some h1 \<and>
    unlink_node d h1 = Some h2 \<and> rep h2 t' \<and> rb_ok t' \<and> inorder t = ys @ d # zs \<and> inorder t' = ys @ zs \<and>
    same_data h h2"
proof -
  obtain l c u fs where t: "t = plug (Nd l d c u) fs" using position [OF d] by blast
  have rp: "rep h (plug (Nd l d c u) fs)" using r t by simp
  have lf: "left h d = NIL \<longleftrightarrow> l = Lf" using rep_read(2) [OF rp] ptr_NIL [of h l "LeftOf d c u # fs"] rp by simp
  have rt: "right h d = NIL \<longleftrightarrow> u = Lf" using rep_read(3) [OF rp] ptr_NIL [of h u "RightOf l d c # fs"] rp by simp
  show ?thesis
  proof (cases "l = Lf \<or> u = Lf")
    case True
    obtain h2 t' where "unlink_node d h = Some h2" "rep h2 t'" "rb_ok t'"
      "inorder t' = before fs @ inorder l @ inorder u @ after fs" "same_data h h2"
      using unlink_ok [OF rp True] ok t by blast
    moreover have "inorder t = (before fs @ inorder l) @ d # (inorder u @ after fs)" using t by (simp add: inorder_plug)
    moreover have "(if left h d \<noteq> NIL \<and> right h d \<noteq> NIL then do { m \<leftarrow> leftmost (right h d) h; swap_nodes d m h }
        else Some h) = Some h" using True lf rt by auto
    ultimately show ?thesis by (metis append.assoc)
  next
    case False
    have ru: "rep h (plug u (RightOf l d c # fs))" using rp by simp
    obtain m cm mr gs where m: "leftmost (ptr u) h = Some m" "u = plug (Nd Lf m cm mr) gs" "before gs = []"
      using leftmost_ok [OF ru] False by blast
    have l: "l \<noteq> Lf" using False by simp
    have x: "exchangeable d m h" by (rule exchangeable_ok [OF rp m(2,3) l])
    define h1 where "h1 = exchanged d m h"
    have sd: "same_data h h1" unfolding h1_def by (rule exchanged_fields(6) [OF x])
    have dist: "distinct (before fs @ (inorder l @ d # inorder u) @ after fs)"
      using rp [unfolded rep_plug] by simp
    have iu: "inorder u = m # inorder mr @ after gs" using m by (simp add: inorder_plug)
    have "swp d m a = a" if "a \<in> addrs l \<union> caddrs fs \<union> addrs mr \<union> set (after gs)" for a
      using that dist iu by (intro swp_simps) auto
    note same = this
    have ids: "rename (swp d m) l = l" "rename (swp d m) mr = mr"
      by (rule rename_id, rule same, simp)+
    have idf: "map (rename_frame (swp d m)) fs = fs" "map (rename_frame (swp d m)) gs = gs"
      by (rule rename_frames_id, rule same, use m(3) in auto)+
    have "rep h1 (rename (swp d m) (plug (Nd l d c u) fs))"
      unfolding h1_def by (rule exchange_rep [OF rp m(2,3) l])
    moreover have tr: "rename (swp d m) (plug (Nd l d c u) fs) = plug (Nd Lf d cm mr) (gs @ RightOf l m c # fs)"
      by (simp add: rename_plug ids idf m(2) plug_append)
    ultimately have r1: "rep h1 (plug (Nd Lf d cm mr) (gs @ RightOf l m c # fs))" by simp
    have ok1: "rb_ok (plug (Nd Lf d cm mr) (gs @ RightOf l m c # fs))"
      using ok t unfolding tr [symmetric] by simp
    obtain h2 t' where u2: "unlink_node d h1 = Some h2" "rep h2 t'" "rb_ok t'"
      "inorder t' = before (gs @ RightOf l m c # fs) @ inorder mr @ after (gs @ RightOf l m c # fs)" "same_data h1 h2"
      using unlink_ok [OF r1 _ ok1] by auto
    have "right h d = ptr u" by (rule rep_read(3) [OF rp])
    then have "(if left h d \<noteq> NIL \<and> right h d \<noteq> NIL then do { m \<leftarrow> leftmost (right h d) h; swap_nodes d m h }
        else Some h) = Some h1"
      using False lf rt m(1) swap_nodes_eval [OF x] by (simp add: h1_def)
    moreover have "inorder t = (before fs @ inorder l) @ d # (m # inorder mr @ after gs @ after fs)"
      using t iu by (simp add: inorder_plug)
    moreover have "inorder t' = (before fs @ inorder l) @ (m # inorder mr @ after gs @ after fs)"
      using u2(4) m(3) by (simp add: before_append)
    moreover have "same_data h h2" by (rule same_data_trans [OF sd u2(5)])
    ultimately show ?thesis using u2 by blast
  qed
qed

context rb_keys
begin

lemma delete_present:
  assumes inv: "tree_inv s h xs" and good: "good s v" and d: "d \<in> set xs" "nkey s h d = key s v"
  shows "\<exists>h' ys zs. rbtree_delete s v h = Some (h', d) \<and> xs = ys @ d # zs \<and> tree_inv s h' (ys @ zs) \<and>
    node_val h' = node_val h"
proof -
  obtain t where t: "rep h t" "inorder t = xs" "rb_cmp h = cmpf" "ordered s h xs" "rb_ok t"
    "rb_count h = of_nat (length xs)"
    using inv by (auto simp: tree_inv_def)
  define h0 where "h0 = h\<lparr>rb_count := rb_count h - 1\<rparr>"
  have "rbtree_search h s v = Some d" by (rule search_ok(1) [OF inv good d])
  moreover have "d \<noteq> NULL" using t(1,2) d(1) unfolding rep_def by metis
  moreover obtain h1 h2 t' ys zs where n:
    "(if left h0 d \<noteq> NIL \<and> right h0 d \<noteq> NIL then do { m \<leftarrow> leftmost (right h0 d) h0; swap_nodes d m h0 } else Some h0) = Some h1"
    "unlink_node d h1 = Some h2" "rep h2 t'" "rb_ok t'" "inorder t = ys @ d # zs" "inorder t' = ys @ zs" "same_data h0 h2"
    using delete_node_ok [of h0 t d] t(1,2,5) d(1) by (auto simp: h0_def)
  ultimately have "rbtree_delete s v h = Some (h2, d)"
    by (simp add: rbtree_delete_eq h0_def [symmetric])
  moreover have xs: "xs = ys @ d # zs" using n(5) t(2) by simp
  moreover have sd: "node_val h2 = node_val h" "rb_cmp h2 = cmpf" "rb_count h2 = rb_count h - 1"
    using n(7) t(3) by (simp_all add: same_data_def h0_def)
  moreover have "ordered s h (ys @ zs)" using t(4) xs by (auto simp: ordered_append ordered_Cons)
  moreover have "rb_count h2 = of_nat (length (ys @ zs))" using sd(3) t(6) xs by simp
  ultimately have "tree_inv s h2 (ys @ zs)"
    using n(3,4,6) unfolding tree_inv_def ordered_same [OF sd(1)] by blast
  with \<open>rbtree_delete s v h = Some (h2, d)\<close> xs sd(1) show ?thesis by blast
qed

lemma delete_absent:
  assumes "tree_inv s h xs" "good s v" "\<And>a. a \<in> set xs \<Longrightarrow> nkey s h a \<noteq> key s v"
  shows "rbtree_delete s v h = Some (h, NULL)"
  using search_ok(2) [OF assms] by (simp add: rbtree_delete_def)

end

end
