(* ===== verification/Rb_Walk.thy ===== *)
theory Rb_Walk
  imports Rb_Swap
begin

text \<open>
  Walks over the red-black tree: the successor and the predecessor of a node, the loop
  \<open>RBTREE_FOR\<close>, and the destruction of all nodes in post-order.
\<close>

section \<open>Neighbours\<close>

fun mfold :: "('a \<Rightarrow> 't \<Rightarrow> 't option) \<Rightarrow> 'a list \<Rightarrow> 't \<Rightarrow> 't option" where
  "mfold f [] st = Some st"
| "mfold f (x # xs) st = do { st \<leftarrow> f x st; mfold f xs st }"

lemma mfold_append: "mfold f (xs @ ys) st = do { st \<leftarrow> mfold f xs st; mfold f ys st }"
proof (induction xs arbitrary: st)
  case (Cons x xs)
  then show ?case by (cases "f x st") auto
qed simp

lemma mfold_Nil_fun [simp]: "mfold f [] = Some"
  by (rule ext) simp

lemma mfold_total: "mfold (\<lambda>x st. Some (g x st)) xs st = Some (fold g xs st)"
  by (induction xs arbitrary: st) auto

definition first_or_nil :: "addr list \<Rightarrow> addr" where
  "first_or_nil xs = (case xs of [] \<Rightarrow> NIL | x # _ \<Rightarrow> x)"

definition last_or_nil :: "addr list \<Rightarrow> addr" where
  "last_or_nil xs = (if xs = [] then NIL else last xs)"

lemma first_or_nil_simps [simp]: "first_or_nil [] = NIL" "first_or_nil (x # xs) = x"
  "xs \<noteq> [] \<Longrightarrow> first_or_nil (xs @ ys) = first_or_nil xs"
  by (auto simp: first_or_nil_def split: list.splits)

lemma last_or_nil_simps [simp]: "last_or_nil [] = NIL" "last_or_nil (xs @ [x]) = x"
  "ys \<noteq> [] \<Longrightarrow> last_or_nil (xs @ ys) = last_or_nil ys" "last_or_nil (x # ys) = (if ys = [] then x else last_or_nil ys)"
  by (auto simp: last_or_nil_def)

lemma leftmost_first:
  assumes "rep h (plug t fs)"
  shows "leftmost (ptr t) h = Some (first_or_nil (inorder t))"
proof (cases "t = Lf")
  case True
  then show ?thesis using rep_sentinel(2) [OF assms] by (simp add: leftmost.simps)
next
  case False
  then obtain m cm mr gs where "leftmost (ptr t) h = Some m" "t = plug (Nd Lf m cm mr) gs" "before gs = []"
    using leftmost_ok [OF assms] by blast
  then show ?thesis by (simp add: inorder_plug)
qed

lemma rightmost_last:
  assumes "rep h (plug t fs)"
  shows "rightmost (ptr t) h = Some (last_or_nil (inorder t))"
  using assms
proof (induction t arbitrary: fs)
  case Lf
  then show ?case using rep_sentinel(3) [OF Lf] by (simp add: rightmost.simps)
next
  case (Nd l a c r)
  have ra: "right h a = ptr r" using rep_read(3) [OF Nd.prems] .
  have rr: "rep h (plug r (RightOf l a c # fs))" using Nd.prems by simp
  show ?case
  proof (cases "r = Lf")
    case True
    then show ?thesis using ra by (simp add: rightmost.simps [of a h])
  next
    case False
    then have "ptr r \<noteq> NIL" "inorder r \<noteq> []" using ptr_NIL [OF rr] by (simp, cases r, auto)
    then show ?thesis using ra Nd.IH(2) [OF rr] by (simp add: rightmost.simps [of a h])
  qed
qed

lemma climb_right_ok:
  assumes "rep h (plug t fs)" "t \<noteq> Lf"
  shows "climb_right (ptr t) (upper fs) h = Some (first_or_nil (after fs))"
  using assms
proof (induction fs arbitrary: t)
  case Nil
  then show ?case by (simp add: climb_right.simps)
next
  case (Cons F fs)
  show ?case
  proof (cases F)
    case (LeftOf a c r)
    have ra: "right h a = ptr r" "a \<noteq> NIL" using rep_read(3,5) [of h t a c r fs] Cons.prems(1) LeftOf by simp_all
    have "ptr t \<noteq> ptr r"
    proof (cases "r = Lf")
      case True
      then show ?thesis using ptr_NIL [OF Cons.prems(1)] Cons.prems(2) by simp
    next
      case False
      then show ?thesis using rep_sib_apart [OF Cons.prems(1)] LeftOf by simp
    qed
    then show ?thesis using ra LeftOf by (simp add: climb_right.simps [of "ptr t"])
  next
    case (RightOf l a c)
    have ra: "right h a = ptr t" "a \<noteq> NIL" "parent h a = upper fs"
      using rep_read(1,3,5) [of h l a c t fs] Cons.prems(1) RightOf by simp_all
    have "climb_right (ptr (Nd l a c t)) (upper fs) h = Some (first_or_nil (after fs))"
      using Cons.IH [of "Nd l a c t"] Cons.prems(1) RightOf by simp
    then show ?thesis using ra RightOf by (simp add: climb_right.simps [of "ptr t"])
  qed
qed

lemma climb_left_ok:
  assumes "rep h (plug t fs)" "t \<noteq> Lf"
  shows "climb_left (ptr t) (upper fs) h = Some (last_or_nil (before fs))"
  using assms
proof (induction fs arbitrary: t)
  case Nil
  then show ?case by (simp add: climb_left.simps)
next
  case (Cons F fs)
  show ?case
  proof (cases F)
    case (RightOf l a c)
    have la: "left h a = ptr l" "a \<noteq> NIL" using rep_read(2,5) [of h l a c t fs] Cons.prems(1) RightOf by simp_all
    have "ptr t \<noteq> ptr l"
    proof (cases "l = Lf")
      case True
      then show ?thesis using ptr_NIL [OF Cons.prems(1)] Cons.prems(2) by simp
    next
      case False
      then show ?thesis using rep_sib_apart [OF Cons.prems(1)] RightOf by simp
    qed
    then show ?thesis using la RightOf by (simp add: climb_left.simps [of "ptr t"])
  next
    case (LeftOf a c r)
    have la: "left h a = ptr t" "a \<noteq> NIL" "parent h a = upper fs"
      using rep_read(1,2,5) [of h t a c r fs] Cons.prems(1) LeftOf by simp_all
    have "climb_left (ptr (Nd t a c r)) (upper fs) h = Some (last_or_nil (before fs))"
      using Cons.IH [of "Nd t a c r"] Cons.prems(1) LeftOf by simp
    then show ?thesis using la LeftOf by (simp add: climb_left.simps [of "ptr t"])
  qed
qed

lemma split_distinct:
  assumes "distinct xs" "xs = ys @ a # zs" "xs = ys' @ a # zs'"
  shows "ys = ys' \<and> zs = zs'"
  using assms by (metis append_eq_append_conv_if append_Cons_eq_iff distinct.simps(2) distinct_append not_distinct_conv_prefix append_assoc)

lemma next_ok:
  assumes r: "rep h t" and a: "inorder t = ys @ a # zs"
  shows "rbtree_next a h = Some (first_or_nil zs)"
proof -
  have "a \<in> addrs t" using a by simp
  then obtain l c u fs where t: "t = plug (Nd l a c u) fs" using position by blast
  have rp: "rep h (plug (Nd l a c u) fs)" and ru: "rep h (plug u (RightOf l a c # fs))" using r t by simp_all
  have "inorder t = (before fs @ inorder l) @ a # (inorder u @ after fs)" using t by (simp add: inorder_plug)
  then have zs: "zs = inorder u @ after fs" using split_distinct a r by (metis rep_def)
  show ?thesis
  proof (cases "u = Lf")
    case True
    then show ?thesis using rep_read(1,3) [OF rp] climb_right_ok [OF rp] zs by (simp add: rbtree_next_def)
  next
    case False
    then have "ptr u \<noteq> NIL" "inorder u \<noteq> []" using ptr_NIL [OF ru] by (simp, cases u, auto)
    then show ?thesis using rep_read(3) [OF rp] leftmost_first [OF ru] zs by (simp add: rbtree_next_def)
  qed
qed

lemma previous_ok:
  assumes r: "rep h t" and a: "inorder t = ys @ a # zs"
  shows "rbtree_previous a h = Some (last_or_nil ys)"
proof -
  have "a \<in> addrs t" using a by simp
  then obtain l c u fs where t: "t = plug (Nd l a c u) fs" using position by blast
  have rp: "rep h (plug (Nd l a c u) fs)" and rl: "rep h (plug l (LeftOf a c u # fs))" using r t by simp_all
  have "inorder t = (before fs @ inorder l) @ a # (inorder u @ after fs)" using t by (simp add: inorder_plug)
  then have ys: "ys = before fs @ inorder l" using split_distinct a r by (metis rep_def)
  show ?thesis
  proof (cases "l = Lf")
    case True
    then show ?thesis using rep_read(1,2) [OF rp] climb_left_ok [OF rp] ys by (simp add: rbtree_previous_def)
  next
    case False
    then have "ptr l \<noteq> NIL" "inorder l \<noteq> []" using ptr_NIL [OF rl] by (simp, cases l, auto)
    then show ?thesis using rep_read(2) [OF rp] rightmost_last [OF rl] ys by (simp add: rbtree_previous_def)
  qed
qed

section \<open>Loops over the tree\<close>

lemma for_from_ok:
  assumes "rep h t" "inorder t = ys @ zs"
  shows "rbtree_for_from h f (first_or_nil zs) st = mfold f zs st"
  using assms(2)
proof (induction zs arbitrary: ys st)
  case Nil
  then show ?case by (simp add: rbtree_for_from.simps)
next
  case (Cons a zs)
  have "a \<noteq> NIL" using assms(1) Cons.prems by (auto simp: rep_def)
  then show ?case
    using next_ok [OF assms(1) Cons.prems] Cons.IH [of "ys @ [a]"] Cons.prems
    by (simp add: rbtree_for_from.simps [of h f a])
qed

lemma for_ok:
  assumes "rep h t"
  shows "rbtree_for h f st = mfold f (inorder t) st"
  using leftmost_first [of h t "[]"] for_from_ok [OF assms, of "[]" "inorder t" f st] assms
  by (simp add: rbtree_for_def rbtree_first_def rep_def)

fun postorder :: "rbt \<Rightarrow> addr list" where
  "postorder Lf = []"
| "postorder (Nd l a c r) = postorder l @ postorder r @ [a]"

lemma mset_postorder: "mset (postorder t) = mset (inorder t)"
  by (induction t) auto

lemma delete_node_fold:
  assumes "rep h (plug t fs)"
  shows "rbtree_delete_node h f (ptr t) st = mfold f (postorder t) st"
  using assms
proof (induction t arbitrary: fs st)
  case Lf
  then show ?case by (simp add: rbtree_delete_node.simps)
next
  case (Nd l a c r)
  note rd = rep_read [OF Nd.prems]
  have rl: "rep h (plug l (LeftOf a c r # fs))" and rr: "rep h (plug r (RightOf l a c # fs))"
    using Nd.prems by simp_all
  have "ptr x \<noteq> NULL" if "rep h (plug x ks)" for x ks
    using that rep_read(6) by (cases x) auto
  then have nn: "ptr l \<noteq> NULL" "ptr r \<noteq> NULL" using rl rr by blast+
  show ?case
    using rd nn Nd.IH(1) [OF rl] Nd.IH(2) [OF rr]
    by (simp add: rbtree_delete_node.simps [of h f a] mfold_append Option.bind_assoc)
qed

end
