(* ===== verification/Name_Key.thy ===== *)
theory Name_Key
  imports Node_Value C_String Rb_Walk
begin

text \<open>
  The comparison \<open>name_compare\<close> that \<^verbatim>\<open>log_name_tree.c\<close> gives to its red-black tree, and the
  operations of the tree read over it: the tree is a finite map from names to nodes.
\<close>

definition name_compare :: "nv_store \<Rightarrow> addr \<Rightarrow> addr \<Rightarrow> int option" where
  "name_compare nvs v1 v2 = do {
     guard (v1 \<noteq> NULL \<and> v2 \<noteq> NULL);
     Some (strcmp (fqdn (nvs v1)) (fqdn (nvs v2)))
   }"

definition nv_name :: "nv_store \<Rightarrow> addr \<Rightarrow> string" where
  "nv_name nvs v = fqdn (nvs v)"

interpretation nk: rb_keys "\<lambda>_ v. v \<noteq> NULL" nv_name name_compare
proof
  fix s :: nv_store and v w :: addr
  assume "v \<noteq> NULL" "w \<noteq> NULL"
  then show "\<exists>r. name_compare s v w = Some r \<and> (r < 0 \<longleftrightarrow> nv_name s v < nv_name s w) \<and>
      (r = 0 \<longleftrightarrow> nv_name s v = nv_name s w)"
    by (simp add: name_compare_def strcmp_sign nv_name_def)
qed

text \<open>
  The invariant of the tree of names: the nodes in their order are \<open>xs\<close>, their names increase
  strictly, the pointers form a red-black tree and the counter is the number of nodes.
\<close>

definition node_name :: "nv_store \<Rightarrow> nv_store rbtree \<Rightarrow> addr \<Rightarrow> string" where
  "node_name nvs h a = fqdn (nvs (node_val h a))"

definition name_index :: "nv_store \<Rightarrow> nv_store rbtree \<Rightarrow> addr list \<Rightarrow> bool" where
  "name_index nvs h xs \<longleftrightarrow>
     (\<exists>t. rep h t \<and> rb_ok t \<and> inorder t = xs) \<and> rb_cmp h = name_compare \<and>
     sorted_wrt (\<lambda>a b. node_name nvs h a < node_name nvs h b) xs \<and>
     (\<forall>a \<in> set xs. node_val h a \<noteq> NULL) \<and> rb_count h = of_nat (length xs)"

lemma nk_name: "nk.nkey = node_name"
  by (simp add: nk.nkey_def node_name_def nv_name_def fun_eq_iff)

lemma nk_inv: "nk.tree_inv = name_index"
  unfolding fun_eq_iff nk.tree_inv_def nk.ordered_def name_index_def nk_name by (intro allI iffI; blast)

lemmas nk_simps = nk_name nk_inv nv_name_def

text \<open>A tree of one node for the examples.\<close>

definition one_nvs :: nv_store where
  "one_nvs = (\<lambda>p. \<lparr>fqdn = if p = 100 then ''b.'' else if p = 101 then ''a.'' else ''c.'', nv_count = 1,
     heap_index = 0, nv_ptr = NULL\<rparr>)"

definition one_tree :: "nv_store rbtree" where
  "one_tree = \<lparr>rb_root = 16, rb_count = 1, rb_walk = NIL, rb_cmp = name_compare,
     parent = (\<lambda>_. NIL), left = (\<lambda>_. NIL), right = (\<lambda>_. NIL),
     node_val = (\<lambda>a. if a = 16 then 100 else if a = 32 then 101 else 102), color = (\<lambda>_. BLACK)\<rparr>"

lemma one_tree_index: "name_index one_nvs one_tree [16]"
proof -
  have "rep one_tree (Nd Lf 16 BLACK Lf)" by (simp add: rep_def one_tree_def sentinel_def NIL_def)
  moreover have "rb_ok (Nd Lf 16 BLACK Lf)" by (simp add: rb_ok_def)
  ultimately show ?thesis
    by (auto simp: name_index_def one_tree_def intro!: exI [of _ "Nd Lf 16 BLACK Lf"])
qed

section \<open>Properties\<close>

text \<open>C25. Insertion into the tree of names. With the name present the tree is unchanged and the
  present node is returned (never \<open>NULL\<close>); otherwise the new node takes its place in the order of
  the names, and the tree is again a red-black tree: the fix-up loop ends and restores colours,
  black heights and parent pointers.\<close>

theorem rbtree_insert_names:
  assumes "name_index nvs h xs" "node_val h nd \<noteq> NULL" "nd \<notin> set xs" "nd \<noteq> NIL" "nd \<noteq> NULL"
  shows "(\<exists>a \<in> set xs. node_name nvs h a = node_name nvs h nd \<and> rbtree_insert nvs nd h = Some (h, a)) \<or>
    (\<exists>h' ys zs. rbtree_insert nvs nd h = Some (h', nd) \<and> xs = ys @ zs \<and> name_index nvs h' (ys @ nd # zs) \<and>
       node_val h' = node_val h)"
proof (cases "\<exists>a \<in> set xs. node_name nvs h a = node_name nvs h nd")
  case True
  then show ?thesis using nk.insert_present [of nvs h xs nd] assms unfolding nk_simps by blast
next
  case False
  then show ?thesis using nk.insert_absent [of nvs h xs nd] assms unfolding nk_simps by blast
qed

theorem rbtree_insert_names_witness:
  "(\<exists>a \<in> set [16]. node_name one_nvs one_tree a = node_name one_nvs one_tree 32 \<and>
      rbtree_insert one_nvs 32 one_tree = Some (one_tree, a)) \<or>
    (\<exists>h' ys zs. rbtree_insert one_nvs 32 one_tree = Some (h', 32) \<and> [16] = ys @ zs \<and>
       name_index one_nvs h' (ys @ 32 # zs) \<and> node_val h' = node_val one_tree)"
  by (rule rbtree_insert_names [OF one_tree_index]) (simp_all add: one_tree_def NIL_def)

text \<open>C26. Deletion from the tree of names returns \<open>NULL\<close> and changes nothing when the name is not
  there; otherwise it returns the node of the name, and the rest is a red-black tree in the same
  order. Both cases of two children (successor adjacent or not) and the repair of a missing black
  node are covered; no assert of the code fails.\<close>

theorem rbtree_delete_names:
  assumes "name_index nvs h xs" "v \<noteq> NULL"
  shows "(\<forall>a \<in> set xs. node_name nvs h a \<noteq> fqdn (nvs v)) \<and> rbtree_delete nvs v h = Some (h, NULL) \<or>
    (\<exists>h' d ys zs. xs = ys @ d # zs \<and> node_name nvs h d = fqdn (nvs v) \<and>
       rbtree_delete nvs v h = Some (h', d) \<and> name_index nvs h' (ys @ zs) \<and> node_val h' = node_val h)"
proof (cases "\<exists>d \<in> set xs. node_name nvs h d = fqdn (nvs v)")
  case True
  then obtain d where "d \<in> set xs" "node_name nvs h d = fqdn (nvs v)" by blast
  then show ?thesis using nk.delete_present [of nvs h xs v d] assms unfolding nk_simps by blast
next
  case False
  then show ?thesis using nk.delete_absent [of nvs h xs v] assms unfolding nk_simps by blast
qed

theorem rbtree_delete_names_witness:
  "(\<forall>a \<in> set [16]. node_name one_nvs one_tree a \<noteq> fqdn (one_nvs 100)) \<and>
      rbtree_delete one_nvs 100 one_tree = Some (one_tree, NULL) \<or>
    (\<exists>h' d ys zs. [16] = ys @ d # zs \<and> node_name one_nvs one_tree d = fqdn (one_nvs 100) \<and>
       rbtree_delete one_nvs 100 one_tree = Some (h', d) \<and> name_index one_nvs h' (ys @ zs) \<and>
       node_val h' = node_val one_tree)"
  by (rule rbtree_delete_names [OF one_tree_index]) simp

text \<open>\<open>rbtree_find_less_equal\<close> finds the node with the name, or else the node with the greatest
  smaller name (\<open>NULL\<close> when there is none), and \<open>rbtree_search\<close> is its exact part.\<close>

lemma rbtree_find_names:
  assumes "name_index nvs h xs" "v \<noteq> NULL"
  shows "rbtree_find_less_equal h nvs v =
      Some (case filter (\<lambda>a. node_name nvs h a = fqdn (nvs v)) xs of
        a # _ \<Rightarrow> (True, a)
      | [] \<Rightarrow> (False, last (NULL # filter (\<lambda>a. node_name nvs h a < fqdn (nvs v)) xs))) \<and>
    rbtree_search h nvs v =
      Some (case filter (\<lambda>a. node_name nvs h a = fqdn (nvs v)) xs of a # _ \<Rightarrow> a | [] \<Rightarrow> NULL)"
  using nk.find_less_equal_ok [of nvs h xs v] assms unfolding nk_simps nk.find_spec_def
  by (simp add: rbtree_search_def split: list.splits)

lemma rbtree_find_names_witness:
  "rbtree_find_less_equal one_tree one_nvs 102 =
      Some (case filter (\<lambda>a. node_name one_nvs one_tree a = fqdn (one_nvs 102)) [16] of
        a # _ \<Rightarrow> (True, a)
      | [] \<Rightarrow> (False, last (NULL # filter (\<lambda>a. node_name one_nvs one_tree a < fqdn (one_nvs 102)) [16]))) \<and>
    rbtree_search one_tree one_nvs 102 =
      Some (case filter (\<lambda>a. node_name one_nvs one_tree a = fqdn (one_nvs 102)) [16] of a # _ \<Rightarrow> a | [] \<Rightarrow> NULL)"
  by (rule rbtree_find_names [OF one_tree_index]) simp

text \<open>The walk \<open>RBTREE_FOR\<close> calls its body once for every node, in the order of the tree, and
  ends; \<open>rbtree_next\<close> and \<open>rbtree_previous\<close> are the neighbours in that order, the sentinel at the
  ends.\<close>

lemma rbtree_walk_order:
  assumes "rep h t" "inorder t = ys @ a # zs"
  shows "rbtree_for h f st = mfold f (ys @ a # zs) st \<and>
    rbtree_next a h = Some (first_or_nil zs) \<and> rbtree_previous a h = Some (last_or_nil ys)"
  using for_ok [OF assms(1)] next_ok [OF assms] previous_ok [OF assms] assms(2) by simp

lemma rbtree_walk_order_witness:
  "rbtree_for one_tree (\<lambda>a st. Some (a # st)) [] = mfold (\<lambda>a st. Some (a # st)) ([] @ 16 # []) [] \<and>
    rbtree_next 16 one_tree = Some (first_or_nil []) \<and> rbtree_previous 16 one_tree = Some (last_or_nil [])"
  by (rule rbtree_walk_order [of _ "Nd Lf 16 BLACK Lf"])
    (simp_all add: rep_def one_tree_def sentinel_def NIL_def)

text \<open>\<open>rbtree_destory\<close> hands every node exactly once to the destructor, children before their
  parent, so a destructor that frees the node does no harm.\<close>

lemma rbtree_destory_once:
  assumes "rep h t"
  shows "rbtree_destory h (Some f) st = mfold f (postorder t) st \<and>
    mset (postorder t) = mset (inorder t) \<and> distinct (postorder t)"
proof -
  have "distinct (postorder t)"
    using assms mset_postorder [of t] by (metis mset_eq_imp_distinct_iff rep_def)
  moreover have "rb_root h = ptr t" using assms by (simp add: rep_def)
  ultimately show ?thesis
    using delete_node_fold [of h t "[]" f st] assms by (simp add: rbtree_destory_def mset_postorder)
qed

lemma rbtree_destory_once_witness:
  "rbtree_destory one_tree (Some (\<lambda>a st. Some (a # st))) [] =
      mfold (\<lambda>a st. Some (a # st)) (postorder (Nd Lf 16 BLACK Lf)) [] \<and>
    mset (postorder (Nd Lf 16 BLACK Lf)) = mset (inorder (Nd Lf 16 BLACK Lf)) \<and>
    distinct (postorder (Nd Lf 16 BLACK Lf))"
  by (rule rbtree_destory_once) (simp add: rep_def one_tree_def sentinel_def NIL_def)

end
