(* ===== verification/Mem_Pool.thy ===== *)
theory Mem_Pool
  imports Prelude
begin

text \<open>
  The pool of fixed-size elements of \<^verbatim>\<open>dig_mem_pool.c\<close>. Addresses are byte addresses; \<open>malloc\<close>
  cuts blocks off a growing break, 16-aligned as glibc does, and fails beyond a limit. A pointer
  cell may be read or written only inside a block and at a multiple of 8, anything else is the
  abort \<open>None\<close>: a theorem that an operation returns is a theorem of memory safety. Sizes and
  counts are 32-bit words and wrap as in the code. The mutex is taken and released inside each
  operation, so an operation is one atomic step here.
\<close>

section \<open>Raw memory\<close>

record pool_mem =
  blocks :: "(addr \<times> nat) list"
  cell :: "addr \<Rightarrow> addr"
  pm_brk :: addr
  pm_limit :: addr

definition in_block :: "(addr \<times> nat) list \<Rightarrow> addr \<Rightarrow> bool" where
  "in_block bs a = (a mod 8 = 0 \<and> list_ex (\<lambda>(b, n). b \<le> a \<and> a + 8 \<le> b + n) bs)"

definition load_ptr :: "addr \<Rightarrow> pool_mem \<Rightarrow> addr option" where
  "load_ptr a m = (if in_block (blocks m) a then Some (cell m a) else None)"

definition store_ptr :: "addr \<Rightarrow> addr \<Rightarrow> pool_mem \<Rightarrow> pool_mem option" where
  "store_ptr a v m = (if in_block (blocks m) a then Some (m\<lparr>cell := (cell m)(a := v)\<rparr>) else None)"

definition malloc_bytes :: "nat \<Rightarrow> pool_mem \<Rightarrow> addr \<times> pool_mem" where
  "malloc_bytes n m =
     (if pm_brk m + n \<le> pm_limit m
      then (pm_brk m, m\<lparr>blocks := (pm_brk m, n) # blocks m, pm_brk := (pm_brk m + n + 15) div 16 * 16\<rparr>)
      else (NULL, m))"

definition free_bytes :: "addr \<Rightarrow> pool_mem \<Rightarrow> pool_mem option" where
  "free_bytes a m =
     (if a \<in> fst ` set (blocks m)
      then Some (m\<lparr>blocks := filter (\<lambda>(b, n). b \<noteq> a) (blocks m)\<rparr>) else None)"

section \<open>The pool\<close>

record mem_pool =
  elem_size :: u32
  elem_count :: u32
  free_list :: addr
  raw_mem_list :: addr
  needs_auto_grow :: bool

definition DEFAULT_ELEM_COUNT :: u32 where
  "DEFAULT_ELEM_COUNT = 20"

text \<open>\<open>ALIGN_PAD\<close>: what is missing to the next multiple of \<open>sizeof(void *)\<close>, which is 8.\<close>

definition align_pad :: "u32 \<Rightarrow> u32" where
  "align_pad sz = (if sz mod 8 = 0 then 0 else or sz 7 + 1 - sz)"

text \<open>
  The loop of \<open>fill_free_list\<close>: the index is an \<open>int\<close>, so it must not pass \<open>INT_MAX\<close>, and the
  product of the index and the element size is a 32-bit product.
\<close>

function fill_free_loop :: "nat \<Rightarrow> addr \<Rightarrow> u32 \<Rightarrow> mem_pool \<Rightarrow> pool_mem \<Rightarrow> (pool_mem \<times> mem_pool) option" where
  "fill_free_loop i raw n mp m =
     (if i < unat n
      then do {
        _ \<leftarrow> guard (i < 2 ^ 31 - 1);
        let e = raw + unat (of_nat i * elem_size mp);
        m' \<leftarrow> store_ptr e (free_list mp) m;
        fill_free_loop (i + 1) raw n (mp\<lparr>free_list := e\<rparr>) m'
      }
      else Some (m, mp))"
  by pat_completeness auto

termination
  by (relation "measure (\<lambda>(i, raw, n, mp, m). unat n - i)") auto

declare fill_free_loop.simps [simp del]

definition fill_free_list :: "mem_pool \<Rightarrow> addr \<Rightarrow> u32 \<Rightarrow> pool_mem \<Rightarrow> (pool_mem \<times> mem_pool) option" where
  "fill_free_list mp raw n m = fill_free_loop 0 raw n mp m"

definition grow_new_mem :: "mem_pool \<Rightarrow> u32 \<Rightarrow> pool_mem \<Rightarrow> (pool_mem \<times> mem_pool) option" where
  "grow_new_mem mp n m =
     (case malloc_bytes (8 + unat (n * elem_size mp)) m of (p, m1) \<Rightarrow>
        if p = NULL then Some (m1, mp)
        else do {
          m2 \<leftarrow> store_ptr p (raw_mem_list mp) m1;
          (m3, mp3) \<leftarrow> fill_free_list (mp\<lparr>raw_mem_list := p\<rparr>) (p + 8) n m2;
          Some (m3, mp3\<lparr>elem_count := elem_count mp3 + n\<rparr>)
        })"

text \<open>The size is held in an \<open>int\<close>; rounding it up must not overflow.\<close>

definition mem_pool_create :: "u32 \<Rightarrow> u32 \<Rightarrow> bool \<Rightarrow> pool_mem \<Rightarrow> (pool_mem \<times> mem_pool) option" where
  "mem_pool_create esize n auto_grow m = do {
     let sz = (if 8 < unat esize then esize else 8);
     _ \<leftarrow> guard (sz mod 8 = 0 \<or> or sz 7 \<noteq> 2 ^ 31 - 1);
     grow_new_mem \<lparr>elem_size = sz + align_pad sz, elem_count = 0, free_list = NULL,
                   raw_mem_list = NULL, needs_auto_grow = auto_grow\<rparr>
       (if n = 0 then DEFAULT_ELEM_COUNT else n) m
   }"

definition mem_pool_alloc :: "mem_pool \<Rightarrow> pool_mem \<Rightarrow> (pool_mem \<times> mem_pool \<times> addr) option" where
  "mem_pool_alloc mp m = do {
     (m1, mp1) \<leftarrow> (if free_list mp = NULL \<and> needs_auto_grow mp
                   then grow_new_mem mp (elem_count mp * 2) m else Some (m, mp));
     if free_list mp1 \<noteq> NULL
     then do {
       nxt \<leftarrow> load_ptr (free_list mp1) m1;
       Some (m1, mp1\<lparr>free_list := nxt\<rparr>, free_list mp1)
     }
     else Some (m1, mp1, NULL)
   }"

definition mem_pool_free :: "mem_pool \<Rightarrow> addr \<Rightarrow> pool_mem \<Rightarrow> (pool_mem \<times> mem_pool) option" where
  "mem_pool_free mp p m = do {
     _ \<leftarrow> guard (p \<noteq> NULL);
     m1 \<leftarrow> store_ptr p (free_list mp) m;
     Some (m1, mp\<lparr>free_list := p\<rparr>)
   }"

partial_function (option) pool_delete_loop :: "addr \<Rightarrow> pool_mem \<Rightarrow> pool_mem option" where
  "pool_delete_loop head m =
     (if head = NULL then Some m
      else do {
        tmp \<leftarrow> load_ptr head m;
        m1 \<leftarrow> free_bytes head m;
        pool_delete_loop tmp m1
      })"

definition mem_pool_delete :: "mem_pool \<Rightarrow> pool_mem \<Rightarrow> pool_mem option" where
  "mem_pool_delete mp m = pool_delete_loop (raw_mem_list mp) m"

section \<open>Representation\<close>

text \<open>A null-terminated chain through the cells.\<close>

fun chain :: "(addr \<Rightarrow> addr) \<Rightarrow> addr \<Rightarrow> addr list \<Rightarrow> bool" where
  "chain c p [] = (p = NULL)"
| "chain c p (x # xs) = (p = x \<and> x \<noteq> NULL \<and> chain c (c x) xs)"

lemma chain_upd [simp]: "a \<notin> set xs \<Longrightarrow> chain (c(a := v)) p xs = chain c p xs"
  by (induction xs arbitrary: p) auto

lemma chain_cong: "(\<And>x. x \<in> set xs \<Longrightarrow> c x = d x) \<Longrightarrow> chain c p xs = chain d p xs"
  by (induction xs arbitrary: p) auto

lemma chain_NULL [simp]: "chain c NULL xs \<longleftrightarrow> xs = []"
  by (cases xs) auto

lemma chain_nonnull: "chain c p xs \<Longrightarrow> NULL \<notin> set xs"
  by (induction xs arbitrary: p) auto

text \<open>The slots of a chunk at \<open>b\<close> with \<open>n\<close> elements of \<open>es\<close> bytes, after the chunk header.\<close>

definition slot :: "nat \<Rightarrow> addr \<Rightarrow> nat \<Rightarrow> addr" where
  "slot es b i = b + 8 + i * es"

definition slots :: "nat \<Rightarrow> (addr \<times> nat) list \<Rightarrow> addr set" where
  "slots es cs = (\<Union>(b, n) \<in> set cs. slot es b ` {..<n})"

text \<open>The heap of \<open>malloc\<close>, and the chunks of a pool, newest (and highest) first.\<close>

definition mem_ok :: "pool_mem \<Rightarrow> bool" where
  "mem_ok m \<longleftrightarrow> 0 < pm_brk m \<and> pm_brk m mod 16 = 0 \<and> distinct (map fst (blocks m)) \<and>
     (\<forall>(b, n) \<in> set (blocks m). b + n \<le> pm_brk m \<and> b < pm_brk m)"

definition chunks_ok :: "pool_mem \<Rightarrow> nat \<Rightarrow> (addr \<times> nat) list \<Rightarrow> bool" where
  "chunks_ok m es cs \<longleftrightarrow>
     (\<forall>(b, n) \<in> set cs. (b, 8 + n * es) \<in> set (blocks m) \<and> b mod 16 = 0 \<and> 0 < b \<and>
        b + 8 + n * es \<le> pm_brk m) \<and>
     sorted_wrt (\<lambda>(b, n) (b', n'). b' + 8 + n' * es \<le> b) cs"

text \<open>
  The invariant: \<open>fs\<close> is the free list, \<open>live\<close> the set of elements handed out; together they
  are all slots of the chunks \<open>cs\<close>.
\<close>

definition pool_inv ::
    "pool_mem \<Rightarrow> mem_pool \<Rightarrow> (addr \<times> nat) list \<Rightarrow> addr list \<Rightarrow> addr set \<Rightarrow> bool" where
  "pool_inv m mp cs fs live \<longleftrightarrow>
     mem_ok m \<and> 8 \<le> unat (elem_size mp) \<and> unat (elem_size mp) mod 8 = 0 \<and>
     chunks_ok m (unat (elem_size mp)) cs \<and>
     chain (cell m) (raw_mem_list mp) (map fst cs) \<and>
     chain (cell m) (free_list mp) fs \<and> distinct fs \<and>
     set fs \<union> live = slots (unat (elem_size mp)) cs \<and> set fs \<inter> live = {} \<and>
     elem_count mp = of_nat (sum_list (map snd cs))"

section \<open>Memory lemmas\<close>

lemma slots_Nil [simp]: "slots es [] = {}"
  by (simp add: slots_def)

lemma slots_Cons [simp]: "slots es ((b, n) # cs) = slot es b ` {..<n} \<union> slots es cs"
  by (simp add: slots_def)

lemma slot_bounds:
  assumes "i < n"
  shows "b + 8 \<le> slot es b i" "slot es b i + es \<le> b + 8 + n * es"
proof -
  have "Suc i * es \<le> n * es" using assms by (intro mult_right_mono) auto
  then show "slot es b i + es \<le> b + 8 + n * es" by (simp add: slot_def)
qed (simp add: slot_def)

lemma slot_in_block:
  assumes "(b, 8 + n * es) \<in> set bs" "b mod 16 = 0" "i < n" "8 \<le> es" "es mod 8 = 0"
  shows "in_block bs (slot es b i)"
proof -
  have "b mod 8 = 0" using assms(2) by presburger
  then have "slot es b i mod 8 = 0" using assms(5) by (auto simp: slot_def mod_eq_0_iff_dvd)
  moreover have "b \<le> slot es b i \<and> slot es b i + 8 \<le> b + (8 + n * es)"
    using slot_bounds [OF assms(3), where b = b and es = es] assms(4) by linarith
  ultimately show ?thesis using assms(1) unfolding in_block_def list_ex_iff by blast
qed

lemma head_in_block: "(b, 8 + n) \<in> set bs \<Longrightarrow> b mod 16 = 0 \<Longrightarrow> in_block bs b"
  unfolding in_block_def list_ex_iff by (auto intro!: bexI [of _ "(b, 8 + n)"])

lemma chunks_ok_Cons:
  "chunks_ok m es ((b, n) # cs) \<longleftrightarrow>
     (b, 8 + n * es) \<in> set (blocks m) \<and> b mod 16 = 0 \<and> 0 < b \<and> b + 8 + n * es \<le> pm_brk m \<and>
     (\<forall>(b', n') \<in> set cs. b' + 8 + n' * es \<le> b) \<and> chunks_ok m es cs"
  by (auto simp: chunks_ok_def)

lemma chunks_ok_Nil [simp]: "chunks_ok m es []"
  by (simp add: chunks_ok_def)

lemma chunks_ok_mono:
  assumes "chunks_ok m es cs" "set (blocks m) \<subseteq> set (blocks m')" "pm_brk m \<le> pm_brk m'"
  shows "chunks_ok m' es cs"
  using assms unfolding chunks_ok_def by fastforce

lemma slotsE:
  assumes "x \<in> slots es cs"
  obtains b n i where "(b, n) \<in> set cs" "i < n" "x = slot es b i"
  using assms by (auto simp: slots_def)

lemma slots_below:
  assumes "\<And>b' n'. (b', n') \<in> set cs \<Longrightarrow> b' + 8 + n' * es \<le> b" "x \<in> slots es cs"
  shows "x + es \<le> b"
proof -
  obtain b1 n1 i where s: "(b1, n1) \<in> set cs" "i < n1" "x = slot es b1 i" by (rule slotsE [OF assms(2)])
  show ?thesis
    using slot_bounds(2) [OF s(2), where b = b1 and es = es] assms(1) [OF s(1)] s(3) by linarith
qed

text \<open>The 8 bytes of a chunk header meet no slot.\<close>

lemma header_apart:
  assumes "chunks_ok m es cs" "x \<in> slots es cs" "(b, n) \<in> set cs"
  shows "b + 8 \<le> x \<or> x + es \<le> b"
  using assms
proof (induction cs)
  case (Cons c cs)
  obtain b0 n0 where c: "c = (b0, n0)" by (cases c)
  have ok: "chunks_ok m es cs" and below: "\<And>b' n'. (b', n') \<in> set cs \<Longrightarrow> b' + 8 + n' * es \<le> b0"
    using Cons.prems(1) by (auto simp: c chunks_ok_Cons)
  have old: "x + es \<le> b0" if "x \<in> slots es cs" by (rule slots_below [OF below that])
  have new: "b0 + 8 \<le> x" if "x \<in> slot es b0 ` {..<n0}" using that by (auto simp: slot_def)
  have "x \<in> slots es cs \<or> x \<in> slot es b0 ` {..<n0}" "b = b0 \<or> (b, n) \<in> set cs"
    using Cons.prems(2,3) by (auto simp: c)
  moreover have "b + 8 \<le> x" if "(b, n) \<in> set cs" "b0 + 8 \<le> x"
    using below [OF that(1)] that(2) by linarith
  ultimately show ?case using old new Cons.IH [OF ok] by blast
qed simp

lemma slot_neq_header:
  assumes "chunks_ok m es cs" "x \<in> slots es cs" "8 \<le> es"
  shows "x \<notin> fst ` set cs"
  using header_apart [OF assms(1,2)] assms(3) by fastforce

text \<open>Distinct slots of a pool are disjoint byte ranges.\<close>

lemma slot_apart:
  assumes "i \<noteq> j"
  shows "slot es b i + es \<le> slot es b j \<or> slot es b j + es \<le> slot es b i"
proof -
  have "slot es b i + es \<le> slot es b j" if "i < j" for i j
  proof -
    have "Suc i * es \<le> j * es" using that by (intro mult_right_mono) auto
    then show ?thesis by (simp add: slot_def)
  qed
  then show ?thesis using assms by (meson linorder_neqE_nat)
qed

lemma slots_apart:
  assumes "chunks_ok m es cs" "x \<in> slots es cs" "y \<in> slots es cs" "x \<noteq> y"
  shows "x + es \<le> y \<or> y + es \<le> x"
  using assms
proof (induction cs arbitrary: x y)
  case (Cons c cs)
  obtain b n where c: "c = (b, n)" by (cases c)
  have ok: "chunks_ok m es cs" and below: "\<And>b' n'. (b', n') \<in> set cs \<Longrightarrow> b' + 8 + n' * es \<le> b"
    using Cons.prems(1) by (auto simp: c chunks_ok_Cons)
  have old: "x + es \<le> b" if "x \<in> slots es cs" for x by (rule slots_below [OF below that])
  have new: "b \<le> x" if "x \<in> slot es b ` {..<n}" for x
    using that by (auto simp: slot_def)
  have "x \<in> slots es cs \<or> x \<in> slot es b ` {..<n}" "y \<in> slots es cs \<or> y \<in> slot es b ` {..<n}"
    using Cons.prems(2,3) unfolding c slots_Cons by blast+
  then consider "x \<in> slots es cs" "y \<in> slots es cs" | "x + es \<le> b" "b \<le> y"
    | "b \<le> x" "y + es \<le> b"
    | "x \<in> slot es b ` {..<n}" "y \<in> slot es b ` {..<n}"
    using old new by metis
  then show ?case
  proof cases
    case 1
    then show ?thesis using Cons.IH [OF ok] Cons.prems(4) by simp
  next
    case 4
    then obtain i j where "x = slot es b i" "y = slot es b j" by (elim imageE)
    then show ?thesis using slot_apart [of i j es b] Cons.prems(4) by metis
  qed linarith+
qed simp

lemma slots_in_block:
  assumes "chunks_ok m es cs" "x \<in> slots es cs" "8 \<le> es" "es mod 8 = 0"
  shows "in_block (blocks m) x"
proof -
  obtain b n i where s: "(b, n) \<in> set cs" "i < n" "x = slot es b i" by (rule slotsE [OF assms(2)])
  have "(b, 8 + n * es) \<in> set (blocks m)" "b mod 16 = 0" using assms(1) s(1) by (auto simp: chunks_ok_def)
  then show ?thesis unfolding s(3) by (rule slot_in_block) (use s(2) assms in simp_all)
qed

section \<open>Filling and growing\<close>

lemma word_prod: "j * unat (w :: u32) < 2 ^ 32 \<Longrightarrow> unat (of_nat j * w) = j * unat w"
proof -
  assume a: "j * unat w < 2 ^ 32"
  have "of_nat j * w = of_nat (j * unat w)" by simp
  then show ?thesis using a by (simp only: unat_of_nat) (simp add: take_bit_nat_eq_self)
qed

lemma store_ptr_in:
  "in_block (blocks m) a \<Longrightarrow> store_ptr a v m = Some (m\<lparr>cell := (cell m)(a := v)\<rparr>)"
  by (simp add: store_ptr_def)

lemma fill_free_loop_spec:
  assumes "i \<le> unat n" "unat n < 2 ^ 31" "unat n * unat (elem_size mp) < 2 ^ 32"
    "\<And>j. j < unat n \<Longrightarrow> in_block (blocks m) (slot (unat (elem_size mp)) b j)"
    "chain (cell m) (free_list mp) fs" "set fs \<inter> slot (unat (elem_size mp)) b ` {i..<unat n} = {}"
    "0 < unat (elem_size mp)"
  shows "\<exists>c fl. fill_free_loop i (b + 8) n mp m = Some (m\<lparr>cell := c\<rparr>, mp\<lparr>free_list := fl\<rparr>) \<and>
    (\<forall>x. x \<notin> slot (unat (elem_size mp)) b ` {i..<unat n} \<longrightarrow> c x = cell m x) \<and>
    chain c fl (rev (map (slot (unat (elem_size mp)) b) [i..<unat n]) @ fs)"
  using assms
proof (induction "unat n - i" arbitrary: i mp m fs)
  case 0
  then show ?case
    by (intro exI [of _ "cell m"] exI [of _ "free_list mp"]) (simp add: fill_free_loop.simps [of i])
next
  case (Suc k)
  define es where "es = unat (elem_size mp)"
  define e where "e = slot es b i"
  define m' where "m' = m\<lparr>cell := (cell m)(e := free_list mp)\<rparr>"
  define mp' where "mp' = mp\<lparr>free_list := e\<rparr>"
  have i: "i < unat n" using Suc.hyps(2) by simp
  have "i * es \<le> unat n * es" using i by simp
  then have "i * es < 2 ^ 32" using Suc.prems(3) unfolding es_def by linarith
  then have adr: "(b + 8) + unat (of_nat i * elem_size mp) = e"
    using word_prod [of i "elem_size mp"] by (simp add: e_def slot_def es_def)
  have e: "in_block (blocks m) e" using Suc.prems(4) [OF i] by (simp add: e_def es_def)
  have step: "fill_free_loop i (b + 8) n mp m = fill_free_loop (i + 1) (b + 8) n mp' m'"
    using i Suc.prems(2) e adr
    by (simp add: fill_free_loop.simps [of i] store_ptr_in m'_def mp'_def)
  have enot: "e \<notin> set fs" using Suc.prems(6) i unfolding e_def es_def by auto
  have range: "e \<notin> slot es b ` {i + 1..<unat n}"
    using Suc.prems(7) by (auto simp: e_def slot_def es_def)
  have "\<exists>c fl. fill_free_loop (i + 1) (b + 8) n mp' m' = Some (m'\<lparr>cell := c\<rparr>, mp'\<lparr>free_list := fl\<rparr>) \<and>
    (\<forall>x. x \<notin> slot (unat (elem_size mp')) b ` {i + 1..<unat n} \<longrightarrow> c x = cell m' x) \<and>
    chain c fl (rev (map (slot (unat (elem_size mp')) b) [i + 1..<unat n]) @ (e # fs))"
  proof (rule Suc.hyps(1))
    show "chain (cell m') (free_list mp') (e # fs)"
      using Suc.prems(5) enot by (simp add: m'_def mp'_def e_def slot_def)
    show "set (e # fs) \<inter> slot (unat (elem_size mp')) b ` {i + 1..<unat n} = {}"
      using Suc.prems(6) range by (auto simp: mp'_def es_def)
  qed (use Suc.hyps(2) Suc.prems(2-4,7) i in \<open>auto simp: mp'_def m'_def\<close>)
  then obtain c fl where r: "fill_free_loop (i + 1) (b + 8) n mp' m' = Some (m'\<lparr>cell := c\<rparr>, mp'\<lparr>free_list := fl\<rparr>)"
    "\<And>x. x \<notin> slot es b ` {i + 1..<unat n} \<Longrightarrow> c x = cell m' x"
    "chain c fl (rev (map (slot es b) [i + 1..<unat n]) @ (e # fs))"
    by (auto simp: mp'_def es_def)
  have up: "[i..<unat n] = i # [i + 1..<unat n]" using i by (simp add: upt_conv_Cons)
  have "c x = cell m x" if x: "x \<notin> slot es b ` {i..<unat n}" for x
  proof -
    have "x \<notin> slot es b ` {i + 1..<unat n}" "x \<noteq> e" using x i by (auto simp: e_def)
    with r(2) show ?thesis by (simp add: m'_def)
  qed
  with r(1,3) step up show ?case
    by (intro exI [of _ c] exI [of _ fl]) (simp add: m'_def mp'_def es_def [symmetric] e_def [symmetric])
qed

lemma pool_grow_ok:
  assumes inv: "pool_inv m mp cs fs live" and n: "unat n < 2 ^ 31" "unat n * unat (elem_size mp) < 2 ^ 32"
  shows "(pm_brk m + 8 + unat n * unat (elem_size mp) > pm_limit m \<and> grow_new_mem mp n m = Some (m, mp)) \<or>
    (\<exists>m' mp' b. pm_brk m + 8 + unat n * unat (elem_size mp) \<le> pm_limit m \<and>
       grow_new_mem mp n m = Some (m', mp') \<and> elem_size mp' = elem_size mp \<and>
       needs_auto_grow mp' = needs_auto_grow mp \<and> b = pm_brk m \<and>
       pool_inv m' mp' ((b, unat n) # cs)
         (rev (map (slot (unat (elem_size mp)) b) [0..<unat n]) @ fs) live)"
proof -
  define es where "es = unat (elem_size mp)"
  have prod: "unat (n * elem_size mp) = unat n * es"
    using word_prod [of "unat n" "elem_size mp"] n(2) by (simp add: es_def)
  define b where "b = pm_brk m"
  have ok: "mem_ok m" "8 \<le> es" "es mod 8 = 0" "chunks_ok m es cs"
    "chain (cell m) (raw_mem_list mp) (map fst cs)" "chain (cell m) (free_list mp) fs" "distinct fs"
    "set fs \<union> live = slots es cs" "set fs \<inter> live = {}"
    "elem_count mp = of_nat (sum_list (map snd cs))"
    using inv by (simp_all add: pool_inv_def es_def)
  have b: "0 < b" "b mod 16 = 0" using ok(1) by (auto simp: mem_ok_def b_def)
  show ?thesis
  proof (cases "b + 8 + unat n * es \<le> pm_limit m")
    case False
    then show ?thesis
      by (simp add: grow_new_mem_def malloc_bytes_def prod es_def [symmetric] b_def add.assoc)
  next
    case True
    define m1 where "m1 = m\<lparr>blocks := (b, 8 + unat n * es) # blocks m,
      pm_brk := (b + (8 + unat n * es) + 15) div 16 * 16\<rparr>"
    define m2 where "m2 = m1\<lparr>cell := (cell m)(b := raw_mem_list mp)\<rparr>"
    define mp2 where "mp2 = mp\<lparr>raw_mem_list := b\<rparr>"
    have brk: "b + 8 + unat n * es \<le> pm_brk m1" "pm_brk m1 mod 16 = 0" by (simp_all add: m1_def)
    have below: "b' + 8 + n' * es \<le> b" if "(b', n') \<in> set cs" for b' n'
      using ok(4) that by (auto simp: chunks_ok_def b_def)
    have hd: "b \<notin> fst ` set cs" using below by fastforce
    have old: "x + es \<le> b" if "x \<in> slots es cs" for x by (rule slots_below [OF below that])
    have fsb: "x + es \<le> b" if "x \<in> set fs" for x using old that ok(8) by blast
    have new: "b + 8 \<le> slot es b i" for i by (simp add: slot_def)
    have "b \<notin> set fs" using fsb ok(2) by fastforce
    then have fs2: "chain (cell m2) (free_list mp2) fs" using ok(6) by (simp add: m2_def mp2_def)
    have disj: "set fs \<inter> slot es b ` {0..<unat n} = {}" by (auto dest!: fsb simp: slot_def)
    have "set (blocks m) \<subseteq> set (blocks m2)" by (auto simp: m2_def m1_def)
    moreover have "pm_brk m \<le> pm_brk m2" using brk by (simp add: m2_def b_def)
    ultimately have "chunks_ok m2 es cs" by (rule chunks_ok_mono [OF ok(4)])
    then have c2: "chunks_ok m2 es ((b, unat n) # cs)"
      using below brk b by (auto simp: chunks_ok_Cons m2_def m1_def)
    have slot_in: "in_block (blocks m2) (slot es b j)" if "j < unat n" for j
      using slots_in_block [OF c2 _ ok(2,3)] that by simp
    obtain c fl where f: "fill_free_loop 0 (b + 8) n mp2 m2 = Some (m2\<lparr>cell := c\<rparr>, mp2\<lparr>free_list := fl\<rparr>)"
      "\<And>x. x \<notin> slot es b ` {0..<unat n} \<Longrightarrow> c x = cell m2 x"
      "chain c fl (rev (map (slot es b) [0..<unat n]) @ fs)"
      using fill_free_loop_spec [of 0 n mp2 m2 b fs] fs2 disj slot_in n ok(2)
      by (auto simp: mp2_def es_def [symmetric])
    define m' where "m' = m2\<lparr>cell := c\<rparr>"
    define mp' where "mp' = mp2\<lparr>free_list := fl, elem_count := elem_count mp + n\<rparr>"
    have grow: "grow_new_mem mp n m = Some (m', mp')"
    proof -
      have "in_block (blocks m1) b"
        using head_in_block [of b "unat n * es" "blocks m1"] b by (simp add: m1_def)
      then have st: "store_ptr b (raw_mem_list mp) m1 = Some m2"
        by (simp add: store_ptr_in m2_def) (simp add: m1_def)
      have mal: "malloc_bytes (8 + unat (n * elem_size mp)) m = (b, m1)"
        using True by (simp add: malloc_bytes_def prod m1_def b_def)
      show ?thesis
        using b(1) f(1) unfolding grow_new_mem_def mal prod.case fill_free_list_def mp2_def [symmetric]
        by (simp add: st m'_def mp'_def) (simp add: mp2_def)
    qed
    have "pool_inv m' mp' ((b, unat n) # cs) (rev (map (slot es b) [0..<unat n]) @ fs) live"
    proof -
      have keep: "c x = cell m x" if "x \<in> fst ` set cs" for x
      proof -
        have "x < b" using that below by fastforce
        moreover from this have "x \<notin> slot es b ` {0..<unat n}" by (auto simp: slot_def)
        ultimately show ?thesis using f(2) [of x] by (simp add: m2_def m1_def)
      qed
      have "c b = raw_mem_list mp"
      proof -
        have "b \<notin> slot es b ` {0..<unat n}" by (auto simp: slot_def)
        then show ?thesis using f(2) [of b] by (simp add: m2_def)
      qed
      then have "chain c b (b # map fst cs)"
        using ok(5) b(1) keep chain_cong [of "map fst cs" c "cell m"] by simp
      moreover have "distinct (rev (map (slot es b) [0..<unat n]) @ fs)"
        using ok(7) disj ok(2) by (auto simp: distinct_map inj_on_def slot_def)
      moreover have "mem_ok m2"
        using ok(1) brk by (auto simp: mem_ok_def m2_def m1_def b_def)
      moreover have "chunks_ok m' es ((b, unat n) # cs)" using c2 by (simp add: chunks_ok_def m'_def)
      moreover have "live \<inter> slot es b ` {0..<unat n} = {}"
        using ok(8) old by (fastforce simp: slot_def)
      ultimately show ?thesis
        using f(3) ok(2,3,8,9,10)
        by (auto simp: pool_inv_def m'_def mp'_def mp2_def es_def [symmetric] mem_ok_def atLeast0LessThan)
    qed
    with grow True show ?thesis by (auto simp: es_def b_def mp'_def mp2_def)
  qed
qed

section \<open>Operations keep the invariant\<close>

lemma pool_inv_facts:
  assumes "pool_inv m mp cs fs live"
  shows "8 \<le> unat (elem_size mp)" "unat (elem_size mp) mod 8 = 0" "chunks_ok m (unat (elem_size mp)) cs"
    "chain (cell m) (free_list mp) fs" "set fs \<union> live = slots (unat (elem_size mp)) cs"
    "set fs \<inter> live = {}" "distinct fs" "chain (cell m) (raw_mem_list mp) (map fst cs)" "mem_ok m"
    "elem_count mp = of_nat (sum_list (map snd cs))"
  using assms by (simp_all add: pool_inv_def)

lemma pool_alloc_pop:
  assumes "pool_inv m mp cs (x # fs) live"
  shows "mem_pool_alloc mp m = Some (m, mp\<lparr>free_list := cell m x\<rparr>, x)"
    and "pool_inv m (mp\<lparr>free_list := cell m x\<rparr>) cs fs (insert x live)"
    and "x \<noteq> NULL" "x \<notin> live"
proof -
  note f = pool_inv_facts [OF assms]
  have x: "free_list mp = x" "x \<noteq> NULL" "x \<in> slots (unat (elem_size mp)) cs" using f(4,5) by auto
  have "in_block (blocks m) x" by (rule slots_in_block [OF f(3) x(3) f(1,2)])
  then show "mem_pool_alloc mp m = Some (m, mp\<lparr>free_list := cell m x\<rparr>, x)"
    using x by (simp add: mem_pool_alloc_def load_ptr_def)
  show "pool_inv m (mp\<lparr>free_list := cell m x\<rparr>) cs fs (insert x live)"
    using f x by (auto simp: pool_inv_def)
  show "x \<noteq> NULL" "x \<notin> live" using x f(6) by auto
qed

lemma pool_alloc_none:
  assumes "pool_inv m mp cs [] live" "\<not> needs_auto_grow mp"
  shows "mem_pool_alloc mp m = Some (m, mp, NULL)"
  using pool_inv_facts(4) [OF assms(1)] assms(2) by (simp add: mem_pool_alloc_def)

text \<open>Growth doubles the count; the 32-bit product must not wrap.\<close>

definition grow_fits :: "mem_pool \<Rightarrow> bool" where
  "grow_fits mp \<longleftrightarrow> unat (elem_count mp) * 2 * unat (elem_size mp) < 2 ^ 32"

lemma grow_count:
  assumes "grow_fits mp" "8 \<le> unat (elem_size mp)"
  shows "unat (elem_count mp * 2) = unat (elem_count mp) * 2" "unat (elem_count mp * 2) < 2 ^ 31"
proof -
  have "unat (elem_count mp) * 2 * 8 \<le> unat (elem_count mp) * 2 * unat (elem_size mp)"
    using assms(2) by (intro mult_left_mono) auto
  then have l: "unat (elem_count mp) * 2 * 8 < 2 ^ 32" using assms(1) unfolding grow_fits_def by linarith
  have "unat (of_nat 2 * elem_count mp) = 2 * unat (elem_count mp)"
    using l by (intro word_prod) linarith
  then show "unat (elem_count mp * 2) = unat (elem_count mp) * 2" by (simp add: mult.commute)
  then show "unat (elem_count mp * 2) < 2 ^ 31" using l by simp
qed

lemma pool_alloc_grow:
  assumes inv: "pool_inv m mp cs [] live" and auto: "needs_auto_grow mp" and fits: "grow_fits mp"
    and "elem_count mp \<noteq> 0"
    and room: "pm_brk m + 8 + unat (elem_count mp) * 2 * unat (elem_size mp) \<le> pm_limit m"
  shows "\<exists>m' mp' p cs' fs'. mem_pool_alloc mp m = Some (m', mp', p) \<and> p \<noteq> NULL \<and> p \<notin> live \<and>
    pool_inv m' mp' cs' fs' (insert p live) \<and> elem_size mp' = elem_size mp \<and>
    needs_auto_grow mp' \<and> Suc (length fs') = 2 * unat (elem_count mp)"
proof -
  note f = pool_inv_facts [OF inv]
  note n = grow_count [OF fits f(1)]
  obtain m1 mp1 b where g: "grow_new_mem mp (elem_count mp * 2) m = Some (m1, mp1)"
    "elem_size mp1 = elem_size mp" "needs_auto_grow mp1 = needs_auto_grow mp"
    "pool_inv m1 mp1 ((b, unat (elem_count mp * 2)) # cs)
       (rev (map (slot (unat (elem_size mp)) b) [0..<unat (elem_count mp * 2)])) live"
    using pool_grow_ok [OF inv n(2)] room fits unfolding n(1) grow_fits_def by fastforce
  define k where "k = unat (elem_count mp) * 2"
  have k: "0 < k" using assms(4) by (simp add: k_def unat_gt_0)
  define xs where "xs = rev (map (slot (unat (elem_size mp)) b) [0..<k])"
  obtain x fs' where xs: "xs = x # fs'" using k by (cases xs) (auto simp: xs_def)
  have inv1: "pool_inv m1 mp1 ((b, k) # cs) (x # fs') live"
    using g(4) xs unfolding n(1) k_def [symmetric] xs_def [symmetric] by simp
  note p = pool_alloc_pop [OF inv1]
  have "free_list mp = NULL" using f(4) by simp
  have "free_list mp1 \<noteq> NULL" using pool_inv_facts(4) [OF inv1] by simp
  then have "mem_pool_alloc mp1 m1 = mem_pool_alloc mp m"
    unfolding mem_pool_alloc_def using \<open>free_list mp = NULL\<close> auto g(1) by simp
  moreover have "Suc (length fs') = k" using xs by (metis xs_def length_Cons length_map length_rev length_upt diff_zero)
  ultimately show ?thesis using p g(2,3) auto
    by (intro exI [of _ m1] exI [of _ "mp1\<lparr>free_list := cell m1 x\<rparr>"] exI [of _ x] exI [of _ "(b, k) # cs"]
        exI [of _ fs']) (simp add: k_def)
qed

lemma pool_free_ok:
  assumes "pool_inv m mp cs fs live" "p \<in> live"
  shows "mem_pool_free mp p m = Some (m\<lparr>cell := (cell m)(p := free_list mp)\<rparr>, mp\<lparr>free_list := p\<rparr>)"
    and "pool_inv (m\<lparr>cell := (cell m)(p := free_list mp)\<rparr>) (mp\<lparr>free_list := p\<rparr>) cs (p # fs) (live - {p})"
proof -
  note f = pool_inv_facts [OF assms(1)]
  have p: "p \<in> slots (unat (elem_size mp)) cs" "p \<notin> set fs" using f(5,6) assms(2) by auto
  have b: "in_block (blocks m) p" by (rule slots_in_block [OF f(3) p(1) f(1,2)])
  have hd: "p \<notin> set (map fst cs)" using slot_neq_header [OF f(3) p(1) f(1)] by simp
  have "p \<noteq> NULL" using p(1) by (auto simp: slots_def slot_def)
  then show "mem_pool_free mp p m = Some (m\<lparr>cell := (cell m)(p := free_list mp)\<rparr>, mp\<lparr>free_list := p\<rparr>)"
    using b by (simp add: mem_pool_free_def store_ptr_in)
  show "pool_inv (m\<lparr>cell := (cell m)(p := free_list mp)\<rparr>) (mp\<lparr>free_list := p\<rparr>) cs (p # fs) (live - {p})"
    using f p hd assms(2) \<open>p \<noteq> NULL\<close> by (auto simp: pool_inv_def chunks_ok_def mem_ok_def)
qed

lemma div8_up: "n mod 8 \<noteq> 0 \<Longrightarrow> (n + 7) div 8 = n div 8 + 1" for n :: nat
  by presburger

lemma align_pad_up:
  assumes "unat s < 2 ^ 31"
  shows "unat (s + align_pad s) = (unat s + 7) div 8 * 8"
proof -
  have "or (unat s) (mask 3) = push_bit 3 (drop_bit 3 (unat s)) + mask 3"
  proof -
    have "or (unat s) (mask 3) = or (push_bit 3 (drop_bit 3 (unat s))) (mask 3)"
      by (rule bit_eqI) (auto simp: bit_simps)
    also have "\<dots> = push_bit 3 (drop_bit 3 (unat s)) + mask 3"
      by (rule disjunctive_add [symmetric]) (auto simp: bit_simps)
    finally show ?thesis .
  qed
  then have "or (unat s) 7 = unat s div 8 * 8 + 7"
    by (simp add: push_bit_nat_def drop_bit_nat_def mask_eq_exp_minus_1)
  then have o: "unat (or s 7) = unat s div 8 * 8 + 7" by (simp add: unsigned_or_eq)
  have "unat (s mod 8) = unat s mod 8" by (simp add: unat_mod_distrib)
  then have m: "s mod 8 = 0 \<longleftrightarrow> unat s mod 8 = 0" by (metis unat_eq_zero)
  show ?thesis
  proof (cases "unat s mod 8 = 0")
    case True
    then have "align_pad s = 0" using m by (simp add: align_pad_def)
    then show ?thesis using True by (simp add: mod_eq_0_iff_dvd) presburger
  next
    case False
    then have "s + align_pad s = or s 7 + 1" using m by (simp add: align_pad_def)
    moreover have "unat (or s 7 + 1) = unat (or s 7) + 1"
      using o assms by (simp add: unat_word_ariths del: unat_add_lem)
    ultimately show ?thesis using o div8_up [OF False] by simp
  qed
qed

definition round8 :: "nat \<Rightarrow> nat" where
  "round8 n = (max n 8 + 7) div 8 * 8"

lemma round8_facts: "8 \<le> round8 n" "n \<le> round8 n" "round8 n mod 8 = 0" "round8 n < max n 8 + 8"
  by (auto simp: round8_def max_def)

lemma pool_inv_empty:
  assumes "mem_ok m" "8 \<le> unat es" "unat es mod 8 = 0"
  shows "pool_inv m \<lparr>elem_size = es, elem_count = 0, free_list = NULL, raw_mem_list = NULL,
    needs_auto_grow = g\<rparr> [] [] {}"
  using assms by (simp add: pool_inv_def)

lemma create_size:
  assumes "unat esize \<le> 2 ^ 31 - 8" "sz = (if 8 < unat esize then esize else 8)"
  shows "unat (sz + align_pad sz) = round8 (unat esize)" "sz mod 8 = 0 \<or> or sz 7 \<noteq> 2 ^ 31 - 1"
proof -
  have sz: "unat sz = max (unat esize) 8" "unat sz < 2 ^ 31" using assms by (auto simp: max_def)
  show *: "unat (sz + align_pad sz) = round8 (unat esize)"
    using align_pad_up [OF sz(2)] sz(1) by (simp add: round8_def)
  show "sz mod 8 = 0 \<or> or sz 7 \<noteq> 2 ^ 31 - 1"
  proof (rule disjCI)
    assume "\<not> or sz 7 \<noteq> 2 ^ 31 - 1"
    then have o: "or sz 7 = 2 ^ 31 - 1" by simp
    show "sz mod 8 = 0"
    proof (rule ccontr)
      assume "sz mod 8 \<noteq> 0"
      then have "sz + align_pad sz = 2 ^ 31" using o by (simp add: align_pad_def)
      then have "unat (sz + align_pad sz) = 2 ^ 31" by simp
      moreover have "round8 (unat esize) < 2 ^ 31"
      proof -
        have "unat esize + 7 < 2 ^ 31" using assms(1) by simp
        then show ?thesis by (auto simp: round8_def max_def)
      qed
      ultimately show False using * by simp
    qed
  qed
qed

lemma pool_create_grow:
  assumes "unat esize \<le> 2 ^ 31 - 8"
  obtains es where "unat es = round8 (unat esize)"
    "\<And>n g m. mem_pool_create esize n g m =
      grow_new_mem \<lparr>elem_size = es, elem_count = 0, free_list = NULL, raw_mem_list = NULL,
        needs_auto_grow = g\<rparr> (if n = 0 then DEFAULT_ELEM_COUNT else n) m"
proof -
  define sz where "sz = (if 8 < unat esize then esize else 8)"
  note c = create_size [OF assms sz_def]
  show thesis
    by (rule that [OF c(1)]) (use c(2) in \<open>simp add: mem_pool_create_def sz_def [symmetric]\<close>)
qed

lemma free_bytes_in:
  "a \<in> fst ` set (blocks m) \<Longrightarrow>
    free_bytes a m = Some (m\<lparr>blocks := filter (\<lambda>(b, n). b \<noteq> a) (blocks m)\<rparr>)"
  by (simp add: free_bytes_def)

lemma pool_delete_loop_ok:
  assumes "chain (cell m) p bs" "distinct bs"
    "\<And>b. b \<in> set bs \<Longrightarrow> b mod 16 = 0 \<and> (\<exists>n. (b, 8 + n) \<in> set (blocks m))"
  shows "pool_delete_loop p m = Some (m\<lparr>blocks := filter (\<lambda>(b, n). b \<notin> set bs) (blocks m)\<rparr>)"
  using assms
proof (induction bs arbitrary: p m)
  case Nil
  then show ?case by (simp add: pool_delete_loop.simps case_prod_beta)
next
  case (Cons b bs)
  have p: "p = b" "b \<noteq> NULL" "chain (cell m) (cell m b) bs" using Cons.prems(1) by auto
  obtain n where n: "(b, 8 + n) \<in> set (blocks m)" "b mod 16 = 0" using Cons.prems(3) [of b] by auto
  have l: "load_ptr b m = Some (cell m b)" using head_in_block [OF n] by (simp add: load_ptr_def)
  define m1 where "m1 = m\<lparr>blocks := filter (\<lambda>(a, n). a \<noteq> b) (blocks m)\<rparr>"
  have "b \<in> fst ` set (blocks m)" using n(1) by force
  then have fr: "free_bytes b m = Some m1" by (simp add: free_bytes_in m1_def)
  have "pool_delete_loop (cell m b) m1 = Some (m1\<lparr>blocks := filter (\<lambda>(b, n). b \<notin> set bs) (blocks m1)\<rparr>)"
  proof (rule Cons.IH)
    show "b' mod 16 = 0 \<and> (\<exists>n. (b', 8 + n) \<in> set (blocks m1))" if b': "b' \<in> set bs" for b'
      using Cons.prems(2) Cons.prems(3) [of b'] b' by (auto simp: m1_def)
  qed (use p Cons.prems(2) in \<open>simp_all add: m1_def\<close>)
  moreover have "filter (\<lambda>(b, n). b \<notin> set bs) (blocks m1) = filter (\<lambda>(a, n). a \<notin> set (b # bs)) (blocks m)"
    unfolding m1_def by (auto intro!: filter_cong)
  ultimately show ?case
    using p l fr by (simp add: pool_delete_loop.simps [of b] m1_def)
qed

lemma chunk_heads_distinct: "chunks_ok m es cs \<Longrightarrow> distinct (map fst cs)"
proof (induction cs)
  case (Cons c cs)
  obtain b n where "c = (b, n)" by (cases c)
  then show ?case using Cons by (fastforce simp: chunks_ok_Cons)
qed simp

lemma pool_client_store:
  assumes inv: "pool_inv m mp cs fs live" and p: "p \<in> live" "p \<le> a" "a + 8 \<le> p + unat (elem_size mp)" "a mod 8 = 0"
  shows "\<exists>m'. store_ptr a v m = Some m' \<and> pool_inv m' mp cs fs live"
proof -
  note f = pool_inv_facts [OF inv]
  define es where "es = unat (elem_size mp)"
  have ps: "p \<in> slots es cs" using f(5) p(1) by (auto simp: es_def)
  obtain b n i where s: "(b, n) \<in> set cs" "i < n" "p = slot es b i" by (rule slotsE [OF ps])
  have blk: "(b, 8 + n * es) \<in> set (blocks m)" using f(3) s(1) by (auto simp: chunks_ok_def es_def)
  have "b \<le> a \<and> a + 8 \<le> b + (8 + n * es)"
    using slot_bounds [OF s(2), where b = b and es = es] s(3) p(2,3) unfolding es_def by linarith
  then have "in_block (blocks m) a" using blk p(4) unfolding in_block_def list_ex_iff by blast
  moreover have "a \<notin> set fs"
  proof
    assume a: "a \<in> set fs"
    have "a \<noteq> p" "a \<in> slots es cs" using a p(1) f(5,6) by (auto simp: es_def)
    then show False using slots_apart [OF f(3), of p a] ps p f(1) by (auto simp: es_def)
  qed
  moreover have "a \<notin> set (map fst cs)"
  proof
    assume "a \<in> set (map fst cs)"
    then obtain k where "(a, k) \<in> set cs" by auto
    then show False using header_apart [OF f(3), of p a k] ps p f(1) by (auto simp: es_def)
  qed
  ultimately show ?thesis
    using f by (simp add: store_ptr_in pool_inv_def mem_ok_def chunks_ok_def)
qed

lemma pool_alloc_any:
  assumes inv: "pool_inv m mp cs fs live"
    and fits: "free_list mp \<noteq> NULL \<or> \<not> needs_auto_grow mp \<or> grow_fits mp"
  shows "\<exists>m' mp' p cs' fs'. mem_pool_alloc mp m = Some (m', mp', p) \<and> elem_size mp' = elem_size mp \<and>
    needs_auto_grow mp' = needs_auto_grow mp \<and>
    (p = NULL \<and> fs = [] \<and> pool_inv m' mp' cs' [] live \<or>
     p \<noteq> NULL \<and> p \<notin> live \<and> pool_inv m' mp' cs' fs' (insert p live))"
proof (cases fs)
  case (Cons x fs')
  from pool_alloc_pop [OF inv [unfolded Cons]] show ?thesis
    by (intro exI [of _ m] exI [of _ "mp\<lparr>free_list := cell m x\<rparr>"] exI [of _ x] exI [of _ cs] exI [of _ fs']) simp
next
  case Nil
  note f = pool_inv_facts [OF inv]
  have n: "free_list mp = NULL" using f(4) Nil by simp
  show ?thesis
  proof (cases "needs_auto_grow mp")
    case False
    then show ?thesis using pool_alloc_none [OF inv [unfolded Nil]] inv Nil by auto
  next
    case True
    with fits n have fits: "grow_fits mp" by simp
    note g = grow_count [OF fits f(1)]
    have "unat (elem_count mp * 2) * unat (elem_size mp) < 2 ^ 32"
      using fits unfolding g(1) grow_fits_def by simp
    from pool_grow_ok [OF inv g(2) this]
    obtain m1 mp1 cs1 fs1 where r: "grow_new_mem mp (elem_count mp * 2) m = Some (m1, mp1)"
      "elem_size mp1 = elem_size mp" "needs_auto_grow mp1 = needs_auto_grow mp"
      "pool_inv m1 mp1 cs1 fs1 live"
      using inv by blast
    have start: "mem_pool_alloc mp m =
        (if free_list mp1 \<noteq> NULL
         then do { nxt \<leftarrow> load_ptr (free_list mp1) m1; Some (m1, mp1\<lparr>free_list := nxt\<rparr>, free_list mp1) }
         else Some (m1, mp1, NULL))"
      using True n r(1) by (simp add: mem_pool_alloc_def)
    show ?thesis
    proof (cases fs1)
      case Nil1: Nil
      then have "free_list mp1 = NULL" using pool_inv_facts(4) [OF r(4)] by simp
      then show ?thesis using start r Nil Nil1 by auto
    next
      case (Cons x fs2)
      have x: "free_list mp1 = x" "x \<noteq> NULL" using pool_inv_facts(4) [OF r(4)] Cons by auto
      note p = pool_alloc_pop [OF r(4) [unfolded Cons]]
      have "mem_pool_alloc mp1 m1 = mem_pool_alloc mp m"
        unfolding start using x by (simp add: mem_pool_alloc_def)
      then show ?thesis using p r(2,3)
        by (intro exI [of _ m1] exI [of _ "mp1\<lparr>free_list := cell m1 x\<rparr>"] exI [of _ x] exI [of _ cs1]
            exI [of _ fs2]) simp
    qed
  qed
qed

lemma pool_live_layout:
  assumes "pool_inv m mp cs fs live" "p \<in> live"
  shows "in_block (blocks m) p" "q \<in> live \<Longrightarrow> q \<noteq> p \<Longrightarrow>
    p + unat (elem_size mp) \<le> q \<or> q + unat (elem_size mp) \<le> p"
proof -
  note f = pool_inv_facts [OF assms(1)]
  have p: "p \<in> slots (unat (elem_size mp)) cs" using f(5) assms(2) by auto
  show "in_block (blocks m) p" by (rule slots_in_block [OF f(3) p f(1,2)])
  show "p + unat (elem_size mp) \<le> q \<or> q + unat (elem_size mp) \<le> p" if "q \<in> live" "q \<noteq> p"
    using slots_apart [OF f(3) p, of q] f(5) that by blast
qed

text \<open>Creation, with and without the memory for the elements.\<close>

lemma pool_create_ok:
  assumes "mem_ok m" "unat esize \<le> 2 ^ 31 - 8" "cnt = (if n = 0 then 20 else unat n)" "cnt < 2 ^ 31"
    "cnt * round8 (unat esize) < 2 ^ 32"
  shows "\<exists>m' mp. mem_pool_create esize n g m = Some (m', mp) \<and>
    unat (elem_size mp) = round8 (unat esize) \<and> needs_auto_grow mp = g \<and>
    (if pm_brk m + 8 + cnt * round8 (unat esize) \<le> pm_limit m
     then \<exists>cs fs. pool_inv m' mp cs fs {} \<and> length fs = cnt \<and> unat (elem_count mp) = cnt
     else m' = m \<and> pool_inv m' mp [] [] {} \<and> elem_count mp = 0)"
proof -
  obtain es where es: "unat es = round8 (unat esize)"
    "\<And>n g m. mem_pool_create esize n g m =
      grow_new_mem \<lparr>elem_size = es, elem_count = 0, free_list = NULL, raw_mem_list = NULL,
        needs_auto_grow = g\<rparr> (if n = 0 then DEFAULT_ELEM_COUNT else n) m"
    using pool_create_grow [OF assms(2)] by metis
  define mp0 where "mp0 = \<lparr>elem_size = es, elem_count = 0, free_list = NULL, raw_mem_list = NULL,
    needs_auto_grow = g\<rparr>"
  define n' where "n' = (if n = 0 then DEFAULT_ELEM_COUNT else n)"
  have n': "unat n' = cnt" by (simp add: n'_def assms(3) DEFAULT_ELEM_COUNT_def)
  have inv0: "pool_inv m mp0 [] [] {}"
    unfolding mp0_def by (rule pool_inv_empty) (use assms(1) es(1) round8_facts in simp_all)
  have c: "mem_pool_create esize n g m = grow_new_mem mp0 n' m" by (simp add: es(2) mp0_def n'_def)
  have e: "elem_size mp0 = es" "elem_count mp0 = 0" by (simp_all add: mp0_def)
  have "unat n' < 2 ^ 31" "unat n' * unat (elem_size mp0) < 2 ^ 32" using assms n' e es(1) by simp_all
  from pool_grow_ok [OF inv0 this] show ?thesis
  proof (elim disjE exE conjE)
    assume "pm_limit m < pm_brk m + 8 + unat n' * unat (elem_size mp0)" "grow_new_mem mp0 n' m = Some (m, mp0)"
    then show ?thesis using c inv0 e es(1) n' by (simp add: mp0_def)
  next
    fix m' mp' b
    assume r: "pm_brk m + 8 + unat n' * unat (elem_size mp0) \<le> pm_limit m"
      "grow_new_mem mp0 n' m = Some (m', mp')" "elem_size mp' = elem_size mp0"
      "needs_auto_grow mp' = needs_auto_grow mp0"
      "pool_inv m' mp' [(b, unat n')] (rev (map (slot (unat (elem_size mp0)) b) [0..<unat n']) @ []) {}"
    have "elem_count mp' = of_nat cnt" using pool_inv_facts(10) [OF r(5)] n' by simp
    then have "unat (elem_count mp') = cnt" using assms(4) by (simp add: unat_of_nat take_bit_nat_eq_self)
    then show ?thesis
      using r c e es(1) n' by (auto simp: mp0_def intro!: exI [of _ "[(b, unat n')]"] exI)
  qed
qed

text \<open>The slots are as many as the chunks have elements, so a pool with spare slots serves a request.\<close>

lemma card_slots:
  assumes "chunks_ok m es cs" "8 \<le> es"
  shows "finite (slots es cs) \<and> card (slots es cs) = sum_list (map snd cs)"
  using assms(1)
proof (induction cs)
  case (Cons c cs)
  obtain b n where c: "c = (b, n)" by force
  have ok: "chunks_ok m es cs" and lo: "\<And>b' n'. (b', n') \<in> set cs \<Longrightarrow> b' + 8 + n' * es \<le> b"
    using Cons.prems by (auto simp: chunks_ok_def c)
  have "inj_on (slot es b) {..<n}" using assms(2) by (auto simp: inj_on_def slot_def)
  then have "card (slot es b ` {..<n}) = n" by (simp add: card_image)
  moreover have "slot es b ` {..<n} \<inter> slots es cs = {}"
    using slots_below [OF lo] assms(2) by (fastforce simp: slot_def)
  ultimately show ?case using Cons.IH [OF ok] by (simp add: c card_Un_disjoint)
qed simp

lemma pool_take_spare:
  assumes "pool_inv m mp cs fs live" "card live < unat (elem_count mp)"
  shows "\<exists>mp' p. mem_pool_alloc mp m = Some (m, mp', p) \<and> p \<noteq> NULL \<and> elem_count mp' = elem_count mp"
    and "free_list mp \<noteq> NULL"
proof -
  note f = pool_inv_facts [OF assms(1)]
  have c: "finite (slots (unat (elem_size mp)) cs)" "card (slots (unat (elem_size mp)) cs) = sum_list (map snd cs)"
    using card_slots [OF f(3,1)] by auto
  have "unat (elem_count mp) \<le> sum_list (map snd cs)"
    unfolding f(10) by (simp add: unsigned_of_nat take_bit_nat_eq_self_iff take_bit_nat_less_eq_self)
  then have "card live < card (slots (unat (elem_size mp)) cs)" using assms(2) c(2) by linarith
  then obtain x fs' where fs: "fs = x # fs'" using f(5) by (cases fs) auto
  then show "\<exists>mp' p. mem_pool_alloc mp m = Some (m, mp', p) \<and> p \<noteq> NULL \<and> elem_count mp' = elem_count mp"
    using pool_alloc_pop [of m mp cs x fs' live] assms(1) by simp
  show "free_list mp \<noteq> NULL" using f(4) fs by simp
qed

section \<open>The allocator interface\<close>

text \<open>What a client of a pool relies on: \<open>rep s L\<close> says that \<open>L\<close> are the elements in use.\<close>

locale slot_pool =
  fixes rep :: "'s \<Rightarrow> addr set \<Rightarrow> bool"
    and fits :: "'s \<Rightarrow> bool"
    and take_slot :: "'s \<Rightarrow> ('s \<times> addr) option"
    and give_slot :: "addr \<Rightarrow> 's \<Rightarrow> 's option"
  assumes take_law: "rep s L \<Longrightarrow> fits s \<Longrightarrow>
      \<exists>s' p. take_slot s = Some (s', p) \<and>
        (p = NULL \<and> rep s' L \<or> p \<noteq> NULL \<and> p \<notin> L \<and> rep s' (insert p L))"
    and give_law: "rep s L \<Longrightarrow> p \<in> L \<Longrightarrow>
      \<exists>s'. give_slot p s = Some s' \<and> rep s' (L - {p}) \<and> fits s' \<and>
        (\<exists>s''. take_slot s' = Some (s'', p) \<and> rep s'' L)"
begin

lemma take_cases:
  assumes "rep s L" "fits s"
  obtains (full) s' where "take_slot s = Some (s', NULL)" "rep s' L"
  | (fresh) s' p where "take_slot s = Some (s', p)" "p \<noteq> NULL" "p \<notin> L" "rep s' (insert p L)"
  using take_law [OF assms] by blast

text \<open>A failed insertion gives its element back.\<close>

lemma take_give:
  assumes "rep s L" "fits s" "take_slot s = Some (s', p)" "p \<noteq> NULL"
  shows "\<exists>s''. give_slot p s' = Some s'' \<and> rep s'' L"
proof -
  have "p \<notin> L" "rep s' (insert p L)" using take_law [OF assms(1,2)] assms(3,4) by auto
  with give_law [of s' "insert p L" p] show ?thesis by auto
qed

text \<open>The element released last is the next one handed out.\<close>

lemma give_take:
  assumes "rep s L" "p \<in> L" "give_slot p s = Some s'"
  shows "\<exists>s''. take_slot s' = Some (s'', p) \<and> rep s'' L"
  using give_law [OF assms(1,2)] assms(3) by auto

end

type_synonym pool_state = "pool_mem \<times> mem_pool"

definition pool_take :: "pool_state \<Rightarrow> (pool_state \<times> addr) option" where
  "pool_take s = (case s of (m, mp) \<Rightarrow> map_option (\<lambda>(m', mp', p). ((m', mp'), p)) (mem_pool_alloc mp m))"

definition pool_give :: "addr \<Rightarrow> pool_state \<Rightarrow> pool_state option" where
  "pool_give p s = (case s of (m, mp) \<Rightarrow> mem_pool_free mp p m)"

definition pool_rep :: "pool_state \<Rightarrow> addr set \<Rightarrow> bool" where
  "pool_rep s L \<longleftrightarrow> (case s of (m, mp) \<Rightarrow> \<exists>cs fs. pool_inv m mp cs fs L)"

definition pool_fits :: "pool_state \<Rightarrow> bool" where
  "pool_fits s \<longleftrightarrow>
     (case s of (m, mp) \<Rightarrow> free_list mp \<noteq> NULL \<or> \<not> needs_auto_grow mp \<or> grow_fits mp)"

lemma pool_give_take:
  assumes "pool_inv m mp cs fs L" "p \<in> L"
  shows "\<exists>m1 mp1. mem_pool_free mp p m = Some (m1, mp1) \<and> free_list mp1 \<noteq> NULL \<and>
    pool_inv m1 mp1 cs (p # fs) (L - {p}) \<and> mem_pool_alloc mp1 m1 = Some (m1, mp, p) \<and>
    pool_inv m1 mp cs fs L"
proof -
  define m1 where "m1 = m\<lparr>cell := (cell m)(p := free_list mp)\<rparr>"
  define mp1 where "mp1 = mp\<lparr>free_list := p\<rparr>"
  have g: "mem_pool_free mp p m = Some (m1, mp1)" "pool_inv m1 mp1 cs (p # fs) (L - {p})"
    using pool_free_ok [OF assms] by (simp_all add: m1_def mp1_def)
  have restored: "mp1\<lparr>free_list := cell m1 p\<rparr> = mp" by (simp add: m1_def mp1_def)
  have nn: "free_list mp1 \<noteq> NULL" using pool_inv_facts(4) [OF g(2)] by simp
  have L: "insert p (L - {p}) = L" using assms(2) by auto
  show ?thesis
    using g pool_alloc_pop(1,2) [OF g(2)] nn unfolding restored L by blast
qed

interpretation pool: slot_pool pool_rep pool_fits pool_take pool_give
proof
  fix s :: pool_state and L
  assume "pool_rep s L" "pool_fits s"
  then show "\<exists>s' p. pool_take s = Some (s', p) \<and>
      (p = NULL \<and> pool_rep s' L \<or> p \<noteq> NULL \<and> p \<notin> L \<and> pool_rep s' (insert p L))"
    using pool_alloc_any by (cases s) (fastforce simp: pool_rep_def pool_fits_def pool_take_def)
next
  fix s :: pool_state and L p
  assume "pool_rep s L" "p \<in> L"
  then show "\<exists>s'. pool_give p s = Some s' \<and> pool_rep s' (L - {p}) \<and> pool_fits s' \<and>
      (\<exists>s''. pool_take s' = Some (s'', p) \<and> pool_rep s'' L)"
    using pool_give_take by (cases s) (fastforce simp: pool_rep_def pool_fits_def pool_take_def pool_give_def)
qed

lemma pool_delete_ok:
  assumes "pool_inv m mp cs fs live"
  shows "mem_pool_delete mp m =
    Some (m\<lparr>blocks := filter (\<lambda>(b, n). b \<notin> fst ` set cs) (blocks m)\<rparr>)"
proof -
  note f = pool_inv_facts [OF assms]
  have "b mod 16 = 0 \<and> (\<exists>n. (b, 8 + n) \<in> set (blocks m))" if "b \<in> set (map fst cs)" for b
    using that f(3) by (fastforce simp: chunks_ok_def)
  from pool_delete_loop_ok [OF f(8) chunk_heads_distinct [OF f(3)] this]
  show ?thesis by (simp add: mem_pool_delete_def)
qed

section \<open>Properties\<close>

text \<open>Creating a pool, whose element size is rounded up to a multiple of 8 and to at least one
  pointer, gives a pool with all its elements free when \<open>malloc\<close> has the room, and otherwise an
  empty pool, which the caller cannot tell from a good one. The pool invariant says that the chunks
  are inside live blocks and that the free list and the elements in use partition their slots.\<close>

lemma pool_create_sound:
  assumes "mem_ok m" "unat esize \<le> 2 ^ 31 - 8" "cnt = (if n = 0 then 20 else unat n)" "cnt < 2 ^ 31"
    "cnt * round8 (unat esize) < 2 ^ 32"
  shows "\<exists>m' mp. mem_pool_create esize n g m = Some (m', mp) \<and>
    unat (elem_size mp) = round8 (unat esize) \<and> needs_auto_grow mp = g \<and>
    (if pm_brk m + 8 + cnt * round8 (unat esize) \<le> pm_limit m
     then \<exists>cs fs. pool_inv m' mp cs fs {} \<and> length fs = cnt \<and> unat (elem_count mp) = cnt
     else m' = m \<and> pool_inv m' mp [] [] {} \<and> elem_count mp = 0)"
  using assms by (rule pool_create_ok)

definition demo_mem :: pool_mem where
  "demo_mem = \<lparr>blocks = [], cell = \<lambda>_. NULL, pm_brk = 16, pm_limit = 1000\<rparr>"

lemma pool_create_sound_witness:
  "\<exists>m' mp. mem_pool_create 20 2 True demo_mem = Some (m', mp) \<and>
    unat (elem_size mp) = round8 (unat (20 :: u32)) \<and> needs_auto_grow mp = True \<and>
    (if pm_brk demo_mem + 8 + 2 * round8 (unat (20 :: u32)) \<le> pm_limit demo_mem
     then \<exists>cs fs. pool_inv m' mp cs fs {} \<and> length fs = 2 \<and> unat (elem_count mp) = 2
     else m' = demo_mem \<and> pool_inv m' mp [] [] {} \<and> elem_count mp = 0)"
  by (rule pool_create_sound) (simp_all add: demo_mem_def mem_ok_def round8_def)

text \<open>C22. Allocation returns \<open>NULL\<close> only when nothing is free and the pool must not grow, has no
  elements to double or does not get the memory for it;
  otherwise it returns an element that is not in use, is 8-aligned inside a live block and is
  disjoint in bytes from every element in use. The invariant is kept, across a growth as well.\<close>

theorem pool_alloc_sound:
  assumes "pool_inv m mp cs fs live" "fs \<noteq> [] \<or> \<not> needs_auto_grow mp \<or> grow_fits mp"
  shows "\<exists>m' mp' p cs' fs'. mem_pool_alloc mp m = Some (m', mp', p) \<and>
    (if p = NULL then fs = [] \<and> pool_inv m' mp' cs' [] live \<and>
       (\<not> needs_auto_grow mp \<or> elem_count mp = 0 \<or>
        pm_limit m < pm_brk m + 8 + unat (elem_count mp) * 2 * unat (elem_size mp))
     else pool_inv m' mp' cs' fs' (insert p live) \<and> p \<notin> live \<and> in_block (blocks m') p \<and>
       (\<forall>q \<in> live. p + unat (elem_size mp) \<le> q \<or> q + unat (elem_size mp) \<le> p))"
proof -
  have "free_list mp \<noteq> NULL \<or> \<not> needs_auto_grow mp \<or> grow_fits mp"
    using assms pool_inv_facts(4) [OF assms(1)] by (cases fs) auto
  from pool_alloc_any [OF assms(1) this]
  obtain m' mp' p cs' fs' where r: "mem_pool_alloc mp m = Some (m', mp', p)" "elem_size mp' = elem_size mp"
    "p = NULL \<and> fs = [] \<and> pool_inv m' mp' cs' [] live \<or>
     p \<noteq> NULL \<and> p \<notin> live \<and> pool_inv m' mp' cs' fs' (insert p live)"
    by blast
  show ?thesis
  proof (cases "p = NULL")
    case True
    then have e: "fs = []" "pool_inv m' mp' cs' [] live" using r(3) by blast+
    have "\<not> needs_auto_grow mp \<or> elem_count mp = 0 \<or>
        pm_limit m < pm_brk m + 8 + unat (elem_count mp) * 2 * unat (elem_size mp)"
    proof (rule ccontr)
      assume n: "\<not> ?thesis"
      then have "grow_fits mp" using assms(2) e(1) by blast
      moreover have "pm_brk m + 8 + unat (elem_count mp) * 2 * unat (elem_size mp) \<le> pm_limit m" using n by linarith
      ultimately obtain m2 mp2 q where "mem_pool_alloc mp m = Some (m2, mp2, q)" "q \<noteq> NULL"
        using pool_alloc_grow [OF assms(1) [unfolded e(1)]] n by blast
      then show False using r(1) True by simp
    qed
    then show ?thesis using r(1) True e by (intro exI conjI) (assumption, simp)
  next
    case False
    then have i: "p \<notin> live" "pool_inv m' mp' cs' fs' (insert p live)" using r(3) by blast+
    then show ?thesis
      using False r(1,2) pool_live_layout [OF i(2), of p]
      by (intro exI [of _ m'] exI [of _ mp'] exI [of _ p] exI [of _ cs'] exI [of _ fs']) auto
  qed
qed

definition used_mem :: pool_mem where
  "used_mem = \<lparr>blocks = [(16, 56)], cell = (\<lambda>_. NULL)(48 := 24), pm_brk = 80, pm_limit = 1000\<rparr>"

definition used_pool :: mem_pool where
  "used_pool = \<lparr>elem_size = 24, elem_count = 2, free_list = 24, raw_mem_list = 16, needs_auto_grow = True\<rparr>"

lemma used_pool_inv: "pool_inv used_mem used_pool [(16, 2)] [24] {48}"
proof -
  have "{..<2 :: nat} = {0, 1}" by auto
  then show ?thesis
    by (auto simp: pool_inv_def used_mem_def used_pool_def mem_ok_def chunks_ok_def slot_def)
qed

theorem pool_alloc_sound_witness:
  "\<exists>m' mp' p cs' fs'. mem_pool_alloc used_pool used_mem = Some (m', mp', p) \<and>
    (if p = NULL then [24 :: addr] = [] \<and> pool_inv m' mp' cs' [] {48} \<and>
       (\<not> needs_auto_grow used_pool \<or> elem_count used_pool = 0 \<or>
        pm_limit used_mem < pm_brk used_mem + 8 + unat (elem_count used_pool) * 2 * unat (elem_size used_pool))
     else pool_inv m' mp' cs' fs' (insert p {48}) \<and> p \<notin> {48} \<and> in_block (blocks m') p \<and>
       (\<forall>q \<in> {48}. p + unat (elem_size used_pool) \<le> q \<or> q + unat (elem_size used_pool) \<le> p))"
  by (rule pool_alloc_sound [OF used_pool_inv]) simp

text \<open>A pool that is used up grows by twice its number of elements and then serves the
  request, and all further requests until the new elements are used up.\<close>

lemma pool_grow_triples:
  assumes "pool_inv m mp cs [] live" "needs_auto_grow mp" "grow_fits mp" "elem_count mp \<noteq> 0"
    "pm_brk m + 8 + unat (elem_count mp) * 2 * unat (elem_size mp) \<le> pm_limit m"
  shows "\<exists>m' mp' p cs' fs'. mem_pool_alloc mp m = Some (m', mp', p) \<and> p \<noteq> NULL \<and> p \<notin> live \<and>
    pool_inv m' mp' cs' fs' (insert p live) \<and> elem_size mp' = elem_size mp \<and>
    needs_auto_grow mp' \<and> Suc (length fs') = 2 * unat (elem_count mp)"
  by (rule pool_alloc_grow [OF assms])

definition full_pool :: mem_pool where
  "full_pool = used_pool\<lparr>free_list := NULL\<rparr>"

lemma full_pool_inv: "pool_inv used_mem full_pool [(16, 2)] [] {24, 48}"
  using used_pool_inv by (auto simp: pool_inv_def full_pool_def used_mem_def used_pool_def)

lemma pool_grow_triples_witness:
  "\<exists>m' mp' p cs' fs'. mem_pool_alloc full_pool used_mem = Some (m', mp', p) \<and> p \<noteq> NULL \<and> p \<notin> {24, 48} \<and>
    pool_inv m' mp' cs' fs' (insert p {24, 48}) \<and> elem_size mp' = elem_size full_pool \<and>
    needs_auto_grow mp' \<and> Suc (length fs') = 2 * unat (elem_count full_pool)"
  by (rule pool_grow_triples [OF full_pool_inv])
    (simp_all add: full_pool_def used_pool_def used_mem_def grow_fits_def)

text \<open>Releasing an element in use and allocating again returns that element and restores the
  pool; in between the pool is well formed and the element is first in the free list.\<close>

lemma pool_free_realloc:
  assumes "pool_inv m mp cs fs live" "p \<in> live"
  shows "\<exists>m1 mp1. mem_pool_free mp p m = Some (m1, mp1) \<and> pool_inv m1 mp1 cs (p # fs) (live - {p}) \<and>
    mem_pool_alloc mp1 m1 = Some (m1, mp, p) \<and> pool_inv m1 mp cs fs live"
  using pool_give_take [OF assms] by blast

lemma pool_free_realloc_witness:
  "\<exists>m1 mp1. mem_pool_free used_pool 48 used_mem = Some (m1, mp1) \<and>
    pool_inv m1 mp1 [(16, 2)] [48, 24] ({48} - {48}) \<and>
    mem_pool_alloc mp1 m1 = Some (m1, used_pool, 48) \<and> pool_inv m1 used_pool [(16, 2)] [24] {48}"
  by (rule pool_free_realloc [OF used_pool_inv]) simp

text \<open>A client that writes an aligned word anywhere inside an element it was given does not
  disturb the pool.\<close>

lemma pool_client_write:
  assumes "pool_inv m mp cs fs live" "p \<in> live" "p \<le> a" "a + 8 \<le> p + unat (elem_size mp)" "a mod 8 = 0"
  shows "\<exists>m'. store_ptr a v m = Some m' \<and> pool_inv m' mp cs fs live"
  by (rule pool_client_store [OF assms])

lemma pool_client_write_witness:
  "\<exists>m'. store_ptr 64 12345 used_mem = Some m' \<and> pool_inv m' used_pool [(16, 2)] [24] {48}"
  by (rule pool_client_write [OF used_pool_inv, where p = 48]) (simp_all add: used_pool_def)

text \<open>C23. Deleting a pool ends without a fault and frees exactly the blocks of its chunks: the
  link of a chunk is read before the chunk is freed.\<close>

theorem pool_delete_frees:
  assumes "pool_inv m mp cs fs live"
  shows "mem_pool_delete mp m =
    Some (m\<lparr>blocks := filter (\<lambda>(b, n). b \<notin> fst ` set cs) (blocks m)\<rparr>)"
  by (rule pool_delete_ok [OF assms])

theorem pool_delete_frees_witness:
  "mem_pool_delete used_pool used_mem =
    Some (used_mem\<lparr>blocks := filter (\<lambda>(b, n). b \<notin> fst ` set [(16, 2 :: nat)]) (blocks used_mem)\<rparr>)"
  by (rule pool_delete_frees [OF used_pool_inv])

text \<open>The addresses that \<open>fill_free_list\<close> computes, with the 32-bit product.\<close>

definition wrap_slot :: "addr \<Rightarrow> u32 \<Rightarrow> nat \<Rightarrow> addr" where
  "wrap_slot raw es i = raw + unat (of_nat i * es)"

lemma wrap_slot_pred:
  assumes "wrap_slot raw es (Suc i) = wrap_slot raw es (Suc j)"
  shows "wrap_slot raw es i = wrap_slot raw es j"
proof -
  have "of_nat (Suc i) * es = of_nat (Suc j) * es" using assms by (simp add: wrap_slot_def unsigned_word_eqI)
  then have "of_nat i * es = of_nat j * es" by (simp add: algebra_simps)
  then show ?thesis by (simp add: wrap_slot_def)
qed

text \<open>Elements that share an address do not break the chain: each address leads to the one before it.\<close>

lemma fill_wrapping:
  "fill_free_loop i raw n mp m = Some (m', mp') \<Longrightarrow> i \<le> unat n \<Longrightarrow>
   (0 < i \<longrightarrow> free_list mp = wrap_slot raw (elem_size mp) (i - 1)) \<Longrightarrow>
   \<forall>j. Suc j < i \<longrightarrow> cell m (wrap_slot raw (elem_size mp) (Suc j)) = wrap_slot raw (elem_size mp) j \<Longrightarrow>
   \<forall>j < i. in_block (blocks m) (wrap_slot raw (elem_size mp) j) \<Longrightarrow>
   blocks m' = blocks m \<and> elem_size mp' = elem_size mp \<and>
   (0 < unat n \<longrightarrow> free_list mp' = wrap_slot raw (elem_size mp) (unat n - 1)) \<and>
   (\<forall>j. Suc j < unat n \<longrightarrow> cell m' (wrap_slot raw (elem_size mp) (Suc j)) = wrap_slot raw (elem_size mp) j) \<and>
   (\<forall>j < unat n. in_block (blocks m) (wrap_slot raw (elem_size mp) j))"
proof (induction "unat n - i" arbitrary: i mp m)
  case 0
  then show ?case by (simp add: fill_free_loop.simps [of i])
next
  case (Suc k)
  let ?es = "elem_size mp"
  define e where "e = wrap_slot raw ?es i"
  have i: "i < unat n" using Suc.hyps(2) by simp
  from Suc.prems(1) i obtain m1 where st: "store_ptr e (free_list mp) m = Some m1"
    and run: "fill_free_loop (i + 1) raw n (mp\<lparr>free_list := e\<rparr>) m1 = Some (m', mp')"
    by (simp add: fill_free_loop.simps [of i] Let_def e_def wrap_slot_def guard_def split: if_splits Option.bind_splits)
  have m1: "m1 = m\<lparr>cell := (cell m)(e := free_list mp)\<rparr>" "in_block (blocks m) e"
    using st by (simp_all add: store_ptr_def split: if_splits)
  have chain: "\<forall>j. Suc j < i + 1 \<longrightarrow> cell m1 (wrap_slot raw ?es (Suc j)) = wrap_slot raw ?es j"
  proof (intro allI impI)
    fix j assume j: "Suc j < i + 1"
    then have fl: "free_list mp = wrap_slot raw ?es (i - 1)" using Suc.prems(3) by simp
    show "cell m1 (wrap_slot raw ?es (Suc j)) = wrap_slot raw ?es j"
    proof (cases "wrap_slot raw ?es (Suc j) = e")
      case True
      have "Suc (i - 1) = i" using j by simp
      then have "wrap_slot raw ?es j = wrap_slot raw ?es (i - 1)"
        using True wrap_slot_pred [of raw ?es j "i - 1"] by (simp add: e_def)
      then show ?thesis using True fl m1(1) by simp
    next
      case False
      then have "Suc j \<noteq> i" by (auto simp: e_def)
      then show ?thesis using False Suc.prems(4) j m1(1) by simp
    qed
  qed
  have inb: "\<forall>j < i + 1. in_block (blocks m1) (wrap_slot raw ?es j)"
    using Suc.prems(5) m1 by (auto simp: less_Suc_eq e_def)
  have "k = unat n - (i + 1)" "i + 1 \<le> unat n" using Suc.hyps(2) by simp_all
  from Suc.hyps(1) [OF this(1) run this(2)] chain inb show ?case by (simp add: e_def m1(1))
qed

text \<open>A client that takes \<open>k\<close> elements.\<close>

fun alloc_many :: "nat \<Rightarrow> mem_pool \<Rightarrow> pool_mem \<Rightarrow> (pool_mem \<times> mem_pool \<times> addr list) option" where
  "alloc_many 0 mp m = Some (m, mp, [])"
| "alloc_many (Suc k) mp m = do {
     (m1, mp1, p) \<leftarrow> mem_pool_alloc mp m;
     (m2, mp2, ps) \<leftarrow> alloc_many k mp1 m1;
     Some (m2, mp2, p # ps)
   }"

lemma alloc_wrapping:
  assumes "0 < raw" "\<forall>j. Suc j < n \<longrightarrow> cell m (wrap_slot raw es (Suc j)) = wrap_slot raw es j"
    "\<forall>j < n. in_block (blocks m) (wrap_slot raw es j)"
  shows "k < n \<Longrightarrow> free_list mp = wrap_slot raw es k \<Longrightarrow>
    \<exists>mp1. alloc_many (Suc k) mp m = Some (m, mp1, map (wrap_slot raw es) (rev [0..<Suc k]))"
proof (induction k arbitrary: mp)
  case 0
  then have "in_block (blocks m) (wrap_slot raw es 0)" using assms(3) by blast
  moreover have "0 < wrap_slot raw es 0" using assms(1) by (simp add: wrap_slot_def)
  ultimately show ?case using 0(2) by (simp add: mem_pool_alloc_def load_ptr_def)
next
  case (Suc k)
  let ?mp = "mp\<lparr>free_list := wrap_slot raw es k\<rparr>"
  obtain mp1 where IH: "alloc_many (Suc k) ?mp m = Some (m, mp1, map (wrap_slot raw es) (rev [0..<Suc k]))"
    using Suc.IH [of ?mp] Suc.prems(1) by auto
  have "0 < wrap_slot raw es (Suc k)" using assms(1) by (simp add: wrap_slot_def)
  then have "mem_pool_alloc mp m = Some (m, ?mp, wrap_slot raw es (Suc k))"
    using Suc.prems assms(2,3) by (simp add: mem_pool_alloc_def load_ptr_def)
  then show ?case using IH by (simp only: alloc_many.simps(2) [of "Suc k"] Option.bind.simps prod.case) simp
qed

text \<open>The element whose address is the last one before the product wraps.\<close>

lemma last_slot:
  fixes n es :: u32
  assumes "2 ^ 32 \<le> unat n * unat es"
  obtains i where "i < unat n" "2 ^ 32 \<le> unat (of_nat i * es) + unat es"
proof -
  define i where "i = (2 ^ 32 - 1) div unat es"
  have es: "0 < unat es" using assms by (cases "unat es") auto
  have "i * unat es + (2 ^ 32 - 1) mod unat es = 2 ^ 32 - 1" unfolding i_def by (rule div_mult_mod_eq)
  then have i: "i * unat es \<le> 2 ^ 32 - 1" "2 ^ 32 - 1 < i * unat es + unat es"
    using mod_less_divisor [OF es, of "2 ^ 32 - 1"] by linarith+
  have "(2 :: nat) ^ 32 - 1 < 2 ^ 32" by simp
  then have "i * unat es < unat n * unat es" using i(1) assms by (meson le_less_trans less_le_trans)
  then have "i < unat n" by (simp only: mult_less_cancel2)
  moreover have "i * unat es < 2 ^ 32" using i(1) by simp
  then have "unat (of_nat i * es) = i * unat es"
    by (simp add: unat_word_ariths unat_of_nat mod_mult_left_eq)
  ultimately show thesis using that i(2) by simp
qed

text \<open>What a creation that returns leaves, whether the product wraps or not.\<close>

lemma create_fills:
  assumes "mem_ok m" "unat esize \<le> 2 ^ 31 - 8" "unat es = round8 (unat esize)" "n \<noteq> 0"
    "pm_brk m + 8 + unat (n * es) \<le> pm_limit m" "mem_pool_create esize n g m = Some (m', mp)"
  shows "free_list mp = wrap_slot (pm_brk m + 8) es (unat n - 1)"
    "\<forall>j. Suc j < unat n \<longrightarrow> cell m' (wrap_slot (pm_brk m + 8) es (Suc j)) = wrap_slot (pm_brk m + 8) es j"
    "\<forall>j < unat n. in_block (blocks m') (wrap_slot (pm_brk m + 8) es j)"
    "blocks m' = (pm_brk m, 8 + unat (n * es)) # blocks m"
proof -
  obtain es' where es: "unat es' = round8 (unat esize)"
    "\<And>n g m. mem_pool_create esize n g m =
      grow_new_mem \<lparr>elem_size = es', elem_count = 0, free_list = NULL, raw_mem_list = NULL,
        needs_auto_grow = g\<rparr> (if n = 0 then DEFAULT_ELEM_COUNT else n) m"
    using pool_create_grow [OF assms(2)] by metis
  have "es' = es" using es(1) assms(3) by (metis unsigned_word_eqI)
  define b where "b = pm_brk m"
  define W where "W = unat (n * es)"
  have b: "0 < b" "b mod 16 = 0" using assms(1) by (auto simp: mem_ok_def b_def)
  define mp0 where "mp0 = \<lparr>elem_size = es, elem_count = 0, free_list = NULL, raw_mem_list = b, needs_auto_grow = g\<rparr>"
  define m1 where "m1 = m\<lparr>blocks := (b, 8 + W) # blocks m, pm_brk := (b + (8 + W) + 15) div 16 * 16\<rparr>"
  define m2 where "m2 = m1\<lparr>cell := (cell m1)(b := NULL)\<rparr>"
  have mal: "malloc_bytes (8 + W) m = (b, m1)" using assms(5) by (simp add: malloc_bytes_def b_def W_def m1_def)
  have "in_block ((b, 8 + W) # blocks m) b" using head_in_block [of b W] b(2) by simp
  then have st: "store_ptr b NULL m1 = Some m2" by (simp add: store_ptr_def m2_def m1_def)
  have "Some (m', mp) = do { (m3, mp3) \<leftarrow> fill_free_loop 0 (b + 8) n mp0 m2; Some (m3, mp3\<lparr>elem_count := elem_count mp3 + n\<rparr>) }"
    using assms(4,6) b(1) st unfolding es(2) \<open>es' = es\<close>
    by (simp add: grow_new_mem_def mal W_def [symmetric] fill_free_list_def mp0_def)
  then obtain mp3 where fill: "fill_free_loop 0 (b + 8) n mp0 m2 = Some (m', mp3)"
    and mp: "mp = mp3\<lparr>elem_count := elem_count mp3 + n\<rparr>"
    by (auto split: Option.bind_splits)
  have n: "0 < unat n" using assms(4) by (simp add: unat_gt_0)
  note F = fill_wrapping [OF fill, simplified, unfolded mp0_def mem_pool.simps]
  show "free_list mp = wrap_slot (pm_brk m + 8) es (unat n - 1)"
    "\<forall>j. Suc j < unat n \<longrightarrow> cell m' (wrap_slot (pm_brk m + 8) es (Suc j)) = wrap_slot (pm_brk m + 8) es j"
    "\<forall>j < unat n. in_block (blocks m') (wrap_slot (pm_brk m + 8) es j)"
    "blocks m' = (pm_brk m, 8 + unat (n * es)) # blocks m"
    using F n mp by (simp_all add: b_def W_def m2_def m1_def)
qed

text \<open>C24. When the 32-bit product of the element count and the element size wraps, the pool is
  broken, although \<open>malloc\<close> gave the block it was asked for. If the wrapped product and one more element
  stay below \<open>2 ^ 32\<close>, filling the free list writes behind the block. Otherwise the creation may
  return, and a client that takes the elements then gets one that sticks out of the block.\<close>

theorem pool_create_overflow:
  assumes "mem_ok m" "unat esize \<le> 2 ^ 31 - 8" "unat es = round8 (unat esize)" "2 ^ 32 \<le> unat n * unat es"
    "pm_brk m + 8 + unat (n * es) \<le> pm_limit m"
  shows "(unat (n * es) + unat es \<le> 2 ^ 32 \<longrightarrow> mem_pool_create esize n g m = None) \<and>
    (case mem_pool_create esize n g m of None \<Rightarrow> True
     | Some (m', mp) \<Rightarrow> \<exists>mp1 ps. alloc_many (unat n) mp m' = Some (m', mp1, ps) \<and>
         (\<exists>p \<in> set ps. pm_brk m + 8 + unat (n * es) < p + unat es))"
proof -
  define b where "b = pm_brk m"
  define W where "W = unat (n * es)"
  have n: "n \<noteq> 0" "0 < unat n" using assms(4) by (auto simp: unat_gt_0)
  have b: "0 < b" and old: "\<And>b' k. (b', k) \<in> set (blocks m) \<Longrightarrow> b' + k \<le> b"
    using assms(1) by (auto simp: mem_ok_def b_def)
  obtain i where i: "i < unat n" "2 ^ 32 \<le> unat (of_nat i * es) + unat es" using last_slot [OF assms(4)] .
  have W: "W < 2 ^ 32" unfolding W_def using unsigned_less [of "n * es"] by simp
  show ?thesis
  proof (cases "mem_pool_create esize n g m")
    case (Some r)
    obtain m' mp where r: "r = (m', mp)" by force
    note f = create_fills [OF assms(1-3) n(1) assms(5) Some [unfolded r], folded b_def W_def]
    have "in_block ((b, 8 + W) # blocks m) (b + 8 + unat (of_nat i * es))"
      using f(3) i(1) unfolding f(4) by (simp add: wrap_slot_def)
    then have "unat (of_nat i * es) + 8 \<le> W" using old by (fastforce simp: in_block_def list_ex_iff)
    then have big: "2 ^ 32 < W + unat es" using i(2) by simp
    obtain mp1 where "alloc_many (Suc (unat n - 1)) mp m' = Some (m', mp1, map (wrap_slot (b + 8) es) (rev [0..<Suc (unat n - 1)]))"
      using alloc_wrapping [of "b + 8" "unat n" m' es "unat n - 1" mp] f(1-3) n(2) by auto
    then have "alloc_many (unat n) mp m' = Some (m', mp1, map (wrap_slot (b + 8) es) (rev [0..<unat n]))" using n(2) by simp
    moreover have "b + 8 + W < wrap_slot (b + 8) es i + unat es" using i(2) W by (simp add: wrap_slot_def)
    ultimately show ?thesis using Some r big i(1) unfolding b_def [symmetric] W_def [symmetric] by auto
  qed simp
qed

theorem pool_create_overflow_witness: "mem_pool_create 96 44739243 True demo_mem = None"
  using pool_create_overflow [of demo_mem 96 96 44739243 True]
  by (simp add: demo_mem_def mem_ok_def round8_def)

end
