(* ===== verification/Lru_List.thy ===== *)
theory Lru_List
  imports Prelude
begin

text \<open>
  The doubly linked list of \<^verbatim>\<open>zip_lru_list.c\<close> and \<^verbatim>\<open>zip_lru_list.h\<close>, at the level of its
  pointers. The nodes live in a partial map from addresses; reading or writing an address that
  is not allocated is the abort \<open>None\<close>, so the model shows a use after \<open>free\<close> and a
  dereference of \<open>NULL\<close>. \<open>malloc\<close> takes the address from \<open>brk\<close>, which only grows, and
  fails when \<open>brk\<close> has reached \<open>limit\<close>. A segment predicate relates the pointers to the
  list of (node, data) pairs, and each operation refines a plain list operation. The count is an
  unbounded integer: it is the number of nodes, each of them a block of memory.
\<close>

section \<open>State\<close>

record lru_node =
  prev :: addr
  next_node :: addr
  data :: addr

record lru_heap =
  nodes :: "addr \<rightharpoonup> lru_node"
  brk :: addr
  limit :: addr

record lru_list =
  header :: addr
  tail :: addr
  lru_count :: int

text \<open>Dereference, field assignment, \<open>malloc\<close> and \<open>free\<close>.\<close>

definition node_at :: "lru_heap \<Rightarrow> addr \<Rightarrow> lru_node option" where
  "node_at m p = (if p = NULL then None else nodes m p)"

definition upd_node :: "addr \<Rightarrow> (lru_node \<Rightarrow> lru_node) \<Rightarrow> lru_heap \<Rightarrow> lru_heap option" where
  "upd_node p f m = do { n \<leftarrow> node_at m p; Some (m\<lparr>nodes := (nodes m)(p \<mapsto> f n)\<rparr>) }"

definition malloc_node :: "lru_heap \<Rightarrow> addr \<times> lru_heap" where
  "malloc_node m =
     (if brk m < limit m
      then (brk m, m\<lparr>nodes := (nodes m)(brk m \<mapsto> \<lparr>prev = NULL, next_node = NULL, data = NULL\<rparr>),
                     brk := brk m + 1\<rparr>)
      else (NULL, m))"

definition free_node :: "addr \<Rightarrow> lru_heap \<Rightarrow> lru_heap option" where
  "free_node p m = do { n \<leftarrow> node_at m p; Some (m\<lparr>nodes := (nodes m)(p := None)\<rparr>) }"

section \<open>Operations\<close>

definition lru_list_create :: lru_list where
  "lru_list_create = \<lparr>header = NULL, tail = NULL, lru_count = 0\<rparr>"

definition lru_list_get_count :: "lru_list \<Rightarrow> int" where
  "lru_list_get_count lru = lru_count lru"

text \<open>
  \<open>lru_list_insert\<close> asserts that its data is not \<open>NULL\<close> and that header and tail are either
  both \<open>NULL\<close> or both set. Without memory the function returns with an unspecified value: the
  model aborts.
\<close>

definition lru_list_insert :: "lru_heap \<Rightarrow> lru_list \<Rightarrow> addr \<Rightarrow> (lru_heap \<times> lru_list \<times> addr) option" where
  "lru_list_insert m lru user_data = do {
     guard (user_data \<noteq> NULL);
     let (node, m1) = malloc_node m;
     guard (node \<noteq> NULL);
     m2 \<leftarrow> upd_node node (\<lambda>n. n\<lparr>next_node := NULL, prev := NULL, data := user_data\<rparr>) m1;
     (m5, l1) \<leftarrow>
       (if header lru = NULL \<and> tail lru = NULL
        then Some (m2, lru\<lparr>header := node, tail := node\<rparr>)
        else do {
          guard (header lru \<noteq> NULL \<and> tail lru \<noteq> NULL);
          m3 \<leftarrow> upd_node node (\<lambda>n. n\<lparr>next_node := header lru\<rparr>) m2;
          m4 \<leftarrow> upd_node (header lru) (\<lambda>n. n\<lparr>prev := node\<rparr>) m3;
          Some (m4, lru\<lparr>header := node\<rparr>)
        });
     Some (m5, l1\<lparr>lru_count := lru_count l1 + 1\<rparr>, node)
   }"

definition lru_list_delete :: "lru_heap \<Rightarrow> lru_list \<Rightarrow> addr \<Rightarrow> (lru_heap \<times> lru_list) option" where
  "lru_list_delete m lru node = do {
     guard (node \<noteq> NULL);
     (m3, l1) \<leftarrow>
       (if node = header lru then do {
          h \<leftarrow> node_at m (header lru);
          if next_node h \<noteq> NULL then do {
            m1 \<leftarrow> upd_node (next_node h) (\<lambda>n. n\<lparr>prev := NULL\<rparr>) m;
            h1 \<leftarrow> node_at m1 (header lru);
            Some (m1, lru\<lparr>header := next_node h1\<rparr>)
          }
          else Some (m, lru\<lparr>header := NULL, tail := NULL\<rparr>)
        }
        else if node = tail lru then do {
          n \<leftarrow> node_at m node;
          m1 \<leftarrow> upd_node (prev n) (\<lambda>k. k\<lparr>next_node := NULL\<rparr>) m;
          n1 \<leftarrow> node_at m1 node;
          Some (m1, lru\<lparr>tail := prev n1\<rparr>)
        }
        else do {
          n \<leftarrow> node_at m node;
          m1 \<leftarrow> upd_node (prev n) (\<lambda>k. k\<lparr>next_node := next_node n\<rparr>) m;
          n1 \<leftarrow> node_at m1 node;
          m2 \<leftarrow> upd_node (next_node n1) (\<lambda>k. k\<lparr>prev := prev n1\<rparr>) m1;
          Some (m2, lru)
        });
     m4 \<leftarrow> free_node node m3;
     Some (m4, l1\<lparr>lru_count := lru_count l1 - 1\<rparr>)
   }"

text \<open>\<open>lru_list_remove_tail\<close> returns the data of the node it removes, \<open>NULL\<close> on an empty list.\<close>

definition lru_list_remove_tail :: "lru_heap \<Rightarrow> lru_list \<Rightarrow> (lru_heap \<times> lru_list \<times> addr) option" where
  "lru_list_remove_tail m lru =
     (if tail lru = NULL then Some (m, lru, NULL)
      else do {
        let unpopular = tail lru;
        u \<leftarrow> node_at m unpopular;
        let prev_list = prev u;
        (m1, l1) \<leftarrow>
          (if prev_list \<noteq> NULL then do {
             m1 \<leftarrow> upd_node prev_list (\<lambda>n. n\<lparr>next_node := NULL\<rparr>) m;
             Some (m1, lru\<lparr>tail := prev_list\<rparr>)
           }
           else Some (m, lru\<lparr>header := NULL, tail := NULL\<rparr>));
        u1 \<leftarrow> node_at m1 unpopular;
        m2 \<leftarrow> free_node unpopular m1;
        Some (m2, l1\<lparr>lru_count := lru_count l1 - 1\<rparr>, data u1)
      })"

definition lru_list_move_to_first :: "lru_heap \<Rightarrow> lru_list \<Rightarrow> addr \<Rightarrow> (lru_heap \<times> lru_list) option" where
  "lru_list_move_to_first m lru node = do {
     guard (node \<noteq> NULL);
     if node = header lru then Some (m, lru)
     else do {
       n \<leftarrow> node_at m node;
       m1 \<leftarrow> upd_node (prev n) (\<lambda>k. k\<lparr>next_node := next_node n\<rparr>) m;
       n1 \<leftarrow> node_at m1 node;
       (m2, l1) \<leftarrow>
         (if node = tail lru then Some (m1, lru\<lparr>tail := prev n1\<rparr>)
          else do {
            m2 \<leftarrow> upd_node (next_node n1) (\<lambda>k. k\<lparr>prev := prev n1\<rparr>) m1;
            Some (m2, lru)
          });
       m3 \<leftarrow> upd_node node (\<lambda>k. k\<lparr>prev := NULL\<rparr>) m2;
       m4 \<leftarrow> upd_node node (\<lambda>k. k\<lparr>next_node := header l1\<rparr>) m3;
       m5 \<leftarrow> upd_node (header l1) (\<lambda>k. k\<lparr>prev := node\<rparr>) m4;
       Some (m5, l1\<lparr>header := node\<rparr>)
     }
   }"

text \<open>
  \<open>lru_list_search\<close>: the loop never advances \<open>node\<close>, so it ends in its first round or not at
  all; \<open>None\<close> is the loop that does not end (or a dangling header).
\<close>

partial_function (option) lru_search_loop :: "lru_heap \<Rightarrow> addr \<Rightarrow> addr \<Rightarrow> addr option" where
  "lru_search_loop m node user_data =
     (if node = NULL then Some NULL
      else Option.bind (node_at m node)
        (\<lambda>n. if data n = user_data then Some node else lru_search_loop m node user_data))"

definition lru_list_search :: "lru_heap \<Rightarrow> lru_list \<Rightarrow> addr \<Rightarrow> addr option" where
  "lru_list_search m lru user_data = lru_search_loop m (header lru) user_data"

text \<open>The loop of \<open>lru_list_destroy\<close> frees the nodes from the header on.\<close>

partial_function (option) lru_destroy_loop :: "lru_heap \<Rightarrow> addr \<Rightarrow> lru_heap option" where
  "lru_destroy_loop m node =
     (if node = NULL then Some m
      else Option.bind (node_at m node)
        (\<lambda>n. Option.bind (free_node node m) (\<lambda>m1. lru_destroy_loop m1 (next_node n))))"

definition lru_list_destroy :: "lru_heap \<Rightarrow> lru_list \<Rightarrow> lru_heap option" where
  "lru_list_destroy m lru = lru_destroy_loop m (header lru)"

section \<open>The list that the pointers represent\<close>

text \<open>
  \<open>seg m pr p xs nx la\<close>: from \<open>p\<close> the \<open>next\<close> pointers lead through the nodes of \<open>xs\<close> to \<open>nx\<close>,
  the \<open>prev\<close> pointer of the first node is \<open>pr\<close>, and \<open>la\<close> is the last node (\<open>pr\<close> if there is none).
\<close>

fun seg :: "(addr \<rightharpoonup> lru_node) \<Rightarrow> addr \<Rightarrow> addr \<Rightarrow> (addr \<times> addr) list \<Rightarrow> addr \<Rightarrow> addr \<Rightarrow> bool" where
  "seg m pr p [] nx la \<longleftrightarrow> p = nx \<and> la = pr"
| "seg m pr p ((a, d) # xs) nx la \<longleftrightarrow> a = p \<and> p \<noteq> NULL \<and>
     (\<exists>n. m p = Some \<lparr>prev = pr, next_node = n, data = d\<rparr> \<and> seg m p n xs nx la)"

lemma seg_append:
  "seg m pr p (xs @ ys) nx la \<longleftrightarrow> (\<exists>q r. seg m pr p xs q r \<and> seg m r q ys nx la)"
  by (induction m pr p xs nx la arbitrary: pr p rule: seg.induct) auto

lemma seg_upd [simp]:
  "q \<notin> fst ` set xs \<Longrightarrow> seg (m(q := v)) pr p xs nx la = seg m pr p xs nx la"
  by (induction m pr p xs nx la arbitrary: pr p rule: seg.induct) auto

lemma seg_dom: "seg m pr p xs nx la \<Longrightarrow> fst ` set xs \<subseteq> dom m - {NULL}"
  by (induction m pr p xs nx la rule: seg.induct) auto

lemma seg_first: "seg m pr p xs nx la \<Longrightarrow> xs \<noteq> [] \<Longrightarrow> p \<in> fst ` set xs"
  by (cases xs) force+

lemma seg_last: "seg m pr p xs nx la \<Longrightarrow> la = (if xs = [] then pr else fst (last xs))"
  by (induction m pr p xs nx la rule: seg.induct) auto

lemma seg_last_not_NULL: "seg m pr p xs nx la \<Longrightarrow> xs \<noteq> [] \<Longrightarrow> la \<noteq> NULL"
  using seg_last [of m pr p xs nx la] seg_dom [of m pr p xs nx la] by (auto dest!: last_in_set)

text \<open>Every allocated address is below \<open>brk\<close> and not \<open>NULL\<close>.\<close>

definition lru_heap_ok :: "lru_heap \<Rightarrow> bool" where
  "lru_heap_ok m \<longleftrightarrow> 0 < brk m \<and> (\<forall>p n. nodes m p = Some n \<longrightarrow> 0 < p \<and> p < brk m)"

definition lru_rep :: "lru_heap \<Rightarrow> lru_list \<Rightarrow> (addr \<times> addr) list \<Rightarrow> bool" where
  "lru_rep m l xs \<longleftrightarrow> seg (nodes m) NULL (header l) xs NULL (tail l) \<and>
     distinct (map fst xs) \<and> lru_count l = int (length xs) \<and> lru_heap_ok m"

lemma lru_heap_okD: "lru_heap_ok m \<Longrightarrow> nodes m p = Some n \<Longrightarrow> 0 < p \<and> p < brk m"
  by (auto simp: lru_heap_ok_def)

lemmas lru_model_defs = node_at_def upd_node_def free_node_def malloc_node_def

lemma lru_rep_create: "lru_heap_ok m \<Longrightarrow> lru_rep m lru_list_create []"
  by (simp add: lru_rep_def lru_list_create_def)

lemma lru_heap_ok_upd:
  "lru_heap_ok m \<Longrightarrow> nodes m p \<noteq> None \<Longrightarrow> lru_heap_ok (m\<lparr>nodes := (nodes m)(p \<mapsto> v)\<rparr>)"
  by (auto simp: lru_heap_ok_def)

lemma lru_rep_fresh:
  "lru_rep m l xs \<Longrightarrow> 0 < brk m \<and> brk m \<notin> fst ` set xs"
  unfolding lru_rep_def lru_heap_ok_def
  by (metis (no_types, lifting) DiffD1 domD less_irrefl seg_dom subsetD)

lemma lru_insert_rep:
  assumes "lru_rep m l xs" "d \<noteq> NULL" "brk m < limit m"
  shows "\<exists>m' l'. lru_list_insert m l d = Some (m', l', brk m) \<and> lru_rep m' l' ((brk m, d) # xs) \<and>
    brk m' = brk m + 1 \<and> limit m' = limit m"
proof -
  have fr: "0 < brk m" "brk m \<notin> fst ` set xs" using lru_rep_fresh [OF assms(1)] by auto
  have s: "seg (nodes m) NULL (header l) xs NULL (tail l)" "distinct (map fst xs)"
    "lru_count l = int (length xs)" "lru_heap_ok m" using assms(1) by (auto simp: lru_rep_def)
  show ?thesis
  proof (cases xs)
    case Nil
    then have "header l = NULL" "tail l = NULL" using s by auto
    with fr s Nil assms(2,3) show ?thesis
      by (auto simp: lru_list_insert_def lru_model_defs lru_rep_def lru_heap_ok_def)
  next
    case (Cons x ys)
    obtain b e where x: "x = (b, e)" by force
    with Cons s obtain n where b: "header l = b" "b \<noteq> NULL"
      "nodes m b = Some \<lparr>prev = NULL, next_node = n, data = e\<rparr>" "seg (nodes m) b n ys NULL (tail l)"
      by auto
    have "tail l \<noteq> NULL" using seg_last_not_NULL [OF s(1)] Cons by simp
    with fr s Cons x b assms(2,3) show ?thesis
      by (auto simp: lru_list_insert_def lru_model_defs lru_rep_def lru_heap_ok_def)
  qed
qed

lemma lru_remove_tail_rep:
  assumes "lru_rep m l (xs @ [(a, d)])"
  shows "\<exists>m' l'. lru_list_remove_tail m l = Some (m', l', d) \<and> lru_rep m' l' xs \<and>
    brk m' = brk m \<and> limit m' = limit m"
proof -
  obtain r where s: "seg (nodes m) NULL (header l) xs a r" "a \<noteq> NULL"
      "nodes m a = Some \<lparr>prev = r, next_node = NULL, data = d\<rparr>" "tail l = a"
      "distinct (map fst xs)" "a \<notin> fst ` set xs" "lru_count l = int (length xs) + 1" "lru_heap_ok m"
    using assms by (auto simp: lru_rep_def seg_append)
  show ?thesis
  proof (cases xs rule: rev_cases)
    case Nil
    with s show ?thesis
      by (auto simp: lru_list_remove_tail_def lru_model_defs lru_rep_def lru_heap_ok_def)
  next
    case (snoc ys x)
    obtain b e where x: "x = (b, e)" by force
    with s snoc obtain q where b: "seg (nodes m) NULL (header l) ys b q" "b \<noteq> NULL" "r = b"
        "nodes m b = Some \<lparr>prev = q, next_node = a, data = e\<rparr>"
      by (auto simp: seg_append)
    with s snoc x show ?thesis
      by (auto simp: lru_list_remove_tail_def lru_model_defs lru_rep_def lru_heap_ok_def seg_append)
  qed
qed

lemma lru_remove_tail_empty:
  "lru_rep m l [] \<Longrightarrow> lru_list_remove_tail m l = Some (m, l, NULL)"
  by (simp add: lru_rep_def lru_list_remove_tail_def)

lemma lru_move_rep:
  assumes "lru_rep m l (xs @ (a, d) # zs)"
  shows "\<exists>m' l'. lru_list_move_to_first m l a = Some (m', l') \<and>
    lru_rep m' l' ((a, d) # xs @ zs) \<and> brk m' = brk m \<and> limit m' = limit m"
proof -
  obtain r n where s: "seg (nodes m) NULL (header l) xs a r" "a \<noteq> NULL"
      "nodes m a = Some \<lparr>prev = r, next_node = n, data = d\<rparr>" "seg (nodes m) a n zs NULL (tail l)"
      "distinct (map fst xs)" "distinct (map fst zs)" "a \<notin> fst ` set xs" "a \<notin> fst ` set zs"
      "fst ` set xs \<inter> fst ` set zs = {}"
      "lru_count l = int (length (xs @ zs)) + 1" "lru_heap_ok m"
    using assms by (auto simp: lru_rep_def seg_append)
  show ?thesis
  proof (cases xs)
    case Nil
    with s assms show ?thesis by (auto simp: lru_list_move_to_first_def)
  next
    case (Cons x xs')
    obtain h f where x: "x = (h, f)" by force
    obtain ys b e where snoc: "xs = ys @ [(b, e)]"
      using Cons by (metis list.distinct(1) prod.exhaust rev_exhaust)
    with s obtain q where b: "seg (nodes m) NULL (header l) ys b q" "b \<noteq> NULL" "r = b"
        "nodes m b = Some \<lparr>prev = q, next_node = a, data = e\<rparr>"
      by (auto simp: seg_append)
    have h: "header l = h" "a \<noteq> h" using s Cons x by auto
    have tl: "a \<noteq> tail l" if "zs \<noteq> []"
      using s(8) seg_last [OF s(4)] that last_in_set [OF that] by auto
    show ?thesis
    proof (cases ys)
      case Nil
      then have bh: "b = h" "q = NULL" using b h by auto
      show ?thesis
      proof (cases zs)
        case Nil
        then show ?thesis using \<open>ys = []\<close> s b h bh snoc
          by (auto simp: lru_list_move_to_first_def lru_model_defs lru_rep_def lru_heap_ok_def)
      next
        case (Cons z zs')
        obtain c g where "z = (c, g)" by force
        then show ?thesis using Cons \<open>ys = []\<close> s b h bh snoc tl
          by (auto simp: lru_list_move_to_first_def lru_model_defs lru_rep_def lru_heap_ok_def)
      qed
    next
      case Cons: (Cons y ys')
      obtain f' where y: "y = (h, f')" using Cons b h by (cases y) auto
      show ?thesis
      proof (cases zs)
        case Nil
        then show ?thesis using Cons y s b h snoc
          by (auto simp: lru_list_move_to_first_def lru_model_defs lru_rep_def lru_heap_ok_def seg_append)
      next
        case Cons2: (Cons z zs')
        obtain c g where "z = (c, g)" by force
        then show ?thesis using Cons Cons2 y s b h snoc tl
          by (auto simp: lru_list_move_to_first_def lru_model_defs lru_rep_def lru_heap_ok_def seg_append)
      qed
    qed
  qed
qed

lemma lru_delete_rep:
  assumes "lru_rep m l (xs @ (a, d) # zs)"
  shows "\<exists>m' l'. lru_list_delete m l a = Some (m', l') \<and> lru_rep m' l' (xs @ zs) \<and>
    brk m' = brk m \<and> limit m' = limit m"
proof -
  obtain r n where s: "seg (nodes m) NULL (header l) xs a r" "a \<noteq> NULL"
      "nodes m a = Some \<lparr>prev = r, next_node = n, data = d\<rparr>" "seg (nodes m) a n zs NULL (tail l)"
      "distinct (map fst xs)" "distinct (map fst zs)" "a \<notin> fst ` set xs" "a \<notin> fst ` set zs"
      "fst ` set xs \<inter> fst ` set zs = {}"
      "lru_count l = int (length (xs @ zs)) + 1" "lru_heap_ok m"
    using assms by (auto simp: lru_rep_def seg_append)
  have tl: "a \<noteq> tail l" if "zs \<noteq> []"
    using s(8) seg_last [OF s(4)] that last_in_set [OF that] by auto
  show ?thesis
  proof (cases xs rule: rev_cases)
    case Nil
    then show ?thesis using s
      by (cases zs) (auto simp: lru_list_delete_def lru_model_defs lru_rep_def lru_heap_ok_def)
  next
    case (snoc ys x)
    obtain b e where x: "x = (b, e)" by force
    with s snoc obtain q where b: "seg (nodes m) NULL (header l) ys b q" "b \<noteq> NULL" "r = b"
        "nodes m b = Some \<lparr>prev = q, next_node = a, data = e\<rparr>"
      by (auto simp: seg_append)
    have hl: "header l \<noteq> a" using seg_first [OF s(1)] s(7) snoc by auto
    show ?thesis using s tl hl snoc x b
      by (cases zs)
        (auto simp: lru_list_delete_def lru_model_defs lru_rep_def lru_heap_ok_def seg_append)
  qed
qed

text \<open>The search answers only for the first node: past it the loop does not end.\<close>

lemma lru_search_first:
  assumes "lru_rep m l xs"
  shows "lru_list_search m l d =
    (case xs of [] \<Rightarrow> Some NULL | (a, e) # ys \<Rightarrow> if e = d then Some a else None)"
proof (cases xs)
  case Nil
  then show ?thesis
    using assms by (simp add: lru_rep_def lru_list_search_def lru_search_loop.simps)
next
  case (Cons x ys)
  obtain a e where x: "x = (a, e)" by force
  then obtain n where a: "header l = a" "a \<noteq> NULL" "nodes m a = Some n" "data n = e"
    using assms Cons by (auto simp: lru_rep_def)
  have no: "e = d" if "lru_search_loop m a d = Some r" for r
  proof (rule ccontr)
    assume ne: "e \<noteq> d"
    have "\<not> (p = a \<and> q = d \<and> k = m)" if "lru_search_loop k p q = Some r" for k p q r
      using that
    proof (rule lru_search_loop.raw_induct [rotated])
      fix f k p q r
      assume IH: "\<And>k p q r. f k p q = Some r \<Longrightarrow> \<not> (p = a \<and> q = d \<and> k = m)"
        and eq: "(if p = NULL then Some NULL else Option.bind (node_at k p)
          (\<lambda>n. if data n = q then Some p else f k p q)) = Some r"
      show "\<not> (p = a \<and> q = d \<and> k = m)"
        using eq a ne IH [of k p q r] by (auto simp: node_at_def split: if_splits)
    qed
    with \<open>lru_search_loop m a d = Some r\<close> show False by blast
  qed
  show ?thesis
  proof (cases "e = d")
    case True
    with Cons x a show ?thesis
      by (simp add: lru_list_search_def lru_search_loop.simps [of m a d] node_at_def)
  next
    case False
    with no have "lru_search_loop m a d = None" by (cases "lru_search_loop m a d") auto
    with Cons x a False show ?thesis by (simp add: lru_list_search_def)
  qed
qed

lemma lru_destroy_rep:
  assumes "seg (nodes m) pr p xs NULL la" "distinct (map fst xs)"
  shows "\<exists>m'. lru_destroy_loop m p = Some m' \<and> nodes m' = nodes m |` (- (fst ` set xs)) \<and> brk m' = brk m \<and> limit m' = limit m"
  using assms
proof (induction xs arbitrary: m pr p)
  case Nil
  then show ?case by (simp add: lru_destroy_loop.simps)
next
  case (Cons x xs)
  obtain d where x: "x = (p, d)" using Cons.prems(1) by (cases x) auto
  then obtain n where p: "p \<noteq> NULL" "nodes m p = Some \<lparr>prev = pr, next_node = n, data = d\<rparr>"
      "seg (nodes m) p n xs NULL la" "p \<notin> fst ` set xs"
    using Cons.prems by auto
  let ?m = "m\<lparr>nodes := (nodes m)(p := None)\<rparr>"
  have "seg (nodes ?m) p n xs NULL la" using p by simp
  then obtain m' where "lru_destroy_loop ?m n = Some m'"
      "nodes m' = nodes ?m |` (- (fst ` set xs))" "brk m' = brk m" "limit m' = limit m"
    using Cons.IH Cons.prems(2) by fastforce
  moreover have "nodes ?m |` (- (fst ` set xs)) = nodes m |` (- (fst ` set (x # xs)))"
    using x by (auto simp: fun_eq_iff restrict_map_def)
  ultimately show ?case
    using p by (simp add: lru_destroy_loop.simps [of m p] lru_model_defs)
qed

section \<open>The contract of a recency list\<close>

text \<open>The list operations that the pointer operations refine; entries are (node, data) pairs.\<close>

definition to_front :: "addr \<Rightarrow> (addr \<times> addr) list \<Rightarrow> (addr \<times> addr) list" where
  "to_front a xs = [x \<leftarrow> xs. fst x = a] @ [x \<leftarrow> xs. fst x \<noteq> a]"

definition drop_node :: "addr \<Rightarrow> (addr \<times> addr) list \<Rightarrow> (addr \<times> addr) list" where
  "drop_node a xs = [x \<leftarrow> xs. fst x \<noteq> a]"

lemma filter_node_split:
  assumes "distinct (map fst (xs @ (a, d) # zs))"
  shows "to_front a (xs @ (a, d) # zs) = (a, d) # xs @ zs"
    "drop_node a (xs @ (a, d) # zs) = xs @ zs"
proof -
  have n: "\<forall>x \<in> set xs \<union> set zs. fst x \<noteq> a" using assms by force
  then have "[x \<leftarrow> xs. fst x = a] = []" "[x \<leftarrow> zs. fst x = a] = []"
    "[x \<leftarrow> xs. fst x \<noteq> a] = xs" "[x \<leftarrow> zs. fst x \<noteq> a] = zs"
    by (simp_all add: filter_empty_conv filter_id_conv)
  then show "to_front a (xs @ (a, d) # zs) = (a, d) # xs @ zs"
    "drop_node a (xs @ (a, d) # zs) = xs @ zs"
    by (simp_all add: to_front_def drop_node_def)
qed

text \<open>
  What the trees rely on: inserting puts a new node in front, touching moves a node to the front,
  evicting takes the last one, removing deletes one; \<open>room\<close> is the number of nodes that can
  still be allocated.
\<close>

locale recency_list =
  fixes rep :: "'m \<Rightarrow> 'l \<Rightarrow> (addr \<times> addr) list \<Rightarrow> bool"
    and room :: "'m \<Rightarrow> nat"
    and insert_op :: "'m \<Rightarrow> 'l \<Rightarrow> addr \<Rightarrow> ('m \<times> 'l \<times> addr) option"
    and touch_op :: "'m \<Rightarrow> 'l \<Rightarrow> addr \<Rightarrow> ('m \<times> 'l) option"
    and evict_op :: "'m \<Rightarrow> 'l \<Rightarrow> ('m \<times> 'l \<times> addr) option"
    and remove_op :: "'m \<Rightarrow> 'l \<Rightarrow> addr \<Rightarrow> ('m \<times> 'l) option"
  assumes rep_distinct: "rep m l xs \<Longrightarrow> distinct (map fst xs)"
    and insert_rep: "rep m l xs \<Longrightarrow> d \<noteq> NULL \<Longrightarrow> 0 < room m \<Longrightarrow>
      \<exists>m' l' a. insert_op m l d = Some (m', l', a) \<and> a \<noteq> NULL \<and> rep m' l' ((a, d) # xs) \<and>
        room m' = room m - 1"
    and touch_rep: "rep m l xs \<Longrightarrow> a \<in> fst ` set xs \<Longrightarrow>
      \<exists>m' l'. touch_op m l a = Some (m', l') \<and> rep m' l' (to_front a xs) \<and> room m' = room m"
    and evict_rep: "rep m l xs \<Longrightarrow> xs \<noteq> [] \<Longrightarrow>
      \<exists>m' l'. evict_op m l = Some (m', l', snd (last xs)) \<and> rep m' l' (butlast xs) \<and>
        room m' = room m"
    and evict_empty: "rep m l [] \<Longrightarrow> evict_op m l = Some (m, l, NULL)"
    and remove_rep: "rep m l xs \<Longrightarrow> a \<in> fst ` set xs \<Longrightarrow>
      \<exists>m' l'. remove_op m l a = Some (m', l') \<and> rep m' l' (drop_node a xs) \<and> room m' = room m"
begin

lemma set_to_front: "set (to_front a xs) = set xs"
  by (auto simp: to_front_def)

text \<open>A node that was just touched is not the next one to be evicted, unless it is alone.\<close>

lemma touched_survives:
  assumes "rep m l xs" "(a, d) \<in> set xs" "2 \<le> length xs"
  shows "\<exists>m1 l1 m2 l2 b e. touch_op m l a = Some (m1, l1) \<and> evict_op m1 l1 = Some (m2, l2, e) \<and>
    (b, e) \<in> set xs \<and> b \<noteq> a \<and> rep m2 l2 (drop_node b (to_front a xs)) \<and>
    (a, d) \<in> set (drop_node b (to_front a xs))"
proof -
  obtain ys zs where xs: "xs = ys @ (a, d) # zs" using assms(2) by (meson split_list)
  have d: "distinct (map fst xs)" using assms(1) by (rule rep_distinct)
  have tf: "to_front a xs = (a, d) # ys @ zs" using d filter_node_split(1) unfolding xs by blast
  have ne: "ys @ zs \<noteq> []" using assms(3) xs by (cases ys; cases zs) auto
  obtain us b e where us: "ys @ zs = us @ [(b, e)]" using ne by (metis prod.exhaust rev_exhaust)
  have "(b, e) \<in> set (ys @ zs)" by (simp add: us)
  then have be: "(b, e) \<in> set xs" "b \<noteq> a" using d xs by force+
  obtain m1 l1 where t: "touch_op m l a = Some (m1, l1)" "rep m1 l1 (to_front a xs)"
    using touch_rep [OF assms(1), of a] assms(2) by force
  obtain m2 l2 where v: "evict_op m1 l1 = Some (m2, l2, e)" "rep m2 l2 ((a, d) # us)"
    using evict_rep [OF t(2)] tf us by auto
  have d2: "distinct (map fst ((a, d) # us @ [(b, e)]))" using rep_distinct [OF t(2)] tf us by simp
  have "drop_node b (to_front a xs) = (a, d) # us"
    using filter_node_split(2) [of "(a, d) # us" b e "[]"] d2 tf us by simp
  with t v be show ?thesis by (metis list.set_intros(1))
qed

end

lemma lru_rep_split:
  assumes "a \<in> fst ` set xs"
  obtains ys d zs where "xs = ys @ (a, d) # zs"
  using assms by (metis imageE prod.collapse split_list)

lemma lru_rep_distinct: "lru_rep m l xs \<Longrightarrow> distinct (map fst xs)"
  by (simp add: lru_rep_def)

definition lru_room :: "lru_heap \<Rightarrow> nat" where
  "lru_room m = limit m - brk m"

interpretation lru: recency_list lru_rep lru_room lru_list_insert lru_list_move_to_first
  lru_list_remove_tail lru_list_delete
proof unfold_locales
  fix m l xs a d
  show "lru_rep m l xs \<Longrightarrow> distinct (map fst xs)" by (rule lru_rep_distinct)
  show "lru_rep m l xs \<Longrightarrow> d \<noteq> NULL \<Longrightarrow> 0 < lru_room m \<Longrightarrow>
      \<exists>m' l' a. lru_list_insert m l d = Some (m', l', a) \<and> a \<noteq> NULL \<and>
        lru_rep m' l' ((a, d) # xs) \<and> lru_room m' = lru_room m - 1"
    using lru_insert_rep [of m l xs d] lru_rep_fresh [of m l xs] by (auto simp: lru_room_def)
  show "lru_list_remove_tail m l = Some (m, l, NULL)" if "lru_rep m l []"
    using that by (rule lru_remove_tail_empty)
  show "\<exists>m' l'. lru_list_remove_tail m l = Some (m', l', snd (last xs)) \<and>
      lru_rep m' l' (butlast xs) \<and> lru_room m' = lru_room m" if r: "lru_rep m l xs" and ne: "xs \<noteq> []"
  proof -
    obtain ys a e where xs: "xs = ys @ [(a, e)]" using ne by (metis prod.exhaust rev_exhaust)
    then show ?thesis using lru_remove_tail_rep [of m l ys a e] r
      by (simp add: lru_room_def) metis
  qed
  show "\<exists>m' l'. lru_list_move_to_first m l a = Some (m', l') \<and> lru_rep m' l' (to_front a xs) \<and>
      lru_room m' = lru_room m" if r: "lru_rep m l xs" and a: "a \<in> fst ` set xs"
  proof -
    obtain ys d zs where xs: "xs = ys @ (a, d) # zs" using lru_rep_split [OF a] .
    then show ?thesis
      using lru_move_rep [of m l ys a d zs] lru_rep_distinct r filter_node_split(1)
      by (metis lru_room_def)
  qed
  show "\<exists>m' l'. lru_list_delete m l a = Some (m', l') \<and> lru_rep m' l' (drop_node a xs) \<and>
      lru_room m' = lru_room m" if r: "lru_rep m l xs" and a: "a \<in> fst ` set xs"
  proof -
    obtain ys d zs where xs: "xs = ys @ (a, d) # zs" using lru_rep_split [OF a] .
    then show ?thesis
      using lru_delete_rep [of m l ys a d zs] lru_rep_distinct r filter_node_split(2)
      by (metis lru_room_def)
  qed
qed

section \<open>Programs over a recency list\<close>

datatype lru_op = Insert_data addr | Touch addr | Evict | Remove addr

text \<open>One call on the pointers; the third component is the returned pointer, \<open>NULL\<close> for \<open>void\<close>.\<close>

fun lru_exec :: "lru_op \<Rightarrow> lru_heap \<Rightarrow> lru_list \<Rightarrow> (lru_heap \<times> lru_list \<times> addr) option" where
  "lru_exec (Insert_data d) m l = lru_list_insert m l d"
| "lru_exec (Touch a) m l = map_option (\<lambda>(m', l'). (m', l', NULL)) (lru_list_move_to_first m l a)"
| "lru_exec Evict m l = lru_list_remove_tail m l"
| "lru_exec (Remove a) m l = map_option (\<lambda>(m', l'). (m', l', NULL)) (lru_list_delete m l a)"

fun lru_run :: "lru_op list \<Rightarrow> lru_heap \<Rightarrow> lru_list \<Rightarrow> (lru_heap \<times> lru_list \<times> addr list) option" where
  "lru_run [] m l = Some (m, l, [])"
| "lru_run (op # ops) m l = do {
     (m1, l1, r) \<leftarrow> lru_exec op m l;
     (m2, l2, rs) \<leftarrow> lru_run ops m1 l1;
     Some (m2, l2, r # rs)
   }"

text \<open>
  The specification works on the list and the next fresh node \<open>b\<close>; it refuses a \<open>NULL\<close> datum and a
  node that is not in the list.
\<close>

fun lru_spec :: "lru_op \<Rightarrow> addr \<times> (addr \<times> addr) list \<Rightarrow> ((addr \<times> (addr \<times> addr) list) \<times> addr) option" where
  "lru_spec (Insert_data d) (b, xs) = (if d = NULL then None else Some ((b + 1, (b, d) # xs), b))"
| "lru_spec (Touch a) (b, xs) =
     (if a \<in> fst ` set xs then Some ((b, to_front a xs), NULL) else None)"
| "lru_spec Evict (b, xs) =
     Some ((b, butlast xs), if xs = [] then NULL else snd (last xs))"
| "lru_spec (Remove a) (b, xs) =
     (if a \<in> fst ` set xs then Some ((b, drop_node a xs), NULL) else None)"

fun lru_spec_run :: "lru_op list \<Rightarrow> addr \<times> (addr \<times> addr) list \<Rightarrow>
    ((addr \<times> (addr \<times> addr) list) \<times> addr list) option" where
  "lru_spec_run [] st = Some (st, [])"
| "lru_spec_run (op # ops) st = do {
     (st1, r) \<leftarrow> lru_spec op st;
     (st2, rs) \<leftarrow> lru_spec_run ops st1;
     Some (st2, r # rs)
   }"

lemma lru_exec_refines:
  assumes "lru_rep m l xs" "lru_spec op (brk m, xs) = Some ((b, ys), r)" "b \<le> limit m"
  shows "\<exists>m' l'. lru_exec op m l = Some (m', l', r) \<and> lru_rep m' l' ys \<and> brk m' = b \<and>
    limit m' = limit m"
proof (cases op)
  case (Insert_data d)
  with assms lru_insert_rep [of m l xs d] show ?thesis by (auto split: if_splits)
next
  case (Touch a)
  with assms(2) have a: "a \<in> fst ` set xs" by (auto split: if_splits)
  obtain us d vs where xs: "xs = us @ (a, d) # vs" using lru_rep_split [OF a] .
  have ys: "ys = (a, d) # us @ vs" "b = brk m" "r = NULL"
    using assms(2) Touch a filter_node_split(1) [of us a d vs] lru_rep_distinct [OF assms(1)]
    unfolding xs by simp_all
  obtain m' l' where "lru_list_move_to_first m l a = Some (m', l')" "lru_rep m' l' ((a, d) # us @ vs)"
    "brk m' = brk m" "limit m' = limit m"
    using lru_move_rep [of m l us a d vs] assms(1) unfolding xs by blast
  then show ?thesis using Touch ys by simp
next
  case Evict
  show ?thesis
  proof (cases xs rule: rev_cases)
    case Nil
    with Evict assms lru_remove_tail_empty [of m l] show ?thesis by auto
  next
    case (snoc us x)
    then obtain a d where "xs = us @ [(a, d)]" by (cases x) auto
    with Evict assms lru_remove_tail_rep [of m l us a d] show ?thesis by auto
  qed
next
  case (Remove a)
  with assms(2) have a: "a \<in> fst ` set xs" by (auto split: if_splits)
  obtain us d vs where xs: "xs = us @ (a, d) # vs" using lru_rep_split [OF a] .
  have ys: "ys = us @ vs" "b = brk m" "r = NULL"
    using assms(2) Remove a filter_node_split(2) [of us a d vs] lru_rep_distinct [OF assms(1)]
    unfolding xs by simp_all
  obtain m' l' where "lru_list_delete m l a = Some (m', l')" "lru_rep m' l' (us @ vs)"
    "brk m' = brk m" "limit m' = limit m"
    using lru_delete_rep [of m l us a d vs] assms(1) unfolding xs by blast
  then show ?thesis using Remove ys by simp
qed

lemma lru_spec_mono: "lru_spec op (b, xs) = Some ((b', ys), r) \<Longrightarrow> b \<le> b'"
  by (cases op) (auto split: if_splits)

lemma lru_spec_run_mono: "lru_spec_run ops (b, xs) = Some ((b', ys), rs) \<Longrightarrow> b \<le> b'"
proof (induction ops arbitrary: b xs rs)
  case (Cons op ops)
  then obtain b1 xs1 r rs1 where "lru_spec op (b, xs) = Some ((b1, xs1), r)"
    "lru_spec_run ops (b1, xs1) = Some ((b', ys), rs1)"
    by (auto elim!: bind_eq_SomeE)
  with Cons.IH lru_spec_mono show ?case by (meson le_trans)
qed simp

text \<open>C21. Every program of calls that the list specification accepts runs on the pointers without
  a fault, returns the same pointers, and leaves a well-formed doubly linked list (both directions,
  header, tail and counter) for the specified list: insertion in front, move to front, removal of
  the least recently used entry, and deletion.\<close>

theorem lru_run_refines:
  assumes "lru_rep m l xs" "lru_spec_run ops (brk m, xs) = Some ((b, ys), rs)" "b \<le> limit m"
  shows "\<exists>m' l'. lru_run ops m l = Some (m', l', rs) \<and> lru_rep m' l' ys \<and>
    lru_list_get_count l' = int (length ys)"
  using assms
proof (induction ops arbitrary: m l xs rs)
  case Nil
  then show ?case by (auto simp: lru_rep_def lru_list_get_count_def)
next
  case (Cons op ops)
  obtain b1 xs1 r rs1 where s: "lru_spec op (brk m, xs) = Some ((b1, xs1), r)"
    "lru_spec_run ops (b1, xs1) = Some ((b, ys), rs1)" "rs = r # rs1"
    using Cons.prems(2) by (auto elim!: bind_eq_SomeE)
  have "b1 \<le> limit m" using lru_spec_run_mono [OF s(2)] Cons.prems(3) by simp
  then obtain m1 l1 where e: "lru_exec op m l = Some (m1, l1, r)" "lru_rep m1 l1 xs1"
    "brk m1 = b1" "limit m1 = limit m"
    using lru_exec_refines [OF Cons.prems(1) s(1)] by blast
  with Cons.IH [of m1 l1 xs1 rs1] s Cons.prems(3) show ?case by auto
qed

text \<open>The program of the repository's unit test (\<^verbatim>\<open>test/cunit_lru_test.c\<close>).\<close>

definition lru_test_heap :: lru_heap where
  "lru_test_heap = \<lparr>nodes = Map.empty, brk = 1, limit = 100\<rparr>"

definition lru_test_ops :: "lru_op list" where
  "lru_test_ops = [Insert_data 100, Insert_data 200, Evict, Insert_data 300, Insert_data 400,
     Touch 4, Remove 3, Remove 4, Remove 2]"

theorem lru_run_refines_witness:
  "\<exists>m' l'. lru_run lru_test_ops lru_test_heap lru_list_create
      = Some (m', l', [1, 2, 100, 3, 4, 0, 0, 0, 0]) \<and> lru_rep m' l' [] \<and>
    lru_list_get_count l' = int (length ([] :: (addr \<times> addr) list))"
proof (rule lru_run_refines)
  show "lru_rep lru_test_heap lru_list_create []"
    by (rule lru_rep_create) (simp add: lru_heap_ok_def lru_test_heap_def)
  show "lru_spec_run lru_test_ops (brk lru_test_heap, []) = Some ((5, []), [1, 2, 100, 3, 4, 0, 0, 0, 0])"
    by (simp add: lru_test_ops_def lru_test_heap_def to_front_def drop_node_def)
qed (simp add: lru_test_heap_def)

text \<open>Touching an entry protects it: the next eviction removes another entry, as long as the
  list has two.\<close>

lemma lru_touch_then_evict:
  assumes "lru_rep m l xs" "(a, d) \<in> set xs" "2 \<le> length xs"
  shows "\<exists>m1 l1 m2 l2 b e. lru_list_move_to_first m l a = Some (m1, l1) \<and>
    lru_list_remove_tail m1 l1 = Some (m2, l2, e) \<and> (b, e) \<in> set xs \<and> b \<noteq> a \<and>
    lru_rep m2 l2 (drop_node b (to_front a xs)) \<and> (a, d) \<in> set (drop_node b (to_front a xs))"
  by (rule lru.touched_survives [OF assms])

definition lru_two_heap :: lru_heap where
  "lru_two_heap = \<lparr>nodes = [1 \<mapsto> \<lparr>prev = 2, next_node = NULL, data = 100\<rparr>,
      2 \<mapsto> \<lparr>prev = NULL, next_node = 1, data = 200\<rparr>], brk = 3, limit = 100\<rparr>"

definition lru_two :: lru_list where
  "lru_two = \<lparr>header = 2, tail = 1, lru_count = 2\<rparr>"

lemma lru_touch_then_evict_witness:
  "\<exists>m1 l1 m2 l2 b e. lru_list_move_to_first lru_two_heap lru_two 1 = Some (m1, l1) \<and>
    lru_list_remove_tail m1 l1 = Some (m2, l2, e) \<and>
    (b, e) \<in> set [(2 :: addr, 200 :: addr), (1, 100)] \<and> b \<noteq> 1 \<and>
    lru_rep m2 l2 (drop_node b (to_front 1 [(2, 200), (1, 100)])) \<and>
    (1, 100) \<in> set (drop_node b (to_front 1 [(2, 200), (1, 100)]))"
proof (rule lru_touch_then_evict)
  show "lru_rep lru_two_heap lru_two [(2, 200), (1, 100)]"
    by (simp add: lru_rep_def lru_two_heap_def lru_two_def lru_heap_ok_def)
qed simp_all

end
