(* ===== verification/Name_Tree.thy ===== *)
theory Name_Tree
  imports Heap_State Name_Key Mem_Pool Lru_List
begin

text \<open>
  The tree of counted names of \<^verbatim>\<open>log_name_tree.c\<close>: a red-black tree finds the record of a name,
  a recency list orders the records by their last use, a heap keeps the names with the highest
  counts, and two pools hold the tree nodes and the records. The state is a record with the
  memories of these parts. A \<open>const char *\<close> argument is a \<open>string option\<close> whose \<open>None\<close> is
  \<open>NULL\<close>. The abort \<open>None\<close> of an operation stands for a failed assert, a write past
  \<open>fqdn[32]\<close>, and a function that ends without the value its caller reads.

  The link that a pool keeps in a free element lies over the first bytes of the element
  (\<open>parent\<close> of a tree node, \<open>fqdn\<close> of a record); the records of the model do not show it, and no
  operation of this theory reads these fields of a freed element. (A reply with the top names may,
  when the memory limit has freed a record that is still in the heap.)
\<close>

section \<open>State\<close>

record name_tree =
  nt_tree :: "nv_store rbtree"
  nt_heap :: name_heap
  nt_nodes :: pool_state
  nt_names :: pool_state
  nt_count :: u32
  nt_lru_mem :: lru_heap
  nt_lru :: lru_list
  nt_nvs :: nv_store

definition MAX_NAME_LEN :: nat where
  "MAX_NAME_LEN = 32"

definition ROOF :: nat where
  "ROOF = 1000"

text \<open>
  The sizes of the C structs on a 64-bit machine. \<open>sizeof(name_tree_t)\<close> holds a lock of the C
  library, so it is a parameter where it is used.
\<close>

definition sizeof_rbnode :: nat where
  "sizeof_rbnode = 40"

definition sizeof_node_value :: nat where
  "sizeof_node_value = 48"

definition sizeof_lru_node :: nat where
  "sizeof_lru_node = 24"

definition sizeof_heap :: nat where
  "sizeof_heap = 80016"

section \<open>Names\<close>

definition name_end_with_dot :: "string \<Rightarrow> bool option" where
  "name_end_with_dot name = do { _ \<leftarrow> guard (name \<noteq> []); Some (last name = CHR ''.'') }"

text \<open>
  The copy that the operations make of a name that passed the length test: \<open>strcpy\<close> into
  \<open>fqdn\<close>, and \<open>strcat\<close> of the dot when it is missing.
\<close>

definition copy_fqdn :: "string \<Rightarrow> string option" where
  "copy_fqdn name = do {
     buf \<leftarrow> strcpy_buf MAX_NAME_LEN name;
     dot \<leftarrow> name_end_with_dot name;
     if \<not> dot then strcpy_buf MAX_NAME_LEN (buf @ ''.'') else Some buf
   }"

definition name_is_root :: "string \<Rightarrow> bool option" where
  "name_is_root name = do {
     _ \<leftarrow> guard (name \<noteq> []);
     Some (length name = 1 \<and> hd name = CHR ''.'')
   }"

text \<open>
  \<open>generate_parent_name\<close>: the inner option is the pointer it returns. A name without a dot makes
  \<open>dot_pos\<close> the \<open>NULL\<close> pointer, and the subtraction is undefined.
\<close>

definition generate_parent_name :: "string \<Rightarrow> string option option" where
  "generate_parent_name name = do {
     _ \<leftarrow> guard (name \<noteq> []);
     root \<leftarrow> name_is_root name;
     if root then Some None
     else do {
       dot_pos \<leftarrow> strchr name CHR ''.'';
       if length name - length dot_pos = length name - 1 then Some (Some dot_pos)
       else Some (Some (drop 1 dot_pos))
     }
   }"

section \<open>Operations\<close>

text \<open>
  \<open>name_tree_create\<close>. The results of \<open>calloc\<close> for the struct and of \<open>malloc\<close> for the heap are the
  first two arguments, and the memories that the parts use are the others. The inner option is the
  returned pointer. When the heap cannot be allocated the function frees the parts and ends
  without a \<open>return\<close>: an abort.
\<close>

definition name_tree_create ::
    "bool \<Rightarrow> (nat \<Rightarrow> addr) option \<Rightarrow> nv_store rbtree \<Rightarrow> nv_store \<Rightarrow> pool_mem \<Rightarrow> pool_mem \<Rightarrow> lru_heap \<Rightarrow>
     name_tree option option" where
  "name_tree_create calloc_ok heap_mem tree_mem nvs node_mem name_mem lru_mem =
     (if \<not> calloc_ok then Some None
      else do {
        h \<leftarrow> heap_init heap_mem (int ROOF) elem_compare;
        np \<leftarrow> mem_pool_create (of_nat sizeof_rbnode) 1024 True node_mem;
        vp \<leftarrow> mem_pool_create (of_nat sizeof_node_value) 1024 True name_mem;
        Some (Some \<lparr>nt_tree = rbtree_create name_compare tree_mem, nt_heap = h, nt_nodes = np, nt_names = vp,
          nt_count = 0, nt_lru_mem = lru_mem, nt_lru = lru_list_create, nt_nvs = nvs\<rparr>)
      })"

definition name_tree_destroy :: "name_tree \<Rightarrow> (pool_mem \<times> pool_mem \<times> lru_heap) option" where
  "name_tree_destroy t = do {
     node_mem \<leftarrow> mem_pool_delete (snd (nt_nodes t)) (fst (nt_nodes t));
     name_mem \<leftarrow> mem_pool_delete (snd (nt_names t)) (fst (nt_names t));
     lru_mem \<leftarrow> lru_list_destroy (nt_lru_mem t) (nt_lru t);
     Some (node_mem, name_mem, lru_mem)
   }"


text \<open>
  The key of a search is a local \<open>node_value_t\<close>; its address is below every pool element.
\<close>

definition KEY :: addr where
  "KEY = 8"

definition with_key :: "string \<Rightarrow> nv_store \<Rightarrow> nv_store" where
  "with_key name nvs = nvs(KEY := (nvs KEY)\<lparr>fqdn := name\<rparr>)"

definition name_tree_exactly_find :: "name_tree \<Rightarrow> string option \<Rightarrow> addr option" where
  "name_tree_exactly_find t arg = (case arg of
     None \<Rightarrow> Some NULL
   | Some name \<Rightarrow>
       if length name \<ge> MAX_NAME_LEN then Some NULL
       else do {
         key \<leftarrow> copy_fqdn name;
         node \<leftarrow> rbtree_search (nt_tree t) (with_key key (nt_nvs t)) KEY;
         if node = NULL then Some NULL else Some (node_val (nt_tree t) node)
       })"

text \<open>
  The part of \<open>name_tree_insert\<close> for a new name. The address is \<open>NULL\<close> where the code returns \<open>- 1\<close>.
\<close>

definition insert_new_name :: "name_tree \<Rightarrow> string \<Rightarrow> (name_tree \<times> addr) option" where
  "insert_new_name t name = do {
     (names, nv) \<leftarrow> pool_take (nt_names t);
     let t1 = t\<lparr>nt_names := names\<rparr>;
     if nv = NULL then Some (t1, NULL)
     else do {
       (nodes, node) \<leftarrow> pool_take (nt_nodes t1);
       let t2 = t1\<lparr>nt_nodes := nodes\<rparr>;
       if node = NULL then do {
         names' \<leftarrow> pool_give nv (nt_names t2);
         Some (t2\<lparr>nt_names := names'\<rparr>, NULL)
       }
       else do {
         key \<leftarrow> copy_fqdn name;
         let nvs = (nt_nvs t2)(nv := (nt_nvs t2 nv)\<lparr>fqdn := key, nv_count := 0, heap_index := - 1\<rparr>);
         (tree, insert_node) \<leftarrow> rbtree_insert nvs node (set_node_val node nv (nt_tree t2));
         let t3 = t2\<lparr>nt_nvs := nvs, nt_tree := tree\<rparr>;
         if insert_node = NULL then do {
           nodes' \<leftarrow> pool_give node (nt_nodes t3);
           names' \<leftarrow> pool_give nv (nt_names t3);
           Some (t3\<lparr>nt_nodes := nodes', nt_names := names'\<rparr>, NULL)
         }
         else do {
           (mem, lru, lru_node) \<leftarrow> lru_list_insert (nt_lru_mem t3) (nt_lru t3) nv;
           Some (t3\<lparr>nt_lru_mem := mem, nt_lru := lru,
                     nt_nvs := nvs(nv := (nvs nv)\<lparr>nv_ptr := lru_node\<rparr>),
                     nt_count := nt_count t3 + 1\<rparr>, nv)
         }
       }
     }
   }"

text \<open>The end of \<open>name_tree_insert\<close>: the place of the counted name in the heap.\<close>

definition rank_name :: "name_tree \<Rightarrow> addr \<Rightarrow> name_tree option" where
  "rank_name t nv =
     (if heap_index (nt_nvs t nv) \<noteq> - 1
      then do {
        (nvs, h) \<leftarrow> heap_adjust_siftdown (Some elem_insert) (nt_nvs t) (nt_heap t) (nat (heap_index (nt_nvs t nv)));
        Some (t\<lparr>nt_nvs := nvs, nt_heap := h\<rparr>)
      }
      else if heap_reach_roof (nt_heap t) ROOF
      then do {
        less \<leftarrow> heap_min_less_than (nt_heap t) (nt_nvs t) nv;
        if less then do {
          (nvs, h, _) \<leftarrow> heap_replace_least (Some elem_insert) (nt_nvs t) (nt_heap t) nv;
          Some (t\<lparr>nt_nvs := nvs, nt_heap := h\<rparr>)
        }
        else Some t
      }
      else do {
        (nvs, h, _) \<leftarrow> heap_insert (Some elem_insert) (nt_nvs t) (nt_heap t) nv;
        Some (t\<lparr>nt_nvs := nvs, nt_heap := h\<rparr>)
      })"

definition count_name :: "name_tree \<Rightarrow> addr \<Rightarrow> name_tree" where
  "count_name t nv =
     t\<lparr>nt_nvs := (nt_nvs t)(nv := (nt_nvs t nv)\<lparr>nv_count := nv_count (nt_nvs t nv) + 1\<rparr>)\<rparr>"

definition name_tree_insert :: "name_tree \<Rightarrow> string option \<Rightarrow> (name_tree \<times> int) option" where
  "name_tree_insert t arg = (case arg of
     None \<Rightarrow> Some (t, - 1)
   | Some name \<Rightarrow>
       if length name \<ge> MAX_NAME_LEN then Some (t, - 1)
       else do {
         found \<leftarrow> name_tree_exactly_find t arg;
         (t1, nv) \<leftarrow>
           (if found = NULL then insert_new_name t name
            else do {
              (mem, lru) \<leftarrow> lru_list_move_to_first (nt_lru_mem t) (nt_lru t) (nv_ptr (nt_nvs t found));
              Some (t\<lparr>nt_lru_mem := mem, nt_lru := lru\<rparr>, found)
            });
         if nv = NULL then Some (t1, - 1)
         else do {
           t2 \<leftarrow> rank_name (count_name t1 nv) nv;
           Some (t2, 0)
         }
       })"

text \<open>
  \<open>name_tree_delete\<close>: the callback gets the list and the list node of the name. The heap is not
  touched: a name that was in the heap leaves a dangling pointer there.
\<close>

type_synonym del_node = "lru_heap \<times> lru_list \<Rightarrow> addr \<Rightarrow> (lru_heap \<times> lru_list) option"

definition name_tree_delete ::
    "name_tree \<Rightarrow> string option \<Rightarrow> del_node option \<Rightarrow> (name_tree \<times> int) option" where
  "name_tree_delete t arg del_func = (case arg of
     None \<Rightarrow> Some (t, - 1)
   | Some name \<Rightarrow>
       if length name \<ge> MAX_NAME_LEN then Some (t, - 1)
       else do {
         key \<leftarrow> copy_fqdn name;
         (tree, del_node) \<leftarrow> rbtree_delete (with_key key (nt_nvs t)) KEY (nt_tree t);
         let t1 = t\<lparr>nt_tree := tree\<rparr>;
         if del_node = NULL then Some (t1, - 1)
         else do {
           let nv = node_val tree del_node;
           (mem, lru) \<leftarrow> (case del_func of
               None \<Rightarrow> Some (nt_lru_mem t1, nt_lru t1)
             | Some f \<Rightarrow> f (nt_lru_mem t1, nt_lru t1) (nv_ptr (nt_nvs t1 nv)));
           names \<leftarrow> pool_give nv (nt_names t1);
           nodes \<leftarrow> pool_give del_node (nt_nodes t1);
           Some (t1\<lparr>nt_lru_mem := mem, nt_lru := lru, nt_names := names, nt_nodes := nodes,
                     nt_count := nt_count t1 - 1\<rparr>, 0)
         }
       })"

text \<open>
  \<open>name_tree_closely_find\<close>: the loop tries the name and then its parents up to the root.
\<close>

partial_function (option) closely_find_loop :: "name_tree \<Rightarrow> string \<Rightarrow> addr option" where
  "closely_find_loop t name_pos =
     Option.bind (name_tree_exactly_find t (Some name_pos)) (\<lambda>find_name.
       if find_name \<noteq> NULL then Some find_name
       else Option.bind (generate_parent_name name_pos) (\<lambda>parent_pos.
         case parent_pos of None \<Rightarrow> Some NULL | Some p \<Rightarrow> closely_find_loop t p))"

definition name_tree_closely_find :: "name_tree \<Rightarrow> string option \<Rightarrow> addr option" where
  "name_tree_closely_find t arg = (case arg of
     None \<Rightarrow> Some NULL
   | Some name \<Rightarrow>
       if length name \<ge> MAX_NAME_LEN then Some NULL
       else do { key \<leftarrow> copy_fqdn name; closely_find_loop t key })"

text \<open>
  \<open>name_tree_get_size\<close> in 64-bit arithmetic: \<open>tree->count\<close> is a 32-bit counter, and the count of
  the list is an \<open>int\<close>. \<open>tree_struct\<close> and \<open>pool_struct\<close> are \<open>sizeof(name_tree_t)\<close> and
  \<open>mem_pool_struct_size()\<close>, whose locks belong to the C library.
\<close>

definition name_tree_get_size :: "nat \<Rightarrow> nat \<Rightarrow> name_tree \<Rightarrow> u64" where
  "name_tree_get_size tree_struct pool_struct t =
     (let initsize = of_nat tree_struct;
          heapsize = of_nat sizeof_heap + of_nat MAX_HEAP_NODE_NUM * 8;
          mempoolsize = of_nat pool_struct * 2;
          nodesize = ucast (nt_count t) * (of_nat sizeof_rbnode + of_nat sizeof_node_value);
          lrusize = of_int (lru_count (nt_lru t)) * of_nat sizeof_lru_node
      in initsize + heapsize + mempoolsize + nodesize + lrusize)"

definition name_tree_copy_heap :: "(nat \<Rightarrow> addr) option \<Rightarrow> name_tree \<Rightarrow> name_heap option" where
  "name_tree_copy_heap mem t = heap_copy mem (nt_heap t)"

end
