(* ===== verification/Name_Spec.thy ===== *)
theory Name_Spec
  imports Name_Tree
begin

text \<open>
  What the tree of counted names is for: a map from names to counts, the names in the order of
  their last use, and a heap of the names with the most counts. The theory relates the state of
  \<open>Name_Tree\<close> to these and proves that the operations of \<^verbatim>\<open>log_name_tree.c\<close> act on them as they
  should, on every branch.
\<close>

section \<open>Names\<close>

definition qualify :: "string \<Rightarrow> string" where
  "qualify name = (if last name = CHR ''.'' then name else name @ ''.'')"

lemma copy_fqdn_eq:
  "copy_fqdn name = (if name \<noteq> [] \<and> length (qualify name) < MAX_NAME_LEN then Some (qualify name) else None)"
  by (auto simp: copy_fqdn_def name_end_with_dot_def qualify_def strcpy_buf_def guard_def)

lemma qualify_again: "qualify (qualify name) = qualify name" "name \<noteq> [] \<Longrightarrow> qualify name \<noteq> []"
  by (auto simp: qualify_def)

text \<open>The names the operations accept: neither empty nor too long for the buffer with the dot.\<close>

definition name_fits :: "string \<Rightarrow> bool" where
  "name_fits name \<longleftrightarrow> name \<noteq> [] \<and> length (qualify name) < MAX_NAME_LEN"

lemma name_fits_copy: "name_fits name \<Longrightarrow> copy_fqdn name = Some (qualify name) \<and> length name < MAX_NAME_LEN"
  by (auto simp: name_fits_def copy_fqdn_eq qualify_def split: if_splits)

section \<open>Pool elements\<close>

lemma pool_rep_above: "pool_rep s E \<Longrightarrow> p \<in> E \<Longrightarrow> 24 \<le> p"
proof -
  assume "pool_rep s E" "p \<in> E"
  then obtain m mp cs fs where i: "pool_inv m mp cs fs E" by (auto simp: pool_rep_def)
  then have "p \<in> slots (unat (elem_size mp)) cs" using \<open>p \<in> E\<close> pool_inv_facts(5) by blast
  then obtain b n k where b: "(b, n) \<in> set cs" "p = slot (unat (elem_size mp)) b k" by (auto simp: slots_def)
  then have "b mod 16 = 0" "0 < b" using pool_inv_facts(3) [OF i] by (auto simp: chunks_ok_def)
  then have "16 \<le> b" by presburger
  then show ?thesis using b(2) by (simp add: slot_def)
qed

lemma pool_rep_apart: "pool_rep s E \<Longrightarrow> p \<in> E \<Longrightarrow> p \<noteq> NULL \<and> p \<noteq> NIL \<and> p \<noteq> KEY"
  using pool_rep_above [of s E p] by (auto simp: NIL_def KEY_def)

section \<open>The tree of the records\<close>

text \<open>
  \<open>V\<close> lists the records of the tree, in the order of their names; the tree nodes are exactly the
  elements that the node pool has handed out.
\<close>

definition tree_rep :: "nv_store \<Rightarrow> nv_store rbtree \<Rightarrow> pool_state \<Rightarrow> addr list \<Rightarrow> bool" where
  "tree_rep nvs h np V \<longleftrightarrow>
     (\<exists>xs. name_index nvs h xs \<and> pool_rep np (set xs) \<and> V = map (node_val h) xs)"

lemma sorted_wrt_rel_cong:
  "(\<And>x y. x \<in> set xs \<Longrightarrow> y \<in> set xs \<Longrightarrow> P x y = Q x y) \<Longrightarrow> sorted_wrt P xs = sorted_wrt Q xs"
  by (simp add: sorted_wrt_iff_nth_less)

lemma name_index_cong:
  assumes "\<And>a. a \<in> set xs \<Longrightarrow> fqdn (nvs' (node_val h a)) = fqdn (nvs (node_val h a))"
  shows "name_index nvs' h xs = name_index nvs h xs"
proof -
  have "sorted_wrt (\<lambda>a b. node_name nvs' h a < node_name nvs' h b) xs =
      sorted_wrt (\<lambda>a b. node_name nvs h a < node_name nvs h b) xs"
    by (intro sorted_wrt_rel_cong) (simp add: node_name_def assms)
  then show ?thesis by (simp add: name_index_def)
qed

lemma tree_rep_cong:
  assumes "\<And>v. v \<in> set V \<Longrightarrow> fqdn (nvs' v) = fqdn (nvs v)"
  shows "tree_rep nvs' h np V = tree_rep nvs h np V"
proof -
  have "name_index nvs' h xs = name_index nvs h xs" if "V = map (node_val h) xs" for xs
    using assms that by (intro name_index_cong) simp
  then show ?thesis by (auto simp: tree_rep_def)
qed

lemma tree_rep_records:
  assumes "tree_rep nvs h np V"
  shows "sorted_wrt (\<lambda>v w. fqdn (nvs v) < fqdn (nvs w)) V" "NULL \<notin> set V"
    "rb_count h = of_nat (length V)"
  using assms by (force simp: tree_rep_def name_index_def node_name_def sorted_wrt_map)+

lemma with_key_simps [simp]:
  "fqdn (with_key key nvs KEY) = key" "v \<noteq> KEY \<Longrightarrow> with_key key nvs v = nvs v"
  by (simp_all add: with_key_def)

lemma tree_rep_with_key: "KEY \<notin> set V \<Longrightarrow> tree_rep (with_key key nvs) h np V = tree_rep nvs h np V"
  by (rule tree_rep_cong) (metis with_key_simps(2))

lemma KEY_not_NULL [simp]: "KEY \<noteq> NULL" "0 < KEY"
  by (simp_all add: KEY_def)

lemma tree_rep_search:
  assumes "tree_rep nvs h np V" "KEY \<notin> set V"
  shows "v \<in> set V \<Longrightarrow> fqdn (nvs v) = key \<Longrightarrow>
      \<exists>n. rbtree_search h (with_key key nvs) KEY = Some n \<and> n \<noteq> NULL \<and> node_val h n = v"
    and "key \<notin> (\<lambda>v. fqdn (nvs v)) ` set V \<Longrightarrow> rbtree_search h (with_key key nvs) KEY = Some NULL"
proof -
  obtain xs where xs: "name_index (with_key key nvs) h xs" "pool_rep np (set xs)" "V = map (node_val h) xs"
    using assms(1) tree_rep_with_key [OF assms(2), of key nvs h np, symmetric] unfolding tree_rep_def by blast
  have nn: "node_name (with_key key nvs) h a = fqdn (nvs (node_val h a))" if "a \<in> set xs" for a
  proof -
    have "node_val h a \<noteq> KEY" using that assms(2) xs(3) by (metis image_eqI list.set_map)
    then show ?thesis by (simp add: node_name_def)
  qed
  note s = nk.search_ok [of "with_key key nvs" h xs KEY, unfolded nk_simps with_key_simps, OF xs(1) KEY_not_NULL(1)]
  show "\<exists>n. rbtree_search h (with_key key nvs) KEY = Some n \<and> n \<noteq> NULL \<and> node_val h n = v"
    if v: "v \<in> set V" "fqdn (nvs v) = key"
  proof -
    obtain a where a: "a \<in> set xs" "v = node_val h a" using v(1) xs(3) by auto
    then have "rbtree_search h (with_key key nvs) KEY = Some a" using s(1) [of a] nn v(2) by simp
    then show ?thesis using a pool_rep_apart [OF xs(2)] by blast
  qed
  show "rbtree_search h (with_key key nvs) KEY = Some NULL" if "key \<notin> (\<lambda>v. fqdn (nvs v)) ` set V"
    using s(2) nn that xs(3) by force
qed

text \<open>A new record enters the tree when the node pool has an element for it.\<close>

lemma name_index_set_val:
  "a \<notin> set xs \<Longrightarrow> name_index nvs (set_node_val a v h) xs = name_index nvs h xs"
proof -
  assume a: "a \<notin> set xs"
  then have "node_name nvs (set_node_val a v h) b = node_name nvs h b" if "b \<in> set xs" for b
    using that by (auto simp: node_name_def)
  then have "sorted_wrt (\<lambda>b c. node_name nvs (set_node_val a v h) b < node_name nvs (set_node_val a v h) c) xs =
      sorted_wrt (\<lambda>b c. node_name nvs h b < node_name nvs h c) xs"
    by (intro sorted_wrt_rel_cong) simp
  moreover have "rep (set_node_val a v h) = rep h"
    by (simp add: rep_def sentinel_def fun_eq_iff)
  ultimately show ?thesis using a by (auto simp: name_index_def)
qed

lemma tree_rep_insert:
  assumes r: "tree_rep nvs h np V" and "pool_fits np" "nv \<noteq> NULL"
    and new: "fqdn (nvs nv) \<notin> (\<lambda>v. fqdn (nvs v)) ` set V"
  obtains (full) np' where "pool_take np = Some (np', NULL)" "tree_rep nvs h np' V"
  | (fresh) np' node h' V1 V2 where "pool_take np = Some (np', node)" "node \<noteq> NULL"
      "rbtree_insert nvs node (set_node_val node nv h) = Some (h', node)"
      "V = V1 @ V2" "tree_rep nvs h' np' (V1 @ nv # V2)"
proof -
  obtain xs where xs: "name_index nvs h xs" "pool_rep np (set xs)" "V = map (node_val h) xs"
    using r by (auto simp: tree_rep_def)
  show thesis
  proof (cases rule: pool.take_cases [OF xs(2) assms(2), consumes 0, case_names full fresh])
    case (full np')
    then show ?thesis using that(1) xs by (auto simp: tree_rep_def)
  next
    case (fresh np' node)
    let ?h = "set_node_val node nv h"
    have node: "node \<noteq> NIL" using pool_rep_apart [OF fresh(4)] by blast
    have "name_index nvs ?h xs" using name_index_set_val [OF fresh(3)] xs(1) by blast
    moreover have "node_name nvs ?h a \<noteq> node_name nvs ?h node" if "a \<in> set xs" for a
      using new that xs(3) fresh(3) by (auto simp: node_name_def image_iff)
    ultimately obtain h' ys zs where i: "rbtree_insert nvs node ?h = Some (h', node)" "xs = ys @ zs"
      "name_index nvs h' (ys @ node # zs)" "node_val h' = node_val ?h"
      using nk.insert_absent [of nvs ?h xs node] fresh(2,3) node assms(3) unfolding nk_simps by auto
    have "tree_rep nvs h' np' (map (node_val h) ys @ nv # map (node_val h) zs)"
      unfolding tree_rep_def using i fresh(3,4) by (intro exI [of _ "ys @ node # zs"]) auto
    then show ?thesis using that(2) [OF fresh(1,2) i(1)] xs(3) i(2) by simp
  qed
qed

text \<open>Deletion takes a record out and gives its tree node back to the pool.\<close>

lemma tree_rep_delete:
  assumes r: "tree_rep nvs h np V" and "KEY \<notin> set V"
  shows "v \<in> set V \<Longrightarrow> fqdn (nvs v) = key \<Longrightarrow>
      \<exists>h' d np' V1 V2. rbtree_delete (with_key key nvs) KEY h = Some (h', d) \<and> d \<noteq> NULL \<and> node_val h' d = v \<and>
        V = V1 @ v # V2 \<and> pool_give d np = Some np' \<and> pool_fits np' \<and> tree_rep nvs h' np' (V1 @ V2)"
    and "key \<notin> (\<lambda>v. fqdn (nvs v)) ` set V \<Longrightarrow> rbtree_delete (with_key key nvs) KEY h = Some (h, NULL)"
proof -
  let ?s = "with_key key nvs"
  obtain xs where xs: "name_index ?s h xs" "pool_rep np (set xs)" "V = map (node_val h) xs"
    using assms(1) tree_rep_with_key [OF assms(2), of key nvs h np, symmetric] unfolding tree_rep_def by blast
  have nn: "node_name ?s h a = fqdn (nvs (node_val h a))" if "a \<in> set xs" for a
  proof -
    have "node_val h a \<noteq> KEY" using that assms(2) xs(3) by (metis image_eqI list.set_map)
    then show ?thesis by (simp add: node_name_def)
  qed
  show "\<exists>h' d np' V1 V2. rbtree_delete ?s KEY h = Some (h', d) \<and> d \<noteq> NULL \<and> node_val h' d = v \<and>
        V = V1 @ v # V2 \<and> pool_give d np = Some np' \<and> pool_fits np' \<and> tree_rep nvs h' np' (V1 @ V2)"
    if v: "v \<in> set V" "fqdn (nvs v) = key"
  proof -
    obtain d where d: "d \<in> set xs" "v = node_val h d" using v(1) xs(3) by auto
    have "node_name ?s h d = fqdn (?s KEY)" using nn [OF d(1)] v(2) d(2) by simp
    then obtain h' ys zs where e: "rbtree_delete ?s KEY h = Some (h', d)" "xs = ys @ d # zs"
      "name_index ?s h' (ys @ zs)" "node_val h' = node_val h"
      using nk.delete_present [of ?s h xs KEY d, unfolded nk_simps, OF xs(1) KEY_not_NULL(1) d(1)] by blast
    obtain np' where p: "pool_give d np = Some np'" "pool_rep np' (set xs - {d})" "pool_fits np'"
      using pool.give_law [OF xs(2) d(1)] by blast
    have "distinct xs" using xs(1) by (auto simp: name_index_def rep_def)
    then have "set xs - {d} = set (ys @ zs)" using e(2) by auto
    then have "tree_rep ?s h' np' (map (node_val h) (ys @ zs))"
      unfolding tree_rep_def using e p by (intro exI [of _ "ys @ zs"]) auto
    moreover have "KEY \<notin> set (map (node_val h) (ys @ zs))" using assms(2) xs(3) e(2) by auto
    ultimately have "tree_rep nvs h' np' (map (node_val h) ys @ map (node_val h) zs)"
      using tree_rep_with_key by fastforce
    then show ?thesis using e p d xs pool_rep_apart [OF xs(2) d(1)]
      by (intro exI [of _ h'] exI [of _ d] exI [of _ np'] exI [of _ "map (node_val h) ys"]
          exI [of _ "map (node_val h) zs"]) simp
  qed
  show "rbtree_delete ?s KEY h = Some (h, NULL)" if "key \<notin> (\<lambda>v. fqdn (nvs v)) ` set V"
    using nk.delete_absent [of ?s h xs KEY, unfolded nk_simps, OF xs(1) KEY_not_NULL(1)] nn that xs(3) by force
qed

section \<open>The heap of the counted names\<close>

text \<open>
  What every operation keeps: the heap holds records with small counters, at most \<open>ROOF\<close> of
  them, and a record is either marked as outside (index - 1) or stores a position of the heap.
  A record that \<open>heap_replace_least\<close> threw out stores position 0, and one that was deleted stays
  in the heap, so no more can be promised in general.
\<close>

definition heap_safe :: "nv_store \<Rightarrow> name_heap \<Rightarrow> addr list \<Rightarrow> bool" where
  "heap_safe nvs h V \<longleftrightarrow> nv_heap nvs h \<and> len h \<le> ROOF \<and>
     (\<forall>v \<in> set V. heap_index (nvs v) = - 1 \<or> 0 \<le> heap_index (nvs v) \<and> heap_index (nvs v) < int (len h))"

text \<open>
  As long as no name was thrown out or deleted, the heap holds exactly the records, and every one
  stores its position.
\<close>

definition heap_complete :: "nv_store \<Rightarrow> name_heap \<Rightarrow> addr list \<Rightarrow> bool" where
  "heap_complete nvs h V \<longleftrightarrow> nv_indexed nvs h \<and> heap_content h = mset V"

lemma heap_content_len: "size (heap_content h) = len h"
  by (simp add: heap_content_def)

lemma reindexed_safe:
  assumes "heap_safe nvs h V" "reindexed n nvs nvs'" "nv_heap nvs' h'" "len h \<le> len h'" "n \<le> len h'" "len h' \<le> ROOF"
  shows "heap_safe nvs' h' V"
proof -
  have "heap_index (nvs' v) = - 1 \<or> 0 \<le> heap_index (nvs' v) \<and> heap_index (nvs' v) < int (len h')" if "v \<in> set V" for v
  proof -
    have "heap_index (nvs v) = - 1 \<or> 0 \<le> heap_index (nvs v) \<and> heap_index (nvs v) < int (len h)"
      using assms(1) that by (simp add: heap_safe_def)
    moreover have "heap_index (nvs' v) = heap_index (nvs v) \<or> 0 \<le> heap_index (nvs' v) \<and> heap_index (nvs' v) < int n"
      using assms(2) by (simp add: reindexed_def)
    ultimately show ?thesis using assms(4,5) by linarith
  qed
  then show ?thesis using assms(3,6) by (simp add: heap_safe_def)
qed

lemma rank_name_ok:
  assumes safe: "heap_safe (nt_nvs t) (nt_heap t) V" and v: "v \<in> set V" and good: "nv_good (nt_nvs t) v"
  obtains nvs h where "rank_name t v = Some (t\<lparr>nt_nvs := nvs, nt_heap := h\<rparr>)" "heap_safe nvs h V"
    "reindexed (len h) (nt_nvs t) nvs"
    "heap_complete (nt_nvs t) (nt_heap t) V \<or>
       heap_complete (nt_nvs t) (nt_heap t) (remove1 v V) \<and> heap_index (nt_nvs t v) = - 1 \<and> length V \<le> ROOF \<Longrightarrow>
     heap_complete nvs h V"
proof -
  let ?s = "nt_nvs t" and ?h = "nt_heap t"
  note H = safe [unfolded heap_safe_def]
  show thesis
  proof (cases "heap_index (?s v) = - 1")
    case False
    then have i: "nat (heap_index (?s v)) < len ?h" using H v by fastforce
    obtain nvs h where r: "heap_adjust_siftdown (Some elem_insert) ?s ?h (nat (heap_index (?s v))) = Some (nvs, h)"
      "heap_content h = heap_content ?h" "nv_heap nvs h" "len h = len ?h"
      using nvh.heap_adjust_siftdown_correct [of "Some elem_insert" ?s ?h "nat (heap_index (?s v))"] H i
      unfolding nv_heap_simps by (metis heap_content_len nvh.is_cb_simps(2))
    have "nv_indexed nvs h" if "nv_indexed ?s ?h"
      using nvh.heap_adjust_siftdown_coherent [of ?s ?h "nat (heap_index (?s v))" nvs h] H i r that
      unfolding nv_heap_simps by blast
    moreover have "reindexed (len h) ?s nvs" using heap_adjust_siftdown_reindexed [OF r(1) i] r(4) by simp
    ultimately show ?thesis using that [where nvs = nvs and h = h] r False reindexed_safe [OF safe _ r(3)] H
      by (auto simp: rank_name_def heap_complete_def)
  next
    case outside: True
    have notin: "v \<notin># heap_content ?h" if "nv_indexed ?s ?h"
      using that outside by (fastforce simp: nv_indexed_def heap_content_def set_prefix_list)
    show ?thesis
    proof (cases "heap_reach_roof ?h ROOF")
      case False
      then have l: "len ?h < ROOF" by (simp add: heap_reach_roof_def)
      then have l2: "len ?h < MAX_HEAP_NODE_NUM" by (simp add: ROOF_def MAX_HEAP_NODE_NUM_def)
      obtain nvs h k where r: "heap_insert (Some elem_insert) ?s ?h v = Some (nvs, h, k)"
        "heap_content h = add_mset v (heap_content ?h)" "len h = len ?h + 1" "nv_heap nvs h"
        using nvh.heap_insert_correct [of "Some elem_insert" ?s ?h v] H l2 good unfolding nv_heap_simps by auto
      have "nv_indexed nvs h" if "nv_indexed ?s ?h"
        using nvh.heap_insert_coherent [of ?s ?h v nvs h k] H r good notin [OF that] that
        unfolding nv_heap_simps by blast
      moreover have "reindexed (len h) ?s nvs" using heap_insert_reindexed [OF r(1)] r(3) by simp
      moreover have "heap_complete nvs h V" if c: "heap_complete ?s ?h V \<or>
          heap_complete ?s ?h (remove1 v V) \<and> heap_index (?s v) = - 1 \<and> length V \<le> ROOF"
      proof -
        have i: "nv_indexed ?s ?h" using c by (auto simp: heap_complete_def)
        have "heap_content ?h \<noteq> mset V" using notin [OF i] v by (metis set_mset_mset)
        then have "heap_content ?h = mset (remove1 v V)" using c by (auto simp: heap_complete_def)
        then show ?thesis using i calculation(1) r(2) v by (simp add: heap_complete_def)
      qed
      ultimately show ?thesis using that [where nvs = nvs and h = h] r False outside reindexed_safe [OF safe _ r(4)] l
        by (simp add: rank_name_def)
    next
      case True
      then have l: "len ?h = ROOF" "0 < len ?h" using H by (auto simp: heap_reach_roof_def ROOF_def)
      have g: "nv_good ?s (heap ?h 0)" using H l by (auto simp: nv_heap_def)
      have nc: False if "heap_complete ?s ?h V \<or>
          heap_complete ?s ?h (remove1 v V) \<and> heap_index (?s v) = - 1 \<and> length V \<le> ROOF"
      proof -
        have i: "nv_indexed ?s ?h" using that by (auto simp: heap_complete_def)
        have "heap_content ?h \<noteq> mset V" using notin [OF i] v by (metis set_mset_mset)
        then have "len ?h = length (remove1 v V)" "length V \<le> ROOF"
          using that heap_content_len [of ?h] by (metis heap_complete_def size_mset)+
        moreover have "length (remove1 v V) < length V" using v length_pos_if_in_set [OF v] by (simp add: length_remove1)
        ultimately show False using l by simp
      qed
      obtain c where c: "cmp ?h ?s (heap ?h 0) v = Some c" "c < 0 \<longleftrightarrow> nv_key ?s (heap ?h 0) < nv_key ?s v"
        using elem_compare_sign [OF g good] H by (auto simp: nv_heap_def)
      show ?thesis
      proof (cases "c < 0")
        case False
        then show ?thesis using that [where nvs = ?s and h = ?h] True outside c safe nc
          by (auto simp: rank_name_def heap_min_less_than_def)
      next
        case less: True
        obtain nvs h where r: "heap_replace_least (Some elem_insert) ?s ?h v = Some (nvs, h, heap ?h 0)"
          "len h = len ?h" "nv_heap nvs h"
          using nvh.heap_replace_least_correct [of "Some elem_insert" ?s ?h v] H l(2) good c(2) less
          unfolding nv_heap_simps by auto
        have "reindexed (len h) ?s nvs" using heap_replace_least_reindexed [OF r(1) l(2)] r(2) by simp
        then show ?thesis using that [where nvs = nvs and h = h] True outside c less r nc reindexed_safe [OF safe _ r(3)] H
          by (auto simp: rank_name_def heap_min_less_than_def)
      qed
    qed
  qed
qed

text \<open>Counting a name up keeps the heap safe while the counter stays below \<open>2 ^ 31\<close>.\<close>

lemma count_name_safe:
  assumes "heap_safe (nt_nvs t) (nt_heap t) V" "unat (nv_count (nt_nvs t v)) < 2 ^ 31 - 1"
  shows "heap_safe (nt_nvs (count_name t v)) (nt_heap t) V"
    and "unat (nv_count (nt_nvs (count_name t v) v)) = Suc (unat (nv_count (nt_nvs t v)))"
proof -
  show u: "unat (nv_count (nt_nvs (count_name t v) v)) = Suc (unat (nv_count (nt_nvs t v)))"
    using assms(2) by (simp add: count_name_def unat_word_ariths)
  show "heap_safe (nt_nvs (count_name t v)) (nt_heap t) V"
    using assms u by (auto simp: heap_safe_def nv_heap_def nv_good_def count_name_def)
qed

section \<open>The whole state\<close>

text \<open>
  \<open>V\<close> lists the records in the order of their names, \<open>U\<close> the pairs of list node and record from
  the last used to the least recently used.
\<close>

definition name_state :: "name_tree \<Rightarrow> addr list \<Rightarrow> (addr \<times> addr) list \<Rightarrow> bool" where
  "name_state t V U \<longleftrightarrow>
     tree_rep (nt_nvs t) (nt_tree t) (nt_nodes t) V \<and> pool_rep (nt_names t) (set V) \<and>
     lru_rep (nt_lru_mem t) (nt_lru t) U \<and> mset (map snd U) = mset V \<and>
     (\<forall>(a, v) \<in> set U. nv_ptr (nt_nvs t v) = a) \<and>
     nt_count t = of_nat (length V) \<and> heap_safe (nt_nvs t) (nt_heap t) V"

definition name_counts :: "nv_store \<Rightarrow> addr list \<Rightarrow> string \<rightharpoonup> nat" where
  "name_counts nvs V = map_of (map (\<lambda>v. (fqdn (nvs v), unat (nv_count (nvs v)))) V)"

definition recent_names :: "nv_store \<Rightarrow> (addr \<times> addr) list \<Rightarrow> string list" where
  "recent_names nvs U = map (\<lambda>(a, v). fqdn (nvs v)) U"

text \<open>The abstract state: the counts of the names, and the names by last use.\<close>

definition name_model :: "name_tree \<Rightarrow> (string \<rightharpoonup> nat) \<Rightarrow> string list \<Rightarrow> bool" where
  "name_model t C R \<longleftrightarrow>
     (\<exists>V U. name_state t V U \<and> C = name_counts (nt_nvs t) V \<and> R = recent_names (nt_nvs t) U)"

text \<open>\<open>top_complete\<close>: the heap holds exactly the records of the tree.\<close>

definition top_complete :: "name_tree \<Rightarrow> bool" where
  "top_complete t \<longleftrightarrow> (\<exists>V U. name_state t V U \<and> heap_complete (nt_nvs t) (nt_heap t) V)"

lemma sorted_wrt_distinct:
  fixes f :: "'a \<Rightarrow> 'b :: order"
  shows "sorted_wrt (\<lambda>x y. f x < f y) xs \<Longrightarrow> distinct (map f xs)"
  by (induction xs) auto

lemma name_stateD:
  assumes "name_state t V U"
  shows "tree_rep (nt_nvs t) (nt_tree t) (nt_nodes t) V" "pool_rep (nt_names t) (set V)"
    "lru_rep (nt_lru_mem t) (nt_lru t) U" "mset (map snd U) = mset V"
    "(a, v) \<in> set U \<Longrightarrow> nv_ptr (nt_nvs t v) = a" "nt_count t = of_nat (length V)"
    "heap_safe (nt_nvs t) (nt_heap t) V" "KEY \<notin> set V" "NULL \<notin> set V"
    "sorted_wrt (\<lambda>v w. fqdn (nt_nvs t v) < fqdn (nt_nvs t w)) V" "distinct V" "distinct (map snd U)"
    "inj_on (\<lambda>v. fqdn (nt_nvs t v)) (set V)"
proof -
  note d = assms [unfolded name_state_def]
  show "tree_rep (nt_nvs t) (nt_tree t) (nt_nodes t) V" "pool_rep (nt_names t) (set V)"
    "lru_rep (nt_lru_mem t) (nt_lru t) U" "mset (map snd U) = mset V"
    "(a, v) \<in> set U \<Longrightarrow> nv_ptr (nt_nvs t v) = a" "nt_count t = of_nat (length V)"
    "heap_safe (nt_nvs t) (nt_heap t) V" using d by auto
  show "KEY \<notin> set V" "NULL \<notin> set V" using d pool_rep_apart by blast+
  show s: "sorted_wrt (\<lambda>v w. fqdn (nt_nvs t v) < fqdn (nt_nvs t w)) V" using tree_rep_records(1) d by blast
  then have k: "distinct (map (\<lambda>v. fqdn (nt_nvs t v)) V)"
    by (rule sorted_wrt_distinct)
  then show V: "distinct V" "inj_on (\<lambda>v. fqdn (nt_nvs t v)) (set V)" by (simp_all add: distinct_map)
  then show "distinct (map snd U)" using d by (metis mset_eq_imp_distinct_iff)
qed

lemma name_counts_Some:
  assumes "inj_on (\<lambda>v. fqdn (nvs v)) (set V)" "v \<in> set V"
  shows "name_counts nvs V (fqdn (nvs v)) = Some (unat (nv_count (nvs v)))"
proof -
  have "name_counts nvs V k = Some (unat (nv_count (nvs v)))"
    if "inj_on (\<lambda>v. fqdn (nvs v)) (set V)" "v \<in> set V" "fqdn (nvs v) = k" for k
    using that
  proof (induction V)
    case (Cons w V)
    show ?case
    proof (cases "fqdn (nvs w) = k")
      case True
      then have "w = v" using Cons.prems by (auto simp: inj_on_def)
      then show ?thesis using True by (simp add: name_counts_def)
    next
      case False
      then have "v \<in> set V" using Cons.prems by auto
      then show ?thesis using Cons False by (simp add: name_counts_def)
    qed
  qed simp
  then show ?thesis using assms by blast
qed

lemma name_counts_None: "name_counts nvs V k = None \<longleftrightarrow> k \<notin> (\<lambda>v. fqdn (nvs v)) ` set V"
  by (auto simp: name_counts_def map_of_eq_None_iff image_iff)

lemma name_counts_SomeE:
  assumes "name_counts nvs V k = Some n"
  obtains v where "v \<in> set V" "fqdn (nvs v) = k" "n = unat (nv_count (nvs v))"
  using map_of_SomeD [OF assms [unfolded name_counts_def]] by auto

lemma name_counts_cong:
  "(\<And>v. v \<in> set V \<Longrightarrow> fqdn (nvs' v) = fqdn (nvs v) \<and> nv_count (nvs' v) = nv_count (nvs v)) \<Longrightarrow>
   name_counts nvs' V = name_counts nvs V"
  by (induction V) (auto simp: name_counts_def fun_eq_iff)

lemma name_counts_upd:
  assumes inj: "inj_on (\<lambda>v. fqdn (nvs' v)) (set V')" and v: "v \<in> set V'" and V: "insert v (set V) = set V'"
    and inj0: "inj_on (\<lambda>v. fqdn (nvs v)) (set V)"
    and same: "\<And>w. w \<in> set V \<Longrightarrow> w \<noteq> v \<Longrightarrow> fqdn (nvs' w) = fqdn (nvs w) \<and> nv_count (nvs' w) = nv_count (nvs w)"
    and own: "v \<in> set V \<Longrightarrow> fqdn (nvs' v) = fqdn (nvs v)"
  shows "name_counts nvs' V' = (name_counts nvs V)(fqdn (nvs' v) \<mapsto> unat (nv_count (nvs' v)))"
proof
  fix k
  show "name_counts nvs' V' k = ((name_counts nvs V)(fqdn (nvs' v) \<mapsto> unat (nv_count (nvs' v)))) k"
  proof (cases "k = fqdn (nvs' v)")
    case True
    then show ?thesis using name_counts_Some [OF inj v] by simp
  next
    case False
    show ?thesis
    proof (cases "name_counts nvs V k")
      case None
      have "fqdn (nvs' w) \<noteq> k" if "w \<in> set V'" for w
        using None False that same [of w] V unfolding name_counts_None by (cases "w = v") auto
      then have "name_counts nvs' V' k = None" unfolding name_counts_None by auto
      then show ?thesis using None False by simp
    next
      case (Some n)
      then obtain w where w: "w \<in> set V" "fqdn (nvs w) = k" "n = unat (nv_count (nvs w))"
        by (rule name_counts_SomeE)
      have "w \<noteq> v" using w False own by auto
      then have "name_counts nvs' V' k = Some n"
        using name_counts_Some [OF inj, of w] same [OF w(1)] w V by auto
      then show ?thesis using Some False by simp
    qed
  qed
qed

section \<open>Counting\<close>

lemma nv_good_count: "nv_good nvs v \<longleftrightarrow> v \<noteq> NULL \<and> unat (nv_count (nvs v)) < 2 ^ 31"
  by (simp add: nv_good_def)

lemma count_name_fields [simp]:
  "nt_tree (count_name t v) = nt_tree t" "nt_heap (count_name t v) = nt_heap t" "nt_nodes (count_name t v) = nt_nodes t"
  "nt_names (count_name t v) = nt_names t" "nt_count (count_name t v) = nt_count t"
  "nt_lru_mem (count_name t v) = nt_lru_mem t" "nt_lru (count_name t v) = nt_lru t"
  "fqdn (nt_nvs (count_name t v) w) = fqdn (nt_nvs t w)" "nv_ptr (nt_nvs (count_name t v) w) = nv_ptr (nt_nvs t w)"
  "heap_index (nt_nvs (count_name t v) w) = heap_index (nt_nvs t w)"
  "w \<noteq> v \<Longrightarrow> nv_count (nt_nvs (count_name t v) w) = nv_count (nt_nvs t w)"
  by (simp_all add: count_name_def)

lemma heap_complete_cong:
  "(\<And>p. heap_index (nvs' p) = heap_index (nvs p)) \<Longrightarrow> heap_complete nvs' h V = heap_complete nvs h V"
  by (simp add: heap_complete_def nv_indexed_def)

lemma count_and_rank:
  assumes st: "name_state t V U" and v: "v \<in> set V" and small: "unat (nv_count (nt_nvs t v)) < 2 ^ 31 - 1"
  obtains t' where "rank_name (count_name t v) v = Some t'" "name_state t' V U"
    "name_counts (nt_nvs t') V = (name_counts (nt_nvs t) V)(fqdn (nt_nvs t v) \<mapsto> Suc (unat (nv_count (nt_nvs t v))))"
    "\<And>p. fqdn (nt_nvs t' p) = fqdn (nt_nvs t p)"
    "nt_nodes t' = nt_nodes t" "nt_names t' = nt_names t" "nt_lru_mem t' = nt_lru_mem t"
    "heap_complete (nt_nvs t) (nt_heap t) V \<or>
       heap_complete (nt_nvs t) (nt_heap t) (remove1 v V) \<and> heap_index (nt_nvs t v) = - 1 \<and> length V \<le> ROOF \<Longrightarrow>
     heap_complete (nt_nvs t') (nt_heap t') V"
proof -
  let ?t = "count_name t v"
  note S = name_stateD [OF st]
  note safe = count_name_safe [OF S(7) small]
  have "v \<noteq> NULL" using S(9) v by metis
  then have good: "nv_good (nt_nvs ?t) v" using safe(2) small by (simp add: nv_good_count)
  obtain nvs h where r: "rank_name ?t v = Some (?t\<lparr>nt_nvs := nvs, nt_heap := h\<rparr>)" "heap_safe nvs h V"
    "reindexed (len h) (nt_nvs ?t) nvs"
    "heap_complete (nt_nvs ?t) (nt_heap ?t) V \<or>
       heap_complete (nt_nvs ?t) (nt_heap ?t) (remove1 v V) \<and> heap_index (nt_nvs ?t v) = - 1 \<and> length V \<le> ROOF \<Longrightarrow>
     heap_complete nvs h V"
    by (rule rank_name_ok [of ?t V v]) (use safe(1) v good in simp_all)
  let ?t' = "?t\<lparr>nt_nvs := nvs, nt_heap := h\<rparr>"
  have same: "fqdn (nvs p) = fqdn (nt_nvs t p)" "nv_ptr (nvs p) = nv_ptr (nt_nvs t p)"
    "nv_count (nvs p) = nv_count (nt_nvs ?t p)" for p
    using r(3) by (simp_all add: reindexed_def)
  have state: "name_state ?t' V U"
    using st r(2) same tree_rep_cong [of V nvs "nt_nvs t"] by (simp add: name_state_def)
  have counts: "name_counts nvs V = (name_counts (nt_nvs t) V)(fqdn (nt_nvs t v) \<mapsto> Suc (unat (nv_count (nt_nvs t v))))"
    using name_counts_upd [of nvs V v V "nt_nvs t"] S(13) v same safe(2) by (simp add: insert_absorb)
  show thesis
    by (rule that [of ?t']) (use r state counts same heap_complete_cong [of "nt_nvs ?t" "nt_nvs t"] in simp_all)
qed

section \<open>Looking a name up\<close>

lemma exactly_find_state:
  assumes "name_state t V U" "name_fits name"
  shows "v \<in> set V \<Longrightarrow> fqdn (nt_nvs t v) = qualify name \<Longrightarrow> name_tree_exactly_find t (Some name) = Some v"
    and "qualify name \<notin> (\<lambda>v. fqdn (nt_nvs t v)) ` set V \<Longrightarrow> name_tree_exactly_find t (Some name) = Some NULL"
  using tree_rep_search(1) [OF name_stateD(1,8) [OF assms(1)], of v "qualify name"]
    tree_rep_search(2) [OF name_stateD(1,8) [OF assms(1)], of "qualify name"] name_fits_copy [OF assms(2)]
  by (auto simp: name_tree_exactly_find_def)

section \<open>A new name\<close>

lemma pool_give_back:
  assumes "pool_rep s E" "pool_fits s" "pool_take s = Some (s', p)" "p \<noteq> NULL"
  obtains s'' where "pool_give p s' = Some s''" "pool_rep s'' E"
  using pool.take_give [OF assms] by blast

definition pools_empty :: "name_tree \<Rightarrow> bool" where
  "pools_empty t \<longleftrightarrow> (\<exists>s. pool_take (nt_names t) = Some (s, NULL)) \<or> (\<exists>s. pool_take (nt_nodes t) = Some (s, NULL))"

definition pools_taken :: "name_tree \<Rightarrow> name_tree \<Rightarrow> bool" where
  "pools_taken t t' \<longleftrightarrow> (\<exists>v. pool_take (nt_names t) = Some (nt_names t', v)) \<and>
     (\<exists>n. pool_take (nt_nodes t) = Some (nt_nodes t', n))"

text \<open>
  With memory for it, the new record enters the tree and the list with the count 0 and outside
  the heap; without, nothing but the pools changes.
\<close>

lemma insert_new_name_ok:
  assumes st: "name_state t V U" and fits: "name_fits name"
    and pools: "pool_fits (nt_names t)" "pool_fits (nt_nodes t)" and room: "0 < lru_room (nt_lru_mem t)"
    and new: "qualify name \<notin> (\<lambda>v. fqdn (nt_nvs t v)) ` set V"
  obtains (full) t' where "insert_new_name t name = Some (t', NULL)" "name_state t' V U"
      "nt_nvs t' = nt_nvs t" "nt_heap t' = nt_heap t"
      "pools_empty t"
  | (fresh) t' v a V1 V2 where "insert_new_name t name = Some (t', v)" "v \<noteq> NULL" "v \<notin> set V" "V = V1 @ V2"
      "name_state t' (V1 @ v # V2) ((a, v) # U)" "nt_heap t' = nt_heap t"
      "fqdn (nt_nvs t' v) = qualify name" "nv_count (nt_nvs t' v) = 0" "heap_index (nt_nvs t' v) = - 1"
      "\<And>w. w \<noteq> v \<Longrightarrow> nt_nvs t' w = nt_nvs t w"
      "pools_taken t t'"
      "lru_room (nt_lru_mem t') = lru_room (nt_lru_mem t) - 1"
proof -
  note S = name_stateD [OF st]
  note copy = name_fits_copy [OF fits, THEN conjunct1]
  show thesis
  proof (cases rule: pool.take_cases [OF S(2) pools(1), consumes 0, case_names full fresh])
    case (full np)
    then show ?thesis using that(1) [of "t\<lparr>nt_names := np\<rparr>"] st
      by (simp add: insert_new_name_def name_state_def pools_empty_def)
  next
    case (fresh np v)
    note take = fresh
    define nvs1 where "nvs1 = (nt_nvs t)(v := (nt_nvs t v)\<lparr>fqdn := qualify name, nv_count := 0, heap_index := - 1\<rparr>)"
    have nvs1: "fqdn (nvs1 v) = qualify name" "nv_count (nvs1 v) = 0" "heap_index (nvs1 v) = - 1"
      "w \<noteq> v \<Longrightarrow> nvs1 w = nt_nvs t w" for w
      by (simp_all add: nvs1_def)
    have other: "nvs1 w = nt_nvs t w" if "w \<in> set V" for w using that take(3) nvs1(4) by metis
    have same: "tree_rep nvs1 h q V = tree_rep (nt_nvs t) h q V" for h q
      by (rule tree_rep_cong) (simp add: other)
    have tree: "tree_rep nvs1 (nt_tree t) (nt_nodes t) V" using S(1) same by simp
    have free: "fqdn (nvs1 v) \<notin> (\<lambda>w. fqdn (nvs1 w)) ` set V" using new other nvs1(1) by (auto simp: image_iff)
    show ?thesis
    proof (cases rule: tree_rep_insert [OF tree pools(2) take(2) free, consumes 0, case_names full fresh])
      case (full tp)
      obtain np' where np': "pool_give v np = Some np'" "pool_rep np' (set V)"
        by (rule pool_give_back [OF S(2) pools(1) take(1,2)])
      have "tree_rep (nt_nvs t) (nt_tree t) tp V" using full(2) same by simp
      then have "name_state (t\<lparr>nt_names := np', nt_nodes := tp\<rparr>) V U"
        using st np'(2) by (simp add: name_state_def)
      moreover have "insert_new_name t name = Some (t\<lparr>nt_names := np', nt_nodes := tp\<rparr>, NULL)"
        using full(1) take(1,2) np'(1) by (simp add: insert_new_name_def)
      moreover have "pools_empty t" using full(1) by (auto simp: pools_empty_def)
      ultimately show ?thesis using that(1) [of "t\<lparr>nt_names := np', nt_nodes := tp\<rparr>"] by simp
    next
      case (fresh tp node h' V1 V2)
      obtain mem lru a where l: "lru_list_insert (nt_lru_mem t) (nt_lru t) v = Some (mem, lru, a)"
        "lru_rep mem lru ((a, v) # U)" "lru_room mem = lru_room (nt_lru_mem t) - 1"
        using lru.insert_rep [OF S(3) take(2) room] by blast
      define nvs2 where "nvs2 = nvs1(v := (nvs1 v)\<lparr>nv_ptr := a\<rparr>)"
      have nvs2: "fqdn (nvs2 w) = fqdn (nvs1 w)" "nv_count (nvs2 w) = nv_count (nvs1 w)"
        "heap_index (nvs2 w) = heap_index (nvs1 w)" "nv_ptr (nvs2 v) = a" "w \<noteq> v \<Longrightarrow> nvs2 w = nt_nvs t w" for w
        by (simp_all add: nvs2_def nvs1(4))
      let ?t = "t\<lparr>nt_names := np, nt_nodes := tp, nt_tree := h', nt_lru_mem := mem, nt_lru := lru,
        nt_nvs := nvs2, nt_count := nt_count t + 1\<rparr>"
      have "insert_new_name t name = Some (?t, v)"
        using take(1,2) fresh(1,2,3) l(1) copy
        by (simp add: insert_new_name_def Let_def nvs1_def [symmetric] nvs2_def)
      moreover have "name_state ?t (V1 @ v # V2) ((a, v) # U)"
      proof -
        have "tree_rep nvs2 h' tp (V1 @ v # V2)"
          using fresh(5) tree_rep_cong [of "V1 @ v # V2" nvs2 nvs1] nvs2(1) by simp
        moreover have "nv_ptr (nvs2 w) = b" if "(b, w) \<in> set ((a, v) # U)" for b w
        proof (cases "w = v")
          case True
          then have "(b, v) \<notin> set U" using S(4) take(3) by (metis image_eqI list.set_map set_mset_mset snd_conv)
          then show ?thesis using that True nvs2(4) by simp
        next
          case False
          then show ?thesis using that S(5) [of b w] nvs2(5) by simp
        qed
        moreover have "heap_safe nvs2 (nt_heap t) (V1 @ v # V2)"
        proof -
          have "nv_good nvs2 p" if "nv_good (nt_nvs t) p" for p
            using that nvs1(2,4) nvs2(2) by (cases "p = v") (simp_all add: nv_good_count)
          moreover have "heap_index (nvs2 w) = (if w = v then - 1 else heap_index (nt_nvs t w))" for w
            using nvs1(3,4) nvs2(3) by simp
          ultimately show ?thesis using S(7) fresh(4) by (auto simp: heap_safe_def nv_heap_def)
        qed
        ultimately show ?thesis
          using st l(2) take(4) fresh(4) S(4,6) by (auto simp: name_state_def)
      qed
      moreover have "pools_taken t ?t" using take(1) fresh(1) by (simp add: pools_taken_def)
      ultimately show ?thesis using that(2) [of ?t v V1 V2 a] take(2,3) fresh(4) nvs1(1-3) nvs2 l(3) by simp
    qed
  qed
qed

section \<open>Insertion\<close>

text \<open>The counts and the order of use after one more occurrence of a name.\<close>

definition seen :: "string \<Rightarrow> (string \<rightharpoonup> nat) \<Rightarrow> string \<rightharpoonup> nat" where
  "seen k C = C(k \<mapsto> (case C k of None \<Rightarrow> 1 | Some n \<Rightarrow> n + 1))"

definition used :: "string \<Rightarrow> string list \<Rightarrow> string list" where
  "used k R = k # removeAll k R"

lemma recent_names_cong:
  "(\<And>p. fqdn (nvs' p) = fqdn (nvs p)) \<Longrightarrow> recent_names nvs' U = recent_names nvs U"
  by (simp add: recent_names_def)

lemma recent_names_set: "set (recent_names nvs U) = (\<lambda>v. fqdn (nvs v)) ` set (map snd U)"
  by (force simp: recent_names_def)

lemma recent_names_touch:
  assumes "name_state t V (U1 @ (a, v) # U2)"
  shows "recent_names (nt_nvs t) ((a, v) # U1 @ U2) =
    used (fqdn (nt_nvs t v)) (recent_names (nt_nvs t) (U1 @ (a, v) # U2))"
proof -
  note S = name_stateD [OF assms]
  have "distinct (map (\<lambda>v. fqdn (nt_nvs t v)) (map snd (U1 @ (a, v) # U2)))"
    using S(4,12,13) by (metis distinct_map set_mset_mset)
  then have "removeAll (fqdn (nt_nvs t v)) (recent_names (nt_nvs t) (U1 @ (a, v) # U2)) = recent_names (nt_nvs t) (U1 @ U2)"
    by (auto simp: recent_names_def removeAll_id removeAll_append case_prod_unfold comp_def)
  then show ?thesis by (simp add: used_def recent_names_def)
qed

text \<open>A present name moves to the front of the list and is counted.\<close>

lemma insert_present_state:
  assumes st: "name_state t V U" and fits: "name_fits name"
    and small: "\<And>n. name_counts (nt_nvs t) V (qualify name) = Some n \<Longrightarrow> n < 2 ^ 31 - 1"
    and present: "qualify name \<in> (\<lambda>v. fqdn (nt_nvs t v)) ` set V"
  obtains t' V' U' where "name_tree_insert t (Some name) = Some (t', 0)" "name_state t' V' U'"
      "name_counts (nt_nvs t') V' = seen (qualify name) (name_counts (nt_nvs t) V)"
      "recent_names (nt_nvs t') U' = used (qualify name) (recent_names (nt_nvs t) U)"
      "heap_complete (nt_nvs t) (nt_heap t) V \<Longrightarrow> length V' \<le> ROOF \<Longrightarrow> heap_complete (nt_nvs t') (nt_heap t') V'"
      "nt_names t' = nt_names t \<and> nt_nodes t' = nt_nodes t"
      "lru_room (nt_lru_mem t') \<ge> lru_room (nt_lru_mem t) - 1"
proof -
  obtain v where v: "v \<in> set V" "fqdn (nt_nvs t v) = qualify name" using present by auto
  note S = name_stateD [OF st]
  have v0: "v \<noteq> NULL" using S(9) v(1) by metis
  have cv: "name_counts (nt_nvs t) V (qualify name) = Some (unat (nv_count (nt_nvs t v)))"
    using name_counts_Some [OF S(13) v(1)] v(2) by simp
  have "v \<in> set (map snd U)" using v(1) S(4) by (metis set_mset_mset)
  then obtain a U1 U2 where U: "U = U1 @ (a, v) # U2" by (auto simp: in_set_conv_decomp)
  have a: "nv_ptr (nt_nvs t v) = a" using S(5) U by simp
  obtain mem lru where l: "lru_list_move_to_first (nt_lru_mem t) (nt_lru t) a = Some (mem, lru)"
    "lru_rep mem lru ((a, v) # U1 @ U2)" "lru_room mem = lru_room (nt_lru_mem t)"
    using lru_move_rep [of "nt_lru_mem t" "nt_lru t" U1 a v U2] S(3) unfolding U lru_room_def by auto
  let ?t1 = "t\<lparr>nt_lru_mem := mem, nt_lru := lru\<rparr>"
  have st1: "name_state ?t1 V ((a, v) # U1 @ U2)" using st l(2) U by (auto simp: name_state_def)
  have sm: "unat (nv_count (nt_nvs ?t1 v)) < 2 ^ 31 - 1" using small [OF cv] by simp
  obtain t' where t': "rank_name (count_name ?t1 v) v = Some t'" "name_state t' V ((a, v) # U1 @ U2)"
    "name_counts (nt_nvs t') V = (name_counts (nt_nvs ?t1) V)(fqdn (nt_nvs ?t1 v) \<mapsto> Suc (unat (nv_count (nt_nvs ?t1 v))))"
    "\<And>p. fqdn (nt_nvs t' p) = fqdn (nt_nvs ?t1 p)" "nt_nodes t' = nt_nodes ?t1" "nt_names t' = nt_names ?t1"
    "nt_lru_mem t' = nt_lru_mem ?t1"
    "heap_complete (nt_nvs ?t1) (nt_heap ?t1) V \<or>
       heap_complete (nt_nvs ?t1) (nt_heap ?t1) (remove1 v V) \<and> heap_index (nt_nvs ?t1 v) = - 1 \<and> length V \<le> ROOF \<Longrightarrow>
     heap_complete (nt_nvs t') (nt_heap t') V"
    using count_and_rank [OF st1 v(1) sm] by metis
  have ins: "name_tree_insert t (Some name) = Some (t', 0)"
    using exactly_find_state(1) [OF st fits v] name_fits_copy [OF fits] v0 a l(1) t'(1)
    by (simp add: name_tree_insert_def)
  have rec: "recent_names (nt_nvs t') ((a, v) # U1 @ U2) = used (qualify name) (recent_names (nt_nvs t) U)"
    using recent_names_touch [of t V U1 a v U2] st U v(2) recent_names_cong [of "nt_nvs t'" "nt_nvs t"] t'(4) by simp
  show thesis
    by (rule that [OF ins t'(2)]) (use t' rec cv v(2) l(3) in \<open>simp_all add: seen_def\<close>)
qed

text \<open>A new name gets a record when the pools have the memory, and then counts 1.\<close>

lemma insert_absent_state:
  assumes st: "name_state t V U" and fits: "name_fits name"
    and pools: "pool_fits (nt_names t)" "pool_fits (nt_nodes t)" and room: "0 < lru_room (nt_lru_mem t)"
    and False: "qualify name \<notin> (\<lambda>v. fqdn (nt_nvs t v)) ` set V"
  obtains (full) t' where "name_tree_insert t (Some name) = Some (t', - 1)" "name_state t' V U"
      "nt_nvs t' = nt_nvs t" "nt_heap t' = nt_heap t" "name_counts (nt_nvs t) V (qualify name) = None" "pools_empty t"
  | (counted) t' V' U' where "name_tree_insert t (Some name) = Some (t', 0)" "name_state t' V' U'"
      "name_counts (nt_nvs t') V' = seen (qualify name) (name_counts (nt_nvs t) V)"
      "recent_names (nt_nvs t') U' = used (qualify name) (recent_names (nt_nvs t) U)"
      "heap_complete (nt_nvs t) (nt_heap t) V \<Longrightarrow> length V' \<le> ROOF \<Longrightarrow> heap_complete (nt_nvs t') (nt_heap t') V'"
      "pools_taken t t'"
      "lru_room (nt_lru_mem t') \<ge> lru_room (nt_lru_mem t) - 1"
proof -
  note S = name_stateD [OF st]
  have none: "name_counts (nt_nvs t) V (qualify name) = None" using False by (simp add: name_counts_None)
  note find = exactly_find_state(2) [OF st fits False] name_fits_copy [OF fits]
  show thesis
  proof (cases rule: insert_new_name_ok [OF st fits pools room False, consumes 0, case_names full fresh])
    case (full t')
    then show ?thesis using that(1) [of t'] find none by (simp add: name_tree_insert_def)
  next
    case (fresh t1 v a V1 V2)
    have v: "v \<in> set (V1 @ v # V2)" by simp
    obtain t' where t': "rank_name (count_name t1 v) v = Some t'" "name_state t' (V1 @ v # V2) ((a, v) # U)"
      "name_counts (nt_nvs t') (V1 @ v # V2) =
         (name_counts (nt_nvs t1) (V1 @ v # V2))(fqdn (nt_nvs t1 v) \<mapsto> Suc (unat (nv_count (nt_nvs t1 v))))"
      "\<And>p. fqdn (nt_nvs t' p) = fqdn (nt_nvs t1 p)" "nt_nodes t' = nt_nodes t1" "nt_names t' = nt_names t1"
      "nt_lru_mem t' = nt_lru_mem t1"
      "heap_complete (nt_nvs t1) (nt_heap t1) (V1 @ v # V2) \<or>
         heap_complete (nt_nvs t1) (nt_heap t1) (remove1 v (V1 @ v # V2)) \<and> heap_index (nt_nvs t1 v) = - 1 \<and>
           length (V1 @ v # V2) \<le> ROOF \<Longrightarrow>
       heap_complete (nt_nvs t') (nt_heap t') (V1 @ v # V2)"
      using count_and_rank [OF fresh(5) v] fresh(8) by (metis unsigned_0 zero_less_numeral zero_less_diff one_less_power
          one_less_numeral_iff semiring_norm(76) zero_less_numeral)
    have ins: "name_tree_insert t (Some name) = Some (t', 0)"
      using find fresh(1,2) t'(1) by (simp add: name_tree_insert_def)
    have other: "nt_nvs t1 w = nt_nvs t w" if "w \<in> set V" for w using that fresh(3,10) by metis
    have cnt: "name_counts (nt_nvs t1) (V1 @ v # V2) = (name_counts (nt_nvs t) V)(qualify name \<mapsto> 0)"
      using name_counts_upd [of "nt_nvs t1" "V1 @ v # V2" v V "nt_nvs t"] name_stateD(13) [OF fresh(5)] S(13)
        fresh(3,4,7,8) other by simp
    have "recent_names (nt_nvs t1) U = recent_names (nt_nvs t) U"
    proof -
      have "v \<notin> set (map snd U)" using S(4) fresh(3) by (metis set_mset_mset)
      then show ?thesis using fresh(10) by (force simp: recent_names_def)
    qed
    moreover have "removeAll (qualify name) (recent_names (nt_nvs t) U) = recent_names (nt_nvs t) U"
    proof -
      have "set (map snd U) = set V" using S(4) by (metis set_mset_mset)
      then show ?thesis using False recent_names_set [of "nt_nvs t" U] by (simp add: removeAll_id)
    qed
    ultimately have rec: "recent_names (nt_nvs t') ((a, v) # U) = used (qualify name) (recent_names (nt_nvs t) U)"
      using recent_names_cong [of "nt_nvs t'" "nt_nvs t1" "(a, v) # U"] t'(4) fresh(7)
      by (simp add: used_def recent_names_def)
    have comp: "heap_complete (nt_nvs t') (nt_heap t') (V1 @ v # V2)"
      if c: "heap_complete (nt_nvs t) (nt_heap t) V" "length (V1 @ v # V2) \<le> ROOF"
    proof -
      have "heap h k \<noteq> v" if "h = nt_heap t" "k < len h" for h k
        using c(1) fresh(3) that by (force simp: heap_complete_def heap_content_def set_prefix_list
            dest!: arg_cong [of _ _ set_mset])
      then have "nv_indexed (nt_nvs t1) (nt_heap t)"
        using c(1) fresh(10) by (simp add: heap_complete_def nv_indexed_def)
      moreover have "mset (remove1 v (V1 @ v # V2)) = mset V" using fresh(4) by simp
      ultimately have "heap_complete (nt_nvs t1) (nt_heap t1) (remove1 v (V1 @ v # V2))"
        using c(1) fresh(6) by (simp add: heap_complete_def)
      then show ?thesis using t'(8) fresh(9) c(2) by blast
    qed
    show ?thesis
      by (rule that(2) [OF ins t'(2)]) (use t' rec cnt none fresh(7,8,11,12) comp in \<open>simp_all add: seen_def pools_taken_def\<close>)
  qed
qed

lemma insert_state:
  assumes "name_state t V U" "name_fits name" "pool_fits (nt_names t)" "pool_fits (nt_nodes t)"
    "0 < lru_room (nt_lru_mem t)" "\<And>n. name_counts (nt_nvs t) V (qualify name) = Some n \<Longrightarrow> n < 2 ^ 31 - 1"
  obtains (full) t' where "name_tree_insert t (Some name) = Some (t', - 1)" "name_state t' V U"
      "nt_nvs t' = nt_nvs t" "nt_heap t' = nt_heap t" "name_counts (nt_nvs t) V (qualify name) = None" "pools_empty t"
  | (counted) t' V' U' where "name_tree_insert t (Some name) = Some (t', 0)" "name_state t' V' U'"
      "name_counts (nt_nvs t') V' = seen (qualify name) (name_counts (nt_nvs t) V)"
      "recent_names (nt_nvs t') U' = used (qualify name) (recent_names (nt_nvs t) U)"
      "heap_complete (nt_nvs t) (nt_heap t) V \<Longrightarrow> length V' \<le> ROOF \<Longrightarrow> heap_complete (nt_nvs t') (nt_heap t') V'"
      "nt_names t' = nt_names t \<and> nt_nodes t' = nt_nodes t \<or> pools_taken t t'"
      "lru_room (nt_lru_mem t') \<ge> lru_room (nt_lru_mem t) - 1"
proof (cases "qualify name \<in> (\<lambda>v. fqdn (nt_nvs t v)) ` set V")
  case True
  show thesis by (rule insert_present_state [OF assms(1,2) assms(6) True]) (use that(2) in blast)+
next
  case False
  show thesis
    by (rule insert_absent_state [OF assms(1-5) False]) (use that in blast)+
qed

section \<open>Deletion\<close>

lemma name_counts_del:
  assumes "inj_on (\<lambda>v. fqdn (nvs v)) (set (V1 @ v # V2))" "distinct (V1 @ v # V2)"
  shows "name_counts nvs (V1 @ V2) = (name_counts nvs (V1 @ v # V2))(fqdn (nvs v) := None)"
proof
  fix k
  have inj: "inj_on (\<lambda>v. fqdn (nvs v)) (set (V1 @ V2))" using assms(1) by (rule inj_on_subset) auto
  show "name_counts nvs (V1 @ V2) k = ((name_counts nvs (V1 @ v # V2))(fqdn (nvs v) := None)) k"
  proof (cases "k \<in> (\<lambda>v. fqdn (nvs v)) ` set (V1 @ V2)")
    case True
    then obtain w where w: "w \<in> set (V1 @ V2)" "k = fqdn (nvs w)" by blast
    then have "w \<noteq> v" using assms(2) by auto
    moreover have "w \<in> set (V1 @ v # V2)" using w(1) by auto
    ultimately have "k \<noteq> fqdn (nvs v)" using assms(1) w(2) by (auto simp: inj_on_def)
    then show ?thesis
      using name_counts_Some [OF inj w(1)] name_counts_Some [OF assms(1) \<open>w \<in> set (V1 @ v # V2)\<close>] w(2) by simp
  next
    case False
    then have "name_counts nvs (V1 @ V2) k = None" by (simp add: name_counts_None)
    moreover have "name_counts nvs (V1 @ v # V2) k = None" if "k \<noteq> fqdn (nvs v)"
      using False that unfolding name_counts_None by auto
    ultimately show ?thesis by (cases "k = fqdn (nvs v)") auto
  qed
qed

text \<open>
  What a deletion does, whatever its callback does to the list: the record leaves tree and pool,
  and the heap stays as it was. The freed record is the next one that the pool hands out.
\<close>

lemma delete_core:
  assumes tree: "tree_rep (nt_nvs t) (nt_tree t) (nt_nodes t) V" and names: "pool_rep (nt_names t) (set V)"
    and V: "distinct V" "KEY \<notin> set V"
    and fits: "name_fits name" and v: "v \<in> set V" "fqdn (nt_nvs t v) = qualify name"
    and f: "(case del_func of None \<Rightarrow> Some (nt_lru_mem t, nt_lru t)
        | Some f \<Rightarrow> f (nt_lru_mem t, nt_lru t) (nv_ptr (nt_nvs t v))) = Some (mem, lru)"
  obtains t' V1 V2 s where "V = V1 @ v # V2" "name_tree_delete t (Some name) del_func = Some (t', 0)"
    "tree_rep (nt_nvs t) (nt_tree t') (nt_nodes t') (V1 @ V2)" "pool_rep (nt_names t') (set (V1 @ V2))"
    "nt_nvs t' = nt_nvs t" "nt_heap t' = nt_heap t" "nt_lru_mem t' = mem" "nt_lru t' = lru"
    "nt_count t' = nt_count t - 1" "pool_take (nt_names t') = Some (s, v)"
proof -
  obtain h' d tp V1 V2 where d: "rbtree_delete (with_key (qualify name) (nt_nvs t)) KEY (nt_tree t) = Some (h', d)"
    "d \<noteq> NULL" "node_val h' d = v" "V = V1 @ v # V2" "pool_give d (nt_nodes t) = Some tp"
    "tree_rep (nt_nvs t) h' tp (V1 @ V2)"
    using tree_rep_delete(1) [OF tree V(2) v] by blast
  obtain np s where np: "pool_give v (nt_names t) = Some np" "pool_rep np (set V - {v})" "pool_take np = Some (s, v)"
    using pool.give_law [OF names v(1)] by blast
  have "set V - {v} = set (V1 @ V2)" using V(1) d(4) by auto
  then have np2: "pool_rep np (set (V1 @ V2))" using np(2) by simp
  let ?t = "t\<lparr>nt_tree := h', nt_lru_mem := mem, nt_lru := lru, nt_names := np, nt_nodes := tp,
    nt_count := nt_count t - 1\<rparr>"
  have "name_tree_delete t (Some name) del_func = Some (?t, 0)"
    using name_fits_copy [OF fits] d(1-3,5) np(1) f by (cases del_func) (simp_all add: name_tree_delete_def Let_def)
  then show thesis
    by (rule that [OF d(4)]) (use d(6) np2 np(3) in simp_all)
qed

lemma name_state_shrink:
  assumes st: "name_state t (V1 @ v # V2) U" and U: "mset (map snd U) = add_mset v (mset (map snd U'))" "set U' \<subseteq> set U"
    and t': "tree_rep (nt_nvs t) (nt_tree t') (nt_nodes t') (V1 @ V2)" "pool_rep (nt_names t') (set (V1 @ V2))"
      "nt_nvs t' = nt_nvs t" "nt_heap t' = nt_heap t" "nt_count t' = nt_count t - 1"
      "lru_rep (nt_lru_mem t') (nt_lru t') U'"
  shows "name_state t' (V1 @ V2) U'"
    and "name_counts (nt_nvs t') (V1 @ V2) = (name_counts (nt_nvs t) (V1 @ v # V2))(fqdn (nt_nvs t v) := None)"
proof -
  note S = name_stateD [OF st]
  have "heap_safe (nt_nvs t) (nt_heap t) (V1 @ V2)" using S(7) by (auto simp: heap_safe_def)
  moreover have "mset (map snd U') = mset (V1 @ V2)" using S(4) U(1) by simp
  ultimately show "name_state t' (V1 @ V2) U'" using S(5,6) U(2) t' by (auto simp: name_state_def)
  show "name_counts (nt_nvs t') (V1 @ V2) = (name_counts (nt_nvs t) (V1 @ v # V2))(fqdn (nt_nvs t v) := None)"
    using name_counts_del [OF S(13,11)] t'(3) by simp
qed

text \<open>The callback that takes the name out of the list as well.\<close>

definition lru_del :: del_node where
  "lru_del = (\<lambda>(mem, lru) node. lru_list_delete mem lru node)"

lemma delete_state:
  assumes st: "name_state t V U" and fits: "name_fits name"
  shows "v \<in> set V \<Longrightarrow> fqdn (nt_nvs t v) = qualify name \<Longrightarrow>
      \<exists>t' V' U' s. name_tree_delete t (Some name) (Some lru_del) = Some (t', 0) \<and> name_state t' V' U' \<and>
        name_counts (nt_nvs t') V' = (name_counts (nt_nvs t) V)(qualify name := None) \<and>
        recent_names (nt_nvs t') U' = removeAll (qualify name) (recent_names (nt_nvs t) U) \<and>
        nt_heap t' = nt_heap t \<and> pool_take (nt_names t') = Some (s, v)"
    and "qualify name \<notin> (\<lambda>v. fqdn (nt_nvs t v)) ` set V \<Longrightarrow>
      name_tree_delete t (Some name) del_func = Some (t, - 1)"
proof -
  note S = name_stateD [OF st]
  show "\<exists>t' V' U' s. name_tree_delete t (Some name) (Some lru_del) = Some (t', 0) \<and> name_state t' V' U' \<and>
        name_counts (nt_nvs t') V' = (name_counts (nt_nvs t) V)(qualify name := None) \<and>
        recent_names (nt_nvs t') U' = removeAll (qualify name) (recent_names (nt_nvs t) U) \<and>
        nt_heap t' = nt_heap t \<and> pool_take (nt_names t') = Some (s, v)"
    if v: "v \<in> set V" "fqdn (nt_nvs t v) = qualify name"
  proof -
    have "v \<in> set (map snd U)" using v(1) S(4) by (metis set_mset_mset)
    then obtain a U1 U2 where U: "U = U1 @ (a, v) # U2" by (auto simp: in_set_conv_decomp)
    have a: "nv_ptr (nt_nvs t v) = a" using S(5) U by simp
    obtain mem lru where l: "lru_list_delete (nt_lru_mem t) (nt_lru t) a = Some (mem, lru)" "lru_rep mem lru (U1 @ U2)"
      using lru_delete_rep [of "nt_lru_mem t" "nt_lru t" U1 a v U2] S(3) unfolding U by auto
    obtain t' V1 V2 s where t': "V = V1 @ v # V2" "name_tree_delete t (Some name) (Some lru_del) = Some (t', 0)"
      "tree_rep (nt_nvs t) (nt_tree t') (nt_nodes t') (V1 @ V2)" "pool_rep (nt_names t') (set (V1 @ V2))"
      "nt_nvs t' = nt_nvs t" "nt_heap t' = nt_heap t" "nt_lru_mem t' = mem" "nt_lru t' = lru"
      "nt_count t' = nt_count t - 1" "pool_take (nt_names t') = Some (s, v)"
      by (rule delete_core [OF S(1,2,11,8) fits v, where del_func = "Some lru_del" and mem = mem and lru = lru])
        (use l(1) a in \<open>simp_all add: lru_del_def\<close>)
    have r: "recent_names (nt_nvs t') (U1 @ U2) = removeAll (qualify name) (recent_names (nt_nvs t) U)"
      using recent_names_touch [of t V U1 a v U2] st U v(2) t'(5) by (simp add: used_def recent_names_def)
    show ?thesis
      using name_state_shrink [of t V1 v V2 U "U1 @ U2" t'] st U t' l(2) v(2) r
      by (intro exI [of _ t'] exI [of _ "V1 @ V2"] exI [of _ "U1 @ U2"] exI [of _ s]) auto
  qed
  show "name_tree_delete t (Some name) del_func = Some (t, - 1)"
    if "qualify name \<notin> (\<lambda>v. fqdn (nt_nvs t v)) ` set V"
    using tree_rep_delete(2) [OF S(1,8) that] name_fits_copy [OF fits] by (simp add: name_tree_delete_def)
qed

section \<open>The closest ancestor\<close>

fun below :: "string \<Rightarrow> string list" where
  "below [] = []"
| "below (c # s) = (if c = CHR ''.'' \<and> s \<noteq> [] then s # below s else below s)"

definition ancestors :: "string \<Rightarrow> string list" where
  "ancestors name = name # below name @ [''.'']"

lemma below_label: "CHR ''.'' \<notin> set l \<Longrightarrow> below (l @ CHR ''.'' # s) = (if s = [] then [] else s # below s)"
  by (induction l) auto

definition closest :: "nv_store \<Rightarrow> addr list \<Rightarrow> string \<Rightarrow> addr \<Rightarrow> bool" where
  "closest nvs V name v \<longleftrightarrow> (case find (\<lambda>k. k \<in> (\<lambda>v. fqdn (nvs v)) ` set V) (ancestors name) of
     None \<Rightarrow> v = NULL | Some k \<Rightarrow> v \<in> set V \<and> fqdn (nvs v) = k)"

lemma closely_find_loop_ok:
  assumes st: "name_state t V U"
  shows "name \<noteq> [] \<Longrightarrow> last name = CHR ''.'' \<Longrightarrow> length name < MAX_NAME_LEN \<Longrightarrow>
    \<exists>v. closely_find_loop t name = Some v \<and> closest (nt_nvs t) V name v"
proof (induction "length name" arbitrary: name rule: less_induct)
  case less
  let ?N = "(\<lambda>v. fqdn (nt_nvs t v)) ` set V"
  note S = name_stateD [OF st]
  have q: "qualify name = name" using less.prems by (simp add: qualify_def)
  have fits: "name_fits name" using less.prems q by (simp add: name_fits_def)
  note find = exactly_find_state [OF st fits, unfolded q]
  show ?case
  proof (cases "name \<in> ?N")
    case True
    then obtain v where v: "v \<in> set V" "fqdn (nt_nvs t v) = name" by auto
    then have "v \<noteq> NULL" using S(9) by metis
    then show ?thesis using find(1) [OF v] v True
      by (subst closely_find_loop.simps) (auto simp: closest_def ancestors_def)
  next
    case False
    have dot: "CHR ''.'' \<in> set name" using less.prems by (metis last_in_set)
    then obtain p where p: "strchr name CHR ''.'' = Some p" using strchr_None by fastforce
    obtain l s where ls: "name = l @ CHR ''.'' # s" "CHR ''.'' \<notin> set l" "p = CHR ''.'' # s"
      using strchr_split [of name "CHR ''.''" p] p by (cases p) auto
    show ?thesis
    proof (cases "name = ''.''")
      case True
      then have "generate_parent_name name = Some None" by (simp add: generate_parent_name_def name_is_root_def)
      then show ?thesis using find(2) [OF False] False True
        by (subst closely_find_loop.simps) (auto simp: closest_def ancestors_def)
    next
      case notroot: False
      define parent where "parent = (if s = [] then ''.'' else s)"
      have "\<not> (length name = 1 \<and> hd name = CHR ''.'')" using notroot ls(1) by (cases l) auto
      then have gp: "generate_parent_name name = Some (Some parent)"
        using p less.prems ls by (auto simp: generate_parent_name_def name_is_root_def parent_def)
      have len: "length parent < length name"
        using ls notroot by (cases l) (auto simp: parent_def)
      have "parent \<noteq> []" "last parent = CHR ''.''"
        using less.prems ls by (auto simp: parent_def split: if_splits)
      then obtain v where v: "closely_find_loop t parent = Some v" "closest (nt_nvs t) V parent v"
        using less.hyps [OF len] less.prems(3) len by auto
      have "closest (nt_nvs t) V name v"
        using v(2) False ls by (auto simp: closest_def ancestors_def below_label parent_def split: if_splits)
      then show ?thesis using find(2) [OF False] gp v(1)
        by (subst closely_find_loop.simps) simp
    qed
  qed
qed

end
