(* ===== verification/Name_Props.thy ===== *)
theory Name_Props
  imports Name_Spec
begin

text \<open>
  The properties of the tree of counted names (\<^verbatim>\<open>log_name_tree.c\<close>), from its creation on: what
  insertion, lookup and deletion do to the counts and to the order of use, for single operations
  and for a whole log of names, and how each of them treats the arguments it should refuse.
\<close>

section \<open>Creation\<close>

lemma name_pool_create:
  assumes "mem_ok m" "es = sizeof_rbnode \<or> es = sizeof_node_value" "pm_brk m + 8 + 1024 * es \<le> pm_limit m"
  obtains m' mp where "mem_pool_create (of_nat es) 1024 True m = Some (m', mp)" "pool_rep (m', mp) {}"
    "unat (elem_count mp) = 1024"
proof -
  have es: "unat (of_nat es :: u32) = es" "round8 es = es"
    using assms(2) by (auto simp: sizeof_rbnode_def sizeof_node_value_def round8_def)
  obtain m' mp cs fs where "mem_pool_create (of_nat es) 1024 True m = Some (m', mp)"
    "pool_inv m' mp cs fs {}" "unat (elem_count mp) = 1024"
    using pool_create_ok [of m "of_nat es" 1024 1024 True] assms es
    by (auto simp: sizeof_rbnode_def sizeof_node_value_def split: if_splits)
  then show thesis using that [of m' mp] unfolding pool_rep_def by blast
qed

text \<open>Room for the 1024 elements of a pool that is created in a memory.\<close>

definition pool_space :: "pool_mem \<Rightarrow> nat \<Rightarrow> bool" where
  "pool_space m es \<longleftrightarrow> mem_ok m \<and> pm_brk m + 8 + 1024 * es \<le> pm_limit m"

text \<open>Both pools still have the elements they were created with, for up to \<open>n\<close> names.\<close>

definition pools_hold :: "name_tree \<Rightarrow> nat \<Rightarrow> bool" where
  "pools_hold t n \<longleftrightarrow> n \<le> unat (elem_count (snd (nt_names t))) \<and> n \<le> unat (elem_count (snd (nt_nodes t)))"

lemma created_state:
  assumes "pool_space node_mem sizeof_rbnode" "pool_space name_mem sizeof_node_value" "lru_heap_ok lru_mem"
  obtains t where "name_tree_create True (Some junk) tree_mem nvs node_mem name_mem lru_mem = Some (Some t)"
    "name_state t [] []" "heap_complete (nt_nvs t) (nt_heap t) []" "pools_hold t 1024" "nt_lru_mem t = lru_mem"
proof -
  obtain nm np where np: "mem_pool_create (of_nat sizeof_rbnode) 1024 True node_mem = Some (nm, np)"
    "pool_rep (nm, np) {}" "unat (elem_count np) = 1024"
    by (rule name_pool_create [of node_mem sizeof_rbnode]) (use assms(1) in \<open>auto simp: pool_space_def\<close>)
  obtain vm vp where vp: "mem_pool_create (of_nat sizeof_node_value) 1024 True name_mem = Some (vm, vp)"
    "pool_rep (vm, vp) {}" "unat (elem_count vp) = 1024"
    by (rule name_pool_create [of name_mem sizeof_node_value]) (use assms(2) in \<open>auto simp: pool_space_def\<close>)
  define h :: name_heap where "h = \<lparr>heap = junk, len = 0, maxSize = int ROOF, cmp = elem_compare\<rparr>"
  let ?t = "\<lparr>nt_tree = rbtree_create name_compare tree_mem, nt_heap = h, nt_nodes = (nm, np), nt_names = (vm, vp),
    nt_count = 0, nt_lru_mem = lru_mem, nt_lru = lru_list_create, nt_nvs = nvs\<rparr>"
  have "heap_init (Some junk) (int ROOF) elem_compare = Some h"
    by (simp add: heap_init_def h_def ROOF_def MAX_HEAP_NODE_NUM_def)
  then have c: "name_tree_create True (Some junk) tree_mem nvs node_mem name_mem lru_mem = Some (Some ?t)"
    using np(1) vp(1) by (simp add: name_tree_create_def)
  have "name_index nvs (rbtree_create name_compare tree_mem) []"
    by (auto simp: name_index_def rep_def rb_ok_def sentinel_def rbtree_create_def intro!: exI [of _ Lf])
  then have "tree_rep nvs (rbtree_create name_compare tree_mem) (nm, np) []"
    using np(2) by (auto simp: tree_rep_def)
  moreover have "heap_safe nvs h []" by (simp add: heap_safe_def h_def nv_heap_def)
  ultimately have "name_state ?t [] []"
    using vp(2) lru_rep_create [OF assms(3)] by (simp add: name_state_def)
  moreover have "heap_complete (nt_nvs ?t) (nt_heap ?t) []"
    by (simp add: heap_complete_def nv_indexed_def h_def heap_content_def)
  ultimately show thesis using that [OF c] np(3) vp(3) by (simp add: pools_hold_def)
qed

section \<open>A log of names\<close>

fun insert_all :: "string list \<Rightarrow> name_tree \<Rightarrow> (name_tree \<times> int list) option" where
  "insert_all [] t = Some (t, [])"
| "insert_all (n # ns) t = do {
     (t1, r) \<leftarrow> name_tree_insert t (Some n);
     (t2, rs) \<leftarrow> insert_all ns t1;
     Some (t2, r # rs)
   }"

lemma pools_hold_take:
  assumes st: "name_state t V U" and hold: "pools_hold t n" and "length V < n"
  shows "\<not> pools_empty t" "pool_fits (nt_names t)" "pool_fits (nt_nodes t)"
    "pools_taken t t' \<Longrightarrow> pools_hold t' n"
proof -
  note S = name_stateD [OF st]
  have card: "card (set V) = length V" using S(11) by (simp add: distinct_card)
  obtain xs where xs: "name_index (nt_nvs t) (nt_tree t) xs" "pool_rep (nt_nodes t) (set xs)" "length xs = length V"
    using S(1) by (auto simp: tree_rep_def)
  then have cardx: "card (set xs) = length V"
    by (metis distinct_card name_index_def rep_def)
  have spare: "\<exists>s' p. pool_take s = Some (s', p) \<and> p \<noteq> NULL \<and> elem_count (snd s') = elem_count (snd s) \<and> pool_fits s"
    if r: "pool_rep s E" and c: "card E < unat (elem_count (snd s))" for s E
  proof -
    obtain m mp where s: "s = (m, mp)" by force
    then obtain cs fs where i: "pool_inv m mp cs fs E" using r by (auto simp: pool_rep_def)
    show ?thesis using pool_take_spare [OF i] c s by (auto simp: pool_take_def pool_fits_def)
  qed
  have n: "card (set V) < unat (elem_count (snd (nt_names t)))" "card (set xs) < unat (elem_count (snd (nt_nodes t)))"
    using hold assms(3) card cardx by (auto simp: pools_hold_def)
  obtain s1 p1 where one: "pool_take (nt_names t) = Some (s1, p1)" "p1 \<noteq> NULL"
    "elem_count (snd s1) = elem_count (snd (nt_names t))" "pool_fits (nt_names t)"
    using spare [OF S(2) n(1)] by blast
  obtain s2 p2 where two: "pool_take (nt_nodes t) = Some (s2, p2)" "p2 \<noteq> NULL"
    "elem_count (snd s2) = elem_count (snd (nt_nodes t))" "pool_fits (nt_nodes t)"
    using spare [OF xs(2) n(2)] by blast
  note both = one two
  show "\<not> pools_empty t" "pool_fits (nt_names t)" "pool_fits (nt_nodes t)"
    using both by (auto simp: pools_empty_def)
  show "pools_taken t t' \<Longrightarrow> pools_hold t' n" using both hold by (auto simp: pools_taken_def pools_hold_def)
qed

lemma name_counts_dom: "dom (name_counts nvs V) = (\<lambda>v. fqdn (nvs v)) ` set V"
  by (simp add: name_counts_def dom_map_of_conv_image_fst image_image)

lemma state_length:
  assumes "name_state t V U"
  shows "length V = card (dom (name_counts (nt_nvs t) V))"
  using name_stateD(11,13) [OF assms] by (simp add: name_counts_dom card_image distinct_card)

lemma seen_dom: "dom (seen k C) = insert k (dom C)"
  by (simp add: seen_def)

lemma insert_all_ok:
  assumes "name_state t V U" "heap_complete (nt_nvs t) (nt_heap t) V" "pools_hold t 1024"
    and "\<forall>n \<in> set ns. name_fits n" "length ns \<le> lru_room (nt_lru_mem t)"
    and "card (dom (name_counts (nt_nvs t) V) \<union> set (map qualify ns)) \<le> ROOF"
    and "\<forall>k n. name_counts (nt_nvs t) V k = Some n \<longrightarrow> n + length ns < 2 ^ 31"
    and "length ns < 2 ^ 31"
  shows "\<exists>t' V' U'. insert_all ns t = Some (t', replicate (length ns) 0) \<and> name_state t' V' U' \<and>
    heap_complete (nt_nvs t') (nt_heap t') V' \<and>
    name_counts (nt_nvs t') V' = fold seen (map qualify ns) (name_counts (nt_nvs t) V) \<and>
    recent_names (nt_nvs t') U' = fold used (map qualify ns) (recent_names (nt_nvs t) U)"
  using assms
proof (induction ns arbitrary: t V U)
  case Nil
  then show ?case by fastforce
next
  case (Cons n ns)
  let ?C = "name_counts (nt_nvs t) V"
  have fin: "finite (dom ?C)" by (simp add: name_counts_dom)
  then have "length V \<le> card (dom ?C \<union> set (map qualify (n # ns)))"
    unfolding state_length [OF Cons.prems(1)] by (intro card_mono) auto
  then have lV: "length V < 1024" using Cons.prems(6) by (simp add: ROOF_def)
  note pools = pools_hold_take [OF Cons.prems(1,3) lV]
  have fits: "name_fits n" and room: "0 < lru_room (nt_lru_mem t)" using Cons.prems(4,5) by auto
  have small: "m < 2 ^ 31 - 1" if "?C (qualify n) = Some m" for m
    using Cons.prems(7) that by fastforce
  show ?case
  proof (cases rule: insert_state [OF Cons.prems(1) fits pools(2,3) room small, consumes 0, case_names small full counted])
    case (full t')
    then show ?thesis using pools(1) by simp
  next
    case (counted t1 V1 U1)
    have d: "dom (name_counts (nt_nvs t1) V1) = insert (qualify n) (dom ?C)" by (simp add: counted(3) seen_dom)
    have "length V1 \<le> ROOF"
    proof -
      have "length V1 = card (insert (qualify n) (dom ?C))" using state_length [OF counted(2)] d by simp
      also have "\<dots> \<le> card (dom ?C \<union> set (map qualify (n # ns)))" using fin by (intro card_mono) auto
      finally show ?thesis using Cons.prems(6) by simp
    qed
    then have comp: "heap_complete (nt_nvs t1) (nt_heap t1) V1" using counted(5) Cons.prems(2) by blast
    have hold: "pools_hold t1 1024"
      using counted(6) pools(4) Cons.prems(3) by (auto simp: pools_hold_def)
    have fits1: "\<forall>n \<in> set ns. name_fits n" and room1: "length ns \<le> lru_room (nt_lru_mem t1)" and len1: "length ns < 2 ^ 31"
      using Cons.prems(4,5,8) counted(7) by auto
    have dom1: "card (dom (name_counts (nt_nvs t1) V1) \<union> set (map qualify ns)) \<le> ROOF"
    proof -
      have "dom (name_counts (nt_nvs t1) V1) \<union> set (map qualify ns) = dom ?C \<union> set (map qualify (n # ns))"
        using d by auto
      then show ?thesis using Cons.prems(6) by (simp del: list.map)
    qed
    have small1: "\<forall>k m. name_counts (nt_nvs t1) V1 k = Some m \<longrightarrow> m + length ns < 2 ^ 31"
    proof (intro allI impI)
      fix k m
      assume "name_counts (nt_nvs t1) V1 k = Some m"
      then show "m + length ns < 2 ^ 31"
        using Cons.prems(7,8) counted(3) by (fastforce simp: seen_def split: if_splits option.splits)
    qed
    obtain t' V' U' where r: "insert_all ns t1 = Some (t', replicate (length ns) 0)" "name_state t' V' U'"
      "heap_complete (nt_nvs t') (nt_heap t') V'"
      "name_counts (nt_nvs t') V' = fold seen (map qualify ns) (name_counts (nt_nvs t1) V1)"
      "recent_names (nt_nvs t') U' = fold used (map qualify ns) (recent_names (nt_nvs t1) U1)"
      using Cons.IH [OF counted(2) comp hold fits1 room1 dom1 small1 len1] by blast
    show ?thesis
      by (intro exI [of _ t'] exI [of _ V'] exI [of _ U']) (use r counted(1,3,4) in simp)
  qed
qed

text \<open>What folding the names gives: every name has its number of occurrences.\<close>

lemma fold_seen: "fold seen ks C k =
    (if count_list ks k = 0 then C k else Some (count_list ks k + (case C k of None \<Rightarrow> 0 | Some n \<Rightarrow> n)))"
  by (induction ks arbitrary: C) (auto simp: seen_def split: option.splits)

lemma fold_used: "distinct R \<Longrightarrow> distinct (fold used ks R) \<and> set (fold used ks R) = set ks \<union> set R"
proof (induction ks arbitrary: R)
  case (Cons k ks)
  have "distinct (used k R)" "set (used k R) = insert k (set R)"
    using Cons.prems by (auto simp: used_def distinct_removeAll)
  then show ?case using Cons.IH [of "used k R"] by auto
qed simp

section \<open>Properties\<close>

text \<open>A log of names, inserted one after the other into a fresh tree, is counted exactly: no
  call fails, the record of every name counts its occurrences (names with and without the closing
  dot are the same), the recency list holds every name once and in the order of last use, and the
  heap holds exactly the records. The bounds are those of the code: 1000 names (the roof of the
  heap), names that fit the buffer with their dot, and the memory of the first 1024 elements of
  each pool and of one list node for each call.\<close>

lemma name_log_counted:
  assumes "pool_space node_mem sizeof_rbnode" "pool_space name_mem sizeof_node_value" "lru_heap_ok lru_mem"
    and "\<forall>n \<in> set ns. name_fits n" "length ns \<le> lru_room lru_mem" "length ns < 2 ^ 31"
    and "card (set (map qualify ns)) \<le> ROOF"
  shows "\<exists>t t'. name_tree_create True (Some junk) tree_mem nvs node_mem name_mem lru_mem = Some (Some t) \<and>
    insert_all ns t = Some (t', replicate (length ns) 0) \<and> top_complete t' \<and>
    name_model t' (\<lambda>k. if count_list (map qualify ns) k = 0 then None else Some (count_list (map qualify ns) k))
      (fold used (map qualify ns) [])"
proof -
  obtain t where t: "name_tree_create True (Some junk) tree_mem nvs node_mem name_mem lru_mem = Some (Some t)"
    "name_state t [] []" "heap_complete (nt_nvs t) (nt_heap t) []" "pools_hold t 1024" "nt_lru_mem t = lru_mem"
    by (rule created_state [OF assms(1-3), of junk tree_mem nvs])
  have empty: "name_counts (nt_nvs t) [] = Map.empty" "recent_names (nt_nvs t) [] = []"
    by (simp_all add: name_counts_def recent_names_def)
  obtain t' V' U' where r: "insert_all ns t = Some (t', replicate (length ns) 0)" "name_state t' V' U'"
    "heap_complete (nt_nvs t') (nt_heap t') V'"
    "name_counts (nt_nvs t') V' = fold seen (map qualify ns) Map.empty"
    "recent_names (nt_nvs t') U' = fold used (map qualify ns) []"
    using insert_all_ok [OF t(2-4) assms(4)] assms(5-7) t(5) empty by auto
  have "fold seen (map qualify ns) Map.empty =
      (\<lambda>k. if count_list (map qualify ns) k = 0 then None else Some (count_list (map qualify ns) k))"
    by (simp add: fold_seen fun_eq_iff)
  then have "name_model t' (\<lambda>k. if count_list (map qualify ns) k = 0 then None else Some (count_list (map qualify ns) k))
      (fold used (map qualify ns) [])"
    using r(2,4,5) unfolding name_model_def by metis
  moreover have "top_complete t'" using r(2,3) by (auto simp: top_complete_def)
  ultimately show ?thesis using t(1) r(1) by blast
qed

definition big_mem :: pool_mem where
  "big_mem = \<lparr>blocks = [], cell = (\<lambda>_. NULL), pm_brk = 16, pm_limit = 100000\<rparr>"

definition big_lru :: lru_heap where
  "big_lru = \<lparr>nodes = Map.empty, brk = 1, limit = 1000\<rparr>"

lemma big_space: "pool_space big_mem sizeof_rbnode" "pool_space big_mem sizeof_node_value"
  "lru_heap_ok big_lru" "lru_room big_lru = 999"
  by (simp_all add: pool_space_def big_mem_def mem_ok_def sizeof_rbnode_def sizeof_node_value_def lru_heap_ok_def
      big_lru_def lru_room_def)

lemma name_log_counted_witness:
  "\<exists>t t'. name_tree_create True (Some (\<lambda>_. NULL)) one_tree one_nvs big_mem big_mem big_lru = Some (Some t) \<and>
    insert_all [''a'', ''b.'', ''a.''] t = Some (t', replicate (length [''a'', ''b.'', ''a.'']) 0) \<and> top_complete t' \<and>
    name_model t' (\<lambda>k. if count_list (map qualify [''a'', ''b.'', ''a.'']) k = 0 then None
        else Some (count_list (map qualify [''a'', ''b.'', ''a.'']) k))
      (fold used (map qualify [''a'', ''b.'', ''a.'']) [])"
  by (rule name_log_counted)
    (simp_all add: big_space name_fits_def qualify_def MAX_NAME_LEN_def ROOF_def card_insert_if)

text \<open>One call on the model.\<close>

lemma insert_model:
  assumes "name_model t C R" "name_fits name" "pool_fits (nt_names t)" "pool_fits (nt_nodes t)"
    "0 < lru_room (nt_lru_mem t)" "\<forall>n. C (qualify name) = Some n \<longrightarrow> n < 2 ^ 31 - 1"
  shows "\<exists>t' r. name_tree_insert t (Some name) = Some (t', r) \<and>
    (r = - 1 \<and> C (qualify name) = None \<and> pools_empty t \<and> name_model t' C R \<or>
     r = 0 \<and> name_model t' (seen (qualify name) C) (used (qualify name) R))"
proof -
  obtain V U where st: "name_state t V U" and C: "C = name_counts (nt_nvs t) V" and R: "R = recent_names (nt_nvs t) U"
    using assms(1) by (auto simp: name_model_def)
  have small: "n < 2 ^ 31 - 1" if "name_counts (nt_nvs t) V (qualify name) = Some n" for n
    using assms(6) that C by blast
  show ?thesis
  proof (cases rule: insert_state [OF st assms(2-5) small, consumes 0, case_names small full counted])
    case (full t')
    then show ?thesis using C R by (auto simp: name_model_def)
  next
    case (counted t' V' U')
    then have "name_model t' (seen (qualify name) C) (used (qualify name) R)"
      unfolding name_model_def C R by metis
    then show ?thesis using counted(1) by blast
  qed
qed

text \<open>C17. One insertion into any tree of the invariant, whatever its heap: when the pools have no
  memory for a new name the call returns - 1 and changes no count; otherwise it returns 0, adds
  one to the count of the name (a new name starts at 1) and makes it the last used.\<close>

theorem name_insert_counts:
  assumes "name_model t C R" "name_fits name" "pool_fits (nt_names t)" "pool_fits (nt_nodes t)"
    "0 < lru_room (nt_lru_mem t)" "\<forall>n. C (qualify name) = Some n \<longrightarrow> n < 2 ^ 31 - 1"
  shows "\<exists>t' r. name_tree_insert t (Some name) = Some (t', r) \<and>
    (r = - 1 \<and> C (qualify name) = None \<and> pools_empty t \<and> name_model t' C R \<or>
     r = 0 \<and> name_model t' (seen (qualify name) C) (used (qualify name) R))"
  by (rule insert_model [OF assms])

lemma created_model:
  obtains t where "name_tree_create True (Some (\<lambda>_. NULL)) one_tree one_nvs big_mem big_mem big_lru = Some (Some t)"
    "name_state t [] []" "name_model t Map.empty []" "top_complete t" "pool_fits (nt_names t)" "pool_fits (nt_nodes t)"
    "lru_room (nt_lru_mem t) = 999"
proof -
  obtain t where t: "name_tree_create True (Some (\<lambda>_. NULL)) one_tree one_nvs big_mem big_mem big_lru = Some (Some t)"
    "name_state t [] []" "heap_complete (nt_nvs t) (nt_heap t) []" "pools_hold t 1024" "nt_lru_mem t = big_lru"
    by (rule created_state [OF big_space(1-3), of "\<lambda>_. NULL" one_tree one_nvs])
  then have "name_model t Map.empty []"
    unfolding name_model_def by (intro exI [of _ "[]"]) (simp add: name_counts_def recent_names_def)
  then show thesis
    using that [of t] t pools_hold_take(2,3) [OF t(2,4)] big_space(4) by (auto simp: top_complete_def)
qed

theorem name_insert_counts_witness:
  "\<exists>t. name_model t Map.empty [] \<and> (\<exists>t' r. name_tree_insert t (Some ''a'') = Some (t', r) \<and>
    (r = - 1 \<and> (Map.empty :: string \<rightharpoonup> nat) (qualify ''a'') = None \<and> pools_empty t \<and> name_model t' Map.empty [] \<or>
     r = 0 \<and> name_model t' (seen (qualify ''a'') Map.empty) (used (qualify ''a'') [])))"
proof -
  obtain t where "name_model t Map.empty []" "pool_fits (nt_names t)" "pool_fits (nt_nodes t)"
    "lru_room (nt_lru_mem t) = 999"
    using created_model by metis
  then show ?thesis
    by (intro exI [of _ t] conjI name_insert_counts) (simp_all add: name_fits_def qualify_def MAX_NAME_LEN_def)
qed

text \<open>Lookup: \<open>name_tree_exactly_find\<close> returns the record of the name with its count, and
  \<open>NULL\<close> exactly for a name that was never inserted.\<close>

lemma name_find_counts:
  assumes "name_model t C R" "name_fits name"
  shows "\<exists>v. name_tree_exactly_find t (Some name) = Some v \<and> (v = NULL \<longleftrightarrow> C (qualify name) = None) \<and>
    (\<forall>n. C (qualify name) = Some n \<longrightarrow> fqdn (nt_nvs t v) = qualify name \<and> unat (nv_count (nt_nvs t v)) = n)"
proof -
  obtain V U where st: "name_state t V U" and C: "C = name_counts (nt_nvs t) V"
    using assms(1) by (auto simp: name_model_def)
  show ?thesis
  proof (cases "C (qualify name)")
    case None
    then have "qualify name \<notin> (\<lambda>v. fqdn (nt_nvs t v)) ` set V" using C by (simp add: name_counts_None)
    then show ?thesis using exactly_find_state(2) [OF st assms(2)] None by simp
  next
    case (Some n)
    obtain v where "v \<in> set V" "fqdn (nt_nvs t v) = qualify name" "n = unat (nv_count (nt_nvs t v))"
      using name_counts_SomeE [of "nt_nvs t" V "qualify name" n] Some C by metis
    moreover have "v \<noteq> NULL" using calculation(1) name_stateD(9) [OF st] by metis
    ultimately show ?thesis using exactly_find_state(1) [OF st assms(2)] Some by auto
  qed
qed

text \<open>A tree that has counted one name.\<close>

lemma counted_model:
  obtains t where "name_model t (seen ''a.'' Map.empty) [''a.'']" "top_complete t"
proof -
  obtain t where t: "name_state t [] []" "heap_complete (nt_nvs t) (nt_heap t) []" "pools_hold t 1024"
    "nt_lru_mem t = big_lru"
    using created_state [OF big_space(1-3), of "\<lambda>_. NULL" one_tree one_nvs] by metis
  have e: "name_counts (nt_nvs t) [] = Map.empty" "recent_names (nt_nvs t) [] = []"
    by (simp_all add: name_counts_def recent_names_def)
  have f: "\<forall>n \<in> set [''a'']. name_fits n" "length [''a''] \<le> lru_room (nt_lru_mem t)"
    by (simp_all add: name_fits_def qualify_def MAX_NAME_LEN_def t(4) big_space(4))
  obtain t' V' U' where r: "name_state t' V' U'" "heap_complete (nt_nvs t') (nt_heap t') V'"
    "name_counts (nt_nvs t') V' = fold seen (map qualify [''a'']) Map.empty"
    "recent_names (nt_nvs t') U' = fold used (map qualify [''a'']) []"
    using insert_all_ok [OF t(1-3) f] e by (auto simp: ROOF_def)
  have "qualify ''a'' = ''a.''" by (simp add: qualify_def)
  then have "name_counts (nt_nvs t') V' = seen ''a.'' Map.empty" "recent_names (nt_nvs t') U' = [''a.'']"
    using r(3,4) by (simp_all add: used_def)
  then have "name_model t' (seen ''a.'' Map.empty) [''a.'']" using r(1) unfolding name_model_def by metis
  then show thesis using that r(1,2) by (auto simp: top_complete_def)
qed

lemma name_find_counts_witness:
  "\<exists>t. name_model t (seen ''a.'' Map.empty) [''a.''] \<and>
    (\<exists>v. name_tree_exactly_find t (Some ''a'') = Some v \<and> (v = NULL \<longleftrightarrow> seen ''a.'' Map.empty (qualify ''a'') = None) \<and>
      (\<forall>n. seen ''a.'' Map.empty (qualify ''a'') = Some n \<longrightarrow>
        fqdn (nt_nvs t v) = qualify ''a'' \<and> unat (nv_count (nt_nvs t v)) = n))"
proof -
  obtain t where "name_model t (seen ''a.'' Map.empty) [''a.'']" by (rule counted_model)
  then show ?thesis
    by (intro exI [of _ t] conjI name_find_counts) (simp_all add: name_fits_def qualify_def MAX_NAME_LEN_def)
qed

text \<open>C27. \<open>name_tree_closely_find\<close> returns the record of the first counted name among the name
  itself, what follows its dots, and the root: the longest counted ancestor. The loop ends, also
  for names with adjacent dots, and \<open>NULL\<close> says that not even the root was counted.\<close>

theorem name_closely_find_longest:
  assumes "name_model t C R" "name_fits name"
  shows "\<exists>v. name_tree_closely_find t (Some name) = Some v \<and>
    (case find (\<lambda>k. C k \<noteq> None) (ancestors (qualify name)) of
       None \<Rightarrow> v = NULL
     | Some k \<Rightarrow> v \<noteq> NULL \<and> fqdn (nt_nvs t v) = k \<and> C k = Some (unat (nv_count (nt_nvs t v))))"
proof -
  obtain V U where st: "name_state t V U" and C: "C = name_counts (nt_nvs t) V"
    using assms(1) by (auto simp: name_model_def)
  note S = name_stateD [OF st]
  note c = name_fits_copy [OF assms(2)]
  have q: "qualify name \<noteq> []" "last (qualify name) = CHR ''.''" "length (qualify name) < MAX_NAME_LEN"
    using assms(2) by (auto simp: name_fits_def qualify_def)
  obtain v where v: "closely_find_loop t (qualify name) = Some v" "closest (nt_nvs t) V (qualify name) v"
    using closely_find_loop_ok [OF st q] by blast
  have eq: "(\<lambda>k. C k \<noteq> None) = (\<lambda>k. k \<in> (\<lambda>v. fqdn (nt_nvs t v)) ` set V)"
    using C name_counts_None [of "nt_nvs t" V] by (auto simp: fun_eq_iff)
  have "v \<noteq> NULL" if "v \<in> set V" using that S(9) by metis
  then show ?thesis
    using v c name_counts_Some [OF S(13), of v] C unfolding eq closest_def
    by (auto simp: name_tree_closely_find_def split: option.splits)
qed

theorem name_closely_find_longest_witness:
  "\<exists>t. name_model t (seen ''a.'' Map.empty) [''a.''] \<and>
    (\<exists>v. name_tree_closely_find t (Some ''b.a'') = Some v \<and>
      (case find (\<lambda>k. seen ''a.'' Map.empty k \<noteq> None) (ancestors (qualify ''b.a'')) of
         None \<Rightarrow> v = NULL
       | Some k \<Rightarrow> v \<noteq> NULL \<and> fqdn (nt_nvs t v) = k \<and>
           seen ''a.'' Map.empty k = Some (unat (nv_count (nt_nvs t v)))))"
proof -
  obtain t where "name_model t (seen ''a.'' Map.empty) [''a.'']" by (rule counted_model)
  then show ?thesis
    by (intro exI [of _ t] conjI name_closely_find_longest) (simp_all add: name_fits_def qualify_def MAX_NAME_LEN_def)
qed

text \<open>C28. Deletion with the callback that removes the list node: - 1 and no change for a name that
  is not there; otherwise the name leaves the counts and the list. The heap is not updated: it
  keeps the pointer to the freed record, which the name pool hands out next.\<close>

theorem name_delete_dangling:
  assumes "name_model t C R" "name_fits name"
  shows "case C (qualify name) of
      None \<Rightarrow> name_tree_delete t (Some name) (Some lru_del) = Some (t, - 1)
    | Some n \<Rightarrow> \<exists>t' s v. name_tree_delete t (Some name) (Some lru_del) = Some (t', 0) \<and>
        name_model t' (C(qualify name := None)) (removeAll (qualify name) R) \<and>
        fqdn (nt_nvs t v) = qualify name \<and> nt_heap t' = nt_heap t \<and> pool_take (nt_names t') = Some (s, v)"
proof -
  obtain V U where st: "name_state t V U" and C: "C = name_counts (nt_nvs t) V" and R: "R = recent_names (nt_nvs t) U"
    using assms(1) by (auto simp: name_model_def)
  show ?thesis
  proof (cases "C (qualify name)")
    case None
    then have "qualify name \<notin> (\<lambda>v. fqdn (nt_nvs t v)) ` set V" using C by (simp add: name_counts_None)
    then show ?thesis using delete_state(2) [OF st assms(2)] None by simp
  next
    case (Some n)
    obtain v where v: "v \<in> set V" "fqdn (nt_nvs t v) = qualify name"
      using name_counts_SomeE [of "nt_nvs t" V "qualify name" n] Some C by metis
    obtain t' V' U' s where d: "name_tree_delete t (Some name) (Some lru_del) = Some (t', 0)" "name_state t' V' U'"
      "name_counts (nt_nvs t') V' = C(qualify name := None)" "recent_names (nt_nvs t') U' = removeAll (qualify name) R"
      "nt_heap t' = nt_heap t" "pool_take (nt_names t') = Some (s, v)"
      using delete_state(1) [OF st assms(2) v] C R by blast
    have "name_model t' (C(qualify name := None)) (removeAll (qualify name) R)"
      using d(2-4) unfolding name_model_def by metis
    then show ?thesis using Some d(1,5,6) v(2) by auto
  qed
qed

theorem name_delete_dangling_witness:
  "\<exists>t. name_model t (seen ''a.'' Map.empty) [''a.''] \<and>
    (case seen ''a.'' Map.empty (qualify ''a'') of
      None \<Rightarrow> name_tree_delete t (Some ''a'') (Some lru_del) = Some (t, - 1)
    | Some n \<Rightarrow> \<exists>t' s v. name_tree_delete t (Some ''a'') (Some lru_del) = Some (t', 0) \<and>
        name_model t' ((seen ''a.'' Map.empty)(qualify ''a'' := None)) (removeAll (qualify ''a'') [''a.'']) \<and>
        fqdn (nt_nvs t v) = qualify ''a'' \<and> nt_heap t' = nt_heap t \<and> pool_take (nt_names t') = Some (s, v))"
proof -
  obtain t where "name_model t (seen ''a.'' Map.empty) [''a.'']" by (rule counted_model)
  then show ?thesis
    by (intro exI [of _ t] conjI name_delete_dangling) (simp_all add: name_fits_def qualify_def MAX_NAME_LEN_def)
qed

text \<open>C29. The arguments of insertion, deletion and the two searches, for every state: \<open>NULL\<close> and a name of
  32 or more bytes are refused without a change; the empty name fails the assert, and a name of 31 bytes without a closing dot passes
  the length test but does not fit the buffer with its dot, so every operation writes the closing
  \<open>NUL\<close> one byte past \<open>fqdn[32]\<close>; every other name is treated as its form with the dot. C leaves that
  write undefined and the model takes it as a fault. The test of the repository,
  \<^verbatim>\<open>cunit_memsize_test.c\<close>, inserts such a name and expects 0 and a larger tree: it relies on the byte
  being the first one of \<open>count\<close>, which the insertion sets afterwards.\<close>

theorem name_arguments:
  "name_tree_insert t None = Some (t, - 1) \<and> name_tree_delete t None f = Some (t, - 1) \<and>
   name_tree_exactly_find t None = Some NULL \<and> name_tree_closely_find t None = Some NULL \<and>
   name_tree_insert t (Some name) =
     (if 32 \<le> length name then Some (t, - 1)
      else if name = [] \<or> length name = 31 \<and> last name \<noteq> CHR ''.'' then None
      else name_tree_insert t (Some (qualify name))) \<and>
   name_tree_exactly_find t (Some name) =
     (if 32 \<le> length name then Some NULL
      else if name = [] \<or> length name = 31 \<and> last name \<noteq> CHR ''.'' then None
      else name_tree_exactly_find t (Some (qualify name))) \<and>
   name_tree_closely_find t (Some name) =
     (if 32 \<le> length name then Some NULL
      else if name = [] \<or> length name = 31 \<and> last name \<noteq> CHR ''.'' then None
      else name_tree_closely_find t (Some (qualify name))) \<and>
   name_tree_delete t (Some name) f =
     (if 32 \<le> length name then Some (t, - 1)
      else if name = [] \<or> length name = 31 \<and> last name \<noteq> CHR ''.'' then None
      else name_tree_delete t (Some (qualify name)) f)"
  (is "?NI \<and> ?ND \<and> ?NE \<and> ?NF \<and> ?B \<and> ?C \<and> ?E \<and> ?D")
proof (intro conjI)
  show ?NI ?ND ?NE ?NF
    by (simp_all add: name_tree_insert_def name_tree_delete_def name_tree_exactly_find_def name_tree_closely_find_def)
  have copy: "copy_fqdn (qualify name) = copy_fqdn name" "MAX_NAME_LEN > length (qualify name)"
    if "length name < 32" "\<not> (name = [] \<or> length name = 31 \<and> last name \<noteq> CHR ''.'')"
    using that qualify_again by (auto simp: copy_fqdn_eq MAX_NAME_LEN_def qualify_def)
  have none: "copy_fqdn name = None" if "name = [] \<or> length name = 31 \<and> last name \<noteq> CHR ''.''"
    using that by (auto simp: copy_fqdn_eq MAX_NAME_LEN_def qualify_def)
  have new: "insert_new_name t (qualify name) = insert_new_name t name"
    if "length name < 32" "\<not> (name = [] \<or> length name = 31 \<and> last name \<noteq> CHR ''.'')"
    unfolding insert_new_name_def copy(1) [OF that] ..
  show c: ?C using copy none by (auto simp: name_tree_exactly_find_def MAX_NAME_LEN_def)
  show ?E using copy none by (auto simp: name_tree_closely_find_def MAX_NAME_LEN_def)
  show ?D using copy none by (auto simp: name_tree_delete_def MAX_NAME_LEN_def)
  show ?B using copy none c new by (auto simp: name_tree_insert_def MAX_NAME_LEN_def cong: if_cong)
qed

end
