(* ===== verification/Radix_Tree.thy ===== *)
theory Radix_Tree
  imports C_String
begin

unbundle bit_operations_syntax

text \<open>
  The binary trie over IPv4 prefixes of \<^verbatim>\<open>dig_radix_tree.c\<close>. The nodes live in a partial map from
  addresses, and reading or writing an address that is not allocated is the abort \<open>None\<close>; removed
  nodes are kept in a free list through their \<open>right\<close> pointers. Keys are 32-bit words in host
  order and the bit under test is a word that is shifted right, as in the code. \<open>inet_pton\<close> is a
  parameter.
\<close>

section \<open>State\<close>

record radix_node =
  rx_right :: addr
  rx_left :: addr
  rx_parent :: addr
  rx_value :: addr

record radix_mem =
  rnodes :: "addr \<rightharpoonup> radix_node"
  rbrk :: addr
  rlimit :: addr

record radix_tree =
  rx_root :: addr
  rx_free :: addr
  rx_count :: u32

datatype result_t = SUCCEED | NO_MEMORY | DUP_KEY | FORMAT_ERROR | FAILED

definition radix_tree_get_result :: "result_t \<Rightarrow> string" where
  "radix_tree_get_result r = (case r of
     SUCCEED \<Rightarrow> ''success''
   | FAILED \<Rightarrow> ''not exists''
   | NO_MEMORY \<Rightarrow> ''no enough memory''
   | DUP_KEY \<Rightarrow> ''ip already exists''
   | FORMAT_ERROR \<Rightarrow> ''failed ,perhaps format error'')"

definition rnode_at :: "radix_mem \<Rightarrow> addr \<Rightarrow> radix_node option" where
  "rnode_at m p = (if p = NULL then None else rnodes m p)"

definition upd_rnode :: "addr \<Rightarrow> (radix_node \<Rightarrow> radix_node) \<Rightarrow> radix_mem \<Rightarrow> radix_mem option" where
  "upd_rnode p f m = do { n \<leftarrow> rnode_at m p; Some (m\<lparr>rnodes := (rnodes m)(p \<mapsto> f n)\<rparr>) }"

text \<open>A fresh node; every caller sets all its fields before it reads one.\<close>

definition empty_rnode :: radix_node where
  "empty_rnode = \<lparr>rx_right = NULL, rx_left = NULL, rx_parent = NULL, rx_value = NULL\<rparr>"

definition malloc_rnode :: "radix_mem \<Rightarrow> addr \<times> radix_mem" where
  "malloc_rnode m =
     (if rbrk m < rlimit m
      then (rbrk m, m\<lparr>rnodes := (rnodes m)(rbrk m \<mapsto> empty_rnode), rbrk := rbrk m + 1\<rparr>)
      else (NULL, m))"

definition free_rnode :: "addr \<Rightarrow> radix_mem \<Rightarrow> radix_mem option" where
  "free_rnode p m = do { n \<leftarrow> rnode_at m p; Some (m\<lparr>rnodes := (rnodes m)(p := None)\<rparr>) }"

section \<open>Operations\<close>

definition radix_tree_alloc :: "radix_mem \<Rightarrow> radix_tree \<Rightarrow> (radix_mem \<times> radix_tree \<times> addr) option" where
  "radix_tree_alloc m t =
     (if rx_free t \<noteq> NULL
      then do {
        let ptr = rx_free t;
        n \<leftarrow> rnode_at m ptr;
        m1 \<leftarrow> upd_rnode ptr (\<lambda>_. empty_rnode) m;
        Some (m1, t\<lparr>rx_free := rx_right n\<rparr>, ptr)
      }
      else case malloc_rnode m of (ptr, m1) \<Rightarrow> Some (m1, t, ptr))"

text \<open>The result of \<open>malloc\<close> for the struct is the first argument; the tree is \<open>None\<close> for \<open>NULL\<close>.\<close>

definition radix_tree_create :: "bool \<Rightarrow> radix_mem \<Rightarrow> (radix_mem \<times> radix_tree option) option" where
  "radix_tree_create malloc_ok m =
     (if \<not> malloc_ok then Some (m, None)
      else do {
        (m1, t1, root) \<leftarrow> radix_tree_alloc m \<lparr>rx_root = NULL, rx_free = NULL, rx_count = 0\<rparr>;
        if root = NULL then Some (m1, None)
        else do {
          m2 \<leftarrow> upd_rnode root (\<lambda>n. n\<lparr>rx_right := NULL, rx_left := NULL, rx_parent := NULL, rx_value := NULL\<rparr>) m1;
          Some (m2, Some (t1\<lparr>rx_root := root, rx_count := 0\<rparr>))
        }
      })"

definition child_of :: "u32 \<Rightarrow> u32 \<Rightarrow> radix_node \<Rightarrow> addr" where
  "child_of key bt n = (if key AND bt \<noteq> 0 then rx_right n else rx_left n)"

text \<open>The first loop of \<open>radix_tree_insert_node\<close>: it returns \<open>node\<close>, \<open>next\<close>, \<open>bit\<close> and \<open>mask\<close>.\<close>

fun insert_walk :: "nat \<Rightarrow> u32 \<Rightarrow> u32 \<Rightarrow> addr \<Rightarrow> radix_mem \<Rightarrow> (addr \<times> addr \<times> u32 \<times> nat) option" where
  "insert_walk 0 key bt node m = Some (node, node, bt, 0)"
| "insert_walk (Suc msk) key bt node m = do {
     n \<leftarrow> rnode_at m node;
     if child_of key bt n = NULL then Some (node, NULL, bt, Suc msk)
     else insert_walk msk key (drop_bit 1 bt) (child_of key bt n) m
   }"

text \<open>The second loop: new nodes for the rest of the prefix. The address is \<open>NULL\<close> without memory.\<close>

fun insert_grow ::
    "nat \<Rightarrow> u32 \<Rightarrow> u32 \<Rightarrow> addr \<Rightarrow> radix_mem \<Rightarrow> radix_tree \<Rightarrow> (radix_mem \<times> radix_tree \<times> addr) option" where
  "insert_grow 0 key bt node m t = Some (m, t, node)"
| "insert_grow (Suc msk) key bt node m t = do {
     (m1, t1, nxt) \<leftarrow> radix_tree_alloc m t;
     if nxt = NULL then Some (m1, t1, NULL)
     else do {
       m2 \<leftarrow> upd_rnode nxt (\<lambda>n. n\<lparr>rx_right := NULL, rx_left := NULL, rx_parent := node, rx_value := NULL\<rparr>) m1;
       m3 \<leftarrow> upd_rnode node (\<lambda>n. if key AND bt \<noteq> 0 then n\<lparr>rx_right := nxt\<rparr> else n\<lparr>rx_left := nxt\<rparr>) m2;
       insert_grow msk key (drop_bit 1 bt) nxt m3 t1
     }
   }"

definition radix_tree_insert_node ::
    "radix_mem \<Rightarrow> radix_tree \<Rightarrow> u32 \<Rightarrow> u32 \<Rightarrow> addr \<Rightarrow> (radix_mem \<times> radix_tree \<times> result_t) option" where
  "radix_tree_insert_node m t key msk val = do {
     (node, nxt, bt, msk1) \<leftarrow> insert_walk (unat msk) key 0x80000000 (rx_root t) m;
     if nxt \<noteq> NULL then do {
       n \<leftarrow> rnode_at m node;
       if rx_value n \<noteq> NULL then Some (m, t, DUP_KEY)
       else do {
         m1 \<leftarrow> upd_rnode node (\<lambda>n. n\<lparr>rx_value := val\<rparr>) m;
         Some (m1, t\<lparr>rx_count := rx_count t + 1\<rparr>, SUCCEED)
       }
     }
     else do {
       (m1, t1, node1) \<leftarrow> insert_grow msk1 key bt node m t;
       if node1 = NULL then Some (m1, t1, NO_MEMORY)
       else do {
         m2 \<leftarrow> upd_rnode node1 (\<lambda>n. n\<lparr>rx_value := val\<rparr>) m1;
         Some (m2, t1\<lparr>rx_count := rx_count t1 + 1\<rparr>, SUCCEED)
       }
     }
   }"

text \<open>The search loop of \<open>radix_tree_delete_node\<close>.\<close>

fun delete_walk :: "nat \<Rightarrow> u32 \<Rightarrow> u32 \<Rightarrow> addr \<Rightarrow> radix_mem \<Rightarrow> addr option" where
  "delete_walk 0 key bt node m = Some node"
| "delete_walk (Suc msk) key bt node m =
     (if node = NULL then Some NULL
      else do { n \<leftarrow> rnode_at m node; delete_walk msk key (drop_bit 1 bt) (child_of key bt n) m })"

text \<open>Its removal loop: the node moves to the free list, and so do the parents that become useless.\<close>

definition unlink_rnode :: "addr \<Rightarrow> radix_mem \<Rightarrow> radix_tree \<Rightarrow> (radix_mem \<times> radix_tree \<times> addr) option" where
  "unlink_rnode node m t = do {
     n \<leftarrow> rnode_at m node;
     pn \<leftarrow> rnode_at m (rx_parent n);
     m1 \<leftarrow> upd_rnode (rx_parent n)
            (\<lambda>k. if rx_right pn = node then k\<lparr>rx_right := NULL\<rparr> else k\<lparr>rx_left := NULL\<rparr>) m;
     m2 \<leftarrow> upd_rnode node (\<lambda>k. k\<lparr>rx_right := rx_free t\<rparr>) m1;
     Some (m2, t\<lparr>rx_free := node\<rparr>, rx_parent n)
   }"

partial_function (option) unlink_loop :: "addr \<Rightarrow> radix_mem \<Rightarrow> radix_tree \<Rightarrow> (radix_mem \<times> radix_tree) option" where
  "unlink_loop node m t = Option.bind (unlink_rnode node m t) (\<lambda>(m1, t1, p).
     Option.bind (rnode_at m1 p) (\<lambda>n.
       if rx_right n \<noteq> NULL \<or> rx_left n \<noteq> NULL then Some (m1, t1)
       else if rx_value n \<noteq> NULL then Some (m1, t1)
       else if rx_parent n = NULL then Some (m1, t1)
       else unlink_loop p m1 t1))"

definition radix_tree_delete_node ::
    "radix_mem \<Rightarrow> radix_tree \<Rightarrow> u32 \<Rightarrow> u32 \<Rightarrow> (radix_mem \<times> radix_tree \<times> result_t) option" where
  "radix_tree_delete_node m t key msk = do {
     node \<leftarrow> delete_walk (unat msk) key 0x80000000 (rx_root t) m;
     if node = NULL then Some (m, t, FAILED)
     else do {
       n \<leftarrow> rnode_at m node;
       if rx_right n \<noteq> NULL \<or> rx_left n \<noteq> NULL
       then if rx_value n \<noteq> NULL
            then do {
              m1 \<leftarrow> upd_rnode node (\<lambda>k. k\<lparr>rx_value := NULL\<rparr>) m;
              Some (m1, t\<lparr>rx_count := rx_count t - 1\<rparr>, SUCCEED)
            }
            else Some (m, t, FAILED)
       else do {
         (m1, t1) \<leftarrow> unlink_loop node m t;
         Some (m1, t1\<lparr>rx_count := rx_count t1 - 1\<rparr>, SUCCEED)
       }
     }
   }"

partial_function (option) find_loop :: "radix_mem \<Rightarrow> u32 \<Rightarrow> u32 \<Rightarrow> addr \<Rightarrow> addr \<Rightarrow> addr option" where
  "find_loop m key bt val node =
     (if node = NULL then Some val
      else Option.bind (rnode_at m node) (\<lambda>n.
        find_loop m key (drop_bit 1 bt) (if rx_value n \<noteq> NULL then rx_value n else val) (child_of key bt n)))"

definition radix_tree_find :: "radix_mem \<Rightarrow> radix_tree \<Rightarrow> u32 \<Rightarrow> addr option" where
  "radix_tree_find m t key = find_loop m key 0x80000000 NULL (rx_root t)"

text \<open>The callbacks of the traversals change a client state \<open>'c\<close>.\<close>

partial_function (option) radix_tree_walk_helper ::
    "radix_mem \<Rightarrow> (addr \<Rightarrow> 'c \<Rightarrow> 'c option) \<Rightarrow> addr \<Rightarrow> 'c \<Rightarrow> 'c option" where
  "radix_tree_walk_helper m f node c =
     Option.bind (rnode_at m node) (\<lambda>n.
       Option.bind (if rx_left n \<noteq> NULL then radix_tree_walk_helper m f (rx_left n) c else Some c) (\<lambda>c1.
         Option.bind (if rx_value n \<noteq> NULL then f (rx_value n) c1 else Some c1) (\<lambda>c2.
           if rx_right n \<noteq> NULL then radix_tree_walk_helper m f (rx_right n) c2 else Some c2)))"

definition radix_tree_walk :: "radix_mem \<Rightarrow> radix_tree \<Rightarrow> (addr \<Rightarrow> 'c \<Rightarrow> 'c option) \<Rightarrow> 'c \<Rightarrow> 'c option" where
  "radix_tree_walk m t f c = radix_tree_walk_helper m f (rx_root t) c"

partial_function (option) ip_node_delete ::
    "(addr \<Rightarrow> 'c \<Rightarrow> 'c option) option \<Rightarrow> addr \<Rightarrow> radix_mem \<Rightarrow> 'c \<Rightarrow> (radix_mem \<times> 'c) option" where
  "ip_node_delete del_func node m c =
     (if node = NULL then Some (m, c)
      else Option.bind (rnode_at m node) (\<lambda>n.
        Option.bind (if rx_left n \<noteq> NULL then ip_node_delete del_func (rx_left n) m c else Some (m, c)) (\<lambda>(m1, c1).
          Option.bind (rnode_at m1 node) (\<lambda>n1.
            Option.bind (if rx_right n1 \<noteq> NULL then ip_node_delete del_func (rx_right n1) m1 c1 else Some (m1, c1))
              (\<lambda>(m2, c2).
                Option.bind (rnode_at m2 node) (\<lambda>n2.
                  Option.bind (case del_func of
                      None \<Rightarrow> Some c2
                    | Some f \<Rightarrow> if rx_value n2 \<noteq> NULL then f (rx_value n2) c2 else Some c2) (\<lambda>c3.
                    Option.bind (free_rnode node m2) (\<lambda>m3. Some (m3, c3)))))))))"

partial_function (option) free_list_loop :: "addr \<Rightarrow> radix_mem \<Rightarrow> radix_mem option" where
  "free_list_loop fnode m =
     (if fnode = NULL then Some m
      else Option.bind (rnode_at m fnode) (\<lambda>n.
        Option.bind (free_rnode fnode m) (\<lambda>m1. free_list_loop (rx_right n) m1)))"

definition radix_tree_delete ::
    "(addr \<Rightarrow> 'c \<Rightarrow> 'c option) option \<Rightarrow> radix_mem \<Rightarrow> radix_tree \<Rightarrow> 'c \<Rightarrow> (radix_mem \<times> 'c) option" where
  "radix_tree_delete del_func m t c = do {
     (m1, c1) \<leftarrow> ip_node_delete del_func (rx_root t) m c;
     m2 \<leftarrow> free_list_loop (rx_free t) m1;
     Some (m2, c1)
   }"

definition radix_tree_get_ip_size :: "radix_tree \<Rightarrow> u32" where
  "radix_tree_get_ip_size t = rx_count t"

text \<open>
  \<open>radix_tree_print_helper\<close>: the lines it prints, as prefix, mask and value. The shift by
  \<open>32 - mask\<close> is undefined for the root.
\<close>

partial_function (option) radix_tree_print_helper ::
    "radix_mem \<Rightarrow> addr \<Rightarrow> u32 \<Rightarrow> nat \<Rightarrow> (u32 \<times> nat \<times> addr) list option" where
  "radix_tree_print_helper m node ip msk =
     Option.bind (rnode_at m node) (\<lambda>n.
       Option.bind (if rx_value n \<noteq> NULL then if 0 < msk \<and> msk \<le> 32
             then Some (ip AND push_bit (32 - msk) (- 1)) else None else Some ip) (\<lambda>ip1.
         Option.bind (if rx_left n \<noteq> NULL then radix_tree_print_helper m (rx_left n) ip1 (msk + 1) else Some []) (\<lambda>ls.
           Option.bind (if rx_right n \<noteq> NULL then if msk < 32
               then radix_tree_print_helper m (rx_right n) (ip1 OR drop_bit msk 0x80000000) (msk + 1) else None
             else Some []) (\<lambda>rs.
             Some ((if rx_value n \<noteq> NULL then [(ip1, msk, rx_value n)] else []) @ ls @ rs)))))"

definition radix_tree_print :: "radix_mem \<Rightarrow> radix_tree \<Rightarrow> (u32 \<times> nat \<times> addr) list option" where
  "radix_tree_print m t = radix_tree_print_helper m (rx_root t) 0 0"

section \<open>Prefixes in text\<close>

text \<open>\<open>ntohl\<close> on a little-endian machine.\<close>

definition ntohl :: "u32 \<Rightarrow> u32" where
  "ntohl w = push_bit 24 (w AND 0xFF) OR push_bit 8 (w AND 0xFF00) OR
     (drop_bit 8 w AND 0xFF00) OR (drop_bit 24 w AND 0xFF)"

text \<open>\<open>atoi\<close> of a string of digits; the value must fit an \<open>int\<close>.\<close>

definition is_digit_char :: "char \<Rightarrow> bool" where
  "is_digit_char c \<longleftrightarrow> 48 \<le> (of_char c :: nat) \<and> (of_char c :: nat) \<le> 57"

definition atoi_digits :: "string \<Rightarrow> nat option" where
  "atoi_digits s =
     (let v = foldl (\<lambda>acc c. acc * 10 + (of_char c - 48)) 0 s in if v < 2 ^ 31 then Some v else None)"

text \<open>
  \<open>trim_binary_subnet\<close> returns the mask, or - 1, and the key. The part before the slash goes into
  \<open>bi_subnet[33]\<close>: a longer one overflows it. \<open>pton\<close> is \<open>inet_pton(AF_INET, _, _)\<close>, with the
  address in network order.
\<close>

definition trim_binary_subnet :: "(string \<Rightarrow> u32 option) \<Rightarrow> string \<Rightarrow> (int \<times> u32) option" where
  "trim_binary_subnet pton input = (case strchr input CHR ''/'' of
     None \<Rightarrow> Some (- 1, 0)
   | Some p \<Rightarrow>
       if \<exists>c \<in> set (drop 1 p). \<not> is_digit_char c then Some (- 1, 0)
       else do {
         msk \<leftarrow> atoi_digits (drop 1 p);
         if msk \<le> 0 \<or> msk > 32 then Some (- 1, 0)
         else do {
           let host = take (length input - length p) input;
           _ \<leftarrow> guard (length host < 33);
           case pton host of
             None \<Rightarrow> Some (- 1, 0)
           | Some s_addr \<Rightarrow> Some (int msk, ntohl s_addr)
         }
       })"

definition radix_tree_insert_subnet ::
    "(string \<Rightarrow> u32 option) \<Rightarrow> radix_mem \<Rightarrow> radix_tree \<Rightarrow> string \<Rightarrow> addr \<Rightarrow> (radix_mem \<times> radix_tree \<times> result_t) option" where
  "radix_tree_insert_subnet pton m t subnet info = do {
     (msk, key) \<leftarrow> trim_binary_subnet pton subnet;
     if msk < 0 then Some (m, t, FORMAT_ERROR)
     else radix_tree_insert_node m t key (of_int msk) info
   }"

definition radix_tree_remove_subnet ::
    "(string \<Rightarrow> u32 option) \<Rightarrow> radix_mem \<Rightarrow> radix_tree \<Rightarrow> string \<Rightarrow> (radix_mem \<times> radix_tree \<times> result_t) option" where
  "radix_tree_remove_subnet pton m t subnet = do {
     (msk, key) \<leftarrow> trim_binary_subnet pton subnet;
     if msk \<le> 0 then Some (m, t, FORMAT_ERROR)
     else radix_tree_delete_node m t key (of_int msk)
   }"

definition radix_tree_find_str ::
    "(string \<Rightarrow> u32 option) \<Rightarrow> radix_mem \<Rightarrow> radix_tree \<Rightarrow> string \<Rightarrow> addr option" where
  "radix_tree_find_str pton m t str = (case pton str of
     None \<Rightarrow> Some NULL
   | Some s_addr \<Rightarrow> radix_tree_find m t (ntohl s_addr))"

end
