(* ===== verification/Radix_Spec.thy ===== *)
theory Radix_Spec
  imports Radix_Tree Rb_Walk
begin

text \<open>
  The pointers of \<open>Radix_Tree\<close> represent a binary trie whose paths are the prefixes; the abstract
  state is the map from prefixes to values. Every operation works below one node, so it is
  described for a subtree and a frame \<open>F\<close> of addresses that it must not touch, and the proofs go
  by induction along the path.
\<close>

section \<open>Key bits\<close>

definition kbit :: "u32 \<Rightarrow> nat \<Rightarrow> bool" where
  "kbit key i \<longleftrightarrow> i < 32 \<and> bit key (31 - i)"

definition kbits :: "u32 \<Rightarrow> nat \<Rightarrow> nat \<Rightarrow> bool list" where
  "kbits key i n = map (kbit key) [i..<i + n]"

lemma kbits_Suc: "kbits key i (Suc n) = kbit key i # kbits key (Suc i) n"
  by (simp add: kbits_def upt_conv_Cons del: upt_Suc)

lemma kbits_0 [simp]: "kbits key i 0 = []"
  by (simp add: kbits_def)

lemma length_kbits [simp]: "length (kbits key i n) = n"
  by (simp add: kbits_def)

lemma test_bit_at: "(key :: u32) AND drop_bit i 0x80000000 \<noteq> 0 \<longleftrightarrow> kbit key i"
proof -
  have b: "bit (0x80000000 :: u32) j \<longleftrightarrow> j = 31" for j
  proof -
    have "(0x80000000 :: u32) = push_bit 31 1" by (simp add: push_bit_eq_mult)
    then show ?thesis by (simp only: bit_push_bit_iff) (auto simp: bit_1_iff)
  qed
  have "bit (key AND drop_bit i 0x80000000) j \<longleftrightarrow> i + j = 31 \<and> bit key j" for j
    using b by (auto simp: bit_and_iff bit_drop_bit_eq)
  then have "key AND drop_bit i 0x80000000 = 0 \<longleftrightarrow> (\<forall>j. \<not> (i + j = 31 \<and> bit key j))"
    by (metis (no_types, lifting) bit_0_eq bit_word_eqI bot_apply bot_bool_def)
  also have "\<dots> \<longleftrightarrow> \<not> kbit key i"
  proof -
    have "kbit key i" if "i + j = 31" "bit key j" for j
    proof -
      have "j = 31 - i" "i < 32" using that(1) by auto
      then show ?thesis using that(2) by (simp add: kbit_def)
    qed
    moreover have "\<exists>j. i + j = 31 \<and> bit key j" if "kbit key i"
      using that by (intro exI [of _ "31 - i"]) (auto simp: kbit_def)
    ultimately show ?thesis by blast
  qed
  finally show ?thesis by simp
qed

lemma child_of_at: "child_of key (drop_bit i 0x80000000) n = (if kbit key i then rx_right n else rx_left n)"
  by (simp add: child_of_def test_bit_at)

lemma shift_bit: "drop_bit 1 (drop_bit i (0x80000000 :: u32)) = drop_bit (Suc i) 0x80000000"
  by (simp add: drop_bit_drop_bit)

section \<open>Tries\<close>

datatype rt = RE | RN rt addr addr rt

fun rptr :: "rt \<Rightarrow> addr" where
  "rptr RE = NULL"
| "rptr (RN l a v r) = a"

fun raddrs :: "rt \<Rightarrow> addr list" where
  "raddrs RE = []"
| "raddrs (RN l a v r) = raddrs l @ a # raddrs r"

fun rval :: "rt \<Rightarrow> addr" where
  "rval RE = NULL"
| "rval (RN l a v r) = v"

fun sub :: "bool list \<Rightarrow> rt \<Rightarrow> rt" where
  "sub [] T = T"
| "sub (b # bs) RE = RE"
| "sub (b # bs) (RN l a v r) = sub bs (if b then r else l)"

definition rlookup :: "rt \<Rightarrow> bool list \<Rightarrow> addr" where
  "rlookup T bs = rval (sub bs T)"

lemma rlookup_simps [simp]:
  "rlookup RE bs = NULL" "rlookup T [] = rval T" "rlookup (RN l a v r) (b # bs) = rlookup (if b then r else l) bs"
  by (cases bs; simp add: rlookup_def)+

fun rheight :: "rt \<Rightarrow> nat" where
  "rheight RE = 0"
| "rheight (RN l a v r) = Suc (max (rheight l) (rheight r))"

text \<open>\<open>leafy\<close>: every leaf carries a value; \<open>tidy\<close>: the same below the root.\<close>

fun leafy :: "rt \<Rightarrow> bool" where
  "leafy RE = True"
| "leafy (RN l a v r) = (leafy l \<and> leafy r \<and> (l = RE \<and> r = RE \<longrightarrow> v \<noteq> NULL))"

fun tidy :: "rt \<Rightarrow> bool" where
  "tidy RE = True"
| "tidy (RN l a v r) = (leafy l \<and> leafy r)"

section \<open>Representation\<close>

fun rshape :: "(addr \<rightharpoonup> radix_node) \<Rightarrow> addr \<Rightarrow> rt \<Rightarrow> bool" where
  "rshape m par RE = True"
| "rshape m par (RN l a v r) = (a \<noteq> NULL \<and>
     m a = Some \<lparr>rx_right = rptr r, rx_left = rptr l, rx_parent = par, rx_value = v\<rparr> \<and>
     rshape m a l \<and> rshape m a r)"

fun flist :: "(addr \<rightharpoonup> radix_node) \<Rightarrow> addr \<Rightarrow> addr list \<Rightarrow> bool" where
  "flist m p [] = (p = NULL)"
| "flist m p (a # as) = (p = a \<and> a \<noteq> NULL \<and> (\<exists>n. m a = Some n \<and> flist m (rx_right n) as))"

lemma rshape_cong: "(\<And>a. a \<in> set (raddrs T) \<Longrightarrow> m' a = m a) \<Longrightarrow> rshape m' par T = rshape m par T"
  by (induction T arbitrary: par) auto

lemma flist_cong: "(\<And>a. a \<in> set fs \<Longrightarrow> m' a = m a) \<Longrightarrow> flist m' p fs = flist m p fs"
  by (induction fs arbitrary: p) auto

lemma rshape_upd [simp]: "a \<notin> set (raddrs T) \<Longrightarrow> rshape (m(a := x)) par T = rshape m par T"
  by (rule rshape_cong) auto

lemma flist_upd [simp]: "a \<notin> set fs \<Longrightarrow> flist (m(a := x)) p fs = flist m p fs"
  by (rule flist_cong) auto

lemma rptr_NULL: "rshape m par T \<Longrightarrow> rptr T = NULL \<longleftrightarrow> T = RE"
  by (cases T) auto

lemma rptr_in: "T \<noteq> RE \<Longrightarrow> rptr T \<in> set (raddrs T)"
  by (cases T) auto

definition holds :: "addr set \<Rightarrow> radix_mem \<Rightarrow> radix_tree \<Rightarrow> addr \<Rightarrow> rt \<Rightarrow> addr list \<Rightarrow> bool" where
  "holds F m t par T fs \<longleftrightarrow>
     rshape (rnodes m) par T \<and> flist (rnodes m) (rx_free t) fs \<and> distinct (raddrs T @ fs) \<and>
     F \<inter> set (raddrs T @ fs) = {} \<and> dom (rnodes m) = F \<union> set (raddrs T @ fs) \<and>
     0 < rbrk m \<and> (\<forall>p \<in> dom (rnodes m). 0 < p \<and> p < rbrk m)"

definition same_on :: "addr set \<Rightarrow> radix_mem \<Rightarrow> radix_mem \<Rightarrow> bool" where
  "same_on F m m' \<longleftrightarrow> (\<forall>p \<in> F. rnodes m' p = rnodes m p)"

lemma same_on_refl [simp]: "same_on F m m"
  by (simp add: same_on_def)

lemma same_on_trans: "same_on F m m1 \<Longrightarrow> same_on F m1 m2 \<Longrightarrow> same_on F m m2"
  by (simp add: same_on_def)

lemma same_onD: "same_on F m m' \<Longrightarrow> p \<in> F \<Longrightarrow> rnodes m' p = rnodes m p"
  by (simp add: same_on_def)

lemma same_on_mono: "same_on F m m' \<Longrightarrow> E \<subseteq> F \<Longrightarrow> same_on E m m'"
  by (auto simp: same_on_def)

text \<open>Going down to a child puts the node and its other child into the frame; and back up.\<close>

lemma holds_down:
  assumes "holds F m t par (RN l a v r) fs"
  shows "holds (F \<union> {a} \<union> set (raddrs (if b then l else r))) m t a (if b then r else l) fs"
    and "rnodes m a = Some \<lparr>rx_right = rptr r, rx_left = rptr l, rx_parent = par, rx_value = v\<rparr>" "a \<noteq> NULL"
  using assms by (auto simp: holds_def)

lemma holds_up:
  assumes old: "holds F m t par (RN l a v r) fs"
    and new: "holds (F \<union> {a} \<union> set (raddrs (if b then l else r))) m' t' a c fs'"
    and keep: "same_on (F \<union> set (raddrs (if b then l else r))) m m'"
    and node: "rnodes m' a = Some \<lparr>rx_right = (if b then rptr c else rptr r), rx_left = (if b then rptr l else rptr c),
      rx_parent = par, rx_value = v\<rparr>"
  shows "holds F m' t' par (if b then RN l a v c else RN c a v r) fs'" "same_on F m m'"
proof -
  let ?o = "if b then l else r"
  have "rshape (rnodes m') a ?o = rshape (rnodes m) a ?o"
    by (rule rshape_cong) (use keep in \<open>auto simp: same_on_def\<close>)
  moreover have "rshape (rnodes m) a ?o" using old by (simp add: holds_def)
  ultimately have s: "rshape (rnodes m') a ?o" by simp
  show "holds F m' t' par (if b then RN l a v c else RN c a v r) fs'"
    using old new node s by (cases b) (auto simp: holds_def)
  show "same_on F m m'" using keep by (rule same_on_mono) auto
qed

section \<open>Allocation\<close>

lemma holds_frame: "holds F m t par T fs \<longleftrightarrow> rshape (rnodes m) par T \<and> distinct (raddrs T) \<and>
    F \<inter> set (raddrs T) = {} \<and> holds (F \<union> set (raddrs T)) m t par RE fs"
  by (auto simp: holds_def)

lemma alloc_ok:
  assumes "holds F m t q RE fs"
  obtains (full) "radix_tree_alloc m t = Some (m, t, NULL)"
  | (fresh) m' t' p fs' where "radix_tree_alloc m t = Some (m', t', p)" "p \<noteq> NULL" "p \<notin> F"
      "holds (insert p F) m' t' q RE fs'" "rnodes m' p = Some empty_rnode" "same_on F m m'"
      "rx_root t' = rx_root t" "rx_count t' = rx_count t"
proof (cases fs)
  case Nil
  then have free: "rx_free t = NULL" using assms by (simp add: holds_def)
  show thesis
  proof (cases "rbrk m < rlimit m")
    case True
    let ?m = "m\<lparr>rnodes := (rnodes m)(rbrk m \<mapsto> empty_rnode), rbrk := rbrk m + 1\<rparr>"
    have call: "radix_tree_alloc m t = Some (?m, t, rbrk m)"
      using free True by (simp add: radix_tree_alloc_def malloc_rnode_def)
    have F: "F = dom (rnodes m)" and b: "0 < rbrk m" "\<forall>p \<in> F. 0 < p \<and> p < rbrk m"
      using assms Nil by (auto simp: holds_def)
    then have new: "rbrk m \<noteq> NULL" "rbrk m \<notin> F" by auto
    have "\<forall>p \<in> dom (rnodes ?m). 0 < p \<and> p < rbrk ?m" using b F by (fastforce simp: less_Suc_eq)
    then have "holds (insert (rbrk m) F) ?m t q RE []" using free F by (auto simp: holds_def)
    then show ?thesis by (rule fresh [OF call new]) (use new(2) in \<open>auto simp: same_on_def\<close>)
  next
    case False
    then show ?thesis using full free by (simp add: radix_tree_alloc_def malloc_rnode_def)
  qed
next
  case (Cons a as)
  obtain n where a: "rx_free t = a" "a \<noteq> NULL" "rnodes m a = Some n" "flist (rnodes m) (rx_right n) as"
    "a \<notin> set as" "a \<notin> F" using assms Cons by (auto simp: holds_def)
  let ?m = "m\<lparr>rnodes := (rnodes m)(a \<mapsto> empty_rnode)\<rparr>"
  have "radix_tree_alloc m t = Some (?m, t\<lparr>rx_free := rx_right n\<rparr>, a)"
    using a by (simp add: radix_tree_alloc_def rnode_at_def upd_rnode_def)
  moreover have "flist (rnodes ?m) (rx_right n) as"
    using a(4,5) by simp
  ultimately show ?thesis
    using fresh [of ?m "t\<lparr>rx_free := rx_right n\<rparr>" a as] assms Cons a
    by (auto simp: holds_def same_on_def)
qed

section \<open>Insertion\<close>

definition set_child :: "bool \<Rightarrow> addr \<Rightarrow> radix_node \<Rightarrow> radix_node" where
  "set_child b p n = (if b then n\<lparr>rx_right := p\<rparr> else n\<lparr>rx_left := p\<rparr>)"

text \<open>The second loop with the assignments after it.\<close>

definition grow_set ::
    "nat \<Rightarrow> u32 \<Rightarrow> u32 \<Rightarrow> addr \<Rightarrow> radix_mem \<Rightarrow> radix_tree \<Rightarrow> addr \<Rightarrow> (radix_mem \<times> radix_tree \<times> result_t) option" where
  "grow_set n key bt node m t v = do {
     (m1, t1, node1) \<leftarrow> insert_grow n key bt node m t;
     if node1 = NULL then Some (m1, t1, NO_MEMORY)
     else do {
       m2 \<leftarrow> upd_rnode node1 (\<lambda>n. n\<lparr>rx_value := v\<rparr>) m1;
       Some (m2, t1\<lparr>rx_count := rx_count t1 + 1\<rparr>, SUCCEED)
     }
   }"

lemma grow_set_0:
  "node \<noteq> NULL \<Longrightarrow> rnodes m node = Some nd \<Longrightarrow> grow_set 0 key bt node m t v =
     Some (m\<lparr>rnodes := (rnodes m)(node \<mapsto> nd\<lparr>rx_value := v\<rparr>)\<rparr>, t\<lparr>rx_count := rx_count t + 1\<rparr>, SUCCEED)"
  by (simp add: grow_set_def upd_rnode_def rnode_at_def)

text \<open>The step that links a new node, and the memory after it.\<close>

definition linked :: "radix_mem \<Rightarrow> bool \<Rightarrow> addr \<Rightarrow> radix_node \<Rightarrow> addr \<Rightarrow> radix_mem" where
  "linked m b node nd p = m\<lparr>rnodes := (rnodes m)(p \<mapsto> empty_rnode\<lparr>rx_parent := node\<rparr>, node \<mapsto> set_child b p nd)\<rparr>"

lemma grow_set_Suc:
  assumes "node \<noteq> NULL" "rnodes m1 node = Some nd" "radix_tree_alloc m t = Some (m1, t1, p)"
    "rnodes m1 p = Some empty_rnode" "p \<noteq> NULL" "p \<noteq> node"
  shows "grow_set (Suc n) key (drop_bit i 0x80000000) node m t v =
    grow_set n key (drop_bit (Suc i) 0x80000000) p (linked m1 (kbit key i) node nd p) t1 v"
  using assms
  by (simp add: grow_set_def upd_rnode_def rnode_at_def test_bit_at shift_bit linked_def set_child_def
      empty_rnode_def Option.bind_assoc cong: if_cong)

lemma grow_set_full:
  "radix_tree_alloc m t = Some (m1, t1, NULL) \<Longrightarrow> grow_set (Suc n) key bt node m t v = Some (m1, t1, NO_MEMORY)"
  by (simp add: grow_set_def)

text \<open>
  The chain that grows below \<open>node\<close> holds one value at the end of the path, or none when the
  memory ran out; all its inner nodes have one child.
\<close>

definition grown :: "bool list \<Rightarrow> addr \<Rightarrow> result_t \<Rightarrow> rt \<Rightarrow> bool" where
  "grown bs v res ch \<longleftrightarrow>
     (res = SUCCEED \<and> ch \<noteq> RE \<and> rlookup ch = (\<lambda>_. NULL)(bs := v) \<and> (v \<noteq> NULL \<longrightarrow> leafy ch) \<or>
      res = NO_MEMORY \<and> rlookup ch = (\<lambda>_. NULL)) \<and> rheight ch \<le> Suc (length bs)"

lemma grown_step:
  assumes "grown bs v res ch"
  shows "grown (b # bs) v res (if b then RN RE p NULL ch else RN ch p NULL RE)"
proof -
  have "rlookup (if b then RN RE p NULL ch else RN ch p NULL RE) cs =
      (case cs of [] \<Rightarrow> NULL | c # cs' \<Rightarrow> if c = b then rlookup ch cs' else NULL)" for cs
    by (cases cs; cases b) auto
  moreover have "ch \<noteq> RE" if "rlookup ch = (\<lambda>_. NULL)(bs := v)" "v \<noteq> NULL"
  proof
    assume "ch = RE"
    then have "((\<lambda>_. NULL)(bs := v)) bs = NULL" using that(1) by (metis rlookup_simps(1))
    then show False using that(2) by simp
  qed
  ultimately show ?thesis
    using assms by (auto simp: grown_def fun_eq_iff split: list.splits)
qed

lemma grown_last: "grown [] v SUCCEED (RN RE p v RE)"
proof -
  have "rlookup (RN RE p v RE) cs = ((\<lambda>_. NULL)([] := v)) cs" for cs by (cases cs) auto
  then show ?thesis by (auto simp: grown_def)
qed

definition grow_post ::
    "addr set \<Rightarrow> radix_mem \<Rightarrow> radix_tree \<Rightarrow> addr \<Rightarrow> radix_node \<Rightarrow> bool \<Rightarrow> bool list \<Rightarrow> addr \<Rightarrow>
     (radix_mem \<times> radix_tree \<times> result_t) option \<Rightarrow> bool" where
  "grow_post F m t node nd b bs v r \<longleftrightarrow> (\<exists>m' t' res ch fs'. r = Some (m', t', res) \<and>
    holds (insert node F) m' t' node ch fs' \<and> same_on F m m' \<and>
    rnodes m' node = Some (set_child b (rptr ch) nd) \<and> grown bs v res ch \<and>
    rx_root t' = rx_root t \<and> rx_count t' = (if res = SUCCEED then rx_count t + 1 else rx_count t))"

lemma grow_full:
  assumes "holds (insert node F) m t q RE fs" "rnodes m node = Some nd"
    "(if b then rx_right nd else rx_left nd) = NULL" "radix_tree_alloc m t = Some (m, t, NULL)"
  shows "grow_post F m t node nd b bs v (grow_set (Suc n) key bt node m t v)"
proof -
  have "set_child b NULL nd = nd" using assms(3) by (simp add: set_child_def split: if_splits)
  then show ?thesis
    unfolding grow_post_def grow_set_full [OF assms(4)]
    using assms(1,2) by (intro exI [of _ m] exI [of _ t] exI [of _ NO_MEMORY] exI [of _ RE] exI [of _ fs])
      (auto simp: grown_def holds_def fun_eq_iff)
qed

lemma grow_set_ok:
  assumes "holds (insert node F) m t q RE fs" "rnodes m node = Some nd" "node \<noteq> NULL"
    and "(if kbit key i then rx_right nd else rx_left nd) = NULL" "node \<notin> F"
  shows "grow_post F m t node nd (kbit key i) (kbits key (Suc i) n) v
    (grow_set (Suc n) key (drop_bit i 0x80000000) node m t v)"
  using assms
proof (induction n arbitrary: node F m t fs nd i)
  case (0 node F m t fs nd i)
  show ?case
  proof (cases rule: alloc_ok [OF 0(1), consumes 0, case_names full fresh])
    case full
    then show ?thesis by (rule grow_full [OF 0(1,2,4)])
  next
    case (fresh m1 t1 p fs1)
    have n1: "rnodes m1 node = Some nd" using same_onD [OF fresh(6), of node] 0(2) by simp
    have pn: "p \<noteq> node" "p \<notin> F" using fresh(3) by auto
    let ?m2 = "linked m1 (kbit key i) node nd p"
    let ?m3 = "?m2\<lparr>rnodes := (rnodes ?m2)(p \<mapsto> empty_rnode\<lparr>rx_parent := node, rx_value := v\<rparr>)\<rparr>"
    have "rnodes ?m2 p = Some (empty_rnode\<lparr>rx_parent := node\<rparr>)" using pn by (simp add: linked_def)
    then have g: "grow_set (Suc 0) key (drop_bit i 0x80000000) node m t v =
        Some (?m3, t1\<lparr>rx_count := rx_count t1 + 1\<rparr>, SUCCEED)"
      using grow_set_Suc [OF 0(3) n1 fresh(1,5,2) pn(1)] grow_set_0 [OF fresh(2)] by simp
    have "holds (insert node F) ?m3 (t1\<lparr>rx_count := rx_count t1 + 1\<rparr>) node (RN RE p v RE) fs1"
      using fresh(2,4) pn n1 by (auto simp: holds_def linked_def empty_rnode_def)
    moreover have "same_on F m ?m3" using fresh(6) pn 0(5) by (auto simp: same_on_def linked_def)
    moreover have "rnodes ?m3 node = Some (set_child (kbit key i) (rptr (RN RE p v RE)) nd)"
      using pn by (simp add: linked_def)
    ultimately show ?thesis
      unfolding grow_post_def g kbits_0 using grown_last [of v p] fresh(7,8) by fastforce
  qed
next
  case (Suc n node F m t fs nd i)
  show ?case
  proof (cases rule: alloc_ok [OF Suc(2), consumes 0, case_names full fresh])
    case full
    then show ?thesis by (rule grow_full [OF Suc(2,3,5)])
  next
    case (fresh m1 t1 p fs1)
    have n1: "rnodes m1 node = Some nd" using same_onD [OF fresh(6), of node] Suc(3) by simp
    have pn: "p \<noteq> node" "p \<notin> F" using fresh(3) by auto
    let ?m2 = "linked m1 (kbit key i) node nd p" and ?nd = "empty_rnode\<lparr>rx_parent := node\<rparr>"
    have h2: "holds (insert p (insert node F)) ?m2 t1 q RE fs1"
      using fresh(2,4) pn n1 by (auto simp: holds_def linked_def)
    have p2: "rnodes ?m2 p = Some ?nd" using pn by (simp add: linked_def)
    have c2: "(if kbit key (Suc i) then rx_right ?nd else rx_left ?nd) = NULL" by (simp add: empty_rnode_def)
    have pf: "p \<notin> insert node F" using pn by simp
    obtain m' t' res ch fs' where r:
      "grow_set (Suc n) key (drop_bit (Suc i) 0x80000000) p ?m2 t1 v = Some (m', t', res)"
      "holds (insert p (insert node F)) m' t' p ch fs'" "same_on (insert node F) ?m2 m'"
      "rnodes m' p = Some (set_child (kbit key (Suc i)) (rptr ch) ?nd)"
      "grown (kbits key (Suc (Suc i)) n) v res ch" "rx_root t' = rx_root t1"
      "rx_count t' = (if res = SUCCEED then rx_count t1 + 1 else rx_count t1)"
      using Suc.IH [OF h2 p2 fresh(2) c2 pf] unfolding grow_post_def by blast
    let ?ch = "if kbit key (Suc i) then RN RE p NULL ch else RN ch p NULL RE"
    have g: "grow_set (Suc (Suc n)) key (drop_bit i 0x80000000) node m t v = Some (m', t', res)"
      using grow_set_Suc [OF Suc(4) n1 fresh(1,5,2) pn(1), of "Suc n" key i v] r(1) by simp
    have "holds (insert node F) m' t' node ?ch fs'"
      using r(2,4) pn fresh(2) by (auto simp: holds_def set_child_def empty_rnode_def)
    moreover have "same_on F m m'"
      using fresh(6) r(3) pn Suc(6) by (auto simp: same_on_def linked_def)
    moreover have "rnodes m' node = Some (set_child (kbit key i) (rptr ?ch) nd)"
      using same_onD [OF r(3), of node] by (simp add: linked_def)
    moreover have "grown (kbits key (Suc i) (Suc n)) v res ?ch"
      unfolding kbits_Suc by (rule grown_step [OF r(5)])
    ultimately show ?thesis unfolding grow_post_def using g r(6,7) fresh(7,8) by auto
  qed
qed

text \<open>\<open>radix_tree_insert_node\<close> from a node on.\<close>

definition ins_from ::
    "nat \<Rightarrow> u32 \<Rightarrow> u32 \<Rightarrow> addr \<Rightarrow> radix_mem \<Rightarrow> radix_tree \<Rightarrow> addr \<Rightarrow> (radix_mem \<times> radix_tree \<times> result_t) option" where
  "ins_from n key bt node m t v = do {
     (node1, nxt, bt1, n1) \<leftarrow> insert_walk n key bt node m;
     if nxt \<noteq> NULL then do {
       nd \<leftarrow> rnode_at m node1;
       if rx_value nd \<noteq> NULL then Some (m, t, DUP_KEY) else grow_set 0 key bt1 node1 m t v
     }
     else grow_set n1 key bt1 node1 m t v
   }"

lemma insert_node_from:
  "radix_tree_insert_node m t key msk v = ins_from (unat msk) key (drop_bit 0 0x80000000) (rx_root t) m t v"
  unfolding radix_tree_insert_node_def ins_from_def grow_set_def
  by (auto intro!: Option.bind_cong simp: upd_rnode_def rnode_at_def split: if_splits)

definition ins_post ::
    "addr set \<Rightarrow> radix_mem \<Rightarrow> radix_tree \<Rightarrow> addr \<Rightarrow> rt \<Rightarrow> bool list \<Rightarrow> addr \<Rightarrow>
     (radix_mem \<times> radix_tree \<times> result_t) option \<Rightarrow> bool" where
  "ins_post F m t par T bs v r \<longleftrightarrow> (\<exists>m' t' res T' fs'. r = Some (m', t', res) \<and>
    holds F m' t' par T' fs' \<and> rptr T' = rptr T \<and> same_on F m m' \<and> rx_root t' = rx_root t \<and>
    (if rlookup T bs \<noteq> NULL then res = DUP_KEY \<and> m' = m \<and> t' = t \<and> T' = T
     else res = SUCCEED \<and> rlookup T' = (rlookup T)(bs := v) \<and> rx_count t' = rx_count t + 1 \<and>
          (v \<noteq> NULL \<longrightarrow> (leafy T \<longrightarrow> leafy T') \<and> (tidy T \<longrightarrow> tidy T')) \<or>
          res = NO_MEMORY \<and> rlookup T' = rlookup T \<and> rx_count t' = rx_count t) \<and>
    rheight T' \<le> max (rheight T) (Suc (length bs)))"

lemma rlookup_node_upd:
  "rlookup (if b then RN l a w c' else RN c' a w r) = (rlookup (if b then RN l a w c else RN c a w r))(b # bs := x)"
  if "rlookup c' = (rlookup c)(bs := x)"
proof
  fix cs
  show "rlookup (if b then RN l a w c' else RN c' a w r) cs =
      ((rlookup (if b then RN l a w c else RN c a w r))(b # bs := x)) cs"
    using that by (cases cs) (auto simp: fun_eq_iff)
qed

text \<open>The result for a child carries over to the node.\<close>

lemma ins_post_up:
  assumes h: "holds F m t par (RN l a w r) fs"
    and c: "ins_post (F \<union> {a} \<union> set (raddrs (if b then l else r))) m t a (if b then r else l) bs v x"
    and some: "(if b then r else l) \<noteq> RE"
  shows "ins_post F m t par (RN l a w r) (b # bs) v x"
proof -
  let ?c = "if b then r else l" and ?o = "if b then l else r"
  obtain m' t' res c' fs' where r: "x = Some (m', t', res)" "holds (F \<union> {a} \<union> set (raddrs ?o)) m' t' a c' fs'"
    "rptr c' = rptr ?c" "same_on (F \<union> {a} \<union> set (raddrs ?o)) m m'" "rx_root t' = rx_root t"
    and res: "if rlookup ?c bs \<noteq> NULL then res = DUP_KEY \<and> m' = m \<and> t' = t \<and> c' = ?c
     else res = SUCCEED \<and> rlookup c' = (rlookup ?c)(bs := v) \<and> rx_count t' = rx_count t + 1 \<and>
          (v \<noteq> NULL \<longrightarrow> (leafy ?c \<longrightarrow> leafy c') \<and> (tidy ?c \<longrightarrow> tidy c')) \<or>
          res = NO_MEMORY \<and> rlookup c' = rlookup ?c \<and> rx_count t' = rx_count t"
    and ht: "rheight c' \<le> max (rheight ?c) (Suc (length bs))"
    using c unfolding ins_post_def by blast
  let ?T' = "if b then RN l a w c' else RN c' a w r"
  have nd: "rnodes m' a = Some \<lparr>rx_right = (if b then rptr c' else rptr r), rx_left = (if b then rptr l else rptr c'),
      rx_parent = par, rx_value = w\<rparr>"
    using same_onD [OF r(4), of a] holds_down(2) [OF h] r(3) by auto
  have k: "same_on (F \<union> set (raddrs ?o)) m m'" using r(4) by (rule same_on_mono) auto
  note up = holds_up [OF h r(2) k nd]
  have T: "RN l a w r = (if b then RN l a w ?c else RN ?c a w r)" by simp
  have look: "rlookup ?T' = (rlookup (RN l a w r))(b # bs := v)" if "rlookup c' = (rlookup ?c)(bs := v)"
    unfolding T by (rule rlookup_node_upd [OF that])
  have look2: "rlookup ?T' = rlookup (RN l a w r)" if "rlookup c' = rlookup ?c"
  proof -
    have "rlookup c' = (rlookup ?c)(bs := rlookup ?c bs)" using that by simp
    from rlookup_node_upd [OF this, of b l a w r] show ?thesis by (cases b) (simp_all add: fun_upd_idem)
  qed
  have lf: "leafy ?T'" if "leafy (RN l a w r)" "leafy c'" using that some r(3) holds_down(1) [OF h, of b] r(2)
    by (cases b) (auto simp: holds_def rptr_NULL)
  show ?thesis
    unfolding ins_post_def
    using r(1,5) up res look look2 lf ht
    by (intro exI [of _ m'] exI [of _ t'] exI [of _ res] exI [of _ ?T'] exI [of _ fs'])
      (cases b; auto split: if_splits)
qed

lemma ins_from_Suc:
  assumes "rnode_at m a = Some nd"
  shows "child_of key bt nd \<noteq> NULL \<Longrightarrow>
      ins_from (Suc n) key bt a m t v = ins_from n key (drop_bit 1 bt) (child_of key bt nd) m t v"
    and "child_of key bt nd = NULL \<Longrightarrow> ins_from (Suc n) key bt a m t v = grow_set (Suc n) key bt a m t v"
  using assms by (simp_all add: ins_from_def)

lemma ins_from_ok:
  "holds F m t par (RN l a w r) fs \<Longrightarrow>
   ins_post F m t par (RN l a w r) (kbits key i n) v (ins_from n key (drop_bit i 0x80000000) a m t v)"
proof (induction n arbitrary: F par l a w r i)
  case (0 F par l a w r i)
  have a: "rnode_at m a = Some \<lparr>rx_right = rptr r, rx_left = rptr l, rx_parent = par, rx_value = w\<rparr>" "a \<noteq> NULL"
    using holds_down(2,3) [OF 0] by (simp_all add: rnode_at_def)
  show ?case
  proof (cases "w = NULL")
    case True
    let ?m = "m\<lparr>rnodes := (rnodes m)(a \<mapsto> \<lparr>rx_right = rptr r, rx_left = rptr l, rx_parent = par, rx_value = v\<rparr>)\<rparr>"
    have "ins_from 0 key (drop_bit i 0x80000000) a m t v = Some (?m, t\<lparr>rx_count := rx_count t + 1\<rparr>, SUCCEED)"
      using a True grow_set_0 [of a m] by (simp add: ins_from_def rnode_at_def)
    moreover have "holds F ?m (t\<lparr>rx_count := rx_count t + 1\<rparr>) par (RN l a v r) fs"
      using 0 by (auto simp: holds_def)
    moreover have "same_on F m ?m" using 0 by (auto simp: holds_def same_on_def)
    moreover have "rlookup (RN l a v r) = (rlookup (RN l a w r))([] := v)"
    proof
      fix cs
      show "rlookup (RN l a v r) cs = ((rlookup (RN l a w r))([] := v)) cs" by (cases cs) auto
    qed
    ultimately show ?thesis
      unfolding ins_post_def kbits_0 using True
      by (intro exI [of _ ?m] exI [of _ "t\<lparr>rx_count := rx_count t + 1\<rparr>"] exI [of _ SUCCEED]
          exI [of _ "RN l a v r"] exI [of _ fs]) auto
  next
    case False
    then have "ins_from 0 key (drop_bit i 0x80000000) a m t v = Some (m, t, DUP_KEY)"
      using a by (simp add: ins_from_def)
    then show ?thesis unfolding ins_post_def kbits_0 using False 0 by auto
  qed
next
  case (Suc n F par l a w r i)
  let ?b = "kbit key i"
  let ?c = "if ?b then r else l" and ?o = "if ?b then l else r"
  have a: "rnodes m a = Some \<lparr>rx_right = rptr r, rx_left = rptr l, rx_parent = par, rx_value = w\<rparr>" "a \<noteq> NULL"
    using holds_down(2,3) [OF Suc.prems] by simp_all
  then have at: "rnode_at m a = Some \<lparr>rx_right = rptr r, rx_left = rptr l, rx_parent = par, rx_value = w\<rparr>"
    by (simp add: rnode_at_def)
  note down = holds_down(1) [OF Suc.prems, of ?b]
  have child: "child_of key (drop_bit i 0x80000000) \<lparr>rx_right = rptr r, rx_left = rptr l, rx_parent = par, rx_value = w\<rparr>
      = rptr ?c" by (simp add: child_of_at)
  show ?case
  proof (cases ?c)
    case (RN l' a' w' r')
    have "holds (F \<union> {a} \<union> set (raddrs ?o)) m t a (RN l' a' w' r') fs" using down unfolding RN .
    from Suc.IH [OF this, of "Suc i"]
    have "ins_post (F \<union> {a} \<union> set (raddrs ?o)) m t a ?c (kbits key (Suc i) n) v
        (ins_from n key (drop_bit (Suc i) 0x80000000) a' m t v)" unfolding RN .
    moreover have "ins_from (Suc n) key (drop_bit i 0x80000000) a m t v =
        ins_from n key (drop_bit (Suc i) 0x80000000) a' m t v"
      using ins_from_Suc(1) [OF at, of key "drop_bit i 0x80000000" n t v] down unfolding child shift_bit RN
      by (simp add: holds_def)
    moreover have "?c \<noteq> RE" using RN by simp
    ultimately show ?thesis unfolding kbits_Suc using ins_post_up [OF Suc.prems] by simp
  next
    case RE
    have call: "ins_from (Suc n) key (drop_bit i 0x80000000) a m t v = grow_set (Suc n) key (drop_bit i 0x80000000) a m t v"
      using ins_from_Suc(2) [OF at, of key "drop_bit i 0x80000000" n t v] unfolding child RE by simp
    have h: "holds (insert a (F \<union> set (raddrs ?o))) m t par RE fs"
      using Suc.prems RE by (cases ?b) (auto simp: holds_def)
    have notin: "a \<notin> F \<union> set (raddrs ?o)" using Suc.prems by (cases ?b) (auto simp: holds_def)
    have empty: "(if ?b then rx_right \<lparr>rx_right = rptr r, rx_left = rptr l, rx_parent = par, rx_value = w\<rparr>
        else rx_left \<lparr>rx_right = rptr r, rx_left = rptr l, rx_parent = par, rx_value = w\<rparr>) = NULL"
      using RE by (cases ?b) simp_all
    from grow_set_ok [OF h a(1,2) empty notin, of n v] obtain m' t' res ch fs' where g:
      "ins_from (Suc n) key (drop_bit i 0x80000000) a m t v = Some (m', t', res)"
      "holds (insert a (F \<union> set (raddrs ?o))) m' t' a ch fs'" "same_on (F \<union> set (raddrs ?o)) m m'"
      "rnodes m' a = Some (set_child ?b (rptr ch) \<lparr>rx_right = rptr r, rx_left = rptr l, rx_parent = par, rx_value = w\<rparr>)"
      "grown (kbits key (Suc i) n) v res ch" "rx_root t' = rx_root t"
      "rx_count t' = (if res = SUCCEED then rx_count t + 1 else rx_count t)"
      unfolding grow_post_def call by blast
    let ?T' = "if ?b then RN l a w ch else RN ch a w r"
    have nd: "rnodes m' a = Some \<lparr>rx_right = (if ?b then rptr ch else rptr r), rx_left = (if ?b then rptr l else rptr ch),
        rx_parent = par, rx_value = w\<rparr>" using g(4) by (simp add: set_child_def)
    have F: "insert a (F \<union> set (raddrs ?o)) = F \<union> {a} \<union> set (raddrs ?o)" by auto
    note up = holds_up [OF Suc.prems g(2) [unfolded F] g(3) nd]
    have T: "RN l a w r = (if ?b then RN l a w RE else RN RE a w r)" using RE by (cases ?b) simp_all
    have none: "rlookup RE = (\<lambda>_. NULL)" by (simp add: fun_eq_iff)
    have look: "rlookup ?T' = (rlookup (RN l a w r))(?b # bs := x)" if "rlookup ch = (\<lambda>_. NULL)(bs := x)" for bs x
      unfolding T by (rule rlookup_node_upd) (use that none in simp)
    have look2: "rlookup ?T' = rlookup (RN l a w r)" if "rlookup ch = (\<lambda>_. NULL)"
      using look [of "[]" NULL] that RE by (cases ?b) (simp_all add: fun_upd_idem)
    have z: "rlookup (RN l a w r) (?b # kbits key (Suc i) n) = NULL" using RE by (cases ?b) simp_all
    show ?thesis
      unfolding ins_post_def kbits_Suc g(1)
      using up g(5,6,7) look look2 z RE
      by (intro exI [of _ m'] exI [of _ t'] exI [of _ res] exI [of _ ?T'] exI [of _ fs'])
        (cases ?b; auto simp: grown_def)
  qed
qed

section \<open>Deletion\<close>

lemma delete_walk_ok:
  "rshape (rnodes m) par T \<Longrightarrow> delete_walk n key (drop_bit i 0x80000000) (rptr T) m = Some (rptr (sub (kbits key i n) T))"
proof (induction n arbitrary: T par i)
  case (Suc n)
  show ?case
  proof (cases T)
    case (RN l a v r)
    have "rshape (rnodes m) a (if kbit key i then r else l)" using Suc.prems RN by simp
    then show ?thesis
      using Suc.IH [of a "if kbit key i then r else l" "Suc i"] Suc.prems RN
      by (cases "kbit key i") (simp_all add: rnode_at_def child_of_at kbits_Suc shift_bit)
  qed (simp add: kbits_Suc)
qed simp

text \<open>A value replaced at the end of a path.\<close>

fun rset :: "bool list \<Rightarrow> addr \<Rightarrow> rt \<Rightarrow> rt" where
  "rset bs v RE = RE"
| "rset [] v (RN l a w r) = RN l a v r"
| "rset (b # bs) v (RN l a w r) = (if b then RN l a w (rset bs v r) else RN (rset bs v l) a w r)"

lemma rset_keeps [simp]:
  "raddrs (rset bs v T) = raddrs T" "rptr (rset bs v T) = rptr T" "rheight (rset bs v T) = rheight T"
  "rset bs v T = RE \<longleftrightarrow> T = RE"
  by (induction bs v T rule: rset.induct) auto

lemma sub_RE [simp]: "sub bs RE = RE"
  by (cases bs) auto

lemma rlookup_rset: "sub bs T \<noteq> RE \<Longrightarrow> rlookup (rset bs v T) = (rlookup T)(bs := v)"
proof (induction bs v T rule: rset.induct)
  case (2 v l a w r)
  show ?case
  proof
    fix cs
    show "rlookup (rset [] v (RN l a w r)) cs = ((rlookup (RN l a w r))([] := v)) cs" by (cases cs) auto
  qed
next
  case (3 b bs v l a w r)
  show ?case
  proof
    fix cs
    show "rlookup (rset (b # bs) v (RN l a w r)) cs = ((rlookup (RN l a w r))(b # bs := v)) cs"
      using 3 by (cases cs; cases b) (auto simp: fun_eq_iff)
  qed
qed simp

lemma sub_in: "sub bs T = RN l x w r \<Longrightarrow> x \<in> set (raddrs T)"
  by (induction bs T rule: sub.induct) (auto split: if_splits)

lemma rshape_other:
  "\<forall>p. p \<noteq> x \<longrightarrow> m' p = m p \<Longrightarrow> x \<notin> set (raddrs S) \<Longrightarrow> rshape m' q S = rshape m q S"
  by (rule rshape_cong) auto

lemma rset_shape:
  assumes "rshape m par T" "distinct (raddrs T)" "sub bs T = RN l x w r"
  shows "\<exists>q. m x = Some \<lparr>rx_right = rptr r, rx_left = rptr l, rx_parent = q, rx_value = w\<rparr> \<and>
    (\<forall>m'. m' x = Some \<lparr>rx_right = rptr r, rx_left = rptr l, rx_parent = q, rx_value = v\<rparr> \<longrightarrow>
       (\<forall>p. p \<noteq> x \<longrightarrow> m' p = m p) \<longrightarrow> rshape m' par (rset bs v T))"
  using assms
proof (induction bs v T arbitrary: par rule: rset.induct)
  case (2 v l' a w' r')
  then show ?case using rshape_other [of x _ m l' a] rshape_other [of x _ m r' a] by auto
next
  case (3 b bs v l' a w' r')
  show ?case
  proof (cases b)
    case True
    have s: "rshape m a r'" "distinct (raddrs r')" "sub bs r' = RN l x w r" using "3.prems" True by auto
    have nx: "x \<noteq> a" "x \<notin> set (raddrs l')" using sub_in [OF s(3)] "3.prems"(2) by auto
    obtain q where q: "m x = Some \<lparr>rx_right = rptr r, rx_left = rptr l, rx_parent = q, rx_value = w\<rparr>"
      "\<And>m'. m' x = Some \<lparr>rx_right = rptr r, rx_left = rptr l, rx_parent = q, rx_value = v\<rparr> \<Longrightarrow>
         \<forall>p. p \<noteq> x \<longrightarrow> m' p = m p \<Longrightarrow> rshape m' a (rset bs v r')"
      using "3.IH"(1) [OF True s] by blast
    show ?thesis
    proof (intro exI [of _ q] conjI allI impI q(1))
      fix m'
      assume m': "m' x = Some \<lparr>rx_right = rptr r, rx_left = rptr l, rx_parent = q, rx_value = v\<rparr>"
        "\<forall>p. p \<noteq> x \<longrightarrow> m' p = m p"
      have "rshape m' a l'" using rshape_other [OF m'(2) nx(2), of a] "3.prems"(1) by simp
      moreover have "m' a = m a" using m'(2) nx(1) by metis
      ultimately show "rshape m' par (rset (b # bs) v (RN l' a w' r'))" using q(2) [OF m'] "3.prems"(1) True by simp
    qed
  next
    case False
    have s: "rshape m a l'" "distinct (raddrs l')" "sub bs l' = RN l x w r" using "3.prems" False by auto
    have nx: "x \<noteq> a" "x \<notin> set (raddrs r')" using sub_in [OF s(3)] "3.prems"(2) by auto
    obtain q where q: "m x = Some \<lparr>rx_right = rptr r, rx_left = rptr l, rx_parent = q, rx_value = w\<rparr>"
      "\<And>m'. m' x = Some \<lparr>rx_right = rptr r, rx_left = rptr l, rx_parent = q, rx_value = v\<rparr> \<Longrightarrow>
         \<forall>p. p \<noteq> x \<longrightarrow> m' p = m p \<Longrightarrow> rshape m' a (rset bs v l')"
      using "3.IH"(2) [OF False s] by blast
    show ?thesis
    proof (intro exI [of _ q] conjI allI impI q(1))
      fix m'
      assume m': "m' x = Some \<lparr>rx_right = rptr r, rx_left = rptr l, rx_parent = q, rx_value = v\<rparr>"
        "\<forall>p. p \<noteq> x \<longrightarrow> m' p = m p"
      have "rshape m' a r'" using rshape_other [OF m'(2) nx(2), of a] "3.prems"(1) by simp
      moreover have "m' a = m a" using m'(2) nx(1) by metis
      ultimately show "rshape m' par (rset (b # bs) v (RN l' a w' r'))" using q(2) [OF m'] "3.prems"(1) False by simp
    qed
  qed
qed simp

lemma leafy_rset:
  "sub bs T = RN l x w r \<Longrightarrow> l \<noteq> RE \<or> r \<noteq> RE \<or> v \<noteq> NULL \<Longrightarrow> leafy T \<Longrightarrow> leafy (rset bs v T)"
  by (induction bs v T rule: rset.induct) (auto split: if_splits)

lemma tidy_rset:
  "sub bs T = RN l x w r \<Longrightarrow> l \<noteq> RE \<or> r \<noteq> RE \<or> v \<noteq> NULL \<Longrightarrow> tidy T \<Longrightarrow> tidy (rset bs v T)"
  by (cases "(bs, v, T)" rule: rset.cases) (auto simp: leafy_rset split: if_splits)

text \<open>One round of the removal loop.\<close>

lemma unlink_rnode_ok:
  assumes h: "holds F m t par (if b then RN l a w (RN RE x wx RE) else RN (RN RE x wx RE) a w r) fs"
  shows "\<exists>m'. unlink_rnode x m t = Some (m', t\<lparr>rx_free := x\<rparr>, a) \<and>
    holds F m' (t\<lparr>rx_free := x\<rparr>) par (if b then RN l a w RE else RN RE a w r) (x # fs) \<and> same_on F m m' \<and>
    rnode_at m' a = Some \<lparr>rx_right = (if b then NULL else rptr r), rx_left = (if b then rptr l else NULL),
      rx_parent = par, rx_value = w\<rparr>"
proof -
  let ?o = "if b then l else r"
  have facts: "rnodes m x = Some \<lparr>rx_right = NULL, rx_left = NULL, rx_parent = a, rx_value = wx\<rparr>" "x \<noteq> NULL"
    "rnodes m a = Some \<lparr>rx_right = (if b then x else rptr r), rx_left = (if b then rptr l else x),
      rx_parent = par, rx_value = w\<rparr>" "a \<noteq> NULL" "x \<noteq> a" "x \<notin> F" "a \<notin> F"
    using h by (cases b; auto simp: holds_def)+
  have o: "x \<notin> set (raddrs ?o)" "a \<notin> set (raddrs ?o)" "rshape (rnodes m) a ?o" "x \<notin> set fs" "a \<notin> set fs"
    using h by (cases b; auto simp: holds_def)+
  then have "rptr ?o \<noteq> x" using rptr_in [of ?o] facts(2) by (cases "?o = RE") auto
  then have r: "(if b then x else rptr r) = x \<longleftrightarrow> b" by (cases b) auto
  define na where "na = \<lparr>rx_right = (if b then NULL else rptr r), rx_left = (if b then rptr l else NULL),
    rx_parent = par, rx_value = w\<rparr>"
  define m' where "m' = m\<lparr>rnodes := (rnodes m)(a \<mapsto> na,
    x \<mapsto> \<lparr>rx_right = rx_free t, rx_left = NULL, rx_parent = a, rx_value = wx\<rparr>)\<rparr>"
  have "unlink_rnode x m t = Some (m', t\<lparr>rx_free := x\<rparr>, a)"
    unfolding unlink_rnode_def using facts r by (cases b) (simp_all add: rnode_at_def upd_rnode_def m'_def na_def)
  moreover have "holds F m' (t\<lparr>rx_free := x\<rparr>) par (if b then RN l a w RE else RN RE a w r) (x # fs)"
    using h facts o by (cases b) (auto simp: holds_def m'_def na_def)
  moreover have "same_on F m m'" using facts by (auto simp: same_on_def m'_def)
  moreover have "rnode_at m' a = Some na" using facts by (simp add: rnode_at_def m'_def)
  ultimately show ?thesis unfolding na_def by blast
qed

text \<open>
  The loop from the leaf at the end of a path: it either stops inside the subtree, or it has
  removed everything below the root of the subtree and goes on with that root.
\<close>

definition unlink_stops ::
    "addr set \<Rightarrow> radix_mem \<Rightarrow> radix_tree \<Rightarrow> addr \<Rightarrow> rt \<Rightarrow> bool list \<Rightarrow> (radix_mem \<times> radix_tree) option \<Rightarrow> bool" where
  "unlink_stops F m t par T bs res \<longleftrightarrow> (\<exists>m' t' T' fs'. res = Some (m', t') \<and> holds F m' t' par T' fs' \<and>
     rptr T' = rptr T \<and> same_on F m m' \<and> rx_root t' = rx_root t \<and> rx_count t' = rx_count t \<and>
     rlookup T' = (rlookup T)(bs := NULL) \<and> (tidy T \<longrightarrow> tidy T') \<and> (par \<noteq> NULL \<longrightarrow> leafy T \<longrightarrow> leafy T') \<and>
     rheight T' \<le> rheight T)"

definition unlink_goes_on ::
    "addr set \<Rightarrow> radix_mem \<Rightarrow> radix_tree \<Rightarrow> addr \<Rightarrow> rt \<Rightarrow> bool list \<Rightarrow> (radix_mem \<times> radix_tree) option \<Rightarrow> bool" where
  "unlink_goes_on F m t par T bs res \<longleftrightarrow> (\<exists>m' t' w fs'. res = unlink_loop (rptr T) m' t' \<and>
     holds F m' t' par (RN RE (rptr T) w RE) fs' \<and> same_on F m m' \<and> rx_root t' = rx_root t \<and>
     rx_count t' = rx_count t \<and> (\<forall>cs. cs \<noteq> bs \<longrightarrow> rlookup T cs = NULL) \<and> (bs = [] \<or> par \<noteq> NULL))"

lemma leaf_only: "cs \<noteq> [] \<Longrightarrow> rlookup (RN RE a w RE) cs = NULL"
  by (cases cs) auto

lemma stops_up:
  assumes h: "holds F m t par (RN l a w r) fs"
    and c: "unlink_stops (F \<union> {a} \<union> set (raddrs (if b then l else r))) m t a (if b then r else l) bs res"
    and some: "(if b then r else l) \<noteq> RE"
  shows "unlink_stops F m t par (RN l a w r) (b # bs) res"
proof -
  let ?c = "if b then r else l" and ?o = "if b then l else r"
  obtain m' t' c' fs' where r: "res = Some (m', t')" "holds (F \<union> {a} \<union> set (raddrs ?o)) m' t' a c' fs'"
    "rptr c' = rptr ?c" "same_on (F \<union> {a} \<union> set (raddrs ?o)) m m'" "rx_root t' = rx_root t" "rx_count t' = rx_count t"
    "rlookup c' = (rlookup ?c)(bs := NULL)" "leafy ?c \<longrightarrow> leafy c'" "rheight c' \<le> rheight ?c"
    using c holds_down(3) [OF h] unfolding unlink_stops_def by blast
  have nd: "rnodes m' a = Some \<lparr>rx_right = (if b then rptr c' else rptr r), rx_left = (if b then rptr l else rptr c'),
      rx_parent = par, rx_value = w\<rparr>"
    using same_onD [OF r(4), of a] holds_down(2) [OF h] r(3) by auto
  have k: "same_on (F \<union> set (raddrs ?o)) m m'" using r(4) by (rule same_on_mono) auto
  note up = holds_up [OF h r(2) k nd]
  have T: "RN l a w r = (if b then RN l a w ?c else RN ?c a w r)" by simp
  have look: "rlookup (if b then RN l a w c' else RN c' a w r) = (rlookup (RN l a w r))(b # bs := NULL)"
    unfolding T by (rule rlookup_node_upd [OF r(7)])
  have ne: "c' \<noteq> RE" using some r(3) holds_down(1) [OF h, of b] by (cases b) (auto simp: holds_def rptr_NULL)
  show ?thesis
    unfolding unlink_stops_def
    by (intro exI [of _ m'] exI [of _ t'] exI [of _ "if b then RN l a w c' else RN c' a w r"] exI [of _ fs'])
      (use r(1,5,6,8,9) up look ne in \<open>cases b; auto\<close>)
qed

lemma goes_on_up:
  assumes h: "holds F m t par (RN l a w r) fs"
    and c: "unlink_goes_on (F \<union> {a} \<union> set (raddrs (if b then l else r))) m t a (if b then r else l) bs res"
    and some: "(if b then r else l) \<noteq> RE"
  shows "unlink_stops F m t par (RN l a w r) (b # bs) res \<or> unlink_goes_on F m t par (RN l a w r) (b # bs) res"
proof -
  let ?c = "if b then r else l" and ?o = "if b then l else r"
  obtain m1 t1 w1 fs1 where g: "res = unlink_loop (rptr ?c) m1 t1"
    "holds (F \<union> {a} \<union> set (raddrs ?o)) m1 t1 a (RN RE (rptr ?c) w1 RE) fs1"
    "same_on (F \<union> {a} \<union> set (raddrs ?o)) m m1" "rx_root t1 = rx_root t" "rx_count t1 = rx_count t"
    "\<forall>cs. cs \<noteq> bs \<longrightarrow> rlookup ?c cs = NULL"
    using c unfolding unlink_goes_on_def by blast
  let ?C = "RN RE (rptr ?c) w1 RE"
  have nd: "rnodes m1 a = Some \<lparr>rx_right = (if b then rptr ?C else rptr r), rx_left = (if b then rptr l else rptr ?C),
      rx_parent = par, rx_value = w\<rparr>"
    using same_onD [OF g(3), of a] holds_down(2) [OF h] by auto
  have k: "same_on (F \<union> set (raddrs ?o)) m m1" using g(3) by (rule same_on_mono) auto
  note up = holds_up [OF h g(2) k nd]
  obtain m2 where u: "unlink_rnode (rptr ?c) m1 t1 = Some (m2, t1\<lparr>rx_free := rptr ?c\<rparr>, a)"
    "holds F m2 (t1\<lparr>rx_free := rptr ?c\<rparr>) par (if b then RN l a w RE else RN RE a w r) (rptr ?c # fs1)"
    "same_on F m1 m2"
    "rnode_at m2 a = Some \<lparr>rx_right = (if b then NULL else rptr r), rx_left = (if b then rptr l else NULL),
      rx_parent = par, rx_value = w\<rparr>"
    using unlink_rnode_ok [OF up(1)] by blast
  have same: "same_on F m m2" using same_on_trans [OF up(2) u(3)] .
  have T: "RN l a w r = (if b then RN l a w ?c else RN ?c a w r)" by simp
  have "rlookup RE = (rlookup ?c)(bs := NULL)" by (rule ext) (use g(6) in simp)
  then have look: "rlookup (if b then RN l a w RE else RN RE a w r) = (rlookup (RN l a w r))(b # bs := NULL)"
    unfolding T by (rule rlookup_node_upd)
  have o: "rptr ?o = NULL \<longleftrightarrow> ?o = RE" using h by (cases b) (auto simp: holds_def rptr_NULL)
  have loop: "res = (if ?o \<noteq> RE \<or> w \<noteq> NULL \<or> par = NULL then Some (m2, t1\<lparr>rx_free := rptr ?c\<rparr>)
      else unlink_loop a m2 (t1\<lparr>rx_free := rptr ?c\<rparr>))"
    unfolding g(1) using u(1,4) o by (subst unlink_loop.simps) (cases b; auto)
  show ?thesis
  proof (cases "?o \<noteq> RE \<or> w \<noteq> NULL \<or> par = NULL")
    case True
    then have "unlink_stops F m t par (RN l a w r) (b # bs) res"
      unfolding unlink_stops_def loop
      by (intro exI [of _ m2] exI [of _ "t1\<lparr>rx_free := rptr ?c\<rparr>"] exI [of _ "if b then RN l a w RE else RN RE a w r"]
          exI [of _ "rptr ?c # fs1"]) (use g(4,5) u(2) same look True in \<open>cases b; auto\<close>)
    then show ?thesis ..
  next
    case False
    have "rlookup (RN l a w r) cs = NULL" if "cs \<noteq> b # bs" for cs
      using that False g(6) by (cases cs; cases b; auto split: if_splits)
    then have "unlink_goes_on F m t par (RN l a w r) (b # bs) res"
      unfolding unlink_goes_on_def loop using False g(4,5) u(2) same
      by (intro exI [of _ m2] exI [of _ "t1\<lparr>rx_free := rptr ?c\<rparr>"] exI [of _ w] exI [of _ "rptr ?c # fs1"])
        (cases b; auto)
    then show ?thesis ..
  qed
qed

lemma unlink_loop_ok:
  "holds F m t par T fs \<Longrightarrow> sub bs T = RN RE x wx RE \<Longrightarrow>
   unlink_stops F m t par T bs (unlink_loop x m t) \<or> unlink_goes_on F m t par T bs (unlink_loop x m t)"
proof (induction bs arbitrary: F par T)
  case Nil
  then have "unlink_goes_on F m t par T [] (unlink_loop x m t)"
    unfolding unlink_goes_on_def using leaf_only by (auto intro!: exI [of _ m] exI [of _ t])
  then show ?case ..
next
  case (Cons b bs)
  then obtain l a w r where T: "T = RN l a w r" "sub bs (if b then r else l) = RN RE x wx RE" by (cases T) auto
  note h = Cons.prems(1) [unfolded T(1)]
  have "(if b then r else l) \<noteq> RE" using T(2) by (cases bs) auto
  then show ?case
    using Cons.IH [OF holds_down(1) [OF h, of b] T(2)] stops_up [OF h, of b] goes_on_up [OF h, of b] unfolding T(1) by blast
qed

lemma leafy_sub: "leafy T \<Longrightarrow> leafy (sub bs T)"
  by (induction bs T rule: sub.induct) auto

lemma tidy_sub: "tidy T \<Longrightarrow> bs \<noteq> [] \<Longrightarrow> leafy (sub bs T)"
  by (cases T; cases bs) (auto intro: leafy_sub)

lemma shape_sub: "rshape m p T \<Longrightarrow> \<exists>q. rshape m q (sub bs T)"
proof (induction bs arbitrary: p T)
  case (Cons b bs)
  then show ?case by (cases T) (auto split: if_splits)
qed auto

text \<open>What \<open>radix_tree_delete_node\<close> finds at the end of the path decides what it does.\<close>

lemma delete_node_cases:
  assumes h: "holds {} m t NULL T fs" and root: "rptr T = rx_root t" "T \<noteq> RE"
  shows "sub (kbits key 0 (unat msk)) T = RE \<Longrightarrow> radix_tree_delete_node m t key msk = Some (m, t, FAILED)"
    and "sub (kbits key 0 (unat msk)) T = RN l x w r \<Longrightarrow> l \<noteq> RE \<or> r \<noteq> RE \<Longrightarrow>
      \<exists>m'. radix_tree_delete_node m t key msk =
          (if w \<noteq> NULL then Some (m', t\<lparr>rx_count := rx_count t - 1\<rparr>, SUCCEED) else Some (m, t, FAILED)) \<and>
        holds {} m' t NULL (rset (kbits key 0 (unat msk)) NULL T) fs"
    and "sub (kbits key 0 (unat msk)) T = RN RE x w RE \<Longrightarrow>
      radix_tree_delete_node m t key msk =
        map_option (\<lambda>(m1, t1). (m1, t1\<lparr>rx_count := rx_count t1 - 1\<rparr>, SUCCEED)) (unlink_loop x m t)"
proof -
  let ?bs = "kbits key 0 (unat msk)"
  have sh: "rshape (rnodes m) NULL T" "distinct (raddrs T)" using h by (auto simp: holds_def)
  have walk: "delete_walk (unat msk) key 0x80000000 (rx_root t) m = Some (rptr (sub ?bs T))"
    using delete_walk_ok [OF sh(1), of "unat msk" key 0] root(1) by simp
  show "radix_tree_delete_node m t key msk = Some (m, t, FAILED)" if "sub ?bs T = RE"
    using walk that by (simp add: radix_tree_delete_node_def)
  have node: "\<exists>q. rnode_at m x = Some \<lparr>rx_right = rptr r, rx_left = rptr l, rx_parent = q, rx_value = w\<rparr> \<and> x \<noteq> NULL \<and>
      (rptr r \<noteq> NULL \<or> rptr l \<noteq> NULL \<longleftrightarrow> l \<noteq> RE \<or> r \<noteq> RE) \<and>
      (\<forall>m'. m' x = Some \<lparr>rx_right = rptr r, rx_left = rptr l, rx_parent = q, rx_value = NULL\<rparr> \<longrightarrow>
         (\<forall>p. p \<noteq> x \<longrightarrow> m' p = rnodes m p) \<longrightarrow> rshape m' NULL (rset ?bs NULL T))"
    if s: "sub ?bs T = RN l x w r" for l x w r
  proof -
    have "x \<noteq> NULL" using sub_in [OF s] h by (auto simp: holds_def)
    moreover have "rptr r \<noteq> NULL \<or> rptr l \<noteq> NULL \<longleftrightarrow> l \<noteq> RE \<or> r \<noteq> RE"
    proof -
      obtain q where "rshape (rnodes m) q (RN l x w r)" using shape_sub [OF sh(1), of ?bs] s by metis
      then have "rshape (rnodes m) x l" "rshape (rnodes m) x r" by simp_all
      then show ?thesis using rptr_NULL by metis
    qed
    ultimately show ?thesis using rset_shape [OF sh s, of NULL] by (simp add: rnode_at_def)
  qed
  show "\<exists>m'. radix_tree_delete_node m t key msk =
          (if w \<noteq> NULL then Some (m', t\<lparr>rx_count := rx_count t - 1\<rparr>, SUCCEED) else Some (m, t, FAILED)) \<and>
        holds {} m' t NULL (rset ?bs NULL T) fs"
    if s: "sub ?bs T = RN l x w r" and ch: "l \<noteq> RE \<or> r \<noteq> RE"
  proof -
    obtain q where q: "rnode_at m x = Some \<lparr>rx_right = rptr r, rx_left = rptr l, rx_parent = q, rx_value = w\<rparr>" "x \<noteq> NULL"
      "rptr r \<noteq> NULL \<or> rptr l \<noteq> NULL"
      "\<And>m'. m' x = Some \<lparr>rx_right = rptr r, rx_left = rptr l, rx_parent = q, rx_value = NULL\<rparr> \<Longrightarrow>
         \<forall>p. p \<noteq> x \<longrightarrow> m' p = rnodes m p \<Longrightarrow> rshape m' NULL (rset ?bs NULL T)"
      using node [OF s] ch by blast
    define nd where "nd = \<lparr>rx_right = rptr r, rx_left = rptr l, rx_parent = q, rx_value = (NULL :: addr)\<rparr>"
    define m' where "m' = m\<lparr>rnodes := (rnodes m)(x \<mapsto> nd)\<rparr>"
    have "radix_tree_delete_node m t key msk =
        (if w \<noteq> NULL then Some (m', t\<lparr>rx_count := rx_count t - 1\<rparr>, SUCCEED) else Some (m, t, FAILED))"
      using walk s q(1-3) by (auto simp: radix_tree_delete_node_def upd_rnode_def m'_def nd_def)
    moreover have "rshape (rnodes m') NULL (rset ?bs NULL T)" by (rule q(4)) (simp_all add: m'_def nd_def)
    moreover have x: "x \<in> set (raddrs T)" by (rule sub_in [OF s])
    moreover have "x \<notin> set fs" "x \<in> dom (rnodes m)" using h x by (auto simp: holds_def)
    moreover have "flist (rnodes m') (rx_free t) fs" using h \<open>x \<notin> set fs\<close> by (simp add: holds_def m'_def)
    ultimately show ?thesis using h by (intro exI [of _ m']) (auto simp: holds_def m'_def insert_absorb)
  qed
  show "radix_tree_delete_node m t key msk =
        map_option (\<lambda>(m1, t1). (m1, t1\<lparr>rx_count := rx_count t1 - 1\<rparr>, SUCCEED)) (unlink_loop x m t)"
    if s: "sub ?bs T = RN RE x w RE"
    using walk s node [OF s] by (auto simp: radix_tree_delete_node_def map_option_case split: option.splits)
qed

section \<open>Search\<close>

fun rpath :: "rt \<Rightarrow> (nat \<Rightarrow> bool) \<Rightarrow> nat \<Rightarrow> addr \<Rightarrow> addr" where
  "rpath RE K i v = v"
| "rpath (RN l a w r) K i v = rpath (if K i then r else l) K (Suc i) (if w \<noteq> NULL then w else v)"

lemma radix_find_loop_ok:
  "rshape (rnodes m) par T \<Longrightarrow> find_loop m key (drop_bit i 0x80000000) v (rptr T) = Some (rpath T (kbit key) i v)"
proof (induction T arbitrary: par i v)
  case (RN l a w r)
  have nd: "rnode_at m a = Some \<lparr>rx_right = rptr r, rx_left = rptr l, rx_parent = par, rx_value = w\<rparr>" "a \<noteq> NULL"
    "rshape (rnodes m) a l" "rshape (rnodes m) a r"
    using RN.prems by (auto simp: rnode_at_def)
  have step: "find_loop m key bt v a = find_loop m key (drop_bit 1 bt) (if w \<noteq> NULL then w else v)
      (child_of key bt \<lparr>rx_right = rptr r, rx_left = rptr l, rx_parent = par, rx_value = w\<rparr>)" for bt
    using nd by (subst find_loop.simps) simp
  show ?case
    using step [of "drop_bit i 0x80000000"] RN.IH(1) [OF nd(3), of "Suc i"] RN.IH(2) [OF nd(4), of "Suc i"]
    unfolding shift_bit by (simp add: child_of_at)
qed (subst find_loop.simps, simp)

text \<open>The value at the longest prefix of a path that has one.\<close>

definition longest_prefix :: "(bool list \<Rightarrow> addr) \<Rightarrow> (nat \<Rightarrow> bool) \<Rightarrow> nat \<Rightarrow> nat \<Rightarrow> addr \<Rightarrow> addr" where
  "longest_prefix M K i n v = last (v # filter (\<lambda>w. w \<noteq> NULL) (map (\<lambda>j. M (map K [i..<i + j])) [0..<n]))"

lemma rpath_longest:
  "rheight T \<le> n \<Longrightarrow> rpath T K i v = longest_prefix (rlookup T) K i n v"
proof (induction T arbitrary: i n v)
  case RE
  then show ?case by (simp add: longest_prefix_def)
next
  case (RN l a w r)
  then obtain k where n: "n = Suc k" "rheight l \<le> k" "rheight r \<le> k" by (cases n) auto
  have b: "[0..<Suc k] = 0 # map Suc [0..<k]" by (simp add: upt_conv_Cons map_Suc_upt del: upt_Suc)
  have p: "map K [i..<Suc (i + j)] = K i # map K [Suc i..<Suc (i + j)]" for j
    by (simp add: upt_conv_Cons del: upt_Suc)
  have "longest_prefix (rlookup (RN l a w r)) K i n v =
      longest_prefix (rlookup (if K i then r else l)) K (Suc i) k (if w \<noteq> NULL then w else v)"
    unfolding longest_prefix_def n(1) b
    by (simp add: p comp_def del: upt_Suc)
  then show ?case using RN.IH(1) [OF n(2)] RN.IH(2) [OF n(3)] by simp
qed

end
