(* ===== verification/Radix_Props.thy ===== *)
theory Radix_Props
  imports Radix_Spec
begin

text \<open>
  The contract of the trie in terms of the map from prefixes to values, and the properties of the
  public operations. A prefix is a list of at most 32 bits; the value \<open>NULL\<close> means that there is
  none.
\<close>

unbundle bit_operations_syntax

section \<open>The contract\<close>

definition radix_rep :: "radix_mem \<Rightarrow> radix_tree \<Rightarrow> rt \<Rightarrow> bool" where
  "radix_rep m t T \<longleftrightarrow> T \<noteq> RE \<and> rptr T = rx_root t \<and> (\<exists>fs. holds {} m t NULL T fs) \<and> rheight T \<le> 33"

definition radix_model :: "radix_mem \<Rightarrow> radix_tree \<Rightarrow> (bool list \<Rightarrow> addr) \<Rightarrow> bool" where
  "radix_model m t M \<longleftrightarrow> (\<exists>T. radix_rep m t T \<and> tidy T \<and> rlookup T = M) \<and>
     rx_count t = of_nat (card {bs. M bs \<noteq> NULL})"

text \<open>After an insertion that ran out of memory there may be leaves without a value.\<close>

definition radix_partial :: "radix_mem \<Rightarrow> radix_tree \<Rightarrow> (bool list \<Rightarrow> addr) \<Rightarrow> bool" where
  "radix_partial m t M \<longleftrightarrow> (\<exists>T. radix_rep m t T \<and> rlookup T = M)"

definition prefix_of :: "u32 \<Rightarrow> u32 \<Rightarrow> bool list" where
  "prefix_of key msk = kbits key 0 (unat msk)"

fun rpaths :: "rt \<Rightarrow> bool list list" where
  "rpaths RE = []"
| "rpaths (RN l a v r) = map ((#) False) (rpaths l) @ (if v \<noteq> NULL then [[]] else []) @ map ((#) True) (rpaths r)"

lemma rpaths_set: "set (rpaths T) = {bs. rlookup T bs \<noteq> NULL}"
proof (induction T)
  case (RN l a v r)
  have "bs \<in> set (rpaths (RN l a v r)) \<longleftrightarrow> rlookup (RN l a v r) bs \<noteq> NULL" for bs
    using RN by (cases bs) (auto simp: image_iff)
  then show ?case by blast
qed simp

lemma rpaths_distinct: "distinct (rpaths T)"
  by (induction T) (auto simp: distinct_map)

lemma finite_values: "finite {bs. rlookup T bs \<noteq> NULL}"
  by (metis rpaths_set finite_set)

lemma card_insert_value:
  "finite {bs. M bs \<noteq> NULL} \<Longrightarrow> M b = NULL \<Longrightarrow> v \<noteq> NULL \<Longrightarrow>
   card {bs. (M(b := v)) bs \<noteq> NULL} = Suc (card {bs. M bs \<noteq> NULL})"
proof -
  assume a: "finite {bs. M bs \<noteq> NULL}" "M b = NULL" "v \<noteq> NULL"
  have "{bs. (M(b := v)) bs \<noteq> NULL} = insert b {bs. M bs \<noteq> NULL}" using a by auto
  then show ?thesis using a by simp
qed

lemma card_delete_value:
  "finite {bs. M bs \<noteq> NULL} \<Longrightarrow> M b \<noteq> NULL \<Longrightarrow>
   of_nat (card {bs. (M(b := NULL)) bs \<noteq> NULL}) = (of_nat (card {bs. M bs \<noteq> NULL}) - 1 :: u32)"
proof -
  assume a: "finite {bs. M bs \<noteq> NULL}" "M b \<noteq> NULL"
  have "{bs. M bs \<noteq> NULL} = insert b {bs. (M(b := NULL)) bs \<noteq> NULL}" using a by auto
  moreover have "finite {bs. (M(b := NULL)) bs \<noteq> NULL}" using a(1) by (rule rev_finite_subset) auto
  ultimately show ?thesis by simp
qed

section \<open>Memory\<close>

lemma alloc_brk:
  assumes "radix_tree_alloc m t = Some (m1, t1, p)"
  shows "rlimit m1 = rlimit m" "rbrk m1 \<le> rbrk m + 1" "rbrk m \<le> rbrk m1"
    "rbrk m < rlimit m \<Longrightarrow> 0 < rbrk m \<Longrightarrow> p \<noteq> NULL"
  using assms by (auto simp: radix_tree_alloc_def malloc_rnode_def upd_rnode_def Let_def
      split: if_splits elim!: bind_eq_SomeE)

lemma upd_brk: "upd_rnode p f m = Some m1 \<Longrightarrow> rlimit m1 = rlimit m \<and> rbrk m1 = rbrk m"
  by (auto simp: upd_rnode_def elim!: bind_eq_SomeE)

lemma grow_brk:
  "insert_grow n key bt node m t = Some (m1, t1, p) \<Longrightarrow> 0 < rbrk m \<Longrightarrow> node \<noteq> NULL \<Longrightarrow>
   rlimit m1 = rlimit m \<and> rbrk m1 \<le> rbrk m + n \<and> (rbrk m + n \<le> rlimit m \<longrightarrow> p \<noteq> NULL)"
proof (induction n arbitrary: bt node m t)
  case (Suc n)
  obtain m2 t2 q where a: "radix_tree_alloc m t = Some (m2, t2, q)"
    using Suc.prems(1) by (auto elim!: bind_eq_SomeE)
  note b = alloc_brk [OF a]
  show ?case
  proof (cases "q = NULL")
    case True
    then show ?thesis using Suc.prems a b by auto
  next
    case False
    obtain m3 m4 where u: "rlimit m4 = rlimit m2" "rbrk m4 = rbrk m2"
      "insert_grow n key (drop_bit 1 bt) q m4 t2 = Some (m1, t1, p)"
      using Suc.prems(1) a False by (auto elim!: bind_eq_SomeE dest!: upd_brk)
    show ?thesis using Suc.IH [OF u(3)] False b u(1,2) Suc.prems(2) by simp
  qed
qed auto

lemma insert_walk_bound:
  "insert_walk n key bt node m = Some (node1, nxt, bt1, k) \<Longrightarrow> node \<noteq> NULL \<Longrightarrow> k \<le> n \<and> node1 \<noteq> NULL"
  by (induction n key bt node m rule: insert_walk.induct) (auto elim!: bind_eq_SomeE split: if_splits)

lemma insert_brk:
  assumes "radix_tree_insert_node m t key msk v = Some (m1, t1, res)" "0 < rbrk m" "rx_root t \<noteq> NULL"
  shows "rlimit m1 = rlimit m" "rbrk m1 \<le> rbrk m + unat msk" "rbrk m + unat msk \<le> rlimit m \<Longrightarrow> res \<noteq> NO_MEMORY"
proof -
  obtain node nxt bt k where w: "insert_walk (unat msk) key 0x80000000 (rx_root t) m = Some (node, nxt, bt, k)"
    using assms(1) by (auto simp: radix_tree_insert_node_def elim!: bind_eq_SomeE)
  note k = insert_walk_bound [OF w assms(3)]
  have "rlimit m1 = rlimit m \<and> rbrk m1 \<le> rbrk m + unat msk \<and> (rbrk m + unat msk \<le> rlimit m \<longrightarrow> res \<noteq> NO_MEMORY)"
  proof (cases "nxt = NULL")
    case True
    obtain m2 t2 p where g: "insert_grow k key bt node m t = Some (m2, t2, p)"
      using assms(1) w True by (auto simp: radix_tree_insert_node_def elim!: bind_eq_SomeE)
    show ?thesis
      using assms(1,2) w True g grow_brk [OF g] k
      by (auto simp: radix_tree_insert_node_def elim!: bind_eq_SomeE dest!: upd_brk split: if_splits)
  next
    case False
    then show ?thesis using assms(1) w
      by (auto simp: radix_tree_insert_node_def elim!: bind_eq_SomeE dest!: upd_brk split: if_splits)
  qed
  then show "rlimit m1 = rlimit m" "rbrk m1 \<le> rbrk m + unat msk" "rbrk m + unat msk \<le> rlimit m \<Longrightarrow> res \<noteq> NO_MEMORY"
    by auto
qed

section \<open>Insertion, deletion and search\<close>

lemma rep_RN:
  assumes "radix_rep m t T"
  obtains l a w r fs where "T = RN l a w r" "rx_root t = a" "holds {} m t NULL (RN l a w r) fs" "a \<noteq> NULL" "0 < rbrk m"
  using assms by (cases T) (auto simp: radix_rep_def holds_def)

text \<open>One insertion on a trie; with \<open>tidy\<close> only when it succeeds.\<close>

lemma insert_rep:
  assumes rep: "radix_rep m t T" and msk: "unat msk \<le> 32" and v: "v \<noteq> NULL"
  obtains m' t' res T' where "radix_tree_insert_node m t key msk v = Some (m', t', res)"
    "radix_rep m' t' T'"
    "rlookup T (prefix_of key msk) \<noteq> NULL \<longrightarrow> res = DUP_KEY \<and> m' = m \<and> t' = t \<and> T' = T"
    "rlookup T (prefix_of key msk) = NULL \<longrightarrow>
       res = SUCCEED \<and> rlookup T' = (rlookup T)(prefix_of key msk := v) \<and> rx_count t' = rx_count t + 1 \<and> (tidy T \<longrightarrow> tidy T') \<or>
       res = NO_MEMORY \<and> rlookup T' = rlookup T \<and> rx_count t' = rx_count t"
    "rlimit m' = rlimit m" "rbrk m' \<le> rbrk m + unat msk" "rbrk m + unat msk \<le> rlimit m \<longrightarrow> res \<noteq> NO_MEMORY"
proof -
  obtain l a w r fs where T: "T = RN l a w r" "rx_root t = a" "holds {} m t NULL (RN l a w r) fs" "a \<noteq> NULL" "0 < rbrk m"
    by (rule rep_RN [OF rep])
  have "ins_post {} m t NULL (RN l a w r) (prefix_of key msk) v (radix_tree_insert_node m t key msk v)"
    using ins_from_ok [OF T(3), of key 0 "unat msk" v] T(2) by (simp add: insert_node_from prefix_of_def)
  then obtain m' t' res T' fs' where r: "radix_tree_insert_node m t key msk v = Some (m', t', res)"
    "holds {} m' t' NULL T' fs'" "rptr T' = a" "rx_root t' = rx_root t"
    "if rlookup T (prefix_of key msk) \<noteq> NULL then res = DUP_KEY \<and> m' = m \<and> t' = t \<and> T' = T
     else res = SUCCEED \<and> rlookup T' = (rlookup T)(prefix_of key msk := v) \<and> rx_count t' = rx_count t + 1 \<and>
          (v \<noteq> NULL \<longrightarrow> (leafy T \<longrightarrow> leafy T') \<and> (tidy T \<longrightarrow> tidy T')) \<or>
          res = NO_MEMORY \<and> rlookup T' = rlookup T \<and> rx_count t' = rx_count t"
    "rheight T' \<le> max (rheight T) (Suc (length (prefix_of key msk)))"
    unfolding ins_post_def T(1) by auto
  have "T' \<noteq> RE" using r(2,3) T(4) by (cases T') auto
  moreover have "rheight T' \<le> 33"
    using r(6) rep msk by (auto simp: radix_rep_def prefix_of_def)
  ultimately have "radix_rep m' t' T'" using r(2-4) T(2) unfolding radix_rep_def by metis
  then show thesis
    by (rule that [OF r(1)]) (use r(5) v insert_brk [OF r(1) T(5)] T(2,4) in \<open>auto split: if_splits\<close>)
qed

text \<open>C30. \<open>radix_tree_insert_node\<close> refines the insertion into a map: a prefix that has a value is
  refused without a change; otherwise the value is entered and counted, or the memory ran out,
  which needs fewer free addresses than the mask is long, and no prefix has changed its value.\<close>

theorem radix_insert_refines:
  assumes "radix_model m t M" "unat msk \<le> 32" "v \<noteq> NULL"
  shows "\<exists>m' t' res. radix_tree_insert_node m t key msk v = Some (m', t', res) \<and>
    (if M (prefix_of key msk) \<noteq> NULL then res = DUP_KEY \<and> m' = m \<and> t' = t
     else res = SUCCEED \<and> radix_model m' t' (M(prefix_of key msk := v)) \<or>
          res = NO_MEMORY \<and> rlimit m < rbrk m + unat msk \<and> radix_partial m' t' M \<and> rx_count t' = rx_count t)"
proof -
  obtain T where T: "radix_rep m t T" "tidy T" "rlookup T = M" "rx_count t = of_nat (card {bs. M bs \<noteq> NULL})"
    using assms(1) by (auto simp: radix_model_def)
  obtain m' t' res T' where r: "radix_tree_insert_node m t key msk v = Some (m', t', res)" "radix_rep m' t' T'"
    "rlookup T (prefix_of key msk) \<noteq> NULL \<longrightarrow> res = DUP_KEY \<and> m' = m \<and> t' = t \<and> T' = T"
    "rlookup T (prefix_of key msk) = NULL \<longrightarrow>
       res = SUCCEED \<and> rlookup T' = (rlookup T)(prefix_of key msk := v) \<and> rx_count t' = rx_count t + 1 \<and> (tidy T \<longrightarrow> tidy T') \<or>
       res = NO_MEMORY \<and> rlookup T' = rlookup T \<and> rx_count t' = rx_count t"
    "rbrk m + unat msk \<le> rlimit m \<longrightarrow> res \<noteq> NO_MEMORY"
    by (rule insert_rep [OF T(1) assms(2,3), of key])
  have fin: "finite {bs. M bs \<noteq> NULL}" using finite_values [of T] T(3) by simp
  show ?thesis
  proof (cases "M (prefix_of key msk) = NULL")
    case True
    note c = card_insert_value [OF fin True assms(3)]
    from r(4) True T(3) consider
      (ok) "res = SUCCEED" "rlookup T' = M(prefix_of key msk := v)" "rx_count t' = rx_count t + 1" "tidy T'"
      | (full) "res = NO_MEMORY" "rlookup T' = M" "rx_count t' = rx_count t" using T(2) by auto
    then show ?thesis
    proof cases
      case ok
      have "radix_model m' t' (M(prefix_of key msk := v))"
        unfolding radix_model_def using ok r(2) T(4) c by (auto simp del: fun_upd_apply)
      then show ?thesis using r(1) ok(1) True by auto
    next
      case full
      then show ?thesis using r(1,2,5) True by (auto simp: radix_partial_def)
    qed
  next
    case False
    then show ?thesis using r(1,3) T(3) by auto
  qed
qed

lemma delete_rep:
  assumes rep: "radix_rep m t T" and tidy: "tidy T" and msk: "0 < unat msk"
  shows "if rlookup T (prefix_of key msk) = NULL then radix_tree_delete_node m t key msk = Some (m, t, FAILED)
    else \<exists>m' t' T'. radix_tree_delete_node m t key msk = Some (m', t', SUCCEED) \<and> radix_rep m' t' T' \<and> tidy T' \<and>
      rlookup T' = (rlookup T)(prefix_of key msk := NULL) \<and> rx_count t' = rx_count t - 1"
proof -
  obtain fs where h: "holds {} m t NULL T fs" and root: "rptr T = rx_root t" "T \<noteq> RE" and ht: "rheight T \<le> 33"
    using rep by (auto simp: radix_rep_def)
  define bs where "bs = prefix_of key msk"
  have bs: "bs \<noteq> []" using msk by (auto simp: bs_def prefix_of_def kbits_def)
  note cs = delete_node_cases [OF h root, where key = key and msk = msk, folded prefix_of_def, folded bs_def]
  show ?thesis
  proof (cases "sub bs T")
    case RE
    then show ?thesis using cs(1) by (simp add: rlookup_def bs_def)
  next
    case (RN l x w r)
    have look: "rlookup T bs = w" using RN by (simp add: rlookup_def)
    show ?thesis
    proof (cases "l = RE \<and> r = RE")
      case True
      have "w \<noteq> NULL" using tidy_sub [OF tidy bs] RN True by auto
      have s: "sub bs T = RN RE x w RE" using RN True by simp
      have "unlink_stops {} m t NULL T bs (unlink_loop x m t)"
        using unlink_loop_ok [OF h s] bs by (auto simp: unlink_goes_on_def)
      then obtain m' t' T' fs' where u: "unlink_loop x m t = Some (m', t')" "holds {} m' t' NULL T' fs'" "rptr T' = rptr T"
        "rx_root t' = rx_root t" "rx_count t' = rx_count t" "rlookup T' = (rlookup T)(bs := NULL)" "tidy T'"
        "rheight T' \<le> rheight T"
        using tidy unfolding unlink_stops_def by auto
      have "T' \<noteq> RE" using u(2,3) root h by (cases T'; cases T) (auto simp: holds_def)
      moreover have "holds {} m' (t'\<lparr>rx_count := rx_count t' - 1\<rparr>) NULL T' fs'" using u(2) by (simp add: holds_def)
      ultimately have "radix_rep m' (t'\<lparr>rx_count := rx_count t' - 1\<rparr>) T'"
        unfolding radix_rep_def using u(3,4,8) root ht by auto
      then show ?thesis
        using cs(3) [OF s] u(1,5,6,7) look \<open>w \<noteq> NULL\<close> unfolding bs_def [symmetric] by auto
    next
      case False
      then obtain m' where d: "radix_tree_delete_node m t key msk =
          (if w \<noteq> NULL then Some (m', t\<lparr>rx_count := rx_count t - 1\<rparr>, SUCCEED) else Some (m, t, FAILED))"
        "holds {} m' t NULL (rset bs NULL T) fs"
        using cs(2) [OF RN] by auto
      have "radix_rep m' (t\<lparr>rx_count := rx_count t - 1\<rparr>) (rset bs NULL T)"
        unfolding radix_rep_def using d(2) root ht by (auto simp: holds_def)
      moreover have "rlookup (rset bs NULL T) = (rlookup T)(bs := NULL)" using rlookup_rset [of bs T NULL] RN by simp
      moreover have "tidy (rset bs NULL T)" using tidy_rset [OF RN] False tidy by auto
      ultimately show ?thesis using d(1) look unfolding bs_def [symmetric] by auto
    qed
  qed
qed

text \<open>C31. \<open>radix_tree_delete_node\<close> refines the deletion from a map: a prefix without a value is
  refused without a change, otherwise the value is gone and the count is lower by one; the nodes
  that became useless went to the free list and no empty leaf is left.\<close>

theorem radix_delete_refines:
  assumes "radix_model m t M" "0 < unat msk"
  shows "if M (prefix_of key msk) = NULL then radix_tree_delete_node m t key msk = Some (m, t, FAILED)
    else \<exists>m' t'. radix_tree_delete_node m t key msk = Some (m', t', SUCCEED) \<and>
      radix_model m' t' (M(prefix_of key msk := NULL))"
proof -
  obtain T where T: "radix_rep m t T" "tidy T" "rlookup T = M" "rx_count t = of_nat (card {bs. M bs \<noteq> NULL})"
    using assms(1) by (auto simp: radix_model_def)
  have fin: "finite {bs. M bs \<noteq> NULL}" using finite_values [of T] T(3) by simp
  show ?thesis
  proof (cases "M (prefix_of key msk) = NULL")
    case True
    then show ?thesis using delete_rep [OF T(1,2) assms(2), of key] T(3) by simp
  next
    case False
    then obtain m' t' T' where d: "radix_tree_delete_node m t key msk = Some (m', t', SUCCEED)" "radix_rep m' t' T'"
      "tidy T'" "rlookup T' = M(prefix_of key msk := NULL)" "rx_count t' = rx_count t - 1"
      using delete_rep [OF T(1,2) assms(2), of key] T(3) by auto
    have "radix_model m' t' (M(prefix_of key msk := NULL))"
      unfolding radix_model_def using d(2-5) T(4) card_delete_value [OF fin False] by (auto simp del: fun_upd_apply)
    then show ?thesis using d(1) False by auto
  qed
qed

section \<open>From a fresh tree\<close>

definition fresh_memory :: "radix_mem \<Rightarrow> bool" where
  "fresh_memory m \<longleftrightarrow> rnodes m = Map.empty \<and> 0 < rbrk m"

lemma created_radix:
  assumes "fresh_memory m" "rbrk m < rlimit m"
  obtains m' t where "radix_tree_create True m = Some (m', Some t)" "radix_model m' t (\<lambda>_. NULL)"
    "rlimit m' = rlimit m" "rbrk m' = rbrk m + 1"
proof -
  let ?t = "\<lparr>rx_root = rbrk m, rx_free = NULL, rx_count = 0\<rparr>"
  define m' where "m' = m\<lparr>rnodes := (rnodes m)(rbrk m \<mapsto> empty_rnode), rbrk := rbrk m + 1\<rparr>"
  have "radix_tree_create True m = Some (m', Some ?t)"
    using assms by (simp add: radix_tree_create_def radix_tree_alloc_def malloc_rnode_def upd_rnode_def rnode_at_def
        fresh_memory_def m'_def empty_rnode_def)
  moreover have "radix_rep m' ?t (RN RE (rbrk m) NULL RE)"
    using assms by (auto simp: radix_rep_def holds_def m'_def fresh_memory_def empty_rnode_def intro!: exI [of _ "[]"])
  moreover have "rlookup (RN RE (rbrk m) NULL RE) = (\<lambda>_. NULL)"
  proof
    fix cs
    show "rlookup (RN RE (rbrk m) NULL RE) cs = NULL" by (cases cs) auto
  qed
  ultimately have "radix_model m' ?t (\<lambda>_. NULL)"
    unfolding radix_model_def by (intro conjI exI [of _ "RN RE (rbrk m) NULL RE"]) simp_all
  then show thesis by (rule that [OF \<open>radix_tree_create True m = Some (m', Some ?t)\<close>]) (simp_all add: m'_def)
qed

definition small_memory :: radix_mem where
  "small_memory = \<lparr>rnodes = Map.empty, rbrk = 1, rlimit = 1000\<rparr>"

lemma small_fresh: "fresh_memory small_memory" "rbrk small_memory = 1" "rlimit small_memory = 1000"
  by (simp_all add: fresh_memory_def small_memory_def)

lemma empty_exists: obtains m t where "radix_model m t (\<lambda>_. NULL)" "rlimit m = 1000" "rbrk m = 2"
proof -
  have "rbrk small_memory < rlimit small_memory" using small_fresh by simp
  then obtain m t where "radix_model m t (\<lambda>_. NULL)" "rlimit m = rlimit small_memory" "rbrk m = rbrk small_memory + 1"
    using created_radix [OF small_fresh(1)] by metis
  then show thesis using that small_fresh(2,3) by simp
qed

text \<open>Insertion of a table of routes, by the code and by its specification.\<close>

fun insert_routes ::
    "radix_mem \<Rightarrow> radix_tree \<Rightarrow> (u32 \<times> u32 \<times> addr) list \<Rightarrow> (radix_mem \<times> radix_tree \<times> result_t list) option" where
  "insert_routes m t [] = Some (m, t, [])"
| "insert_routes m t ((key, msk, v) # es) = do {
     (m1, t1, r) \<leftarrow> radix_tree_insert_node m t key msk v;
     (m2, t2, rs) \<leftarrow> insert_routes m1 t1 es;
     Some (m2, t2, r # rs)
   }"

fun routes_spec :: "(bool list \<Rightarrow> addr) \<Rightarrow> (u32 \<times> u32 \<times> addr) list \<Rightarrow> (bool list \<Rightarrow> addr) \<times> result_t list" where
  "routes_spec M [] = (M, [])"
| "routes_spec M ((key, msk, v) # es) =
     (if M (prefix_of key msk) \<noteq> NULL then (case routes_spec M es of (M1, rs) \<Rightarrow> (M1, DUP_KEY # rs))
      else case routes_spec (M(prefix_of key msk := v)) es of (M1, rs) \<Rightarrow> (M1, SUCCEED # rs))"

lemma insert_routes_ok:
  "radix_model m t M \<Longrightarrow> \<forall>(key, msk, v) \<in> set es. unat msk \<le> 32 \<and> v \<noteq> NULL \<Longrightarrow>
   rbrk m + 32 * length es \<le> rlimit m \<Longrightarrow>
   \<exists>m' t'. insert_routes m t es = Some (m', t', snd (routes_spec M es)) \<and> radix_model m' t' (fst (routes_spec M es))"
proof (induction es arbitrary: m t M)
  case (Cons e es)
  obtain key msk v where e: "e = (key, msk, v)" by (cases e)
  have kv: "unat msk \<le> 32" "v \<noteq> NULL" using Cons.prems(2) e by auto
  obtain T where T: "radix_rep m t T" "tidy T" "rlookup T = M" "rx_count t = of_nat (card {bs. M bs \<noteq> NULL})"
    using Cons.prems(1) by (auto simp: radix_model_def)
  have fin: "finite {bs. M bs \<noteq> NULL}" using finite_values [of T] T(3) by simp
  obtain m1 t1 res T1 where r: "radix_tree_insert_node m t key msk v = Some (m1, t1, res)" "radix_rep m1 t1 T1"
    "rlookup T (prefix_of key msk) \<noteq> NULL \<longrightarrow> res = DUP_KEY \<and> m1 = m \<and> t1 = t \<and> T1 = T"
    "rlookup T (prefix_of key msk) = NULL \<longrightarrow>
       res = SUCCEED \<and> rlookup T1 = (rlookup T)(prefix_of key msk := v) \<and> rx_count t1 = rx_count t + 1 \<and> (tidy T \<longrightarrow> tidy T1) \<or>
       res = NO_MEMORY \<and> rlookup T1 = rlookup T \<and> rx_count t1 = rx_count t"
    "rlimit m1 = rlimit m" "rbrk m1 \<le> rbrk m + unat msk" "rbrk m + unat msk \<le> rlimit m \<longrightarrow> res \<noteq> NO_MEMORY"
    by (rule insert_rep [OF T(1) kv, of key])
  have room: "rbrk m1 + 32 * length es \<le> rlimit m1" "res \<noteq> NO_MEMORY" using r(5-7) Cons.prems(3) kv(1) by auto
  have rest: "\<forall>(key, msk, v) \<in> set es. unat msk \<le> 32 \<and> v \<noteq> NULL" using Cons.prems(2) by simp
  show ?case
  proof (cases "M (prefix_of key msk) = NULL")
    case True
    then have s: "res = SUCCEED" "rlookup T1 = M(prefix_of key msk := v)" "rx_count t1 = rx_count t + 1" "tidy T1"
      using r(4) room(2) T(2,3) by auto
    have "radix_model m1 t1 (M(prefix_of key msk := v))"
      unfolding radix_model_def using r(2) s T(4) card_insert_value [OF fin True kv(2)] by (auto simp del: fun_upd_apply)
    from Cons.IH [OF this rest room(1)] show ?thesis
      using r(1) s(1) True unfolding e by (auto simp del: fun_upd_apply split: prod.splits)
  next
    case False
    then have "res = DUP_KEY" "m1 = m" "t1 = t" using r(3) T(3) by auto
    then show ?thesis using Cons.IH [OF Cons.prems(1) rest] room(1) r(1) False unfolding e by (auto split: prod.splits)
  qed
qed simp

lemma one_route:
  obtains m t where "radix_model m t ((\<lambda>_. NULL)(prefix_of 0x0A000000 8 := 5))"
proof -
  obtain m t where mt: "radix_model m t (\<lambda>_. NULL)" "rlimit m = 1000" "rbrk m = 2" by (rule empty_exists)
  have "\<forall>(key, msk, v) \<in> set [(0x0A000000 :: u32, 8 :: u32, 5 :: addr)]. unat msk \<le> 32 \<and> v \<noteq> NULL" by simp
  from insert_routes_ok [OF mt(1) this] mt(2,3) show thesis by (auto simp del: fun_upd_apply intro: that)
qed

theorem radix_insert_refines_witness:
  "\<exists>m t. radix_model m t (\<lambda>_. NULL) \<and> (\<exists>m' t'. radix_tree_insert_node m t 0x0A000000 8 5 = Some (m', t', SUCCEED) \<and>
     radix_model m' t' ((\<lambda>_. NULL)(prefix_of 0x0A000000 8 := 5)))"
proof -
  obtain m t where mt: "radix_model m t (\<lambda>_. NULL)" "rlimit m = 1000" "rbrk m = 2" by (rule empty_exists)
  have u: "unat (8 :: u32) \<le> 32" "(5 :: nat) \<noteq> NULL" "\<not> rlimit m < rbrk m + unat (8 :: u32)" using mt by simp_all
  show ?thesis using radix_insert_refines [OF mt(1) u(1,2), of "0x0A000000"] u(3) mt(1) by (auto simp del: fun_upd_apply)
qed

theorem radix_delete_refines_witness:
  "\<exists>m t. radix_model m t ((\<lambda>_. NULL)(prefix_of 0x0A000000 8 := 5)) \<and>
     (\<exists>m' t'. radix_tree_delete_node m t 0x0A000000 8 = Some (m', t', SUCCEED) \<and>
       radix_model m' t' ((\<lambda>_. NULL)(prefix_of 0x0A000000 8 := 5, prefix_of 0x0A000000 8 := NULL)))"
proof -
  obtain m t where mt: "radix_model m t ((\<lambda>_. NULL)(prefix_of 0x0A000000 8 := 5))" by (rule one_route)
  have "0 < unat (8 :: u32)" by simp
  from radix_delete_refines [OF mt this, of "0x0A000000"] mt show ?thesis by (auto simp del: fun_upd_upd)
qed

lemma find_model:
  assumes "radix_model m t M"
  shows "radix_tree_find m t key = Some (last (NULL # filter (\<lambda>w. w \<noteq> NULL) (map (\<lambda>j. M (kbits key 0 j)) [0..<33])))"
proof -
  obtain T fs where T: "holds {} m t NULL T fs" "rptr T = rx_root t" "rheight T \<le> 33" "rlookup T = M"
    using assms by (auto simp: radix_model_def radix_rep_def)
  have "rshape (rnodes m) NULL T" using T(1) by (simp add: holds_def)
  from radix_find_loop_ok [OF this, of key 0 NULL] rpath_longest [OF T(3), of "kbit key" 0 NULL]
  show ?thesis using T(2,4) by (simp add: radix_tree_find_def longest_prefix_def kbits_def)
qed

text \<open>C18. Routing: a table of routes that is inserted into a fresh tree, with memory for all of
  them, is entered as specified, the first of equal prefixes wins, and \<open>radix_tree_find\<close> ends with
  the value of the longest prefix of the address that was entered, or \<open>NULL\<close>.\<close>

theorem radix_routes:
  assumes "fresh_memory m0" "rbrk m0 + 1 + 32 * length es \<le> rlimit m0"
    and "\<forall>(key, msk, v) \<in> set es. unat msk \<le> 32 \<and> v \<noteq> NULL"
  shows "\<exists>m t m' t'. radix_tree_create True m0 = Some (m, Some t) \<and>
    insert_routes m t es = Some (m', t', snd (routes_spec (\<lambda>_. NULL) es)) \<and>
    radix_tree_get_ip_size t' = of_nat (card {bs. fst (routes_spec (\<lambda>_. NULL) es) bs \<noteq> NULL}) \<and>
    (\<forall>ip. radix_tree_find m' t' ip =
      Some (last (NULL # filter (\<lambda>w. w \<noteq> NULL) (map (\<lambda>j. fst (routes_spec (\<lambda>_. NULL) es) (kbits ip 0 j)) [0..<33]))))"
proof -
  have "rbrk m0 < rlimit m0" using assms(2) by simp
  then obtain m t where c: "radix_tree_create True m0 = Some (m, Some t)" "radix_model m t (\<lambda>_. NULL)"
    "rlimit m = rlimit m0" "rbrk m = rbrk m0 + 1" using created_radix [OF assms(1)] by metis
  obtain m' t' where i: "insert_routes m t es = Some (m', t', snd (routes_spec (\<lambda>_. NULL) es))"
    "radix_model m' t' (fst (routes_spec (\<lambda>_. NULL) es))"
    using insert_routes_ok [OF c(2) assms(3)] assms(2) c(3,4) by auto
  show ?thesis
    using c(1) i(1) find_model [OF i(2)] i(2)
    by (intro exI conjI) (auto simp: radix_tree_get_ip_size_def radix_model_def)
qed

theorem radix_routes_witness:
  "\<exists>m t m' t'. radix_tree_create True small_memory = Some (m, Some t) \<and>
    insert_routes m t [(0x0A000000, 8, 5)] = Some (m', t', [SUCCEED]) \<and>
    (\<forall>ip. radix_tree_find m' t' ip = Some (last (NULL # filter (\<lambda>w. w \<noteq> NULL)
      (map (\<lambda>j. ((\<lambda>_. NULL)(prefix_of 0x0A000000 8 := 5)) (kbits ip 0 j)) [0..<33]))))"
proof -
  let ?es = "[(0x0A000000 :: u32, 8 :: u32, 5 :: addr)]"
  have v: "\<forall>(key, msk, v) \<in> set ?es. unat msk \<le> 32 \<and> v \<noteq> NULL" by simp
  have room: "rbrk small_memory + 1 + 32 * length ?es \<le> rlimit small_memory" using small_fresh by simp
  have spec: "routes_spec (\<lambda>_. NULL) ?es = ((\<lambda>_. NULL)(prefix_of 0x0A000000 8 := 5), [SUCCEED])" by simp
  show ?thesis using radix_routes [OF small_fresh(1) room v] unfolding spec fst_conv snd_conv by blast
qed

section \<open>Deletion at the root\<close>

lemma leafy_value: "leafy T \<Longrightarrow> T \<noteq> RE \<Longrightarrow> \<exists>bs. rlookup T bs \<noteq> NULL"
proof (induction T)
  case (RN l a v r)
  show ?case
  proof (cases "l = RE \<and> r = RE")
    case True
    then show ?thesis using RN.prems by (intro exI [of _ "[]"]) simp
  next
    case False
    then consider "l \<noteq> RE" | "r \<noteq> RE" by blast
    then show ?thesis
    proof cases
      case 1
      then obtain bs where "rlookup l bs \<noteq> NULL" using RN by auto
      then show ?thesis by (intro exI [of _ "False # bs"]) simp
    next
      case 2
      then obtain bs where "rlookup r bs \<noteq> NULL" using RN by auto
      then show ?thesis by (intro exI [of _ "True # bs"]) simp
    qed
  qed
qed simp

text \<open>The prefix of length 0: when no other prefix has a value, its deletion reads the
  parent of the root, which is \<open>NULL\<close>, and aborts, with or without a value at the root.\<close>

lemma radix_delete_root_faults:
  assumes "radix_model m t M" "\<forall>bs. bs \<noteq> [] \<longrightarrow> M bs = NULL"
  shows "radix_tree_delete_node m t key 0 = None"
proof -
  obtain T where rep: "radix_rep m t T" and T: "tidy T" "rlookup T = M"
    using assms(1) by (auto simp: radix_model_def)
  obtain l a w r fs where R: "T = RN l a w r" "rx_root t = a" "holds {} m t NULL (RN l a w r) fs" "a \<noteq> NULL"
    by (rule rep_RN [OF rep])
  have "rlookup l bs = NULL" "rlookup r bs = NULL" for bs
    using assms(2) T(2) R(1) rlookup_simps(3) [of l a w r False bs] rlookup_simps(3) [of l a w r True bs] by auto
  then have "l = RE" "r = RE" using leafy_value [of l] leafy_value [of r] T(1) R(1) by auto
  then have leaf: "T = RN RE a w RE" and h: "holds {} m t NULL T fs" using R by simp_all
  have "rnode_at m a = Some \<lparr>rx_right = NULL, rx_left = NULL, rx_parent = NULL, rx_value = w\<rparr>"
    using h leaf R(4) by (simp add: holds_def rnode_at_def)
  then have "unlink_loop a m t = None"
    by (subst unlink_loop.simps) (simp add: unlink_rnode_def rnode_at_def)
  then show ?thesis using delete_node_cases(3) [OF h, of key 0] leaf R(2) by simp
qed

lemma radix_delete_root_faults_witness:
  "\<exists>m t. radix_model m t (\<lambda>_. NULL) \<and> radix_tree_delete_node m t 0x0A000000 0 = None"
proof -
  obtain m t where mt: "radix_model m t (\<lambda>_. NULL)" by (rule empty_exists)
  then show ?thesis using radix_delete_root_faults [OF mt] by blast
qed

section \<open>Traversals\<close>

fun rwalk :: "rt \<Rightarrow> addr list" where
  "rwalk RE = []"
| "rwalk (RN l a v r) = rwalk l @ (if v \<noteq> NULL then [v] else []) @ rwalk r"

fun rpost :: "rt \<Rightarrow> addr list" where
  "rpost RE = []"
| "rpost (RN l a v r) = rpost l @ rpost r @ (if v \<noteq> NULL then [v] else [])"

lemma rwalk_paths: "rwalk T = map (rlookup T) (rpaths T)"
  by (induction T) (auto simp: comp_def)

lemma mset_rpost: "mset (rpost T) = mset (rwalk T)"
  by (induction T) auto

lemma mset_rwalk: "mset (rwalk T) = image_mset (rlookup T) (mset_set {bs. rlookup T bs \<noteq> NULL})"
  by (metis rwalk_paths rpaths_set rpaths_distinct mset_map mset_set_set)

lemma walk_helper_ok:
  "rshape (rnodes m) par T \<Longrightarrow> T \<noteq> RE \<Longrightarrow> radix_tree_walk_helper m f (rptr T) c = mfold f (rwalk T) c"
proof (induction T arbitrary: par c)
  case (RN l a v r)
  have nd: "rnode_at m a = Some \<lparr>rx_right = rptr r, rx_left = rptr l, rx_parent = par, rx_value = v\<rparr>"
    "rshape (rnodes m) a l" "rshape (rnodes m) a r"
    using RN.prems by (auto simp: rnode_at_def)
  have lr: "(if rptr l \<noteq> NULL then radix_tree_walk_helper m f (rptr l) c else Some c) = mfold f (rwalk l) c"
    "(if rptr r \<noteq> NULL then radix_tree_walk_helper m f (rptr r) c else Some c) = mfold f (rwalk r) c" for c
    using RN.IH(1) [OF nd(2)] RN.IH(2) [OF nd(3)] rptr_NULL [OF nd(2)] rptr_NULL [OF nd(3)] by auto
  show ?case
    unfolding rptr.simps
    by (subst radix_tree_walk_helper.simps)
      (unfold nd(1) Option.bind.simps radix_node.simps lr mfold_append rwalk.simps, cases "v = NULL", simp_all)
qed simp

definition without :: "addr set \<Rightarrow> radix_mem \<Rightarrow> radix_mem" where
  "without A m = m\<lparr>rnodes := (rnodes m) |` (- A)\<rparr>"

lemma without_simps [simp]:
  "without {} m = m" "without A (without B m) = without (A \<union> B) m"
  "rnodes (without A m) p = (if p \<in> A then None else rnodes m p)"
  by (auto simp: without_def restrict_map_def fun_eq_iff intro!: radix_mem.equality)

lemma free_without: "p \<noteq> NULL \<Longrightarrow> p \<notin> A \<Longrightarrow> rnodes m p = Some n \<Longrightarrow>
    free_rnode p (without A m) = Some (without (insert p A) m)"
  by (auto simp: free_rnode_def rnode_at_def without_def restrict_map_def fun_eq_iff intro!: radix_mem.equality)

lemma ip_node_delete_ok:
  "rshape (rnodes m) par T \<Longrightarrow> distinct (raddrs T) \<Longrightarrow> A \<inter> set (raddrs T) = {} \<Longrightarrow>
   ip_node_delete (Some f) (rptr T) (without A m) c =
     map_option (Pair (without (A \<union> set (raddrs T)) m)) (mfold f (rpost T) c)"
proof (induction T arbitrary: par A c)
  case RE
  then show ?case by (subst ip_node_delete.simps) simp
next
  case (RN l a v r)
  have nd: "rnodes m a = Some \<lparr>rx_right = rptr r, rx_left = rptr l, rx_parent = par, rx_value = v\<rparr>" "a \<noteq> NULL"
    "rshape (rnodes m) a l" "rshape (rnodes m) a r"
    using RN.prems by auto
  have l: "ip_node_delete (Some f) (rptr l) (without A m) c =
      map_option (Pair (without (A \<union> set (raddrs l)) m)) (mfold f (rpost l) c)" for c
    by (rule RN.IH(1) [OF nd(3)]) (use RN.prems in auto)
  have r: "ip_node_delete (Some f) (rptr r) (without (A \<union> set (raddrs l)) m) c =
      map_option (Pair (without (A \<union> set (raddrs l) \<union> set (raddrs r)) m)) (mfold f (rpost r) c)" for c
    by (rule RN.IH(2) [OF nd(4)]) (use RN.prems in auto)
  have e: "(if 0 < p then ip_node_delete (Some f) p m' c' else Some (m', c')) = ip_node_delete (Some f) p m' c'" for p m' c'
    by (cases "p = NULL") (simp_all add: ip_node_delete.simps [of _ NULL])
  have out: "a \<notin> A" "a \<notin> set (raddrs l)" "a \<notin> set (raddrs r)" using RN.prems by auto
  have fr: "free_rnode a (without (A \<union> set (raddrs l) \<union> set (raddrs r)) m) =
      Some (without (insert a (A \<union> set (raddrs l) \<union> set (raddrs r))) m)"
    by (rule free_without [OF nd(2) _ nd(1)]) (use out in auto)
  have at: "rnode_at (without B m) a = Some \<lparr>rx_right = rptr r, rx_left = rptr l, rx_parent = par, rx_value = v\<rparr>"
    if "a \<notin> B" for B
    using nd(1,2) that by (simp add: rnode_at_def)
  have s: "A \<union> set (raddrs (RN l a v r)) = insert a (A \<union> set (raddrs l) \<union> set (raddrs r))" by auto
  show ?case
  proof (cases "mfold f (rpost l) c")
    case None
    then show ?thesis unfolding s rptr.simps
      by (subst ip_node_delete.simps) (simp add: nd(2) at out e l mfold_append)
  next
    case (Some c1)
    then show ?thesis unfolding s rptr.simps
      by (subst ip_node_delete.simps)
        (cases "mfold f (rpost r) c1"; cases v;
         simp add: nd(2) at out e l r fr mfold_append; cases "f v (the (mfold f (rpost r) c1))"; simp)
  qed
qed

lemma free_list_ok:
  "flist (rnodes m) p fs \<Longrightarrow> distinct fs \<Longrightarrow> A \<inter> set fs = {} \<Longrightarrow>
   free_list_loop p (without A m) = Some (without (A \<union> set fs) m)"
proof (induction fs arbitrary: p A)
  case Nil
  then show ?case by (subst free_list_loop.simps) simp
next
  case (Cons a as)
  then obtain n where n: "p = a" "a \<noteq> NULL" "rnodes m a = Some n" "flist (rnodes m) (rx_right n) as" "a \<notin> A" by auto
  have "free_list_loop (rx_right n) (without (insert a A) m) = Some (without (insert a A \<union> set as) m)"
    by (rule Cons.IH [OF n(4)]) (use Cons.prems in auto)
  then show ?case using n free_without [OF n(2,5,3)]
    by (subst free_list_loop.simps) (simp add: rnode_at_def)
qed

text \<open>C32. The traversals, for every tree, also after an insertion without memory:
  \<open>radix_tree_walk\<close> gives every value to the callback once and changes nothing, and
  \<open>radix_tree_delete\<close> gives every value once to the destructor and frees every node, those of
  the free list included, exactly once (a second \<open>free\<close> would abort).\<close>

theorem radix_traversals:
  assumes "radix_partial m t M"
  shows "\<exists>vs ws m'. mset vs = image_mset M (mset_set {bs. M bs \<noteq> NULL}) \<and> mset ws = mset vs \<and>
    radix_tree_walk m t f c = mfold f vs c \<and>
    radix_tree_delete (Some f) m t c = map_option (Pair m') (mfold f ws c) \<and> rnodes m' = Map.empty"
proof -
  obtain T fs where T: "holds {} m t NULL T fs" "T \<noteq> RE" "rptr T = rx_root t" "rlookup T = M"
    using assms by (auto simp: radix_partial_def radix_rep_def)
  have sh: "rshape (rnodes m) NULL T" "distinct (raddrs T)" "flist (rnodes m) (rx_free t) fs" "distinct fs"
    "set (raddrs T) \<inter> set fs = {}" and dom: "dom (rnodes m) = set (raddrs T) \<union> set fs"
    using T(1) by (auto simp: holds_def)
  have walk: "radix_tree_walk m t f c = mfold f (rwalk T) c"
    using walk_helper_ok [OF sh(1) T(2)] T(3) by (simp add: radix_tree_walk_def)
  have "ip_node_delete (Some f) (rx_root t) m c = map_option (Pair (without (set (raddrs T)) m)) (mfold f (rpost T) c)"
    using ip_node_delete_ok [OF sh(1,2), of "{}" f c] T(3) by simp
  moreover have "free_list_loop (rx_free t) (without (set (raddrs T)) m) = Some (without (set (raddrs T) \<union> set fs) m)"
    by (rule free_list_ok [OF sh(3-5)])
  ultimately have del: "radix_tree_delete (Some f) m t c =
      map_option (Pair (without (set (raddrs T) \<union> set fs) m)) (mfold f (rpost T) c)"
    by (cases "mfold f (rpost T) c") (simp_all add: radix_tree_delete_def)
  have "rnodes (without (set (raddrs T) \<union> set fs) m) = Map.empty"
    unfolding dom [symmetric] by (auto simp: fun_eq_iff)
  then show ?thesis
    using walk del mset_rpost [of T] mset_rwalk [of T] T(4)
    by (intro exI [of _ "rwalk T"] exI [of _ "rpost T"] exI [of _ "without (set (raddrs T) \<union> set fs) m"]) simp
qed

theorem radix_traversals_witness:
  "\<exists>m t. radix_partial m t ((\<lambda>_. NULL)(prefix_of 0x0A000000 8 := 5)) \<and>
    (\<exists>vs ws m'. mset vs = image_mset ((\<lambda>_. NULL)(prefix_of 0x0A000000 8 := 5))
        (mset_set {bs. ((\<lambda>_. NULL)(prefix_of 0x0A000000 8 := 5)) bs \<noteq> NULL}) \<and> mset ws = mset vs \<and>
      radix_tree_walk m t (\<lambda>v c. Some (v # c)) [] = mfold (\<lambda>v c. Some (v # c)) vs [] \<and>
      radix_tree_delete (Some (\<lambda>v c. Some (v # c))) m t [] = map_option (Pair m') (mfold (\<lambda>v c. Some (v # c)) ws []) \<and>
      rnodes m' = Map.empty)"
proof -
  obtain m t where "radix_model m t ((\<lambda>_. NULL)(prefix_of 0x0A000000 8 := 5))" by (rule one_route)
  then have mt: "radix_partial m t ((\<lambda>_. NULL)(prefix_of 0x0A000000 8 := 5))"
    unfolding radix_model_def radix_partial_def by blast
  show ?thesis
    by (intro exI [of _ m] exI [of _ t] conjI mt radix_traversals [OF mt, of "\<lambda>v c. Some (v # c)" "[]"])
qed

section \<open>Printing\<close>

fun rlist :: "bool list \<Rightarrow> rt \<Rightarrow> (bool list \<times> addr) list" where
  "rlist ps RE = []"
| "rlist ps (RN l a v r) =
     (if v \<noteq> NULL then [(ps, v)] else []) @ rlist (ps @ [False]) l @ rlist (ps @ [True]) r"

lemma rlist_set: "set (rlist ps T) = {(ps @ bs, v) | bs v. rlookup T bs = v \<and> v \<noteq> NULL}"
proof (induction T arbitrary: ps)
  case (RN l a v r)
  have "x \<in> set (rlist ps (RN l a v r)) \<longleftrightarrow> (\<exists>bs. fst x = ps @ bs \<and> rlookup (RN l a v r) bs = snd x \<and> snd x \<noteq> NULL)" for x
  proof
    assume "x \<in> set (rlist ps (RN l a v r))"
    then consider "x = (ps, v)" "v \<noteq> NULL" | "x \<in> set (rlist (ps @ [False]) l)" | "x \<in> set (rlist (ps @ [True]) r)"
      by (auto split: if_splits)
    then show "\<exists>bs. fst x = ps @ bs \<and> rlookup (RN l a v r) bs = snd x \<and> snd x \<noteq> NULL"
    proof cases
      case 1
      then show ?thesis by (intro exI [of _ "[]"]) simp
    next
      case 2
      then obtain bs where "x = ((ps @ [False]) @ bs, rlookup l bs)" "rlookup l bs \<noteq> NULL" unfolding RN.IH(1) by auto
      then show ?thesis by (intro exI [of _ "False # bs"]) simp
    next
      case 3
      then obtain bs where "x = ((ps @ [True]) @ bs, rlookup r bs)" "rlookup r bs \<noteq> NULL" unfolding RN.IH(2) by auto
      then show ?thesis by (intro exI [of _ "True # bs"]) simp
    qed
  next
    assume "\<exists>bs. fst x = ps @ bs \<and> rlookup (RN l a v r) bs = snd x \<and> snd x \<noteq> NULL"
    then obtain bs where x: "x = (ps @ bs, rlookup (RN l a v r) bs)" "rlookup (RN l a v r) bs \<noteq> NULL" by (cases x) auto
    show "x \<in> set (rlist ps (RN l a v r))"
    proof (cases bs)
      case Nil
      then show ?thesis using x by simp
    next
      case (Cons b cs)
      then show ?thesis using x RN.IH [of "ps @ [b]"] by (cases b) auto
    qed
  qed
  then show ?case by (auto simp: set_eq_iff simp del: rlist.simps)
qed simp

lemma rlist_distinct: "distinct (map fst (rlist ps T))"
proof (induction T arbitrary: ps)
  case (RN l a v r)
  have below: "\<exists>bs. x = qs @ bs" if "x \<in> fst ` set (rlist qs S)" for x qs S
    using that unfolding rlist_set by auto
  have up: "ps \<notin> fst ` set (rlist (ps @ [b]) S)" for b S
    using below [of ps "ps @ [b]" S] by auto
  have apart: "fst ` set (rlist (ps @ [False]) l) \<inter> fst ` set (rlist (ps @ [True]) r) = {}"
  proof -
    have "x \<notin> fst ` set (rlist (ps @ [True]) r)" if "x \<in> fst ` set (rlist (ps @ [False]) l)" for x
      using below [OF that] below [of x "ps @ [True]" r] by auto
    then show ?thesis by blast
  qed
  show ?case
    unfolding rlist.simps map_append distinct_append set_append set_map
    using RN.IH up apart by (simp add: Int_Un_distrib)
qed simp

text \<open>The word with the bits of a path and zeros after it.\<close>

definition stands_for :: "u32 \<Rightarrow> bool list \<Rightarrow> bool" where
  "stands_for ip ps \<longleftrightarrow> kbits ip 0 (length ps) = ps \<and> (\<forall>i \<ge> length ps. \<not> kbit ip i)"

lemma kbit_mask: "n \<le> 32 \<Longrightarrow> kbit (ip AND push_bit (32 - n) (- 1)) i \<longleftrightarrow> kbit ip i \<and> i < n"
  by (auto simp: kbit_def bit_and_iff bit_not_iff bit_mask_iff)

lemma kbit_top: "kbit (drop_bit n 0x80000000) i \<longleftrightarrow> i = n \<and> n < 32"
proof -
  have b: "bit (0x80000000 :: u32) j \<longleftrightarrow> j = 31" for j
  proof -
    have "(0x80000000 :: u32) = push_bit 31 1" by (simp add: push_bit_eq_mult)
    then show ?thesis by (simp only: bit_push_bit_iff) (auto simp: bit_1_iff)
  qed
  show ?thesis unfolding kbit_def bit_drop_bit_eq comp_def b by auto
qed

lemma kbit_or: "kbit (a OR b) i \<longleftrightarrow> kbit a i \<or> kbit b i"
  by (auto simp: kbit_def bit_or_iff)

lemma stands_iff: "stands_for ip ps \<longleftrightarrow> (\<forall>i. kbit ip i \<longleftrightarrow> i < length ps \<and> ps ! i)"
proof -
  have "kbits ip 0 (length ps) = ps \<longleftrightarrow> (\<forall>i < length ps. kbit ip i = ps ! i)"
    unfolding kbits_def list_eq_iff_nth_eq [of "map _ _"] by simp
  then show ?thesis unfolding stands_for_def by (meson not_le)
qed

lemma stands_mask: "stands_for ip ps \<Longrightarrow> length ps \<le> 32 \<Longrightarrow>
    stands_for (ip AND push_bit (32 - length ps) (- 1)) ps"
  unfolding stands_iff using kbit_mask by auto

lemma nth_snoc: "i < length (ps @ [b]) \<and> (ps @ [b]) ! i \<longleftrightarrow> i < length ps \<and> ps ! i \<or> i = length ps \<and> b"
  by (auto simp: nth_append less_Suc_eq)

lemma stands_left: "stands_for ip ps \<Longrightarrow> stands_for ip (ps @ [False])"
  unfolding stands_iff nth_snoc by simp

lemma stands_right: "stands_for ip ps \<Longrightarrow> length ps < 32 \<Longrightarrow>
    stands_for (ip OR drop_bit (length ps) 0x80000000) (ps @ [True])"
  unfolding stands_iff nth_snoc kbit_or kbit_top by meson

text \<open>A printed line against an entry of the table.\<close>

abbreviation line_ok :: "u32 \<times> nat \<times> addr \<Rightarrow> bool list \<times> addr \<Rightarrow> bool" where
  "line_ok \<equiv> \<lambda>(ip, n, v) (qs, w). stands_for ip qs \<and> n = length qs \<and> v = w"

lemma lines_ok:
  "list_all2 line_ok ls qs \<Longrightarrow> map (\<lambda>(ip, n, v). (kbits ip 0 n, v)) ls = qs \<and>
   (\<forall>(ip, n, v) \<in> set ls. \<forall>i \<ge> n. \<not> kbit ip i)"
  by (induction rule: list_all2_induct) (auto simp: stands_for_def)

lemma print_helper_ok:
  "rshape (rnodes m) par T \<Longrightarrow> T \<noteq> RE \<Longrightarrow> stands_for ip ps \<Longrightarrow> length ps + rheight T \<le> 33 \<Longrightarrow>
   ps \<noteq> [] \<or> rval T = NULL \<Longrightarrow>
   \<exists>ls. radix_tree_print_helper m (rptr T) ip (length ps) = Some ls \<and>
     list_all2 line_ok ls (rlist ps T) \<and> (\<forall>(ip, n, v) \<in> set ls. n \<le> 32)"
proof (induction T arbitrary: par ip ps)
  case (RN l a v r)
  let ?ok = "\<lambda>ls qs. list_all2 line_ok ls qs \<and> (\<forall>(ip, n, v) \<in> set ls. n \<le> 32)"
  have nd: "rnode_at m a = Some \<lparr>rx_right = rptr r, rx_left = rptr l, rx_parent = par, rx_value = v\<rparr>"
    "rshape (rnodes m) a l" "rshape (rnodes m) a r"
    using RN.prems by (auto simp: rnode_at_def)
  have len: "length ps \<le> 32" using RN.prems(4) by simp
  define ip1 where "ip1 = (if v \<noteq> NULL then ip AND push_bit (32 - length ps) (- 1) else ip)"
  have s1: "stands_for ip1 ps" using RN.prems(3) stands_mask [OF _ len] by (simp add: ip1_def)
  have m1: "(if v \<noteq> NULL then if 0 < length ps \<and> length ps \<le> 32
             then Some (ip AND push_bit (32 - length ps) (- 1)) else None else Some ip) = Some ip1"
    using RN.prems(5) len by (auto simp: ip1_def)
  obtain ls where ls: "(if rptr l \<noteq> NULL then radix_tree_print_helper m (rptr l) ip1 (length ps + 1) else Some []) = Some ls"
    "?ok ls (rlist (ps @ [False]) l)"
  proof (cases "l = RE")
    case False
    have "stands_for ip1 (ps @ [False])" using s1 by (rule stands_left)
    moreover have "length (ps @ [False]) + rheight l \<le> 33" using RN.prems(4) by simp
    ultimately obtain ls where "radix_tree_print_helper m (rptr l) ip1 (length (ps @ [False])) = Some ls"
      "?ok ls (rlist (ps @ [False]) l)"
      using RN.IH(1) [OF nd(2) False, of ip1 "ps @ [False]"] by blast
    then show ?thesis using that rptr_NULL [OF nd(2)] False by simp
  qed (use that [of "[]"] in simp)
  obtain rs where rs: "(if rptr r \<noteq> NULL then if length ps < 32
        then radix_tree_print_helper m (rptr r) (ip1 OR drop_bit (length ps) 0x80000000) (length ps + 1) else None
      else Some []) = Some rs" "?ok rs (rlist (ps @ [True]) r)"
  proof (cases "r = RE")
    case False
    have l32: "length ps < 32" using RN.prems(4) False by (cases r) auto
    have "stands_for (ip1 OR drop_bit (length ps) 0x80000000) (ps @ [True])" using s1 l32 by (rule stands_right)
    moreover have "length (ps @ [True]) + rheight r \<le> 33" using RN.prems(4) by simp
    ultimately obtain rs where
      "radix_tree_print_helper m (rptr r) (ip1 OR drop_bit (length ps) 0x80000000) (length (ps @ [True])) = Some rs"
      "?ok rs (rlist (ps @ [True]) r)"
      using RN.IH(2) [OF nd(3) False, of "ip1 OR drop_bit (length ps) 0x80000000" "ps @ [True]"] by blast
    then show ?thesis using that rptr_NULL [OF nd(3)] False l32 by simp
  qed (use that [of "[]"] in simp)
  have "radix_tree_print_helper m a ip (length ps) = Some ((if v \<noteq> NULL then [(ip1, length ps, v)] else []) @ ls @ rs)"
    by (subst radix_tree_print_helper.simps) (unfold nd(1) Option.bind.simps radix_node.simps m1 ls(1) rs(1), rule refl)
  moreover have "?ok ((if v \<noteq> NULL then [(ip1, length ps, v)] else []) @ ls @ rs) (rlist ps (RN l a v r))"
    using ls(2) rs(2) s1 len by (auto intro!: list_all2_appendI)
  ultimately show ?case by auto
qed simp

text \<open>\<open>radix_tree_print\<close> writes one line for every prefix that has a value, with its address,
  the bits after the prefix zero, its length and its value, and no other line; so the lines give
  the table back. A value at the root makes it shift by 32, which is undefined.\<close>

lemma radix_print_lines:
  assumes "radix_model m t M"
  shows "if M [] \<noteq> NULL then radix_tree_print m t = None
    else \<exists>ls. radix_tree_print m t = Some ls \<and> distinct (map (\<lambda>(ip, n, v). (ip, n)) ls) \<and>
      set (map (\<lambda>(ip, n, v). (kbits ip 0 n, v)) ls) = {(bs, v). M bs = v \<and> v \<noteq> NULL} \<and>
      (\<forall>(ip, n, v) \<in> set ls. n \<le> 32 \<and> (\<forall>i \<ge> n. \<not> kbit ip i))"
proof -
  obtain T where rep: "radix_rep m t T" and T: "tidy T" "rlookup T = M"
    using assms by (auto simp: radix_model_def)
  obtain l a w r fs where R: "T = RN l a w r" "rx_root t = a" "holds {} m t NULL (RN l a w r) fs" "a \<noteq> NULL"
    by (rule rep_RN [OF rep])
  have sh: "rshape (rnodes m) NULL T" "rheight T \<le> 33" using R rep by (auto simp: holds_def radix_rep_def)
  have w: "M [] = w" using T(2) R(1) by auto
  show ?thesis
  proof (cases "w = NULL")
    case False
    have "rnode_at m a = Some \<lparr>rx_right = rptr r, rx_left = rptr l, rx_parent = NULL, rx_value = w\<rparr>"
      using sh(1) R(1,4) by (simp add: rnode_at_def)
    then have "radix_tree_print m t = None"
      unfolding radix_tree_print_def R(2) using False by (subst radix_tree_print_helper.simps) simp
    then show ?thesis using False w by simp
  next
    case True
    have "stands_for 0 []" by (simp add: stands_for_def kbit_def)
    then obtain ls where ls: "radix_tree_print m t = Some ls" "list_all2 line_ok ls (rlist [] T)"
      "\<forall>(ip, n, v) \<in> set ls. n \<le> 32"
      using print_helper_ok [OF sh(1), of 0 "[]"] R True sh(2) by (auto simp: radix_tree_print_def)
    note eq = lines_ok [OF ls(2)]
    have "distinct (map fst (map (\<lambda>(ip, n, v). (kbits ip 0 n, v)) ls))" using eq rlist_distinct by metis
    then have "distinct (map (\<lambda>(ip, n). kbits ip 0 n) (map (\<lambda>(ip, n, v). (ip, n)) ls))"
      by (simp add: comp_def case_prod_beta)
    then have d: "distinct (map (\<lambda>(ip, n, v). (ip, n)) ls)" by (metis distinct_map)
    have "set (map (\<lambda>(ip, n, v). (kbits ip 0 n, v)) ls) = {(bs, v). M bs = v \<and> v \<noteq> NULL}"
      using eq rlist_set [of "[]" T] T(2) by auto
    moreover have "\<forall>(ip, n, v) \<in> set ls. n \<le> 32 \<and> (\<forall>i \<ge> n. \<not> kbit ip i)" using ls(3) eq by blast
    ultimately show ?thesis using ls(1) d True w by auto
  qed
qed

lemma radix_print_lines_witness:
  "\<exists>m t. radix_model m t ((\<lambda>_. NULL)(prefix_of 0x0A000000 8 := 5)) \<and>
    (\<exists>ls. radix_tree_print m t = Some ls \<and>
      set (map (\<lambda>(ip, n, v). (kbits ip 0 n, v)) ls) = {(prefix_of 0x0A000000 8, 5)})"
proof -
  obtain m t where mt: "radix_model m t ((\<lambda>_. NULL)(prefix_of 0x0A000000 8 := 5))" by (rule one_route)
  have ne: "prefix_of 0x0A000000 8 \<noteq> []" by (simp add: prefix_of_def kbits_def)
  then have "((\<lambda>_. NULL)(prefix_of 0x0A000000 8 := 5)) [] = NULL" by simp
  then obtain ls where ls: "radix_tree_print m t = Some ls"
    "set (map (\<lambda>(ip, n, v). (kbits ip 0 n, v)) ls) =
      {(bs, v). ((\<lambda>_. NULL)(prefix_of 0x0A000000 8 := 5)) bs = v \<and> v \<noteq> NULL}"
    using radix_print_lines [OF mt] by metis
  have "{(bs, v). ((\<lambda>_. NULL)(prefix_of 0x0A000000 8 := 5)) bs = v \<and> v \<noteq> NULL} = {(prefix_of 0x0A000000 8, 5)}"
    by (auto split: if_splits)
  then have "set (map (\<lambda>(ip, n, v). (kbits ip 0 n, v)) ls) = {(prefix_of 0x0A000000 8, 5)}" using ls(2) by (rule trans [rotated])
  with mt ls(1) show ?thesis by blast
qed

section \<open>Prefixes in text\<close>

definition digit :: "nat \<Rightarrow> char" where
  "digit d = char_of (48 + d)"

text \<open>A length of a prefix in decimal.\<close>

definition decimal :: "nat \<Rightarrow> string" where
  "decimal n = (if n < 10 then [digit n] else [digit (n div 10), digit (n mod 10)])"

definition subnet_text :: "string \<Rightarrow> string \<Rightarrow> string" where
  "subnet_text host msk = host @ CHR ''/'' # msk"

lemma digit_char: "d < 10 \<Longrightarrow> is_digit_char (digit d) \<and> of_char (digit d) - (48 :: nat) = d"
  by (simp add: is_digit_char_def digit_def)

lemma atoi_decimal:
  assumes "n \<le> 32"
  shows "atoi_digits (decimal n) = Some n" "\<not> (\<exists>c \<in> set (decimal n). \<not> is_digit_char c)"
proof -
  have d: "n div 10 < 10" "n mod 10 < 10" using assms by auto
  show "atoi_digits (decimal n) = Some n"
    using assms digit_char [OF d(1)] digit_char [OF d(2)] digit_char [of n]
    by (auto simp: atoi_digits_def decimal_def)
  show "\<not> (\<exists>c \<in> set (decimal n). \<not> is_digit_char c)"
    using digit_char [OF d(1)] digit_char [OF d(2)] digit_char [of n] by (auto simp: decimal_def)
qed

lemma trim_text:
  assumes "CHR ''/'' \<notin> set host"
  shows "trim_binary_subnet pton (subnet_text host msk) =
    (if \<exists>c \<in> set msk. \<not> is_digit_char c then Some (- 1, 0)
     else case atoi_digits msk of None \<Rightarrow> None | Some n \<Rightarrow>
       if n \<le> 0 \<or> n > 32 then Some (- 1, 0)
       else if 33 \<le> length host then None
       else case pton host of None \<Rightarrow> Some (- 1, 0) | Some a \<Rightarrow> Some (int n, ntohl a))"
proof -
  have "strchr (subnet_text host msk) CHR ''/'' = Some (CHR ''/'' # msk)"
    unfolding strchr_split using assms by (auto simp: subnet_text_def)
  then show ?thesis
    by (auto simp: trim_binary_subnet_def subnet_text_def guard_def split: option.splits)
qed

text \<open>A prefix as text: \<open>host/n\<close> with a length from 1 to 32 and a host that \<open>inet_pton\<close>
  accepts is inserted and removed as the prefix of \<open>n\<close> bits of the address in host order; a text
  without slash, with a length of 0 or above 32, with a character that is no digit in the length,
  or with a host that is refused gives \<open>FORMAT_ERROR\<close> and no change; and a host of 33 bytes or
  more before a valid length is copied past \<open>bi_subnet[33]\<close>.\<close>

lemma radix_subnet_text:
  assumes "CHR ''/'' \<notin> set host" "n \<le> 32" "(\<exists>c \<in> set bad. \<not> is_digit_char c) \<or> (\<exists>k > 32. atoi_digits bad = Some k)"
  shows "radix_tree_insert_subnet pton m t (subnet_text host (decimal n)) v =
      (if n = 0 then Some (m, t, FORMAT_ERROR) else if 33 \<le> length host then None
       else case pton host of None \<Rightarrow> Some (m, t, FORMAT_ERROR)
         | Some a \<Rightarrow> radix_tree_insert_node m t (ntohl a) (of_nat n) v) \<and>
    radix_tree_remove_subnet pton m t (subnet_text host (decimal n)) =
      (if n = 0 then Some (m, t, FORMAT_ERROR) else if 33 \<le> length host then None
       else case pton host of None \<Rightarrow> Some (m, t, FORMAT_ERROR)
         | Some a \<Rightarrow> radix_tree_delete_node m t (ntohl a) (of_nat n)) \<and>
    radix_tree_insert_subnet pton m t host v = Some (m, t, FORMAT_ERROR) \<and>
    radix_tree_insert_subnet pton m t (subnet_text host bad) v = Some (m, t, FORMAT_ERROR)"
proof (intro conjI)
  note trim = trim_text [OF assms(1), of pton] and dec = atoi_decimal [OF assms(2)]
  show "radix_tree_insert_subnet pton m t (subnet_text host (decimal n)) v =
      (if n = 0 then Some (m, t, FORMAT_ERROR) else if 33 \<le> length host then None
       else case pton host of None \<Rightarrow> Some (m, t, FORMAT_ERROR)
         | Some a \<Rightarrow> radix_tree_insert_node m t (ntohl a) (of_nat n) v)"
    using dec trim assms(2) by (auto simp: radix_tree_insert_subnet_def split: option.splits)
  show "radix_tree_remove_subnet pton m t (subnet_text host (decimal n)) =
      (if n = 0 then Some (m, t, FORMAT_ERROR) else if 33 \<le> length host then None
       else case pton host of None \<Rightarrow> Some (m, t, FORMAT_ERROR)
         | Some a \<Rightarrow> radix_tree_delete_node m t (ntohl a) (of_nat n))"
    using dec trim assms(2) by (auto simp: radix_tree_remove_subnet_def split: option.splits)
  have "strchr host CHR ''/'' = None" using assms(1) by (simp add: strchr_None)
  then show "radix_tree_insert_subnet pton m t host v = Some (m, t, FORMAT_ERROR)"
    by (simp add: radix_tree_insert_subnet_def trim_binary_subnet_def)
  show "radix_tree_insert_subnet pton m t (subnet_text host bad) v = Some (m, t, FORMAT_ERROR)"
    using trim [of bad] assms(3) by (auto simp: radix_tree_insert_subnet_def)
qed

lemma radix_subnet_text_witness:
  "\<forall>m t v. radix_tree_insert_subnet (\<lambda>s. if s = ''10.0.0.0'' then Some 10 else None) m t ''10.0.0.0/8'' v =
      radix_tree_insert_node m t 0x0A000000 8 v \<and>
    radix_tree_insert_subnet (\<lambda>s. if s = ''10.0.0.0'' then Some 10 else None) m t ''10.0.0.0/8x'' v = Some (m, t, FORMAT_ERROR)"
proof (intro allI)
  fix m t v
  have tx: "subnet_text ''10.0.0.0'' (decimal 8) = ''10.0.0.0/8''" "subnet_text ''10.0.0.0'' ''8x'' = ''10.0.0.0/8x''"
    by (simp_all add: subnet_text_def decimal_def digit_def char_of_def bit_0)
  have h: "CHR ''/'' \<notin> set ''10.0.0.0''" "(8 :: nat) \<le> 32"
    "(\<exists>c \<in> set ''8x''. \<not> is_digit_char c) \<or> (\<exists>k > 32. atoi_digits ''8x'' = Some k)"
    by (simp_all add: is_digit_char_def)
  have "ntohl 10 = 0x0A000000" by (simp add: ntohl_def)
  then show "radix_tree_insert_subnet (\<lambda>s. if s = ''10.0.0.0'' then Some 10 else None) m t ''10.0.0.0/8'' v =
      radix_tree_insert_node m t 0x0A000000 8 v \<and>
    radix_tree_insert_subnet (\<lambda>s. if s = ''10.0.0.0'' then Some 10 else None) m t ''10.0.0.0/8x'' v = Some (m, t, FORMAT_ERROR)"
    using radix_subnet_text [OF h, of "\<lambda>s. if s = ''10.0.0.0'' then Some 10 else None" m t v]
    unfolding tx by simp
qed

end
