(* ===== verification/View_Stats.thy ===== *)
theory View_Stats
  imports Name_Props Complex_Main
begin

text \<open>
  The statistics of one view, \<^verbatim>\<open>log_view_stats.c\<close>: a tree of counted domain names and one of
  counted client addresses, an array of counters for the answer codes and one for the query
  types. The memory limit is enforced by evicting the least recently used names. The answers for
  a client are \<open>StatsReply\<close> messages; the generated protobuf code that packs them is the parameter
  \<open>pack\<close>.

  Conventions: \<open>float\<close> values are rational numbers and the rounding of an arithmetic result is
  the business of the caller that computes it; the small arrays of a reply are taken to be
  allocated (the code does not check); \<open>printf\<close> is dropped.
\<close>

section \<open>State\<close>

record view_stats =
  vs_name :: string
  vs_name_tree :: name_tree
  vs_ip_tree :: name_tree
  vs_qps :: rat
  vs_success_rate :: rat
  vs_count :: u32
  vs_last_count :: u32
  vs_rcode :: "u32 list"
  vs_rtype :: "u32 list"

definition MAX_VIEW_LENGTH :: nat where
  "MAX_VIEW_LENGTH = 64"

definition RCODE_MAX_NUM :: nat where
  "RCODE_MAX_NUM = 7"

definition RTYPE_MAX_NUM :: nat where
  "RTYPE_MAX_NUM = 12"

text \<open>
  The tables of names. An entry is \<open>None\<close> for \<open>NULL\<close>: there is no comma after \<open>"SPF"\<close>, so the
  compiler joins it with \<open>"SRV"\<close> and the last of the twelve entries has no initialiser.
\<close>

definition RCODE :: "string option list" where
  "RCODE = map Some [''NOERROR'', ''FORMATERR'', ''SERVFAIL'', ''NXDOMAIN'', ''NOTIMP'', ''REFUSED'', ''OTHER'']"

definition RTYPE :: "string option list" where
  "RTYPE = map Some [''A'', ''MX'', ''AAAA'', ''CNAME'', ''NS'', ''SOA'', ''TXT'', ''SPF'' @ ''SRV'', ''DNAME'',
     ''NAPTR'', ''OTHER''] @ [None]"

text \<open>The loop of \<open>rtype_index\<close> and \<open>rcode_index\<close>; \<open>strcmp\<close> with \<open>NULL\<close> aborts.\<close>

fun index_from :: "string \<Rightarrow> string option list \<Rightarrow> nat \<Rightarrow> nat \<Rightarrow> nat option" where
  "index_from s [] i dflt = Some dflt"
| "index_from s (x # xs) i dflt = do {
     entry \<leftarrow> x;
     if strcmp s entry = 0 then Some i else index_from s xs (i + 1) dflt
   }"

definition rtype_index :: "string \<Rightarrow> nat option" where
  "rtype_index rtype = index_from rtype RTYPE 0 (RTYPE_MAX_NUM - 1)"

definition rcode_index :: "string \<Rightarrow> nat option" where
  "rcode_index rcode = index_from rcode RCODE 0 (RCODE_MAX_NUM - 1)"

section \<open>Creation and size\<close>

text \<open>
  What \<open>name_tree_create\<close> gets from the C library for one tree: see there.
\<close>

record tree_mems =
  tm_calloc :: bool
  tm_heap :: "(nat \<Rightarrow> addr) option"
  tm_tree :: "nv_store rbtree"
  tm_nvs :: nv_store
  tm_nodes :: pool_mem
  tm_names :: pool_mem
  tm_lru :: lru_heap

definition create_tree :: "tree_mems \<Rightarrow> name_tree option option" where
  "create_tree tm = name_tree_create (tm_calloc tm) (tm_heap tm) (tm_tree tm) (tm_nvs tm) (tm_nodes tm) (tm_names tm) (tm_lru tm)"

text \<open>
  \<open>view_stats_create\<close>. The inner option is the returned pointer. The function ends without a
  \<open>return\<close>, and its caller uses the value: C leaves that undefined, and the program works because
  its compiled code leaves \<open>vs\<close> in the register of the result. So the value is the parameter
  \<open>falls_off\<close>: \<open>None\<close> for the undefined behaviour of C, \<open>Some (Some vs)\<close> for the compiled program.
\<close>

definition view_stats_create ::
    "(view_stats \<Rightarrow> view_stats option option) \<Rightarrow> bool \<Rightarrow> tree_mems \<Rightarrow> tree_mems \<Rightarrow> string \<Rightarrow> view_stats option option" where
  "view_stats_create falls_off malloc_ok names ips view_name =
     (if length view_name > MAX_VIEW_LENGTH then Some None
      else if \<not> malloc_ok then Some None
      else do {
        nt \<leftarrow> create_tree names;
        case nt of None \<Rightarrow> Some None | Some name_tree \<Rightarrow> do {
          it \<leftarrow> create_tree ips;
          case it of None \<Rightarrow> Some None | Some ip_tree \<Rightarrow> do {
            name \<leftarrow> strcpy_buf MAX_VIEW_LENGTH view_name;
            falls_off \<lparr>vs_name = name, vs_name_tree = name_tree, vs_ip_tree = ip_tree, vs_qps = 0, vs_success_rate = 1,
              vs_count = 0, vs_last_count = 0, vs_rcode = replicate RCODE_MAX_NUM 0,
              vs_rtype = replicate RTYPE_MAX_NUM 0\<rparr>
          }
        }
      })"

definition sizeof_view_stats :: nat where
  "sizeof_view_stats = 176"

text \<open>The sizes are truncated to 32 bits before they are added, and the sum wraps at 32 bits.\<close>

definition view_stats_get_size :: "nat \<Rightarrow> nat \<Rightarrow> view_stats \<Rightarrow> u64" where
  "view_stats_get_size tree_struct pool_struct vs =
     (let initsize = of_nat sizeof_view_stats :: u32;
          nametree_size = ucast (name_tree_get_size tree_struct pool_struct (vs_name_tree vs)) :: u32;
          iptree_size = ucast (name_tree_get_size tree_struct pool_struct (vs_ip_tree vs)) :: u32
      in ucast (initsize + nametree_size + iptree_size))"

section \<open>The memory limit\<close>

text \<open>
  One round of the eviction loops: the record at the end of the recency list, and its deletion
  without the callback. \<open>None\<close> in the second component: the list was empty.
\<close>

definition evict_name :: "name_tree \<Rightarrow> (name_tree \<times> bool) option" where
  "evict_name t = do {
     (mem, lru, node) \<leftarrow> lru_list_remove_tail (nt_lru_mem t) (nt_lru t);
     let t1 = t\<lparr>nt_lru_mem := mem, nt_lru := lru\<rparr>;
     if node = NULL then Some (t1, False)
     else do {
       (t2, _) \<leftarrow> name_tree_delete t1 (Some (fqdn (nt_nvs t1 node))) None;
       Some (t2, True)
     }
   }"

partial_function (option) evict_names_loop :: "(view_stats \<Rightarrow> u64) \<Rightarrow> u64 \<Rightarrow> view_stats \<Rightarrow> view_stats option" where
  "evict_names_loop get_size expect_size vs =
     (if expect_size < get_size vs
      then Option.bind (evict_name (vs_name_tree vs)) (\<lambda>(t, again).
        if again then evict_names_loop get_size expect_size (vs\<lparr>vs_name_tree := t\<rparr>)
        else Some (vs\<lparr>vs_name_tree := t\<rparr>))
      else Some vs)"

partial_function (option) evict_ips_loop :: "(view_stats \<Rightarrow> u64) \<Rightarrow> u64 \<Rightarrow> view_stats \<Rightarrow> view_stats option" where
  "evict_ips_loop get_size expect_size vs =
     (if expect_size < get_size vs
      then Option.bind (evict_name (vs_ip_tree vs)) (\<lambda>(t, again).
        if again then evict_ips_loop get_size expect_size (vs\<lparr>vs_ip_tree := t\<rparr>)
        else Some (vs\<lparr>vs_ip_tree := t\<rparr>))
      else Some vs)"

definition view_stats_set_memsize :: "nat \<Rightarrow> nat \<Rightarrow> u64 \<Rightarrow> view_stats \<Rightarrow> view_stats option" where
  "view_stats_set_memsize tree_struct pool_struct expect_size vs = do {
     vs1 \<leftarrow> evict_names_loop (view_stats_get_size tree_struct pool_struct) expect_size vs;
     evict_ips_loop (view_stats_get_size tree_struct pool_struct) expect_size vs1
   }"

definition view_stats_destory :: "view_stats \<Rightarrow> unit option" where
  "view_stats_destory vs = do {
     _ \<leftarrow> name_tree_destroy (vs_name_tree vs);
     _ \<leftarrow> name_tree_destroy (vs_ip_tree vs);
     Some ()
   }"

section \<open>Counting\<close>

definition view_stats_insert_name :: "view_stats \<Rightarrow> string \<Rightarrow> view_stats option" where
  "view_stats_insert_name vs name = do {
     (t, _) \<leftarrow> name_tree_insert (vs_name_tree vs) (Some name);
     Some (vs\<lparr>vs_name_tree := t\<rparr>)
   }"

definition view_stats_insert_ip :: "view_stats \<Rightarrow> string \<Rightarrow> view_stats option" where
  "view_stats_insert_ip vs ip = do {
     (t, _) \<leftarrow> name_tree_insert (vs_ip_tree vs) (Some ip);
     Some (vs\<lparr>vs_ip_tree := t\<rparr>)
   }"

text \<open>An increment in an array; an index outside it aborts.\<close>

definition incr :: "u32 list \<Rightarrow> nat \<Rightarrow> u32 list option" where
  "incr xs i = (if i < length xs then Some (xs[i := xs ! i + 1]) else None)"

definition view_stats_rcode_increment :: "view_stats \<Rightarrow> int \<Rightarrow> view_stats option" where
  "view_stats_rcode_increment vs rcode =
     (if rcode > int RCODE_MAX_NUM \<or> rcode < 0 then Some vs
      else do { xs \<leftarrow> incr (vs_rcode vs) (nat rcode); Some (vs\<lparr>vs_rcode := xs\<rparr>) })"

definition view_stats_rtype_increment :: "view_stats \<Rightarrow> int \<Rightarrow> view_stats option" where
  "view_stats_rtype_increment vs rtype =
     (if rtype > int RTYPE_MAX_NUM \<or> rtype < 0 then Some vs
      else do { xs \<leftarrow> incr (vs_rtype vs) (nat rtype); Some (vs\<lparr>vs_rtype := xs\<rparr>) })"

section \<open>Replies\<close>

text \<open>
  The fields of a \<open>StatsReply\<close> that the program sets; the others stay as \<open>STATS_REPLY__INIT\<close> left
  them. A name is \<open>None\<close> where the pointer is \<open>NULL\<close>. \<open>has_value\<close> is never set, so \<open>value\<close> is not sent.
\<close>

record stats_reply =
  r_key :: string
  r_maybe :: "string option"
  r_has_value :: bool
  r_value :: rat
  r_name :: "string option list"
  r_count :: "u32 list"

definition STATS_REPLY__INIT :: "string \<Rightarrow> stats_reply" where
  "STATS_REPLY__INIT key = \<lparr>r_key = key, r_maybe = None, r_has_value = False, r_value = 0, r_name = [], r_count = []\<rparr>"

definition c_min :: "int \<Rightarrow> int \<Rightarrow> int" where
  "c_min a b = (if a < b then a else b)"

definition c_max :: "int \<Rightarrow> int \<Rightarrow> int" where
  "c_max a b = (if a > b then a else b)"

text \<open>
  \<open>_view_stats_result\<close>: the bytes in \<open>*buff\<close>, whose length is the returned value; \<open>Some None\<close> when
  the heap could not be copied: 0 is returned and \<open>*buff\<close> stays as it was. A negative \<open>topn\<close> asks
  \<open>malloc\<close> for more than the address space, and \<open>memset\<close> writes to the \<open>NULL\<close> it returns.
\<close>

definition view_stats_result ::
    "(stats_reply \<Rightarrow> 'b) \<Rightarrow> (nat \<Rightarrow> addr) option \<Rightarrow> name_tree \<Rightarrow> string \<Rightarrow> int \<Rightarrow> 'b option option" where
  "view_stats_result pack copy_mem tree key topn = (case heap_copy copy_mem (nt_heap tree) of
     None \<Rightarrow> Some None
   | Some copy_heap \<Rightarrow> do {
       sorted \<leftarrow> heap_sort (nt_nvs tree) copy_heap;
       let n = c_min topn (int (len sorted));
       guard (0 \<le> n);
       let nvs = map (\<lambda>i. nt_nvs tree (heap sorted i)) [0..<nat n];
       Some (Some (pack ((STATS_REPLY__INIT key)\<lparr>r_name := map (\<lambda>nv. Some (fqdn nv)) nvs, r_count := map nv_count nvs\<rparr>)))
     })"

definition view_stats_name_topn ::
    "(stats_reply \<Rightarrow> 'b) \<Rightarrow> (nat \<Rightarrow> addr) option \<Rightarrow> view_stats \<Rightarrow> int \<Rightarrow> 'b option option" where
  "view_stats_name_topn pack copy_mem vs topn = view_stats_result pack copy_mem (vs_name_tree vs) ''domaintopn'' topn"

definition view_stats_ip_topn ::
    "(stats_reply \<Rightarrow> 'b) \<Rightarrow> (nat \<Rightarrow> addr) option \<Rightarrow> view_stats \<Rightarrow> int \<Rightarrow> 'b option option" where
  "view_stats_ip_topn pack copy_mem vs topn = view_stats_result pack copy_mem (vs_ip_tree vs) ''iptopn'' topn"

text \<open>\<open>_view_stats_result1\<close>: the counters that are not zero, with their names.\<close>

fun nonzero_loop :: "u32 list \<Rightarrow> string option list \<Rightarrow> (string option \<times> u32) list" where
  "nonzero_loop (a # as) (p # ps) = (if a = 0 then nonzero_loop as ps else (p, a) # nonzero_loop as ps)"
| "nonzero_loop _ _ = []"

definition view_stats_result1 :: "(stats_reply \<Rightarrow> 'b) \<Rightarrow> u32 list \<Rightarrow> string \<Rightarrow> 'b" where
  "view_stats_result1 pack array key =
     (let p_name = if strcmp key ''rcode'' = 0 then RCODE else RTYPE;
          entries = nonzero_loop array p_name
      in pack ((STATS_REPLY__INIT key)\<lparr>r_name := map fst entries, r_count := map snd entries\<rparr>))"

definition view_stats_get_rcode :: "(stats_reply \<Rightarrow> 'b) \<Rightarrow> view_stats \<Rightarrow> 'b" where
  "view_stats_get_rcode pack vs = view_stats_result1 pack (vs_rcode vs) ''rcode''"

definition view_stats_get_rtype :: "(stats_reply \<Rightarrow> 'b) \<Rightarrow> view_stats \<Rightarrow> 'b" where
  "view_stats_get_rtype pack vs = view_stats_result1 pack (vs_rtype vs) ''rtype''"

text \<open>\<open>_view_stats_result2\<close>; \<open>show_f\<close> is \<open>sprintf\<close> with \<open>%f\<close>, whose text must fit \<open>tempbuf[16]\<close>.\<close>

definition view_stats_result2 :: "(rat \<Rightarrow> string) \<Rightarrow> (stats_reply \<Rightarrow> 'b) \<Rightarrow> rat \<Rightarrow> string \<Rightarrow> 'b option" where
  "view_stats_result2 show_f pack v key = do {
     tempbuf \<leftarrow> strcpy_buf 16 (show_f v);
     Some (pack ((STATS_REPLY__INIT key)\<lparr>r_value := v, r_maybe := Some tempbuf\<rparr>))
   }"

definition view_stats_get_qps :: "(rat \<Rightarrow> string) \<Rightarrow> (stats_reply \<Rightarrow> 'b) \<Rightarrow> view_stats \<Rightarrow> 'b option" where
  "view_stats_get_qps show_f pack vs = view_stats_result2 show_f pack (vs_qps vs) ''qps''"

definition view_stats_get_success_rate :: "(rat \<Rightarrow> string) \<Rightarrow> (stats_reply \<Rightarrow> 'b) \<Rightarrow> view_stats \<Rightarrow> 'b option" where
  "view_stats_get_success_rate show_f pack vs = view_stats_result2 show_f pack (vs_success_rate vs) ''success_rate''"

end
