(* ===== verification/View_Props.thy ===== *)
theory View_Props
  imports View_Stats
begin

text \<open>
  The properties of one view: the memory limit evicts in the order of the recency lists and no
  more than needed, the replies with the top names, the counters of codes and types, and a run of
  insertions whose reply is out of order.
\<close>

section \<open>Eviction\<close>

text \<open>The names of a model are in the form in which the tree stores them.\<close>

definition stored_names :: "string set \<Rightarrow> bool" where
  "stored_names K \<longleftrightarrow> (\<forall>k \<in> K. name_fits k \<and> qualify k = k)"

lemma name_model_sets: "name_model t C R \<Longrightarrow> dom C = set R \<and> distinct R"
proof -
  assume "name_model t C R"
  then obtain V U where st: "name_state t V U" and C: "C = name_counts (nt_nvs t) V" "R = recent_names (nt_nvs t) U"
    by (auto simp: name_model_def)
  have m: "mset (map snd U) = mset V" by (rule name_stateD(4) [OF st])
  then have s: "set (map snd U) = set V" by (metis set_mset_mset)
  have R: "R = map (\<lambda>v. fqdn (nt_nvs t v)) (map snd U)" using C(2) by (simp add: recent_names_def case_prod_beta comp_def)
  have "distinct R" unfolding R distinct_map [of "\<lambda>v. fqdn (nt_nvs t v)"]
    using name_stateD(12,13) [OF st] unfolding s by blast
  moreover have "dom C = set R" unfolding C(1) name_counts_dom R using s by (simp only: set_map)
  ultimately show ?thesis by simp
qed

lemma evict_name_ok:
  assumes model: "name_model t C (R @ [k])" and stored: "stored_names (dom C)"
  shows "\<exists>t'. evict_name t = Some (t', True) \<and> name_model t' (C(k := None)) R \<and> nt_heap t' = nt_heap t"
proof -
  obtain V U where st: "name_state t V U" and C: "C = name_counts (nt_nvs t) V" and RU: "R @ [k] = recent_names (nt_nvs t) U"
    using model by (auto simp: name_model_def)
  note S = name_stateD [OF st]
  obtain U0 a v where U: "U = U0 @ [(a, v)]" "R = recent_names (nt_nvs t) U0" "k = fqdn (nt_nvs t v)"
    using RU by (cases U rule: rev_cases) (auto simp: recent_names_def)
  have vV: "v \<in> set V" using S(4) U(1) by (metis set_mset_mset in_set_conv_decomp map_append list.map(2) snd_conv)
  then have v0: "v \<noteq> NULL" using S(9) by metis
  have k: "name_fits k" "qualify k = k"
    using stored vV U(3) C by (auto simp: stored_names_def name_counts_dom)
  obtain mem lru where l: "lru_list_remove_tail (nt_lru_mem t) (nt_lru t) = Some (mem, lru, v)" "lru_rep mem lru U0"
    using lru_remove_tail_rep [of "nt_lru_mem t" "nt_lru t" U0 a v] S(3) U(1) by auto
  let ?t1 = "t\<lparr>nt_lru_mem := mem, nt_lru := lru\<rparr>"
  have fv: "fqdn (nt_nvs ?t1 v) = qualify k" using U(3) k(2) by simp
  have tr: "tree_rep (nt_nvs ?t1) (nt_tree ?t1) (nt_nodes ?t1) V" "pool_rep (nt_names ?t1) (set V)"
    using S(1,2) by simp_all
  obtain t' V1 V2 s where d: "V = V1 @ v # V2" "name_tree_delete ?t1 (Some k) None = Some (t', 0)"
    "tree_rep (nt_nvs ?t1) (nt_tree t') (nt_nodes t') (V1 @ V2)" "pool_rep (nt_names t') (set (V1 @ V2))"
    "nt_nvs t' = nt_nvs ?t1" "nt_heap t' = nt_heap ?t1" "nt_lru_mem t' = mem" "nt_lru t' = lru"
    "nt_count t' = nt_count ?t1 - 1" "pool_take (nt_names t') = Some (s, v)"
    by (rule delete_core [OF tr S(11,8) k(1) vV fv, of None mem lru]) simp_all
  have m: "mset (map snd U) = add_mset v (mset (map snd U0))" "set U0 \<subseteq> set U" using U(1) by auto
  have st': "name_state t' (V1 @ V2) U0"
    "name_counts (nt_nvs t') (V1 @ V2) = (name_counts (nt_nvs t) (V1 @ v # V2))(fqdn (nt_nvs t v) := None)"
    using name_state_shrink [OF st [unfolded d(1)] m, of t'] d l(2) by simp_all
  have "name_model t' (C(k := None)) R"
    unfolding name_model_def using st' C U(2,3) d(1,5) by (intro exI [of _ "V1 @ V2"] exI [of _ U0]) simp
  moreover have "evict_name t = Some (t', True)"
    using l(1) v0 d(2) U(3) by (simp add: evict_name_def)
  ultimately show ?thesis using d(6) by auto
qed

lemma evict_name_empty: "name_model t C [] \<Longrightarrow> evict_name t = Some (t, False)"
  by (auto simp: name_model_def recent_names_def evict_name_def dest!: name_stateD(3) lru_remove_tail_empty)

text \<open>
  How many of \<open>n\<close> names stay when \<open>f j\<close> is the size with \<open>j\<close> names: as many as possible below the
  limit.
\<close>

fun kept :: "u64 \<Rightarrow> (nat \<Rightarrow> u64) \<Rightarrow> nat \<Rightarrow> nat" where
  "kept bound f 0 = 0"
| "kept bound f (Suc n) = (if bound < f (Suc n) then kept bound f n else Suc n)"

lemma kept_facts: "kept bound f n \<le> n" "f (kept bound f n) \<le> bound \<or> kept bound f n = 0"
  "kept bound f n < j \<Longrightarrow> j \<le> n \<Longrightarrow> bound < f j"
  by (induction n) (auto simp: le_Suc_eq split: if_splits)

text \<open>The size of a view with \<open>n\<close> names and \<open>i\<close> addresses, as the code computes it.\<close>

definition tree_size :: "nat \<Rightarrow> nat \<Rightarrow> nat \<Rightarrow> u64" where
  "tree_size ts ps n = of_nat ts + of_nat (sizeof_heap + MAX_HEAP_NODE_NUM * 8) + of_nat ps * 2 +
     ucast (of_nat n :: u32) * of_nat (sizeof_rbnode + sizeof_node_value) + of_nat n * of_nat sizeof_lru_node"

definition stats_size :: "nat \<Rightarrow> nat \<Rightarrow> nat \<Rightarrow> nat \<Rightarrow> u64" where
  "stats_size ts ps n i =
     ucast (of_nat sizeof_view_stats + ucast (tree_size ts ps n) + ucast (tree_size ts ps i) :: u32)"

lemma tree_size_model:
  assumes "name_model t C R"
  shows "name_tree_get_size ts ps t = tree_size ts ps (length R)"
proof -
  obtain V U where st: "name_state t V U" and R: "R = recent_names (nt_nvs t) U"
    using assms by (auto simp: name_model_def)
  have "length V = length R" using name_stateD(4) [OF st] R by (metis length_map recent_names_def size_mset)
  moreover have "lru_count (nt_lru t) = int (length R)"
    using name_stateD(3) [OF st] R by (simp add: lru_rep_def recent_names_def)
  ultimately show ?thesis
    using name_stateD(6) [OF st] by (simp add: name_tree_get_size_def tree_size_def algebra_simps)
qed

lemma stats_size_model:
  "name_model (vs_name_tree vs) C R \<Longrightarrow> name_model (vs_ip_tree vs) D S \<Longrightarrow>
   view_stats_get_size ts ps vs = stats_size ts ps (length R) (length S)"
  by (simp add: view_stats_get_size_def stats_size_def tree_size_model)

text \<open>The model after all but the last used \<open>j\<close> names are gone.\<close>

definition keeps_recent :: "name_tree \<Rightarrow> (string \<rightharpoonup> nat) \<Rightarrow> string list \<Rightarrow> nat \<Rightarrow> name_heap \<Rightarrow> bool" where
  "keeps_recent t C R j h \<longleftrightarrow> name_model t (C |` set (take j R)) (take j R) \<and> nt_heap t = h"

lemma keeps_all: "name_model t C R \<Longrightarrow> keeps_recent t C R (length R) (nt_heap t)"
proof -
  assume m: "name_model t C R"
  have "C x = None" if "x \<notin> set R" for x using name_model_sets [OF m] that by blast
  then have "C |` set R = C" by (auto simp: restrict_map_def fun_eq_iff)
  then show "keeps_recent t C R (length R) (nt_heap t)" using m by (simp add: keeps_recent_def)
qed

lemma keeps_snoc:
  assumes "keeps_recent t (C(k := None)) R j h" "j \<le> length R" "k \<notin> set R"
  shows "keeps_recent t C (R @ [k]) j h"
proof -
  have "(C(k := None)) |` set (take j R) = C |` set (take j R)"
    using assms(3) by (auto simp: restrict_map_def fun_eq_iff dest: in_set_takeD)
  then show ?thesis using assms(1,2) by (simp add: keeps_recent_def)
qed

lemma evict_names_ok:
  "name_model (vs_name_tree vs) C R \<Longrightarrow> stored_names (dom C) \<Longrightarrow> name_model (vs_ip_tree vs) D S \<Longrightarrow>
   \<exists>t. evict_names_loop (view_stats_get_size ts ps) bound vs = Some (vs\<lparr>vs_name_tree := t\<rparr>) \<and>
     keeps_recent t C R (kept bound (\<lambda>n. stats_size ts ps n (length S)) (length R)) (nt_heap (vs_name_tree vs))"
proof (induction R arbitrary: vs C rule: rev_induct)
  case Nil
  have "keeps_recent (vs_name_tree vs) C [] 0 (nt_heap (vs_name_tree vs))" using keeps_all [OF Nil(1)] by simp
  then show ?case
    using evict_name_empty [OF Nil(1)] by (subst evict_names_loop.simps) (auto intro!: exI [of _ "vs_name_tree vs"])
next
  case (snoc k R)
  note sz = stats_size_model [OF snoc.prems(1,3), of ts ps]
  show ?case
  proof (cases "bound < stats_size ts ps (length (R @ [k])) (length S)")
    case False
    then show ?thesis using sz keeps_all [OF snoc.prems(1)]
      by (subst evict_names_loop.simps) (auto intro!: exI [of _ "vs_name_tree vs"])
  next
    case True
    obtain t where t: "evict_name (vs_name_tree vs) = Some (t, True)" "name_model t (C(k := None)) R"
      "nt_heap t = nt_heap (vs_name_tree vs)"
      using evict_name_ok [OF snoc.prems(1,2)] by blast
    define C' where "C' = C(k := None)"
    have t2: "name_model t C' R" using t(2) by (simp add: C'_def)
    have "stored_names (dom C')" using snoc.prems(2) by (auto simp: stored_names_def C'_def)
    then obtain t' where t': "evict_names_loop (view_stats_get_size ts ps) bound (vs\<lparr>vs_name_tree := t\<rparr>) =
        Some (vs\<lparr>vs_name_tree := t'\<rparr>)"
      "keeps_recent t' C' R (kept bound (\<lambda>n. stats_size ts ps n (length S)) (length R)) (nt_heap t)"
      using snoc.IH [of "vs\<lparr>vs_name_tree := t\<rparr>" C'] t2 snoc.prems(3) by auto
    have "k \<notin> set R" using name_model_sets [OF snoc.prems(1)] by simp
    then have "keeps_recent t' C (R @ [k]) (kept bound (\<lambda>n. stats_size ts ps n (length S)) (length R)) (nt_heap t)"
      by (intro keeps_snoc [OF t'(2) [unfolded C'_def]] kept_facts(1))
    then show ?thesis using t(1,3) t'(1) True sz
      by (subst evict_names_loop.simps) (auto intro!: exI [of _ t'])
  qed
qed

lemma evict_ips_ok:
  "name_model (vs_name_tree vs) C R \<Longrightarrow> name_model (vs_ip_tree vs) D S \<Longrightarrow> stored_names (dom D) \<Longrightarrow>
   \<exists>t. evict_ips_loop (view_stats_get_size ts ps) bound vs = Some (vs\<lparr>vs_ip_tree := t\<rparr>) \<and>
     keeps_recent t D S (kept bound (stats_size ts ps (length R)) (length S)) (nt_heap (vs_ip_tree vs))"
proof (induction S arbitrary: vs D rule: rev_induct)
  case Nil
  have "keeps_recent (vs_ip_tree vs) D [] 0 (nt_heap (vs_ip_tree vs))" using keeps_all [OF Nil(2)] by simp
  then show ?case
    using evict_name_empty [OF Nil(2)] by (subst evict_ips_loop.simps) (auto intro!: exI [of _ "vs_ip_tree vs"])
next
  case (snoc k S)
  note sz = stats_size_model [OF snoc.prems(1,2), of ts ps]
  show ?case
  proof (cases "bound < stats_size ts ps (length R) (length (S @ [k]))")
    case False
    then show ?thesis using sz keeps_all [OF snoc.prems(2)]
      by (subst evict_ips_loop.simps) (auto intro!: exI [of _ "vs_ip_tree vs"])
  next
    case True
    obtain t where t: "evict_name (vs_ip_tree vs) = Some (t, True)" "name_model t (D(k := None)) S"
      "nt_heap t = nt_heap (vs_ip_tree vs)"
      using evict_name_ok [OF snoc.prems(2,3)] by blast
    define D' where "D' = D(k := None)"
    have t2: "name_model t D' S" using t(2) by (simp add: D'_def)
    have "stored_names (dom D')" using snoc.prems(3) by (auto simp: stored_names_def D'_def)
    then obtain t' where t': "evict_ips_loop (view_stats_get_size ts ps) bound (vs\<lparr>vs_ip_tree := t\<rparr>) =
        Some (vs\<lparr>vs_ip_tree := t'\<rparr>)"
      "keeps_recent t' D' S (kept bound (stats_size ts ps (length R)) (length S)) (nt_heap t)"
      using snoc.IH [of "vs\<lparr>vs_ip_tree := t\<rparr>" D'] t2 snoc.prems(1) by auto
    have "k \<notin> set S" using name_model_sets [OF snoc.prems(2)] by simp
    then have "keeps_recent t' D (S @ [k]) (kept bound (stats_size ts ps (length R)) (length S)) (nt_heap t)"
      by (intro keeps_snoc [OF t'(2) [unfolded D'_def]] kept_facts(1))
    then show ?thesis using t(1,3) t'(1) True sz
      by (subst evict_ips_loop.simps) (auto intro!: exI [of _ t'])
  qed
qed

lemma kept_all: "f n \<le> bound \<Longrightarrow> kept bound f n = n"
  by (cases n) auto

lemma memsize_model:
  assumes "name_model (vs_name_tree vs) C R" "name_model (vs_ip_tree vs) D S" "stored_names (dom C \<union> dom D)"
    and "j = kept bound (\<lambda>n. stats_size ts ps n (length S)) (length R)" "i = kept bound (stats_size ts ps j) (length S)"
  shows "\<exists>t u. view_stats_set_memsize ts ps bound vs = Some (vs\<lparr>vs_name_tree := t, vs_ip_tree := u\<rparr>) \<and>
    name_model t (C |` set (take j R)) (take j R) \<and> nt_heap t = nt_heap (vs_name_tree vs) \<and>
    name_model u (D |` set (take i S)) (take i S) \<and> nt_heap u = nt_heap (vs_ip_tree vs) \<and>
    (view_stats_get_size ts ps (vs\<lparr>vs_name_tree := t, vs_ip_tree := u\<rparr>) \<le> bound \<or> j = 0 \<and> i = 0)"
proof -
  have stored: "stored_names (dom C)" "stored_names (dom D)" using assms(3) by (auto simp: stored_names_def)
  obtain t where t: "evict_names_loop (view_stats_get_size ts ps) bound vs = Some (vs\<lparr>vs_name_tree := t\<rparr>)"
    "keeps_recent t C R j (nt_heap (vs_name_tree vs))"
    using evict_names_ok [OF assms(1) stored(1) assms(2), of ts ps bound] assms(4) by auto
  have jl: "j \<le> length R" and il: "i \<le> length S" unfolding assms(4,5) by (rule kept_facts(1))+
  have mt: "name_model (vs_name_tree (vs\<lparr>vs_name_tree := t\<rparr>)) (C |` set (take j R)) (take j R)"
    using t(2) by (simp add: keeps_recent_def)
  have mu: "name_model (vs_ip_tree (vs\<lparr>vs_name_tree := t\<rparr>)) D S" using assms(2) by simp
  have lt: "length (take j R) = j" using jl by simp
  obtain u where u: "evict_ips_loop (view_stats_get_size ts ps) bound (vs\<lparr>vs_name_tree := t\<rparr>) =
      Some (vs\<lparr>vs_name_tree := t, vs_ip_tree := u\<rparr>)" "keeps_recent u D S i (nt_heap (vs_ip_tree vs))"
    using evict_ips_ok [OF mt mu stored(2), of ts ps bound] unfolding lt assms(5) [symmetric] by auto
  have size: "view_stats_get_size ts ps (vs\<lparr>vs_name_tree := t, vs_ip_tree := u\<rparr>) = stats_size ts ps j i"
    using stats_size_model [of "vs\<lparr>vs_name_tree := t, vs_ip_tree := u\<rparr>" "C |` set (take j R)" "take j R"
        "D |` set (take i S)" "take i S" ts ps] mt u(2) jl il by (simp add: keeps_recent_def)
  have "stats_size ts ps j i \<le> bound \<or> j = 0 \<and> i = 0"
  proof (cases "j = 0")
    case True
    then show ?thesis using kept_facts(2) [of "stats_size ts ps j" bound "length S"] assms(5) by auto
  next
    case False
    then have "stats_size ts ps j (length S) \<le> bound"
      using kept_facts(2) [of "\<lambda>n. stats_size ts ps n (length S)" bound "length R"] assms(4) by auto
    then show ?thesis using kept_all assms(5) by metis
  qed
  then show ?thesis
    by (intro exI [of _ t] exI [of _ u]) (use t u size in \<open>simp add: view_stats_set_memsize_def keeps_recent_def\<close>)
qed

text \<open>C16. The memory limit of a view, for every state of the two trees: the loops end; they keep
  the \<open>j\<close> names and the \<open>i\<close> addresses that were used last, with their counts, where \<open>j\<close> is as
  large as the limit allows with all addresses, and then \<open>i\<close> with those names; the size is then
  below the limit unless everything is gone. The heaps keep their pointers, also those of the
  evicted records.\<close>

theorem view_memsize_keeps_recent:
  assumes "name_model (vs_name_tree vs) C R" "name_model (vs_ip_tree vs) D S" "stored_names (dom C \<union> dom D)"
    and "j = kept bound (\<lambda>n. stats_size ts ps n (length S)) (length R)" "i = kept bound (stats_size ts ps j) (length S)"
  shows "\<exists>t u. view_stats_set_memsize ts ps bound vs = Some (vs\<lparr>vs_name_tree := t, vs_ip_tree := u\<rparr>) \<and>
    name_model t (C |` set (take j R)) (take j R) \<and> nt_heap t = nt_heap (vs_name_tree vs) \<and>
    name_model u (D |` set (take i S)) (take i S) \<and> nt_heap u = nt_heap (vs_ip_tree vs) \<and>
    (view_stats_get_size ts ps (vs\<lparr>vs_name_tree := t, vs_ip_tree := u\<rparr>) \<le> bound \<or> j = 0 \<and> i = 0)"
  by (rule memsize_model [OF assms])

text \<open>A view that has counted one name and no address.\<close>

lemma counted_view:
  obtains vs :: view_stats where "name_model (vs_name_tree vs) (seen ''a.'' Map.empty) [''a.'']" "name_model (vs_ip_tree vs) Map.empty []"
    "length (vs_rcode vs) = 7" "length (vs_rtype vs) = 12"
proof -
  obtain t where t: "name_model t (seen ''a.'' Map.empty) [''a.'']" by (rule counted_model)
  obtain u where u: "name_model u Map.empty []" using created_model by metis
  let ?vs = "\<lparr>vs_name = ''v'', vs_name_tree = t, vs_ip_tree = u, vs_qps = 0, vs_success_rate = 1, vs_count = 0,
    vs_last_count = 0, vs_rcode = replicate 7 0, vs_rtype = replicate 12 0\<rparr>"
  show thesis by (rule that [of ?vs]) (use t u in simp_all)
qed

theorem view_memsize_keeps_recent_witness:
  "\<exists>(vs :: view_stats) j i. name_model (vs_name_tree vs) (seen ''a.'' Map.empty) [''a.''] \<and> name_model (vs_ip_tree vs) Map.empty [] \<and>
    (\<exists>t u. view_stats_set_memsize 152 96 0 vs = Some (vs\<lparr>vs_name_tree := t, vs_ip_tree := u\<rparr>) \<and>
      name_model t (seen ''a.'' Map.empty |` set (take j [''a.''])) (take j [''a.'']) \<and>
      nt_heap t = nt_heap (vs_name_tree vs) \<and>
      name_model u (Map.empty |` set (take i [])) (take i []) \<and> nt_heap u = nt_heap (vs_ip_tree vs) \<and>
      (view_stats_get_size 152 96 (vs\<lparr>vs_name_tree := t, vs_ip_tree := u\<rparr>) \<le> 0 \<or> j = 0 \<and> i = 0))"
proof -
  obtain vs :: view_stats where vs: "name_model (vs_name_tree vs) (seen ''a.'' Map.empty) [''a.'']" "name_model (vs_ip_tree vs) Map.empty []"
    "length (vs_rcode vs) = 7" "length (vs_rtype vs) = 12" by (rule counted_view)
  have s: "stored_names (dom (seen ''a.'' Map.empty) \<union> dom (Map.empty :: string \<rightharpoonup> nat))"
    by (simp add: stored_names_def seen_dom name_fits_def qualify_def MAX_NAME_LEN_def)
  let ?j = "kept 0 (\<lambda>n. stats_size 152 96 n (length ([] :: string list))) (length [''a.''])"
  let ?i = "kept 0 (stats_size 152 96 ?j) (length ([] :: string list))"
  have "\<exists>t u. view_stats_set_memsize 152 96 0 vs = Some (vs\<lparr>vs_name_tree := t, vs_ip_tree := u\<rparr>) \<and>
      name_model t (seen ''a.'' Map.empty |` set (take ?j [''a.''])) (take ?j [''a.'']) \<and>
      nt_heap t = nt_heap (vs_name_tree vs) \<and>
      name_model u (Map.empty |` set (take ?i [])) (take ?i []) \<and> nt_heap u = nt_heap (vs_ip_tree vs) \<and>
      (view_stats_get_size 152 96 (vs\<lparr>vs_name_tree := t, vs_ip_tree := u\<rparr>) \<le> 0 \<or> ?j = 0 \<and> ?i = 0)"
    by (rule view_memsize_keeps_recent [OF vs(1,2) s]) (rule refl)+
  with vs(1,2) show ?thesis by blast
qed

section \<open>Counters\<close>

text \<open>C33. The counters. An answer code of the table gives its position, any other the last position;
  a query type of the table gives its position too, but \<open>SPF\<close> and \<open>SRV\<close> are joined in the table,
  and a type that is not in it is compared with \<open>NULL\<close>: the program aborts. A position counts one
  up and changes nothing else; a negative or a large one is refused, but the guards let the first
  index past the end of each array through.\<close>

theorem view_counters:
  assumes "length (vs_rcode vs) = 7" "length (vs_rtype vs) = 12"
  shows "map (\<lambda>k. rcode_index (the (RCODE ! k))) [0..<7] = map Some [0..<7] \<and>
    (Some c \<notin> set RCODE \<longrightarrow> rcode_index c = Some 6) \<and>
    map (\<lambda>k. rtype_index (the (RTYPE ! k))) [0..<11] = map Some [0..<11] \<and>
    (Some q \<notin> set RTYPE \<longrightarrow> rtype_index q = None) \<and> rtype_index ''SPF'' = None \<and> rtype_index ''SRV'' = None \<and>
    view_stats_rcode_increment vs i = (if i < 0 \<or> 7 < i then Some vs else if i = 7 then None
      else Some (vs\<lparr>vs_rcode := (vs_rcode vs)[nat i := vs_rcode vs ! nat i + 1]\<rparr>)) \<and>
    view_stats_rtype_increment vs i = (if i < 0 \<or> 12 < i then Some vs else if i = 12 then None
      else Some (vs\<lparr>vs_rtype := (vs_rtype vs)[nat i := vs_rtype vs ! nat i + 1]\<rparr>))"
proof (intro conjI impI)
  note inc = view_stats_rcode_increment_def view_stats_rtype_increment_def incr_def RCODE_MAX_NUM_def RTYPE_MAX_NUM_def
  note idx = rcode_index_def rtype_index_def RCODE_def RTYPE_def RCODE_MAX_NUM_def strcmp_sign
  show "map (\<lambda>k. rcode_index (the (RCODE ! k))) [0..<7] = map Some [0..<7]"
    by (simp add: idx upt_conv_Cons)
  show "map (\<lambda>k. rtype_index (the (RTYPE ! k))) [0..<11] = map Some [0..<11]"
    by (simp add: idx upt_conv_Cons)
  show "rcode_index c = Some 6" if "Some c \<notin> set RCODE"
    using that by (simp add: idx)
  show "rtype_index q = None" if "Some q \<notin> set RTYPE"
    using that by (simp add: idx)
  show "rtype_index ''SPF'' = None" "rtype_index ''SRV'' = None" by (simp_all add: idx)
qed (use assms in \<open>auto simp: view_stats_rcode_increment_def view_stats_rtype_increment_def incr_def RCODE_MAX_NUM_def RTYPE_MAX_NUM_def\<close>)

theorem view_counters_witness:
  "\<exists>vs :: view_stats. rcode_index ''REFUSED2'' = Some 6 \<and> rtype_index ''PTR'' = None \<and>
    view_stats_rcode_increment vs 7 = None \<and>
    view_stats_rtype_increment vs 2 = Some (vs\<lparr>vs_rtype := (vs_rtype vs)[2 := vs_rtype vs ! 2 + 1]\<rparr>)"
proof -
  obtain vs :: view_stats where vs: "name_model (vs_name_tree vs) (seen ''a.'' Map.empty) [''a.'']"
    "name_model (vs_ip_tree vs) Map.empty []" "length (vs_rcode vs) = 7" "length (vs_rtype vs) = 12" by (rule counted_view)
  have n: "Some ''REFUSED2'' \<notin> set RCODE" "Some ''PTR'' \<notin> set RTYPE" by (simp_all add: RCODE_def RTYPE_def)
  show ?thesis
    using view_counters [OF vs(3,4), of "''REFUSED2''" "''PTR''" 7] view_counters [OF vs(3,4), of "''REFUSED2''" "''PTR''" 2] n
    by (intro exI [of _ vs]) simp
qed

section \<open>The top names\<close>

text \<open>A tree whose heap still holds exactly the counted names.\<close>

definition counted_tree :: "name_tree \<Rightarrow> (string \<rightharpoonup> nat) \<Rightarrow> bool" where
  "counted_tree t C \<longleftrightarrow>
     (\<exists>V U. name_state t V U \<and> heap_complete (nt_nvs t) (nt_heap t) V \<and> C = name_counts (nt_nvs t) V)"

lemma take_sorted_top:
  assumes "sorted_wrt (\<lambda>p q. (f q :: nat) \<le> f p) L"
  shows "sorted_wrt (\<lambda>p q. f q \<le> f p) (take k L)"
    and "v \<in> set L - set (take k L) \<Longrightarrow> w \<in> set (take k L) \<Longrightarrow> f v \<le> f w"
proof -
  show "sorted_wrt (\<lambda>p q. f q \<le> f p) (take k L)" using assms by (rule sorted_wrt_take)
  have "sorted_wrt (\<lambda>p q. f q \<le> f p) (take k L @ drop k L)" using assms by simp
  then show "f v \<le> f w" if "v \<in> set L - set (take k L)" "w \<in> set (take k L)"
    using that by (auto simp only: sorted_wrt_append Diff_iff) (metis Un_iff append_take_drop_id set_append)
qed

text \<open>The copy is sorted and the first cells of it make the reply.\<close>

lemma result_total:
  assumes st: "name_state t V U"
  obtains L where "mset L = heap_content (nt_heap t)"
    and "nv_ordered (nt_nvs t) (nt_heap t) \<Longrightarrow> sorted_wrt (\<lambda>p q. nv_key (nt_nvs t) q \<le> nv_key (nt_nvs t) p) L"
    and "\<And>topn key. view_stats_result pack (Some junk) t key topn = (if topn < 0 then None else
      Some (Some (pack ((STATS_REPLY__INIT key)\<lparr>
        r_name := map Some (map (\<lambda>v. fqdn (nt_nvs t v)) (take (nat topn) L)),
        r_count := map (\<lambda>v. nv_count (nt_nvs t v)) (take (nat topn) L)\<rparr>))))"
proof -
  let ?s = "nt_nvs t"
  define copy :: name_heap where "copy = \<lparr>heap = (\<lambda>i. if i < len (nt_heap t) then heap (nt_heap t) i else junk i), len = len (nt_heap t),
             maxSize = maxSize (nt_heap t), cmp = cmp (nt_heap t)\<rparr>"
  have cp: "heap_copy (Some junk) (nt_heap t) = Some copy" by (simp add: heap_copy_def copy_def)
  have good: "nv_heap ?s copy" using name_stateD(7) [OF st] by (simp add: heap_safe_def nv_heap_def copy_def)
  have cont: "heap_content copy = heap_content (nt_heap t)"
    using prefix_list_cong [of "len (nt_heap t)" "heap copy" "heap (nt_heap t)"]
    by (simp add: heap_content_def copy_def)
  obtain sh where sh: "heap_sort ?s copy = Some sh" "heap_content sh = heap_content (nt_heap t)" "len sh = len copy"
    "nv_ordered ?s copy \<longrightarrow> sorted_wrt (\<lambda>p q. nv_key ?s q \<le> nv_key ?s p) (prefix_list (heap sh) (len sh))"
    using nvh.heap_sort_correct [of ?s copy] good cont unfolding nv_heap_simps by metis
  let ?L = "prefix_list (heap sh) (len sh)"
  have tk: "map (\<lambda>i. f (heap sh i)) [0..<nat (c_min topn (int (len sh)))] = map f (take (nat topn) ?L)"
    for f :: "addr \<Rightarrow> 'x" and topn
  proof (rule nth_equalityI)
    fix i
    assume "i < length (map (\<lambda>i. f (heap sh i)) [0..<nat (c_min topn (int (len sh)))])"
    then have "i < nat topn" "i < len sh" by (auto simp: c_min_def split: if_splits)
    then show "map (\<lambda>i. f (heap sh i)) [0..<nat (c_min topn (int (len sh)))] ! i = map f (take (nat topn) ?L) ! i"
      by (auto simp: c_min_def)
  qed (auto simp: c_min_def)
  have neg: "0 \<le> c_min topn (int (len sh)) \<longleftrightarrow> 0 \<le> topn" for topn by (auto simp: c_min_def)
  have call: "view_stats_result pack (Some junk) t key topn = (if topn < 0 then None else
      Some (Some (pack ((STATS_REPLY__INIT key)\<lparr>
        r_name := map Some (map (\<lambda>v. fqdn (?s v)) (take (nat topn) ?L)),
        r_count := map (\<lambda>v. nv_count (?s v)) (take (nat topn) ?L)\<rparr>))))" for topn key
    using tk [of "\<lambda>v. Some (fqdn (?s v))" topn] tk [of "\<lambda>v. nv_count (?s v)" topn]
    by (simp add: view_stats_result_def cp sh(1) Let_def neg guard_def comp_def)
  show thesis
  proof (rule that [OF _ _ call])
    show "mset ?L = heap_content (nt_heap t)" using sh(2) by (simp add: heap_content_def)
    assume "nv_ordered ?s (nt_heap t)"
    then have "nv_ordered ?s copy" unfolding nv_ordered_def copy_def
      by (simp, metis (no_types, lifting) less_trans parent_idx_less)
    then show "sorted_wrt (\<lambda>p q. nv_key ?s q \<le> nv_key ?s p) ?L" using sh(4) by blast
  qed
qed

lemma result_run:
  assumes "name_state t V U" "heap_complete (nt_nvs t) (nt_heap t) V"
  obtains L where "mset L = mset V"
    and "nv_ordered (nt_nvs t) (nt_heap t) \<Longrightarrow> sorted_wrt (\<lambda>p q. nv_key (nt_nvs t) q \<le> nv_key (nt_nvs t) p) L"
    and "\<And>topn key. view_stats_result pack (Some junk) t key topn = (if topn < 0 then None else
      Some (Some (pack ((STATS_REPLY__INIT key)\<lparr>
        r_name := map Some (map (\<lambda>v. fqdn (nt_nvs t v)) (take (nat topn) L)),
        r_count := map (\<lambda>v. nv_count (nt_nvs t v)) (take (nat topn) L)\<rparr>))))"
  using assms(2) result_total [OF assms(1), where pack = pack and junk = junk] unfolding heap_complete_def by metis

lemma topn_reply:
  assumes "counted_tree t C"
  shows "if topn < 0 then view_stats_result pack (Some junk) t key topn = None
    else view_stats_result pack None t key topn = Some None \<and>
      (\<exists>names. view_stats_result pack (Some junk) t key topn =
          Some (Some (pack ((STATS_REPLY__INIT key)\<lparr>r_name := map Some names, r_count := map (\<lambda>k. of_nat (the (C k))) names\<rparr>))) \<and>
        length names = min (nat topn) (card (dom C)) \<and> distinct names \<and> set names \<subseteq> dom C \<and>
        (nv_ordered (nt_nvs t) (nt_heap t) \<longrightarrow> sorted_wrt (\<lambda>a b. the (C b) \<le> the (C a)) names \<and>
          (\<forall>k \<in> dom C - set names. \<forall>a \<in> set names. the (C k) \<le> the (C a))))"
proof -
  obtain V U where st: "name_state t V U" and hc: "heap_complete (nt_nvs t) (nt_heap t) V" and C: "C = name_counts (nt_nvs t) V"
    using assms by (auto simp: counted_tree_def)
  let ?s = "nt_nvs t"
  obtain L where L: "mset L = mset V"
    and srt: "nv_ordered ?s (nt_heap t) \<Longrightarrow> sorted_wrt (\<lambda>p q. nv_key ?s q \<le> nv_key ?s p) L"
    and call: "\<And>topn key. view_stats_result pack (Some junk) t key topn = (if topn < 0 then None else
      Some (Some (pack ((STATS_REPLY__INIT key)\<lparr>r_name := map Some (map (\<lambda>v. fqdn (?s v)) (take (nat topn) L)),
        r_count := map (\<lambda>v. nv_count (?s v)) (take (nat topn) L)\<rparr>))))"
    using result_run [OF st hc, where pack = pack and junk = junk] by blast
  define W where "W = take (nat topn) L"
  let ?names = "map (\<lambda>v. fqdn (?s v)) W"
  have LV: "set L = set V" "distinct L" "length L = length V" using L name_stateD(11) [OF st]
    by (metis set_mset_mset, metis mset_eq_imp_distinct_iff, metis size_mset)
  have W: "set W \<subseteq> set V" "distinct W" using LV set_take_subset [of _ L] by (auto simp: W_def)
  have key: "the (C (fqdn (?s v))) = nv_key ?s v" if "v \<in> set V" for v
    unfolding C using name_counts_Some [OF name_stateD(13) [OF st] that] by (simp add: nv_key_def)
  have cnt: "map (\<lambda>v. nv_count (?s v)) W = map (\<lambda>k. of_nat (the (C k))) ?names"
    using key W(1) by (auto simp: nv_key_def)
  have inj: "inj_on (\<lambda>v. fqdn (?s v)) (set W)" using name_stateD(13) [OF st] W(1) by (rule inj_on_subset)
  have dom: "dom C = (\<lambda>v. fqdn (?s v)) ` set V" unfolding C by (rule name_counts_dom)
  have len: "length ?names = min (nat topn) (card (dom C))"
    using LV(3) state_length [OF st] by (simp add: C W_def)
  have top: "sorted_wrt (\<lambda>a b. the (C b) \<le> the (C a)) ?names \<and> (\<forall>k \<in> dom C - set ?names. \<forall>a \<in> set ?names. the (C k) \<le> the (C a))"
    if o: "nv_ordered ?s (nt_heap t)"
  proof
    note T = take_sorted_top [OF srt [OF o], where k = "nat topn", folded W_def]
    show "sorted_wrt (\<lambda>a b. the (C b) \<le> the (C a)) ?names"
      unfolding sorted_wrt_map by (rule sorted_wrt_mono_rel [OF _ T(1)]) (metis key W(1) subsetD)
    show "\<forall>k \<in> dom C - set ?names. \<forall>a \<in> set ?names. the (C k) \<le> the (C a)"
    proof (intro ballI)
      fix k a
      assume k: "k \<in> dom C - set ?names" and "a \<in> set ?names"
      then obtain v w where v: "v \<in> set V" "k = fqdn (?s v)" and w: "w \<in> set W" "a = fqdn (?s w)" using dom by auto
      then have "v \<in> set L - set W" using k LV(1) by auto
      then show "the (C k) \<le> the (C a)" using T(2) [OF _ w(1), of v] key v w W(1) by (metis subsetD)
    qed
  qed
  have "view_stats_result pack None t key topn = Some None" by (simp add: view_stats_result_def heap_copy_def)
  moreover have sub: "set ?names \<subseteq> dom C" using W(1) dom by auto
  moreover have dist: "distinct ?names" using inj W(2) by (simp add: distinct_map)
  ultimately have r: "view_stats_result pack None t key topn = Some None \<and> distinct ?names \<and> set ?names \<subseteq> dom C" by blast
  note run = call [of key topn, folded W_def, unfolded cnt]
  show ?thesis
  proof (cases "topn < 0")
    case True
    then show ?thesis using run by simp
  next
    case False
    then show ?thesis unfolding run using r len top by (simp only: if_False) (intro conjI exI [of _ ?names] impI refl; blast)
  qed
qed

section \<open>A run of insertions whose reply is out of order\<close>

text \<open>The heap of a tree as the list of its names with their counts; it holds every name of the tree.\<close>

definition heap_list :: "name_tree \<Rightarrow> (string \<times> nat) list \<Rightarrow> bool" where
  "heap_list t P \<longleftrightarrow> (\<exists>V U. name_state t V U \<and> heap_complete (nt_nvs t) (nt_heap t) V) \<and> pools_hold t 1024 \<and>
     P = map (\<lambda>v. (fqdn (nt_nvs t v), nv_key (nt_nvs t) v)) (prefix_list (heap (nt_heap t)) (len (nt_heap t)))"

lemma elem_compare_keys:
  "nv_good s p \<Longrightarrow> nv_good s q \<Longrightarrow> elem_compare s p q = Some (int (nv_key s p) - int (nv_key s q))"
  by (simp add: elem_compare_def nv_good_def nv_key_def int_diff_small del: of_nat_unat)

lemma heap_listD:
  assumes "heap_list t P"
  obtains V U where "name_state t V U" "heap_complete (nt_nvs t) (nt_heap t) V" "pools_hold t 1024"
    "set V = heap (nt_heap t) ` {..<len (nt_heap t)}" "length V = length P" "len (nt_heap t) = length P"
    "\<forall>i < length P. P ! i = (fqdn (nt_nvs t (heap (nt_heap t) i)), nv_key (nt_nvs t) (heap (nt_heap t) i))"
    "\<forall>i < length P. nv_good (nt_nvs t) (heap (nt_heap t) i) \<and> heap_index (nt_nvs t (heap (nt_heap t) i)) = int i"
    "cmp (nt_heap t) = elem_compare" "inj_on (heap (nt_heap t)) {..<length P}"
proof -
  obtain V U where st: "name_state t V U" "heap_complete (nt_nvs t) (nt_heap t) V" "pools_hold t 1024"
    and P: "P = map (\<lambda>v. (fqdn (nt_nvs t v), nv_key (nt_nvs t) v)) (prefix_list (heap (nt_heap t)) (len (nt_heap t)))"
    using assms by (auto simp: heap_list_def)
  have c: "nv_indexed (nt_nvs t) (nt_heap t)" "mset (prefix_list (heap (nt_heap t)) (len (nt_heap t))) = mset V"
    using st(2) by (simp_all add: heap_complete_def heap_content_def)
  have l: "len (nt_heap t) = length P" using P by simp
  have "nv_heap (nt_nvs t) (nt_heap t)" using name_stateD(7) [OF st(1)] by (simp add: heap_safe_def)
  then have h: "cmp (nt_heap t) = elem_compare" "\<And>i. i < length P \<Longrightarrow> nv_good (nt_nvs t) (heap (nt_heap t) i)"
    using l by (auto simp: nv_heap_def)
  have i: "inj_on (heap (nt_heap t)) {..<length P}"
    using c(1) l by (auto simp: nv_indexed_def inj_on_def distinct_conv_nth)
  have V: "set V = heap (nt_heap t) ` {..<len (nt_heap t)}" using c(2) by (metis set_mset_mset set_prefix_list)
  have lV: "length V = length P" using c(2) l by (metis length_prefix_list size_mset)
  have g: "\<forall>i < length P. nv_good (nt_nvs t) (heap (nt_heap t) i) \<and> heap_index (nt_nvs t (heap (nt_heap t) i)) = int i"
    using c(1) l h(2) by (simp add: nv_indexed_def)
  have p: "\<forall>i < length P. P ! i = (fqdn (nt_nvs t (heap (nt_heap t) i)), nv_key (nt_nvs t) (heap (nt_heap t) i))"
  proof (intro allI impI)
    fix i assume "i < length P"
    then show "P ! i = (fqdn (nt_nvs t (heap (nt_heap t) i)), nv_key (nt_nvs t) (heap (nt_heap t) i))"
      using l by (subst P) simp
  qed
  show thesis by (rule that [OF st V lV l p g h(1) i])
qed

lemma heap_listI:
  assumes "name_state t V U" "heap_complete (nt_nvs t) (nt_heap t) V" "pools_hold t 1024" "len (nt_heap t) = length P"
    "\<And>i. i < length P \<Longrightarrow> P ! i = (fqdn (nt_nvs t (heap (nt_heap t) i)), nv_key (nt_nvs t) (heap (nt_heap t) i))"
  shows "heap_list t P"
proof -
  have "P = map (\<lambda>v. (fqdn (nt_nvs t v), nv_key (nt_nvs t) v)) (prefix_list (heap (nt_heap t)) (len (nt_heap t)))"
    using assms(4,5) by (intro nth_equalityI) simp_all
  then show ?thesis using assms(1-3) unfolding heap_list_def by blast
qed

text \<open>The front of the heap is counted once more and stays in front.\<close>

lemma heap_list_front:
  assumes hl: "heap_list t ((qualify name, c) # P)" and fits: "name_fits name" and c: "Suc c < 2 ^ 31"
    and least: "\<forall>x \<in> set P. Suc c \<le> snd x" and room: "0 < lru_room (nt_lru_mem t)" and len: "length P < ROOF"
  obtains t' where "name_tree_insert t (Some name) = Some (t', 0)" "heap_list t' ((qualify name, Suc c) # P)"
    "lru_room (nt_lru_mem t) \<le> lru_room (nt_lru_mem t') + 1"
proof -
  let ?P = "(qualify name, c) # P" and ?h = "nt_heap t" and ?s = "nt_nvs t"
  define v where "v = heap (nt_heap t) 0"
  obtain V U where st: "name_state t V U" "heap_complete ?s ?h V" "pools_hold t 1024" "set V = heap ?h ` {..<len ?h}"
    "length V = length ?P" "len ?h = length ?P"
    and e': "\<forall>i < length ?P. ?P ! i = (fqdn (?s (heap ?h i)), nv_key ?s (heap ?h i))"
    "\<forall>i < length ?P. nv_good ?s (heap ?h i) \<and> heap_index (?s (heap ?h i)) = int i"
    "cmp ?h = elem_compare" "inj_on (heap ?h) {..<length ?P}"
    by (rule heap_listD [OF hl])
  note e = e'(1,2) [rule_format] e'(3,4)
  have v: "fqdn (?s v) = qualify name" "nv_key ?s v = c" "nv_good ?s v" "heap_index (?s v) = 0" "v \<noteq> NULL"
    using e(1,2) [of 0] by (simp_all add: v_def nv_good_def)
  have vV: "v \<in> set V" using st(4,6) by (simp add: v_def)
  have other: "heap ?h i \<noteq> v" if "0 < i" "i < length ?P" for i
    using inj_onD [OF e(4), of i 0] that by (auto simp: v_def)
  have "length V < 1024" using st(5) len by (simp add: ROOF_def)
  note pools = pools_hold_take [OF st(1,3) this]
  have cv: "name_counts ?s V (qualify name) = Some c"
    using name_counts_Some [OF name_stateD(13) [OF st(1)] vV] v(1,2) by (simp add: nv_key_def)
  have small: "m < 2 ^ 31 - 1" if "name_counts ?s V (qualify name) = Some m" for m using that cv c by simp
  show thesis
  proof (cases rule: insert_state [OF st(1) fits pools(2,3) room small, consumes 0, case_names small full counted])
    case (full t')
    then show ?thesis using pools(1) by simp
  next
    case (counted t' V' U')
    have "length V' = length V"
      using state_length [OF counted(2)] state_length [OF st(1)] cv counted(3) by (simp add: seen_dom insert_absorb domI)
    then have hc: "heap_complete (nt_nvs t') (nt_heap t') V'" using counted(5) st(2,5) len by simp
    have hold: "pools_hold t' 1024" using counted(6) pools(4) st(3) by (auto simp: pools_hold_def)
    obtain mem lru where "rank_name (count_name (t\<lparr>nt_lru_mem := mem, nt_lru := lru\<rparr>) v) v = Some t'"
      using counted(1) exactly_find_state(1) [OF st(1) fits vV v(1)] v(5) name_fits_copy [OF fits]
      by (auto simp: name_tree_insert_def elim!: bind_eq_SomeE)
    moreover define t1 where "t1 = count_name (t\<lparr>nt_lru_mem := mem, nt_lru := lru\<rparr>) v"
    ultimately have rank: "rank_name t1 v = Some t'" by simp
    have t1: "nt_heap t1 = ?h" "fqdn (nt_nvs t1 w) = fqdn (?s w)" "heap_index (nt_nvs t1 w) = heap_index (?s w)"
      "w \<noteq> v \<Longrightarrow> nt_nvs t1 w = ?s w" for w by (simp_all add: t1_def count_name_def)
    have k1: "nv_key (nt_nvs t1) v = Suc c"
    proof -
      have "unat (nv_count (?s v)) = c" using v(2) by (simp add: nv_key_def)
      then show ?thesis using c by (simp add: t1_def count_name_def nv_key_def unat_word_ariths)
    qed
    have g1: "nv_good (nt_nvs t1) (heap ?h i)" if "i < length ?P" for i
      using e(2) [OF that] t1(4) [of "heap ?h i"] k1 c by (cases "heap ?h i = v") (simp_all add: nv_good_def nv_key_def)
    have ko: "nv_key (nt_nvs t1) (heap ?h i) = snd (?P ! i)" if "0 < i" "i < length ?P" for i
      using e(1) [OF that(2)] other [OF that] t1(4) by (simp add: nv_key_def)
    have down: "heap_down (Some elem_insert) (nt_nvs t1) ?h (len ?h) v 0 = Some (nt_nvs t1, ?h, 0)"
    proof (cases "P = []")
      case True
      then show ?thesis using st(6) by (simp add: heap_down.simps)
    next
      case False
      then have n: "2 * 0 + 1 < length ?P" by (cases P) simp_all
      obtain j where j: "smaller_child (nt_nvs t1) ?h (length ?P) (2 * 0 + 1) = Some j" "0 < j" "j < length ?P"
        by (rule nvh.smaller_child_ok [of ?h 0 "length ?P" "nt_nvs t1"]) (use e(3) n g1 in simp_all)
      have "snd (?P ! j) \<ge> Suc c" using least j(2,3) by (cases j) simp_all
      then have "elem_compare (nt_nvs t1) v (heap ?h j) = Some (int (Suc c) - int (snd (?P ! j)))" "Suc c \<le> snd (?P ! j)"
        using elem_compare_keys [OF g1 [of 0] g1 [OF j(3)]] k1 ko [OF j(2,3)] by (simp_all add: v_def)
      then show ?thesis using j(1) n st(6) e(3) by (subst heap_down.simps) simp
    qed
    have "len ?h \<le> ROOF" using st(6) len by simp
    then have "heap_value ?h 0 = Some v" by (simp add: heap_value_def v_def MAX_HEAP_NODE_NUM_def)
    then have "t' = t1\<lparr>nt_heap := ?h\<rparr>" using rank down t1(1,3) v(4) by (simp add: rank_name_def heap_adjust_siftdown_def)
    then have "t' = t1" by (simp add: t1_def count_name_def)
    have "heap_list t' ((qualify name, Suc c) # P)"
    proof (rule heap_listI [OF counted(2) hc hold])
      show "len (nt_heap t') = length ((qualify name, Suc c) # P)" using st(6) t1(1) \<open>t' = t1\<close> by simp
      show "((qualify name, Suc c) # P) ! i = (fqdn (nt_nvs t' (heap (nt_heap t') i)), nv_key (nt_nvs t') (heap (nt_heap t') i))"
        if "i < length ((qualify name, Suc c) # P)" for i
      proof (cases i)
        case 0
        then show ?thesis using \<open>t' = t1\<close> t1(1,2) v(1) k1 by (simp add: v_def)
      next
        case (Suc j)
        then show ?thesis using \<open>t' = t1\<close> t1(1,2) e(1) [of i] ko [of i] that by simp
      qed
    qed
    then show ?thesis using that counted(1,7) by force
  qed
qed

text \<open>A new name enters the heap at the end, or takes the place of its parent when that was counted more than once.\<close>

definition enter :: "string \<times> nat \<Rightarrow> (string \<times> nat) list \<Rightarrow> (string \<times> nat) list" where
  "enter x P = (let p = parent_idx (length P)
     in if P = [] \<or> snd (P ! p) \<le> snd x then P @ [x] else (P @ [P ! p])[p := x])"

lemma heap_list_new:
  assumes hl: "heap_list t P" and fits: "name_fits name" and new: "qualify name \<notin> fst ` set P"
    and ord: "\<forall>k. 0 < k \<and> k < length P \<longrightarrow> snd (P ! parent_idx k) \<le> snd (P ! k)"
    and room: "0 < lru_room (nt_lru_mem t)" and len: "length P < ROOF"
  obtains t' where "name_tree_insert t (Some name) = Some (t', 0)" "heap_list t' (enter (qualify name, 1) P)"
    "lru_room (nt_lru_mem t) \<le> lru_room (nt_lru_mem t') + 1"
proof -
  let ?h = "nt_heap t" and ?s = "nt_nvs t"
  obtain V U where st: "name_state t V U" "heap_complete ?s ?h V" "pools_hold t 1024" "set V = heap ?h ` {..<len ?h}"
    "length V = length P" "len ?h = length P"
    and e': "\<forall>i < length P. P ! i = (fqdn (?s (heap ?h i)), nv_key ?s (heap ?h i))"
    "\<forall>i < length P. nv_good ?s (heap ?h i) \<and> heap_index (?s (heap ?h i)) = int i"
    "cmp ?h = elem_compare" "inj_on (heap ?h) {..<length P}"
    by (rule heap_listD [OF hl])
  note e = e'(1,2) [rule_format] e'(3,4)
  have abs: "qualify name \<notin> (\<lambda>v. fqdn (?s v)) ` set V"
  proof
    assume "qualify name \<in> (\<lambda>v. fqdn (?s v)) ` set V"
    then obtain i where i: "i < length P" "qualify name = fqdn (?s (heap ?h i))" using st(4,6) by auto
    then have "P ! i \<in> set P" by simp
    moreover have "fst (P ! i) = qualify name" using i e(1) [OF i(1)] by simp
    ultimately show False using new by (metis image_eqI)
  qed
  then have none: "name_counts ?s V (qualify name) = None" by (simp add: name_counts_None)
  have "length V < 1024" using st(5) len by (simp add: ROOF_def)
  note pools = pools_hold_take [OF st(1,3) this]
  have small: "m < 2 ^ 31 - 1" if "name_counts ?s V (qualify name) = Some m" for m using that none by simp
  show thesis
  proof (cases rule: insert_state [OF st(1) fits pools(2,3) room small, consumes 0, case_names small full counted])
    case (full t')
    then show ?thesis using pools(1) by simp
  next
    case (counted t' V' U')
    have "finite (dom (name_counts ?s V))" by (simp add: name_counts_dom)
    then have "length V' = Suc (length V)"
      using state_length [OF counted(2)] state_length [OF st(1)] none counted(3) by (simp add: seen_dom domIff)
    then have hc: "heap_complete (nt_nvs t') (nt_heap t') V'" using counted(5) st(2,5) len by simp
    have hold: "pools_hold t' 1024" using counted(6) pools(4) st(3) by (auto simp: pools_hold_def)
    obtain t1 v where t1: "insert_new_name t name = Some (t1, v)" "v \<noteq> NULL" "v \<notin> set V" "nt_heap t1 = ?h"
      "fqdn (nt_nvs t1 v) = qualify name" "nv_count (nt_nvs t1 v) = 0" "heap_index (nt_nvs t1 v) = - 1"
      "\<forall>w. w \<noteq> v \<longrightarrow> nt_nvs t1 w = ?s w"
    proof (cases rule: insert_new_name_ok [OF st(1) fits pools(2,3) room abs, consumes 0, case_names full fresh])
      case (full t1)
      then show ?thesis using pools(1) by simp
    next
      case (fresh t1 v a V1 V2)
      then show ?thesis using that by blast
    qed
    define s1 where "s1 = nt_nvs (count_name t1 v)"
    have rank: "rank_name (count_name t1 v) v = Some t'"
      using counted(1) exactly_find_state(2) [OF st(1) fits abs] t1(1,2) name_fits_copy [OF fits]
      by (auto simp: name_tree_insert_def elim!: bind_eq_SomeE)
    have apart: "heap ?h i \<noteq> v" if "i < length P" for i using t1(3) st(4,6) that by auto
    have s1: "fqdn (s1 v) = qualify name" "nv_key s1 v = 1" "heap_index (s1 v) = - 1" "w \<noteq> v \<Longrightarrow> s1 w = ?s w" for w
      using t1(5-8) by (simp_all add: s1_def count_name_def nv_key_def)
    have g: "nv_good s1 v" "\<forall>i < length P. nv_good s1 (heap ?h i)"
      using s1(2,4) t1(2) e(2) apart by (simp_all add: nv_good_def nv_key_def)
    have keys: "nv_key s1 (heap ?h i) = snd (P ! i)" "fqdn (s1 (heap ?h i)) = fst (P ! i)" if "i < length P" for i
      using e(1) [OF that] s1(4) [OF apart [OF that]] by (simp_all add: nv_key_def)
    have lm: "len ?h < MAX_HEAP_NODE_NUM" using st(6) len by (simp add: ROOF_def MAX_HEAP_NODE_NUM_def)
    have wf: "nv_heap s1 ?h" using e(3) g(2) st(6) lm by (simp add: nv_heap_def)
    have "nv_key s1 (heap ?h (parent_idx k)) \<le> nv_key s1 (heap ?h k)" if "0 < k" "k < length P" for k
      using ord keys(1) [OF that(2)] keys(1) [OF less_trans [OF parent_idx_less that(2)]] that by simp
    then have "nv_ordered s1 ?h" using st(6) by (simp add: nv_ordered_def)
    note ins = nvh.heap_insert_shape [of "Some elem_insert" s1 ?h v, unfolded nv_heap_simps, OF _ wf this lm g(1)]
      nvh.heap_insert_correct [of "Some elem_insert" s1 ?h v, unfolded nv_heap_simps, OF _ wf lm g(1)]
    obtain s2 h2 i where ins1: "heap_insert (Some elem_insert) s1 ?h v = Some (s2, h2, i)" and len2: "len h2 = length P + 1"
      and shape: "if len ?h = 0 \<or> nv_key s1 (heap ?h (parent_idx (len ?h))) \<le> nv_key s1 v
       then i = len ?h \<and> heap h2 = (heap ?h)(len ?h := v)
       else i = parent_idx (len ?h) \<and> heap h2 = swap_cells (len ?h) (parent_idx (len ?h)) ((heap ?h)(len ?h := v))"
      using ins st(6) by auto
    have re: "fqdn (s2 w) = fqdn (s1 w)" "nv_key s2 w = nv_key s1 w" for w
      using heap_insert_reindexed [OF ins1] by (simp_all add: reindexed_def nv_key_def)
    have t': "nt_nvs t' = s2" "nt_heap t' = h2"
      using rank ins1 s1(3) t1(4) st(6) len by (auto simp: rank_name_def s1_def [symmetric] heap_reach_roof_def)
    define entry where "entry w = (fqdn (s1 w), nv_key s1 w)" for w
    have old: "entry (heap ?h k) = P ! k" if "k < length P" for k using keys [OF that] by (simp add: entry_def)
    have nw: "entry v = (qualify name, 1)" using s1(1,2) by (simp add: entry_def)
    have "heap_list t' (enter (qualify name, 1) P)"
    proof (rule heap_listI [OF counted(2) hc hold])
      show "len (nt_heap t') = length (enter (qualify name, 1) P)" using len2 t'(2) by (simp add: enter_def Let_def)
      fix k
      assume "k < length (enter (qualify name, 1) P)"
      then have k: "k < Suc (length P)" by (simp add: enter_def Let_def split: if_splits)
      have "enter (qualify name, 1) P ! k = entry (heap h2 k)"
      proof (cases "P = [] \<or> snd (P ! parent_idx (length P)) \<le> 1")
        case True
        then have "len ?h = 0 \<or> nv_key s1 (heap ?h (parent_idx (len ?h))) \<le> nv_key s1 v"
          using st(6) s1(2) keys(1) [of "parent_idx (length P)"] parent_idx_less [of "length P"] by (cases "P = []") auto
        then have "heap h2 = (heap ?h)(length P := v)" using shape st(6) by simp
        then show ?thesis using True k old nw by (auto simp: enter_def Let_def nth_append less_Suc_eq)
      next
        case False
        have p: "parent_idx (length P) < length P" using False by simp
        have "\<not> (len ?h = 0 \<or> nv_key s1 (heap ?h (parent_idx (len ?h))) \<le> nv_key s1 v)"
          using False st(6) s1(2) keys(1) [OF p] by simp
        then have "heap h2 = swap_cells (length P) (parent_idx (length P)) ((heap ?h)(length P := v))" using shape st(6) by simp
        then show ?thesis using False k p old nw
          by (auto simp: enter_def Let_def nth_append nth_list_update less_Suc_eq swap_cells_apply)
      qed
      then show "enter (qualify name, 1) P ! k = (fqdn (nt_nvs t' (heap (nt_heap t') k)), nv_key (nt_nvs t') (heap (nt_heap t') k))"
        using t' re by (simp add: entry_def)
    qed
    then show ?thesis using that counted(1,7) by force
  qed
qed

lemma insert_all_append:
  "insert_all (xs @ ys) t = do { (t1, r) \<leftarrow> insert_all xs t; (t2, s) \<leftarrow> insert_all ys t1; Some (t2, r @ s) }"
proof (induction xs arbitrary: t)
  case Nil
  show ?case by (cases "insert_all ys t") auto
next
  case (Cons x xs)
  show ?case
  proof (cases "name_tree_insert t (Some x)")
    case (Some y)
    then show ?thesis by (cases y; cases "insert_all xs (fst y)") (auto simp: Cons.IH split: Option.bind_splits)
  qed simp
qed

text \<open>A name at the front of the heap that is inserted again and again.\<close>

lemma heap_list_fronts:
  assumes "name_fits name" "c + m < 2 ^ 31" "\<forall>x \<in> set P. c + m \<le> snd x" "length P < ROOF"
  shows "heap_list t ((qualify name, c) # P) \<Longrightarrow> m \<le> lru_room (nt_lru_mem t) \<Longrightarrow>
    \<exists>t'. insert_all (replicate m name) t = Some (t', replicate m 0) \<and> heap_list t' ((qualify name, c + m) # P) \<and>
      lru_room (nt_lru_mem t) \<le> lru_room (nt_lru_mem t') + m"
  using assms(2,3)
proof (induction m arbitrary: t c)
  case 0
  then show ?case by simp
next
  case (Suc m)
  have c: "Suc c < 2 ^ 31" "\<forall>x \<in> set P. Suc c \<le> snd x" "0 < lru_room (nt_lru_mem t)" using Suc.prems by auto
  obtain t1 where t1: "name_tree_insert t (Some name) = Some (t1, 0)" "heap_list t1 ((qualify name, Suc c) # P)"
    "lru_room (nt_lru_mem t) \<le> lru_room (nt_lru_mem t1) + 1"
    by (rule heap_list_front [OF Suc.prems(1) assms(1) c assms(4)])
  have "m \<le> lru_room (nt_lru_mem t1)" "Suc c + m < 2 ^ 31" "\<forall>x \<in> set P. Suc c + m \<le> snd x" using t1(3) Suc.prems by auto
  then obtain t' where "insert_all (replicate m name) t1 = Some (t', replicate m 0)" "heap_list t' ((qualify name, Suc c + m) # P)"
    "lru_room (nt_lru_mem t1) \<le> lru_room (nt_lru_mem t') + m" using Suc.IH [OF t1(2)] by blast
  then show ?case using t1(1,3) by simp
qed

text \<open>A new name that gets to the front is inserted \<open>k\<close> times.\<close>

lemma heap_list_block:
  assumes hl: "heap_list t P" and fits: "name_fits name" and new: "qualify name \<notin> fst ` set P"
    and same: "\<forall>x \<in> set P. snd x = k" and k: "2 \<le> k" "k < 2 ^ 31" and room: "k \<le> lru_room (nt_lru_mem t)"
    and len: "length P < ROOF" and front: "enter (qualify name, 1) P = (qualify name, 1) # Q" and Q: "\<forall>x \<in> set Q. snd x = k"
  obtains t' where "insert_all (replicate k name) t = Some (t', replicate k 0)" "heap_list t' ((qualify name, k) # Q)"
    "lru_room (nt_lru_mem t) \<le> lru_room (nt_lru_mem t') + k"
proof -
  obtain m where m: "k = Suc m" using k(1) by (cases k) auto
  have ord: "\<forall>j. 0 < j \<and> j < length P \<longrightarrow> snd (P ! parent_idx j) \<le> snd (P ! j)"
    using same by (metis less_trans nth_mem order_refl parent_idx_less)
  have r: "0 < lru_room (nt_lru_mem t)" using room k(1) by simp
  obtain t1 where t1: "name_tree_insert t (Some name) = Some (t1, 0)" "heap_list t1 (enter (qualify name, 1) P)"
    "lru_room (nt_lru_mem t) \<le> lru_room (nt_lru_mem t1) + 1"
    by (rule heap_list_new [OF hl fits new ord r len])
  have "length (enter (qualify name, 1) P) = Suc (length P)" by (simp add: enter_def Let_def)
  then have lQ: "length Q < ROOF" using front len by simp
  have "m \<le> lru_room (nt_lru_mem t1)" "1 + m < 2 ^ 31" "\<forall>x \<in> set Q. 1 + m \<le> snd x" using t1(3) room k(2) Q m by auto
  then obtain t' where "insert_all (replicate m name) t1 = Some (t', replicate m 0)" "heap_list t' ((qualify name, 1 + m) # Q)"
    "lru_room (nt_lru_mem t1) \<le> lru_room (nt_lru_mem t') + m"
    using heap_list_fronts [OF fits _ _ lQ, of 1 m t1] t1(2) front by auto
  then show thesis using that [of t'] t1(1,3) m by simp
qed

text \<open>The reply from a heap of four names with the second counted less than the others.\<close>

lemma heap_list_reply:
  assumes hl: "heap_list t [(c, k), (d, 1), (b, k), (a, k)]" and k: "2 \<le> k" and topn: "0 \<le> topn"
  shows "view_stats_result pack (Some junk) t key topn =
    Some (Some (pack ((STATS_REPLY__INIT key)\<lparr>r_name := map Some (take (nat topn) [a, b, d, c]),
      r_count := map of_nat (take (nat topn) [k, k, 1, k])\<rparr>)))"
proof -
  let ?P = "[(c, k), (d, 1), (b, k), (a, k)]" and ?h = "nt_heap t" and ?s = "nt_nvs t"
  obtain V U where "name_state t V U" "len ?h = length ?P"
    and e': "\<forall>i < length ?P. ?P ! i = (fqdn (?s (heap ?h i)), nv_key ?s (heap ?h i))"
    "\<forall>i < length ?P. nv_good ?s (heap ?h i) \<and> heap_index (?s (heap ?h i)) = int i" "cmp ?h = elem_compare"
    by (rule heap_listD [OF hl])
  define x where "x = (\<lambda>i. heap ?h i)"
  have l: "len ?h = 4" using \<open>len ?h = length ?P\<close> by simp
  have n: "fqdn (?s (x 0)) = c" "fqdn (?s (x 1)) = d" "fqdn (?s (x 2)) = b" "fqdn (?s (x 3)) = a"
    and q: "nv_key ?s (x 0) = k" "nv_key ?s (x 1) = 1" "nv_key ?s (x 2) = k" "nv_key ?s (x 3) = k"
    using e'(1) [rule_format, of 0] e'(1) [rule_format, of 1] e'(1) [rule_format, of 2] e'(1) [rule_format, of 3]
    by (simp_all add: x_def numeral_eq_Suc)
  have g: "nv_good ?s (x i)" if "i < 4" for i using e'(2) that by (simp add: x_def)
  have w: "nv_count (?s (x i)) = of_nat (nv_key ?s (x i))" for i by (simp add: nv_key_def)
  have cmp: "elem_compare ?s (x i) (x j) = Some (int (nv_key ?s (x i)) - int (nv_key ?s (x j)))" if "i < 4" "j < 4" for i j
    using elem_compare_keys [OF g [OF that(1)] g [OF that(2)]] .
  define h where "h = \<lparr>heap = (\<lambda>i. if i < 4 then heap ?h i else junk i), len = 4, maxSize = maxSize ?h, cmp = elem_compare\<rparr>"
  have hc: "heap_copy (Some junk) ?h = Some h" using l e'(3) by (simp add: heap_copy_def h_def)
  have "\<exists>h'. heap_sort ?s h = Some h' \<and> len h' = 4 \<and> heap h' 0 = x 3 \<and> heap h' 1 = x 2 \<and> heap h' 2 = x 1 \<and> heap h' 3 = x 0"
    using cmp [of 3 1] cmp [of 3 2] cmp [of 1 2] cmp [of 2 3] q k
    by (simp add: heap_sort_def h_def x_def [symmetric] numeral_eq_Suc heap_down.simps smaller_child_def)
  then obtain h' where h': "heap_sort ?s h = Some h'" "len h' = 4" "heap h' 0 = x 3" "heap h' 1 = x 2" "heap h' 2 = x 1" "heap h' 3 = x 0"
    by blast
  define N where "N = nat (c_min topn 4)"
  have N: "N = min (nat topn) 4" "0 \<le> c_min topn 4" using topn by (auto simp: N_def c_min_def)
  have L: "map (heap h') [0..<4] = [x 3, x 2, x 1, x 0]" using h'(3-6) by (simp add: upt_rec numeral_eq_Suc)
  have "map (\<lambda>i. ?s (heap h' i)) [0..<N] = take N (map ?s (map (heap h') [0..<4]))"
    using N(1) by (simp add: take_map)
  also have "\<dots> = take (nat topn) (map ?s [x 3, x 2, x 1, x 0])" unfolding L N(1) by (simp add: min_def)
  finally have m: "map (\<lambda>i. ?s (heap h' i)) [0..<N] = take (nat topn) (map ?s [x 3, x 2, x 1, x 0])" .
  have "view_stats_result pack (Some junk) t key topn = Some (Some (pack ((STATS_REPLY__INIT key)\<lparr>r_name :=
      map (\<lambda>nv. Some (fqdn nv)) (take (nat topn) (map ?s [x 3, x 2, x 1, x 0])),
      r_count := map nv_count (take (nat topn) (map ?s [x 3, x 2, x 1, x 0]))\<rparr>)))"
    using N(2) h'(1,2) unfolding m [symmetric] N_def by (simp add: view_stats_result_def hc Let_def)
  moreover have "map (\<lambda>nv. Some (fqdn nv)) (take (nat topn) (map ?s [x 3, x 2, x 1, x 0])) = map Some (take (nat topn) [a, b, d, c])"
    using n by (simp only: take_map [symmetric] list.map)
  moreover have "map nv_count (take (nat topn) (map ?s [x 3, x 2, x 1, x 0])) = map of_nat (take (nat topn) [k, k, 1, k])"
    unfolding take_map [symmetric] list.map w q ..
  ultimately show ?thesis by simp
qed

text \<open>Three names inserted \<open>k\<close> times each, from a new tree on.\<close>

lemma three_names:
  assumes t: "heap_list t []" and fits: "name_fits a" "name_fits b" "name_fits c"
    and ne: "qualify b \<noteq> qualify a" "qualify c \<noteq> qualify a" "qualify c \<noteq> qualify b"
    and k: "2 \<le> k" "k < 2 ^ 31" and r: "3 * k + 1 \<le> lru_room (nt_lru_mem t)"
  obtains t' where "insert_all (replicate k a @ replicate k b @ replicate k c) t = Some (t', replicate (3 * k) 0)"
    "heap_list t' [(qualify c, k), (qualify a, k), (qualify b, k)]" "0 < lru_room (nt_lru_mem t')"
proof -
  have r0: "k \<le> lru_room (nt_lru_mem t)" using r by simp
  obtain t1 where t1: "insert_all (replicate k a) t = Some (t1, replicate k 0)" "heap_list t1 [(qualify a, k)]"
    "lru_room (nt_lru_mem t) \<le> lru_room (nt_lru_mem t1) + k"
    by (rule heap_list_block [OF t fits(1) _ _ k r0, of "[]"]) (simp_all add: enter_def ROOF_def)
  have r1: "k \<le> lru_room (nt_lru_mem t1)" using t1(3) r by simp
  obtain t2 where t2: "insert_all (replicate k b) t1 = Some (t2, replicate k 0)" "heap_list t2 [(qualify b, k), (qualify a, k)]"
    "lru_room (nt_lru_mem t1) \<le> lru_room (nt_lru_mem t2) + k"
    by (rule heap_list_block [OF t1(2) fits(2) _ _ k r1, of "[(qualify a, k)]"])
      (use ne k(1) in \<open>simp_all add: enter_def ROOF_def parent_idx_def\<close>)
  have r2: "k \<le> lru_room (nt_lru_mem t2)" using t1(3) t2(3) r by simp
  obtain t3 where t3: "insert_all (replicate k c) t2 = Some (t3, replicate k 0)"
    "heap_list t3 [(qualify c, k), (qualify a, k), (qualify b, k)]" "lru_room (nt_lru_mem t2) \<le> lru_room (nt_lru_mem t3) + k"
    by (rule heap_list_block [OF t2(2) fits(3) _ _ k r2, of "[(qualify a, k), (qualify b, k)]"])
      (use ne k(1) in \<open>simp_all add: enter_def ROOF_def parent_idx_def\<close>)
  have "3 * k = k + (k + k)" by simp
  then have "replicate k 0 @ replicate k 0 @ replicate k (0 :: int) = replicate (3 * k) 0"
    by (simp only: replicate_add)
  then have "insert_all (replicate k a @ replicate k b @ replicate k c) t = Some (t3, replicate (3 * k) 0)"
    using t1(1) t2(1) t3(1) by (simp add: insert_all_append)
  moreover have "0 < lru_room (nt_lru_mem t3)" using t1(3) t2(3) t3(3) r by simp
  ultimately show thesis using that t3(2) by blast
qed

text \<open>C34. A run of the program whose top-N reply is out of order: into a tree that was just made, three names are
  inserted \<open>k\<close> times each and then a fourth one once. Every insertion succeeds, and the fourth name climbs one level of the heap only.
  The reply for four names then lists the one that was seen once before one that was seen \<open>k\<close>
  times, and the reply for three has the name that was seen once and lacks one that was seen \<open>k\<close> times.\<close>

theorem view_topn_misorders:
  assumes "pool_space node_mem sizeof_rbnode" "pool_space name_mem sizeof_node_value" "lru_heap_ok lru_mem"
    and "\<forall>name \<in> {a, b, c, d}. name_fits name" "distinct (map qualify [a, b, c, d])"
    and "2 \<le> k" "k < 2 ^ 31" "3 * k + 1 \<le> lru_room lru_mem"
  shows "\<exists>t t'. name_tree_create True (Some junk0) tree_mem nvs node_mem name_mem lru_mem = Some (Some t) \<and>
    insert_all (replicate k a @ replicate k b @ replicate k c @ [d]) t = Some (t', replicate (3 * k + 1) 0) \<and>
    (\<forall>topn \<ge> 0. view_stats_result pack (Some junk) t' key topn =
      Some (Some (pack ((STATS_REPLY__INIT key)\<lparr>r_name := map (Some \<circ> qualify) (take (nat topn) [a, b, d, c]),
        r_count := map of_nat (take (nat topn) [k, k, 1, k])\<rparr>))))"
proof -
  let ?a = "qualify a" and ?b = "qualify b" and ?c = "qualify c" and ?d = "qualify d"
  let ?ns = "replicate k a @ replicate k b @ replicate k c"
  obtain t where t: "name_tree_create True (Some junk0) tree_mem nvs node_mem name_mem lru_mem = Some (Some t)"
    "name_state t [] []" "heap_complete (nt_nvs t) (nt_heap t) []" "pools_hold t 1024" "nt_lru_mem t = lru_mem"
    by (rule created_state [OF assms(1-3)])
  have fits: "name_fits a" "name_fits b" "name_fits c" "name_fits d" using assms(4) by simp_all
  have ne: "?b \<noteq> ?a" "?c \<noteq> ?a" "?c \<noteq> ?b" "?d \<noteq> ?a" "?d \<noteq> ?b" "?d \<noteq> ?c" using assms(5) by auto
  have "len (nt_heap t) = 0" using t(3) heap_content_len [of "nt_heap t"] by (simp add: heap_complete_def)
  then have e: "heap_list t []" using t(2-4) by (intro heap_listI [of t "[]" "[]"]) simp_all
  have r: "3 * k + 1 \<le> lru_room (nt_lru_mem t)" using assms(8) t(5) by simp
  obtain t3 where t3: "insert_all ?ns t = Some (t3, replicate (3 * k) 0)" "heap_list t3 [(?c, k), (?a, k), (?b, k)]"
    "0 < lru_room (nt_lru_mem t3)"
    by (rule three_names [OF e fits(1-3) ne(1-3) assms(6,7) r])
  have o: "\<forall>j. 0 < j \<and> j < length [(?c, k), (?a, k), (?b, k)] \<longrightarrow>
      snd ([(?c, k), (?a, k), (?b, k)] ! parent_idx j) \<le> snd ([(?c, k), (?a, k), (?b, k)] ! j)"
    by (auto simp: parent_idx_def less_Suc_eq numeral_eq_Suc)
  obtain t' where t': "name_tree_insert t3 (Some d) = Some (t', 0)"
    "heap_list t' (enter (?d, 1) [(?c, k), (?a, k), (?b, k)])"
    by (rule heap_list_new [OF t3(2) fits(4) _ o t3(3)]) (use ne in \<open>simp_all add: ROOF_def\<close>)
  have "enter (?d, 1) [(?c, k), (?a, k), (?b, k)] = [(?c, k), (?d, 1), (?b, k), (?a, k)]"
    using assms(6) by (simp add: enter_def parent_idx_def numeral_eq_Suc)
  note reply = heap_list_reply [OF t'(2) [unfolded this] assms(6)]
  have "insert_all (?ns @ [d]) t = Some (t', replicate (3 * k) 0 @ [0])"
    using t3(1) t'(1) by (simp only: insert_all_append) simp
  then have "insert_all (replicate k a @ replicate k b @ replicate k c @ [d]) t = Some (t', replicate (3 * k + 1) 0)"
    by (simp add: replicate_append_same)
  moreover have "map (Some \<circ> qualify) (take (nat topn) [a, b, d, c]) = map Some (take (nat topn) [?a, ?b, ?d, ?c])" for topn
    by (simp add: take_map [symmetric])
  then have "\<forall>topn \<ge> 0. view_stats_result pack (Some junk) t' key topn =
      Some (Some (pack ((STATS_REPLY__INIT key)\<lparr>r_name := map (Some \<circ> qualify) (take (nat topn) [a, b, d, c]),
        r_count := map of_nat (take (nat topn) [k, k, 1, k])\<rparr>)))" using reply by (simp only:) blast
  ultimately show ?thesis using t(1) by blast
qed

theorem view_topn_misorders_witness:
  "\<exists>t t'. name_tree_create True (Some (\<lambda>_. NULL)) one_tree one_nvs big_mem big_mem big_lru = Some (Some t) \<and>
    insert_all [''a'', ''a'', ''b'', ''b'', ''c'', ''c'', ''d''] t = Some (t', [0, 0, 0, 0, 0, 0, 0]) \<and>
    view_stats_result (\<lambda>r. r) (Some (\<lambda>_. NULL)) t' ''domaintopn'' 3 =
      Some (Some ((STATS_REPLY__INIT ''domaintopn'')\<lparr>r_name := map Some [''a.'', ''b.'', ''d.''], r_count := [2, 2, 1]\<rparr>)) \<and>
    view_stats_result (\<lambda>r. r) (Some (\<lambda>_. NULL)) t' ''domaintopn'' 10 =
      Some (Some ((STATS_REPLY__INIT ''domaintopn'')\<lparr>r_name := map Some [''a.'', ''b.'', ''d.'', ''c.''], r_count := [2, 2, 1, 2]\<rparr>))"
proof -
  have f: "\<forall>name \<in> {''a'', ''b'', ''c'', ''d''}. name_fits name" "distinct (map qualify [''a'', ''b'', ''c'', ''d''])"
    "3 * 2 + 1 \<le> lru_room big_lru"
    by (simp_all add: name_fits_def qualify_def MAX_NAME_LEN_def big_space(4))
  obtain t t' where t: "name_tree_create True (Some (\<lambda>_. NULL)) one_tree one_nvs big_mem big_mem big_lru = Some (Some t)"
    "insert_all (replicate 2 ''a'' @ replicate 2 ''b'' @ replicate 2 ''c'' @ [''d'']) t = Some (t', replicate (3 * 2 + 1) 0)"
    and reply: "\<forall>topn \<ge> 0. view_stats_result (\<lambda>r. r) (Some (\<lambda>_. NULL)) t' ''domaintopn'' topn =
      Some (Some ((STATS_REPLY__INIT ''domaintopn'')\<lparr>r_name := map (Some \<circ> qualify) (take (nat topn) [''a'', ''b'', ''d'', ''c'']),
        r_count := map of_nat (take (nat topn) [2, 2, 1, 2])\<rparr>))"
    using view_topn_misorders [OF big_space(1-3) f(1,2) _ _ f(3), of "\<lambda>_. NULL" one_tree one_nvs "\<lambda>r. r" "\<lambda>_. NULL" "''domaintopn''"]
    by auto
  from t(2) have "insert_all [''a'', ''a'', ''b'', ''b'', ''c'', ''c'', ''d''] t = Some (t', [0, 0, 0, 0, 0, 0, 0])"
    by (simp add: numeral_eq_Suc)
  then show ?thesis using t(1) reply [rule_format, of 3] reply [rule_format, of 10] by (auto simp: qualify_def)
qed

end
