(* ===== verification/View_Tree.thy ===== *)
theory View_Tree
  imports View_Stats
begin

text \<open>
  The tree of the views, \<^verbatim>\<open>log_view_tree.c\<close>: a red-black tree from view names to their statistics and
  a recency list of the views. The tree nodes, the view nodes and the statistics come from \<open>malloc\<close>
  and go back with \<open>free\<close>, so they live in partial maps, and the tree nodes that are allocated are the
  set \<open>vt_tnodes\<close>: an address that was freed or never allocated is the abort \<open>None\<close>, also for a second
  \<open>free\<close>. Addresses are taken from \<open>vt_brk\<close>, which only grows; an
  allocation beyond \<open>vt_limit\<close> gives \<open>NULL\<close>. The counter of the tree starts with what \<open>malloc\<close> left
  there: the code never sets it.
\<close>

section \<open>State\<close>

record view_node =
  vn_name :: string
  vn_vs :: addr
  vn_ptr :: addr

type_synonym vn_store = "addr \<rightharpoonup> view_node"

record view_tree =
  vt_tree :: "vn_store rbtree"
  vt_lru_mem :: lru_heap
  vt_lru :: lru_list
  vt_count :: int
  vt_nodes :: vn_store
  vt_stats :: "addr \<rightharpoonup> view_stats"
  vt_tnodes :: "addr set"
  vt_brk :: addr
  vt_limit :: addr

definition STATS_NODE_MAX_SIZE :: nat where
  "STATS_NODE_MAX_SIZE = 128"

definition sizeof_view_tree :: nat where
  "sizeof_view_tree = 24"

text \<open>The comparison; a node that does not exist faults.\<close>

definition view_compare :: "vn_store \<Rightarrow> addr \<Rightarrow> addr \<Rightarrow> int option" where
  "view_compare s v1 v2 = do {
     guard (v1 \<noteq> NULL \<and> v2 \<noteq> NULL);
     n1 \<leftarrow> s v1;
     n2 \<leftarrow> s v2;
     Some (strcmp (vn_name n1) (vn_name n2))
   }"

definition view_good :: "vn_store \<Rightarrow> addr \<Rightarrow> bool" where
  "view_good s v \<longleftrightarrow> v \<noteq> NULL \<and> s v \<noteq> None"

definition view_name :: "vn_store \<Rightarrow> addr \<Rightarrow> string" where
  "view_name s p = vn_name (the (s p))"

interpretation vk: rb_keys view_good view_name view_compare
proof
  fix s :: vn_store and v w :: addr
  assume "view_good s v" "view_good s w"
  then show "\<exists>r. view_compare s v w = Some r \<and> (r < 0 \<longleftrightarrow> view_name s v < view_name s w) \<and>
      (r = 0 \<longleftrightarrow> view_name s v = view_name s w)"
    by (auto simp: view_compare_def strcmp_sign view_good_def view_name_def)
qed

text \<open>\<open>malloc\<close> of one block; an allocated address is above \<open>NULL\<close>, the sentinel and the search key.\<close>

definition view_malloc :: "view_tree \<Rightarrow> addr \<times> view_tree" where
  "view_malloc t = (if vt_brk t < vt_limit t then (vt_brk t, t\<lparr>vt_brk := vt_brk t + 1\<rparr>) else (NULL, t))"

definition view_node_at :: "view_tree \<Rightarrow> addr \<Rightarrow> view_node option" where
  "view_node_at t p = (if p = NULL then None else vt_nodes t p)"

definition stats_at :: "view_tree \<Rightarrow> addr \<Rightarrow> view_stats option" where
  "stats_at t p = (if p = NULL then None else vt_stats t p)"

definition set_stats :: "addr \<Rightarrow> view_stats \<Rightarrow> view_tree \<Rightarrow> view_tree" where
  "set_stats p vs t = t\<lparr>vt_stats := (vt_stats t)(p \<mapsto> vs)\<rparr>"

section \<open>Operations\<close>

text \<open>
  The memory is the one that \<open>old\<close> leaves: the blocks in it that were not freed stay allocated. What
  the fields of a new tree node and the counter hold before they are set are arguments too.
\<close>

definition view_tree_create ::
    "bool \<Rightarrow> (vn_store \<Rightarrow> addr \<Rightarrow> addr \<Rightarrow> int option) \<Rightarrow> vn_store rbtree \<Rightarrow> int \<Rightarrow> view_tree \<Rightarrow> view_tree option" where
  "view_tree_create malloc_ok cmpf tree_mem garbage old =
     (if \<not> malloc_ok then None
      else Some (old\<lparr>vt_tree := rbtree_create cmpf tree_mem, vt_lru := lru_list_create, vt_count := garbage\<rparr>))"

text \<open>The memory before the first tree is made: none of these blocks is allocated.\<close>

definition fresh_memory :: "vn_store rbtree \<Rightarrow> lru_heap \<Rightarrow> addr \<Rightarrow> addr \<Rightarrow> view_tree" where
  "fresh_memory tree_mem lru_mem brk0 limit0 =
     \<lparr>vt_tree = tree_mem, vt_lru_mem = lru_mem\<lparr>nodes := Map.empty\<rparr>, vt_lru = lru_list_create, vt_count = 0,
      vt_nodes = Map.empty, vt_stats = Map.empty, vt_tnodes = {}, vt_brk = brk0, vt_limit = limit0\<rparr>"

text \<open>The blocks that are allocated: view nodes, statistics, tree nodes and nodes of the list.\<close>

definition no_blocks :: "view_tree \<Rightarrow> bool" where
  "no_blocks t \<longleftrightarrow> vt_nodes t = Map.empty \<and> vt_stats t = Map.empty \<and> vt_tnodes t = {} \<and> nodes (vt_lru_mem t) = Map.empty"

text \<open>The body of the loop gets the address of a tree node and adds to \<open>total_size\<close>.\<close>

definition size_body :: "nat \<Rightarrow> nat \<Rightarrow> view_tree \<Rightarrow> addr \<Rightarrow> u64 \<Rightarrow> u64 option" where
  "size_body tree_struct pool_struct t node total_size = do {
     tnode \<leftarrow> view_node_at t (node_val (vt_tree t) node);
     vs \<leftarrow> stats_at t (vn_vs tnode);
     Some (total_size + (view_stats_get_size tree_struct pool_struct vs + of_nat STATS_NODE_MAX_SIZE))
   }"

definition view_tree_get_size :: "nat \<Rightarrow> nat \<Rightarrow> view_tree \<Rightarrow> u64 option" where
  "view_tree_get_size tree_struct pool_struct t = do {
     total_size \<leftarrow> rbtree_for (vt_tree t) (size_body tree_struct pool_struct t) 0;
     Some (total_size + of_nat sizeof_view_tree + of_nat sizeof_lru_node * of_int (lru_count (vt_lru t)))
   }"

definition view_tree_the_only_one :: "view_tree \<Rightarrow> addr option" where
  "view_tree_the_only_one t = rbtree_for (vt_tree t) (\<lambda>node vtnode. Some (node_val (vt_tree t) node)) NULL"

text \<open>\<open>view_tree_insert\<close>: 0, or 1 when \<open>rbtree_insert\<close> returns \<open>NULL\<close>.\<close>

definition view_tree_insert :: "view_tree \<Rightarrow> string \<Rightarrow> addr \<Rightarrow> (view_tree \<times> int) option" where
  "view_tree_insert t name vs = do {
     let (vtnode, t1) = view_malloc t;
     guard (vtnode \<noteq> NULL);
     buf \<leftarrow> strcpy_buf STATS_NODE_MAX_SIZE name;
     let t2 = t1\<lparr>vt_nodes := (vt_nodes t1)(vtnode \<mapsto> \<lparr>vn_name = buf, vn_vs = vs, vn_ptr = NULL\<rparr>)\<rparr>;
     let (node, t3) = view_malloc t2;
     guard (node \<noteq> NULL);
     (tree, insert_node) \<leftarrow> rbtree_insert (vt_nodes t3) node (set_node_val node vtnode (vt_tree t3));
     let t4 = t3\<lparr>vt_tree := tree, vt_tnodes := insert node (vt_tnodes t3)\<rparr>;
     if insert_node = NULL
     then Some (t4\<lparr>vt_nodes := (vt_nodes t4)(vtnode := None), vt_tnodes := vt_tnodes t4 - {node}\<rparr>, 1)
     else do {
       (mem, lru, ptr) \<leftarrow> lru_list_insert (vt_lru_mem t4) (vt_lru t4) vtnode;
       Some (t4\<lparr>vt_lru_mem := mem, vt_lru := lru,
         vt_nodes := (vt_nodes t4)(vtnode \<mapsto> \<lparr>vn_name = buf, vn_vs = vs, vn_ptr = ptr\<rparr>),
         vt_count := vt_count t4 + 1\<rparr>, 0)
     }
   }"

text \<open>The key of a search is a local \<open>view_tree_node_t\<close>.\<close>

definition with_view_key :: "string \<Rightarrow> vn_store \<Rightarrow> vn_store" where
  "with_view_key name s = s(KEY \<mapsto> \<lparr>vn_name = name, vn_vs = NULL, vn_ptr = NULL\<rparr>)"

definition view_tree_find :: "view_tree \<Rightarrow> string \<Rightarrow> addr option" where
  "view_tree_find t name = do {
     key \<leftarrow> strcpy_buf STATS_NODE_MAX_SIZE name;
     node \<leftarrow> rbtree_search (vt_tree t) (with_view_key key (vt_nodes t)) KEY;
     if node = NULL then Some NULL else Some (node_val (vt_tree t) node)
   }"

definition view_tree_delete :: "view_tree \<Rightarrow> string \<Rightarrow> view_tree option" where
  "view_tree_delete t name = do {
     key \<leftarrow> strcpy_buf STATS_NODE_MAX_SIZE name;
     (tree, del_node) \<leftarrow> rbtree_delete (with_view_key key (vt_nodes t)) KEY (vt_tree t);
     let t1 = t\<lparr>vt_tree := tree\<rparr>;
     if del_node = NULL then Some t1
     else do {
       let vtnodeptr = node_val tree del_node;
       vtnode \<leftarrow> view_node_at t1 vtnodeptr;
       vs \<leftarrow> stats_at t1 (vn_vs vtnode);
       _ \<leftarrow> view_stats_destory vs;
       guard (del_node \<in> vt_tnodes t1);
       Some (t1\<lparr>vt_stats := (vt_stats t1)(vn_vs vtnode := None), vt_tnodes := vt_tnodes t1 - {del_node},
         vt_nodes := (vt_nodes t1)(vtnodeptr := None), vt_count := vt_count t1 - 1\<rparr>)
     }
   }"

text \<open>The first loop of \<open>view_tree_set_memsize\<close>; an empty list makes it read through \<open>NULL\<close>.\<close>

partial_function (option) evict_views_loop :: "nat \<Rightarrow> nat \<Rightarrow> u64 \<Rightarrow> u64 \<Rightarrow> view_tree \<Rightarrow> (view_tree \<times> u64) option" where
  "evict_views_loop ts ps expect_size mem_size t =
     (if mem_size > expect_size \<and> vt_count t > 1
      then Option.bind (lru_list_remove_tail (vt_lru_mem t) (vt_lru t)) (\<lambda>(mem, lru, p).
        Option.bind (view_node_at t p) (\<lambda>vtnode.
          Option.bind (view_tree_delete (t\<lparr>vt_lru_mem := mem, vt_lru := lru\<rparr>) (vn_name vtnode)) (\<lambda>t1.
            Option.bind (view_tree_get_size ts ps t1) (\<lambda>sz. evict_views_loop ts ps expect_size sz t1))))
      else Some (t, mem_size))"

definition view_tree_set_memsize :: "nat \<Rightarrow> nat \<Rightarrow> u64 \<Rightarrow> view_tree \<Rightarrow> view_tree option" where
  "view_tree_set_memsize ts ps expect_size t = do {
     mem_size \<leftarrow> view_tree_get_size ts ps t;
     (t1, mem_size1) \<leftarrow> evict_views_loop ts ps expect_size mem_size t;
     if vt_count t1 = 1 then do {
       p \<leftarrow> view_tree_the_only_one t1;
       if p = NULL then Some t1
       else do {
         vtnode \<leftarrow> view_node_at t1 p;
         vs \<leftarrow> stats_at t1 (vn_vs vtnode);
         vs' \<leftarrow> view_stats_set_memsize ts ps expect_size vs;
         Some (set_stats (vn_vs vtnode) vs' t1)
       }
     }
     else Some t1
   }"

text \<open>The destructor of the tree nodes: it destroys the statistics and frees the view node and the tree node.\<close>

definition destory_func :: "vn_store rbtree \<Rightarrow> addr \<Rightarrow> view_tree \<Rightarrow> view_tree option" where
  "destory_func h node t = do {
     vtnode \<leftarrow> view_node_at t (node_val h node);
     vs \<leftarrow> stats_at t (vn_vs vtnode);
     _ \<leftarrow> view_stats_destory vs;
     guard (node \<in> vt_tnodes t);
     Some (t\<lparr>vt_stats := (vt_stats t)(vn_vs vtnode := None), vt_nodes := (vt_nodes t)(node_val h node := None),
       vt_tnodes := vt_tnodes t - {node}\<rparr>)
   }"

definition view_tree_destory :: "view_tree \<Rightarrow> view_tree option" where
  "view_tree_destory t = do {
     t1 \<leftarrow> rbtree_destory (vt_tree t) (Some (destory_func (vt_tree t))) t;
     mem \<leftarrow> lru_list_destroy (vt_lru_mem t1) (vt_lru t1);
     Some (t1\<lparr>vt_lru_mem := mem\<rparr>)
   }"

end
