(* ===== verification/View_Spec.thy ===== *)
theory View_Spec
  imports View_Tree View_Props
begin

text \<open>
  The tree of views (\<^verbatim>\<open>log_view_tree.c\<close>) read as an association list from view names to
  statistics, in the order of use: the invariant that ties the red-black tree, the recency list and
  the blocks of \<open>malloc\<close> together, and what each operation does to the list. At the end the
  statistics of one view are read as lists of counted names in the order of use.
\<close>

section \<open>The tree of the views\<close>

context rb_keys
begin

lemma tree_inv_cong:
  assumes "\<And>a. a \<in> set xs \<Longrightarrow> key s' (node_val h a) = key s (node_val h a) \<and> good s' (node_val h a) = good s (node_val h a)"
  shows "tree_inv s' h xs = tree_inv s h xs"
proof -
  have "sorted_wrt (\<lambda>a b. nkey s' h a < nkey s' h b) xs = sorted_wrt (\<lambda>a b. nkey s h a < nkey s h b) xs"
    by (intro sorted_wrt_rel_cong) (simp add: nkey_def assms)
  then show ?thesis using assms by (simp add: tree_inv_def ordered_def)
qed

lemma tree_inv_set_val:
  assumes "a \<notin> set xs"
  shows "tree_inv s (set_node_val a v h) xs = tree_inv s h xs"
proof -
  have nk: "nkey s (set_node_val a v h) b = nkey s h b" "node_val (set_node_val a v h) b = node_val h b"
    if "b \<in> set xs" for b
    using that assms by (auto simp: nkey_def)
  have "sorted_wrt (\<lambda>b c. nkey s (set_node_val a v h) b < nkey s (set_node_val a v h) c) xs =
      sorted_wrt (\<lambda>b c. nkey s h b < nkey s h c) xs"
    by (intro sorted_wrt_rel_cong) (simp add: nk)
  moreover have "rep (set_node_val a v h) = rep h" by (simp add: rep_def sentinel_def fun_eq_iff)
  ultimately show ?thesis using nk by (simp add: tree_inv_def ordered_def)
qed

end

text \<open>
  \<open>V\<close> lists the view nodes in the order of their names; \<open>T\<close> are the tree nodes.
\<close>

definition view_index :: "vn_store \<Rightarrow> vn_store rbtree \<Rightarrow> addr set \<Rightarrow> addr list \<Rightarrow> bool" where
  "view_index s h T V \<longleftrightarrow> (\<exists>xs. vk.tree_inv s h xs \<and> set xs = T \<and> V = map (node_val h) xs)"

lemma view_indexD:
  assumes "view_index s h T V"
  shows "sorted_wrt (\<lambda>p q. view_name s p < view_name s q) V" "p \<in> set V \<Longrightarrow> p \<noteq> NULL \<and> s p \<noteq> None"
    "inj_on (view_name s) (set V)" "distinct V"
proof -
  obtain xs where xs: "vk.tree_inv s h xs" "V = map (node_val h) xs" using assms by (auto simp: view_index_def)
  then have o: "sorted_wrt (\<lambda>a b. view_name s (node_val h a) < view_name s (node_val h b)) xs"
    "\<forall>a \<in> set xs. node_val h a \<noteq> NULL \<and> s (node_val h a) \<noteq> None"
    by (simp_all add: vk.tree_inv_def vk.ordered_def vk.nkey_def view_good_def)
  show s: "sorted_wrt (\<lambda>p q. view_name s p < view_name s q) V" using o(1) xs(2) by (simp add: sorted_wrt_map)
  show "p \<in> set V \<Longrightarrow> p \<noteq> NULL \<and> s p \<noteq> None" using o(2) xs(2) by auto
  have "distinct (map (view_name s) V)" using s by (rule sorted_wrt_distinct)
  then show "inj_on (view_name s) (set V)" "distinct V" by (simp_all add: distinct_map)
qed

lemma view_index_cong:
  assumes "\<And>p. p \<in> set V \<Longrightarrow> view_name s' p = view_name s p \<and> (s' p = None \<longleftrightarrow> s p = None)"
  shows "view_index s h T V \<Longrightarrow> view_index s' h T V"
proof -
  assume "view_index s h T V"
  then obtain xs where xs: "vk.tree_inv s h xs" "set xs = T" "V = map (node_val h) xs"
    by (auto simp: view_index_def)
  have "vk.tree_inv s' h xs = vk.tree_inv s h xs"
    by (rule vk.tree_inv_cong) (use assms(1) xs(3) in \<open>simp add: view_good_def\<close>)
  then show ?thesis using xs by (force simp: view_index_def)
qed

lemma view_name_upd [simp]:
  "view_name (s(q \<mapsto> n)) p = (if p = q then vn_name n else view_name s p)"
  by (simp add: view_name_def)

lemma view_index_key: "KEY \<notin> set V \<Longrightarrow> view_index s h T V \<Longrightarrow> view_index (with_view_key name s) h T V"
  by (rule view_index_cong [of V _ s]) (auto simp: with_view_key_def)

lemma view_key_name [simp]: "view_name (with_view_key name s) KEY = name" "with_view_key name s KEY \<noteq> None"
  "p \<noteq> KEY \<Longrightarrow> with_view_key name s p = s p" "p \<noteq> KEY \<Longrightarrow> view_name (with_view_key name s) p = view_name s p"
  by (simp_all add: with_view_key_def view_name_def)

lemma view_index_search:
  assumes "view_index s h T V" "KEY \<notin> set V"
  shows "p \<in> set V \<Longrightarrow> view_name s p = name \<Longrightarrow>
      \<exists>n. rbtree_search h (with_view_key name s) KEY = Some n \<and> n \<noteq> NULL \<and> node_val h n = p"
    and "name \<notin> view_name s ` set V \<Longrightarrow> rbtree_search h (with_view_key name s) KEY = Some NULL"
proof -
  let ?s = "with_view_key name s"
  obtain xs where xs: "vk.tree_inv ?s h xs" "V = map (node_val h) xs"
    using view_index_key [OF assms(2,1), of name] by (auto simp: view_index_def)
  have nk: "vk.nkey ?s h a = view_name s (node_val h a)" if "a \<in> set xs" for a
  proof -
    have "node_val h a \<noteq> KEY" using that assms(2) xs(2) by (metis image_eqI list.set_map)
    then show ?thesis by (simp add: vk.nkey_def)
  qed
  have k: "view_good ?s KEY" by (simp add: view_good_def)
  note s = vk.search_ok [OF xs(1) k, unfolded view_key_name]
  show "\<exists>n. rbtree_search h ?s KEY = Some n \<and> n \<noteq> NULL \<and> node_val h n = p"
    if p: "p \<in> set V" "view_name s p = name"
  proof -
    obtain a where a: "a \<in> set xs" "p = node_val h a" using p(1) xs(2) by auto
    have "a \<noteq> NULL" using xs(1) a(1) by (metis rep_def vk.tree_inv_def)
    then show ?thesis using s(1) [OF a(1)] nk [OF a(1)] p(2) a(2) by simp
  qed
  show "rbtree_search h ?s KEY = Some NULL" if "name \<notin> view_name s ` set V"
    using s(2) nk that xs(2) by force
qed

lemma view_index_insert:
  assumes v: "view_index s h T V" and b: "b \<noteq> NIL" "b \<noteq> NULL" "b \<notin> T" and p: "p \<noteq> NULL" "s p \<noteq> None"
    and new: "view_name s p \<notin> view_name s ` set V"
  shows "\<exists>h' V1 V2. rbtree_insert s b (set_node_val b p h) = Some (h', b) \<and> V = V1 @ V2 \<and>
    view_index s h' (insert b T) (V1 @ p # V2)"
proof -
  obtain xs where xs: "vk.tree_inv s h xs" "set xs = T" "V = map (node_val h) xs"
    using v by (auto simp: view_index_def)
  let ?h = "set_node_val b p h"
  have fr: "b \<notin> set xs" using xs(2) b(3) by auto
  have inv: "vk.tree_inv s ?h xs" using vk.tree_inv_set_val [OF fr] xs(1) by simp
  have "vk.nkey s ?h a \<noteq> vk.nkey s ?h b" if "a \<in> set xs" for a
    using new that xs(3) fr by (auto simp: vk.nkey_def image_iff)
  moreover have "view_good s (node_val ?h b)" using p by (simp add: view_good_def)
  ultimately obtain h' ys zs where i: "rbtree_insert s b ?h = Some (h', b)" "xs = ys @ zs" "vk.tree_inv s h' (ys @ b # zs)"
    "node_val h' = node_val ?h"
    using vk.insert_absent [OF inv _ fr b(1,2)] by auto
  have "view_index s h' (insert b T) (map (node_val h) ys @ p # map (node_val h) zs)"
    unfolding view_index_def using i xs(2) fr by (intro exI [of _ "ys @ b # zs"]) auto
  then show ?thesis using i(1,2) xs(3) by auto
qed

lemma view_index_delete:
  assumes "view_index s h T V" "KEY \<notin> set V" "p \<in> set V" "view_name s p = name"
  shows "\<exists>h' d V1 V2. rbtree_delete (with_view_key name s) KEY h = Some (h', d) \<and> d \<noteq> NULL \<and> d \<in> T \<and> node_val h' d = p \<and>
    V = V1 @ p # V2 \<and> view_index s h' (T - {d}) (V1 @ V2)"
proof -
  let ?s = "with_view_key name s"
  obtain xs where xs: "vk.tree_inv ?s h xs" "set xs = T" "V = map (node_val h) xs"
    using view_index_key [OF assms(2,1)] by (auto simp: view_index_def)
  obtain d where d: "d \<in> set xs" "p = node_val h d" using assms(3) xs(3) by auto
  have "p \<noteq> KEY" using assms(2,3) by auto
  then have "vk.nkey ?s h d = name" using assms(4) d(2) by (simp add: vk.nkey_def)
  moreover have k: "view_good ?s KEY" by (simp add: view_good_def)
  ultimately obtain h' ys zs where e: "rbtree_delete ?s KEY h = Some (h', d)" "xs = ys @ d # zs"
    "vk.tree_inv ?s h' (ys @ zs)" "node_val h' = node_val h"
    using vk.delete_present [OF xs(1) k d(1)] by (auto simp: view_key_name)
  let ?W = "map (node_val h) (ys @ zs)"
  have K: "KEY \<notin> set ?W" using assms(2) xs(3) e(2) by auto
  have "distinct V" using view_indexD(4) [OF assms(1)] .
  then have "distinct xs" using xs(3) by (simp add: distinct_map)
  then have T: "set (ys @ zs) = T - {d}" "d \<in> T" using xs(2) e(2) by auto
  have "view_index ?s h' (T - {d}) ?W"
    unfolding view_index_def using e(3,4) T(1) by (intro exI [of _ "ys @ zs"]) simp
  then have "view_index s h' (T - {d}) ?W"
    by (rule view_index_cong [of _ _ ?s, rotated]) (use K in \<open>auto simp: with_view_key_def\<close>)
  moreover have "d \<noteq> NULL" using xs(1) d(1) by (metis rep_def vk.tree_inv_def)
  ultimately have "rbtree_delete ?s KEY h = Some (h', d) \<and> d \<noteq> NULL \<and> d \<in> T \<and> node_val h' d = p \<and>
    V = map (node_val h) ys @ p # map (node_val h) zs \<and> view_index s h' (T - {d}) (map (node_val h) ys @ map (node_val h) zs)"
    using e(1,2,4) d(2) T(2) xs(3) by simp
  then show ?thesis by blast
qed

section \<open>The whole state\<close>

text \<open>The address of the statistics of a view node, and the statistics.\<close>

definition view_at :: "view_tree \<Rightarrow> addr \<Rightarrow> addr" where
  "view_at t p = vn_vs (the (vt_nodes t p))"

definition stats_of :: "view_tree \<Rightarrow> addr \<Rightarrow> view_stats" where
  "stats_of t p = the (vt_stats t (view_at t p))"

text \<open>A view node \<open>p\<close> with the list node \<open>u\<close>: its blocks exist and its name fits the buffer.\<close>

definition entry_ok :: "view_tree \<Rightarrow> addr \<Rightarrow> addr \<Rightarrow> bool" where
  "entry_ok t u p \<longleftrightarrow> KEY < p \<and> p < vt_brk t \<and> view_at t p \<noteq> NULL \<and> view_at t p < vt_brk t \<and>
     vt_stats t (view_at t p) \<noteq> None \<and>
     (\<exists>n. vt_nodes t p = Some n \<and> vn_ptr n = u \<and> length (vn_name n) < STATS_NODE_MAX_SIZE)"

text \<open>
  \<open>V\<close> lists the view nodes by name and \<open>U\<close> the pairs of list node and view node by last use; the
  counter is right, as it is when \<open>malloc\<close> returned zeroed memory for the tree. The view nodes, tree nodes and nodes
  of the list are those of the views and no others, and in \<open>view_state\<close> so are the statistics.
\<close>

definition view_core :: "view_tree \<Rightarrow> addr list \<Rightarrow> (addr \<times> addr) list \<Rightarrow> bool" where
  "view_core t V U \<longleftrightarrow>
     view_index (vt_nodes t) (vt_tree t) (vt_tnodes t) V \<and> lru_rep (vt_lru_mem t) (vt_lru t) U \<and>
     mset (map snd U) = mset V \<and> KEY < vt_brk t \<and> vt_count t = int (length V) \<and>
     (\<forall>(u, p) \<in> set U. entry_ok t u p) \<and> inj_on (view_at t) (set V) \<and>
     (\<forall>a \<in> vt_tnodes t. a < vt_brk t) \<and> dom (vt_nodes t) = set V \<and> dom (nodes (vt_lru_mem t)) = fst ` set U"

definition view_state :: "view_tree \<Rightarrow> addr list \<Rightarrow> (addr \<times> addr) list \<Rightarrow> bool" where
  "view_state t V U \<longleftrightarrow> view_core t V U \<and> dom (vt_stats t) = view_at t ` set V"

definition views :: "view_tree \<Rightarrow> (addr \<times> addr) list \<Rightarrow> (string \<times> view_stats) list" where
  "views t U = map (\<lambda>(u, p). (view_name (vt_nodes t) p, stats_of t p)) U"

definition views_model :: "view_tree \<Rightarrow> (string \<times> view_stats) list \<Rightarrow> bool" where
  "views_model t L \<longleftrightarrow> (\<exists>V U. view_state t V U \<and> L = views t U)"

text \<open>The memory that is left for view nodes, tree nodes and statistics.\<close>

definition view_room :: "view_tree \<Rightarrow> nat" where
  "view_room t = min (vt_limit t - vt_brk t) (lru_room (vt_lru_mem t))"

lemma view_coreD:
  assumes "view_core t V U"
  shows "view_index (vt_nodes t) (vt_tree t) (vt_tnodes t) V" "lru_rep (vt_lru_mem t) (vt_lru t) U"
    "set V = snd ` set U" "length V = length U" "KEY < vt_brk t" "vt_count t = int (length U)"
    "(u, p) \<in> set U \<Longrightarrow> entry_ok t u p" "inj_on (view_at t) (set V)" "KEY \<notin> set V" "distinct V"
    "distinct (map snd U)" "inj_on (view_name (vt_nodes t)) (set V)"
    "a \<in> vt_tnodes t \<Longrightarrow> a < vt_brk t" "dom (vt_nodes t) = set V" "dom (nodes (vt_lru_mem t)) = fst ` set U"
proof -
  have d: "view_index (vt_nodes t) (vt_tree t) (vt_tnodes t) V" "lru_rep (vt_lru_mem t) (vt_lru t) U"
    "mset (map snd U) = mset V" "KEY < vt_brk t" "vt_count t = int (length V)" "inj_on (view_at t) (set V)"
    "\<forall>a \<in> vt_tnodes t. a < vt_brk t" "dom (vt_nodes t) = set V" "dom (nodes (vt_lru_mem t)) = fst ` set U"
    and e: "\<forall>(u, p) \<in> set U. entry_ok t u p"
    using assms unfolding view_core_def by blast+
  show "view_index (vt_nodes t) (vt_tree t) (vt_tnodes t) V" "lru_rep (vt_lru_mem t) (vt_lru t) U" "KEY < vt_brk t"
    "inj_on (view_at t) (set V)" "dom (vt_nodes t) = set V" "dom (nodes (vt_lru_mem t)) = fst ` set U"
    by (rule d)+
  show "a \<in> vt_tnodes t \<Longrightarrow> a < vt_brk t" using d(7) by blast
  show "(u, p) \<in> set U \<Longrightarrow> entry_ok t u p" for u p using e by blast
  show s: "set V = snd ` set U" "length V = length U"
    using d(3) by (metis set_map set_mset_mset, metis length_map size_mset)
  show "vt_count t = int (length U)" using d(5) s(2) by simp
  have "p \<noteq> KEY" if "(u, p) \<in> set U" for u p using e that by (auto simp: entry_ok_def)
  then show "KEY \<notin> set V" using s(1) by (metis imageE prod.collapse)
  show dV: "distinct V" "inj_on (view_name (vt_nodes t)) (set V)" using view_indexD(3,4) [OF d(1)] by blast+
  show "distinct (map snd U)" using dV(1) d(3) by (metis mset_eq_imp_distinct_iff)
qed

lemma view_state_core: "view_state t V U \<Longrightarrow> view_core t V U"
  by (simp add: view_state_def)

lemmas view_stateD = view_coreD [OF view_state_core]

text \<open>The nodes of the list that the operations leave allocated.\<close>

definition list_blocks :: "lru_heap \<Rightarrow> addr set" where
  "list_blocks m = dom (nodes m)"

lemma upd_node_blocks: "upd_node p f m = Some m' \<Longrightarrow> list_blocks m' = list_blocks m"
  by (auto simp: list_blocks_def upd_node_def node_at_def split: if_splits elim!: bind_eq_SomeE)

lemma malloc_node_blocks: "malloc_node m = (p, m') \<Longrightarrow> p \<noteq> NULL \<Longrightarrow> list_blocks m' = insert p (list_blocks m)"
  by (auto simp: list_blocks_def malloc_node_def split: if_splits)

lemma free_node_blocks: "free_node p m = Some m' \<Longrightarrow> list_blocks m' = list_blocks m - {p}"
  by (auto simp: list_blocks_def free_node_def split: if_splits elim!: bind_eq_SomeE)

lemma lru_move_blocks: "lru_list_move_to_first m l a = Some (m', l') \<Longrightarrow> list_blocks m' = list_blocks m"
  by (auto simp: lru_list_move_to_first_def dest!: upd_node_blocks split: if_splits elim!: bind_eq_SomeE)

lemma lru_insert_blocks: "lru_list_insert m l d = Some (m', l', p) \<Longrightarrow> list_blocks m' = insert p (list_blocks m)"
  by (auto simp: lru_list_insert_def Let_def dest!: upd_node_blocks malloc_node_blocks split: if_splits prod.splits elim!: bind_eq_SomeE)

lemma lru_remove_blocks:
  "lru_list_remove_tail m l = Some (m', l', d) \<Longrightarrow> tail l \<noteq> NULL \<Longrightarrow> list_blocks m' = list_blocks m - {tail l}"
proof -
  assume r: "lru_list_remove_tail m l = Some (m', l', d)" "tail l \<noteq> NULL"
  define q where "q = tail l"
  have "\<exists>m1. list_blocks m1 = list_blocks m \<and> free_node q m1 = Some m'"
    using r unfolding lru_list_remove_tail_def Let_def q_def [symmetric]
    by (auto split: if_splits elim!: bind_eq_SomeE) (metis upd_node_blocks, metis)
  then show "list_blocks m' = list_blocks m - {tail l}" using free_node_blocks [of q] by (auto simp: q_def)
qed

lemmas lru_move_dom = lru_move_blocks [unfolded list_blocks_def]
lemmas lru_insert_dom = lru_insert_blocks [unfolded list_blocks_def]
lemmas lru_remove_dom = lru_remove_blocks [unfolded list_blocks_def]

lemma views_simps [simp]:
  "views t [] = []" "views t ((u, p) # U) = (view_name (vt_nodes t) p, stats_of t p) # views t U"
  "views t (U @ W) = views t U @ views t W" "length (views t U) = length U"
  by (simp_all add: views_def)

lemma views_cong:
  assumes "\<And>p. p \<in> snd ` set U \<Longrightarrow> view_name (vt_nodes t') p = view_name (vt_nodes t) p \<and> stats_of t' p = stats_of t p"
  shows "views t' U = views t U"
  using assms by (force simp: views_def)

lemma views_names: "fst ` set (views t U) = view_name (vt_nodes t) ` snd ` set U"
  by (force simp: views_def image_iff)

lemma views_distinct: "view_state t V U \<Longrightarrow> distinct (map fst (views t U))"
proof -
  assume st: "view_state t V U"
  have "distinct (map (view_name (vt_nodes t)) (map snd U))"
    using view_stateD(11,12) [OF st] view_stateD(3) [OF st] unfolding distinct_map [of _ "map snd U"] by simp
  moreover have "map (view_name (vt_nodes t)) (map snd U) = map fst (views t U)" by (simp add: views_def case_prod_beta)
  ultimately show ?thesis by simp
qed

section \<open>Find and touch\<close>

lemma view_find_state:
  assumes st: "view_state t V U" and len: "length name < STATS_NODE_MAX_SIZE"
  shows "p \<in> set V \<Longrightarrow> view_name (vt_nodes t) p = name \<Longrightarrow> view_tree_find t name = Some p"
    and "name \<notin> view_name (vt_nodes t) ` set V \<Longrightarrow> view_tree_find t name = Some NULL"
proof -
  note S = view_stateD [OF st]
  note F = view_index_search [OF S(1,9)]
  have c: "strcpy_buf STATS_NODE_MAX_SIZE name = Some name" using len by simp
  show "view_tree_find t name = Some p" if p: "p \<in> set V" "view_name (vt_nodes t) p = name"
    using F(1) [OF p] by (auto simp: view_tree_find_def c)
  show "view_tree_find t name = Some NULL" if "name \<notin> view_name (vt_nodes t) ` set V"
    using F(2) [OF that] by (simp add: view_tree_find_def c)
qed

lemma view_state_lru:
  assumes "view_state t V U" "lru_rep mem lru U'" "mset U' = mset U" "dom (nodes mem) = dom (nodes (vt_lru_mem t))"
  shows "view_state (t\<lparr>vt_lru_mem := mem, vt_lru := lru\<rparr>) V U'"
proof -
  have "set U' = set U" "mset (map snd U') = mset (map snd U)" using assms(3) by (metis set_mset_mset, simp)
  then show ?thesis using assms(1,2,4) by (simp add: view_state_def view_core_def entry_ok_def view_at_def [abs_def])
qed

lemma view_at_lru [simp]:
  "view_at (t\<lparr>vt_lru_mem := mem, vt_lru := lru\<rparr>) = view_at t"
  "stats_of (t\<lparr>vt_lru_mem := mem, vt_lru := lru\<rparr>) = stats_of t"
  "views (t\<lparr>vt_lru_mem := mem, vt_lru := lru\<rparr>) = views t"
  by (simp_all add: view_at_def stats_of_def views_def fun_eq_iff)

lemma view_touch_state:
  assumes st: "view_state t V (U1 @ (u, p) # U2)"
  obtains mem lru where "lru_list_move_to_first (vt_lru_mem t) (vt_lru t) u = Some (mem, lru)"
    "view_state (t\<lparr>vt_lru_mem := mem, vt_lru := lru\<rparr>) V ((u, p) # U1 @ U2)"
    "view_room (t\<lparr>vt_lru_mem := mem, vt_lru := lru\<rparr>) = view_room t"
proof -
  obtain mem lru where m: "lru_list_move_to_first (vt_lru_mem t) (vt_lru t) u = Some (mem, lru)"
    "lru_rep mem lru ((u, p) # U1 @ U2)" "brk mem = brk (vt_lru_mem t)" "limit mem = limit (vt_lru_mem t)"
    using lru_move_rep [OF view_stateD(2) [OF st]] by blast
  have "view_state (t\<lparr>vt_lru_mem := mem, vt_lru := lru\<rparr>) V ((u, p) # U1 @ U2)"
    by (rule view_state_lru [OF st m(2) _ lru_move_dom [OF m(1)]]) simp
  then show thesis using that [OF m(1)] m(3,4) by (simp add: view_room_def lru_room_def)
qed

section \<open>The size\<close>

definition views_size :: "nat \<Rightarrow> nat \<Rightarrow> (string \<times> view_stats) list \<Rightarrow> u64" where
  "views_size ts ps L =
     (\<Sum>(k, vs) \<leftarrow> L. view_stats_get_size ts ps vs + of_nat STATS_NODE_MAX_SIZE) + of_nat sizeof_view_tree +
     of_nat sizeof_lru_node * of_nat (length L)"

lemma mfold_sum:
  "(\<And>x acc. x \<in> set xs \<Longrightarrow> f x acc = Some (acc + g x)) \<Longrightarrow> mfold f xs acc = Some (acc + sum_list (map g xs))"
  for acc :: "'a :: len word"
  by (induction xs arbitrary: acc) (auto simp: add.assoc)

lemma view_size_state:
  assumes st: "view_state t V U"
  shows "view_tree_get_size ts ps t = Some (views_size ts ps (views t U))"
proof -
  note S = view_stateD [OF st]
  obtain xs where xs: "vk.tree_inv (vt_nodes t) (vt_tree t) xs" "V = map (node_val (vt_tree t)) xs"
    using S(1) by (auto simp: view_index_def)
  obtain rt where rt: "rep (vt_tree t) rt" "inorder rt = xs" using xs(1) by (auto simp: vk.tree_inv_def)
  define g where "g = (\<lambda>p. view_stats_get_size ts ps (stats_of t p) + of_nat STATS_NODE_MAX_SIZE :: u64)"
  have body: "size_body ts ps t a acc = Some (acc + g (node_val (vt_tree t) a))" if a: "a \<in> set xs" for a acc
  proof -
    have "node_val (vt_tree t) a \<in> set V" using a xs(2) by simp
    then obtain u where "entry_ok t u (node_val (vt_tree t) a)" using S(3,7) by fastforce
    then obtain n s where n: "vt_nodes t (node_val (vt_tree t) a) = Some n" "node_val (vt_tree t) a \<noteq> NULL"
      "vn_vs n \<noteq> NULL" "vt_stats t (vn_vs n) = Some s"
      by (auto simp: entry_ok_def view_at_def)
    then show ?thesis by (simp add: size_body_def view_node_at_def stats_at_def g_def stats_of_def view_at_def)
  qed
  have "rbtree_for (vt_tree t) (size_body ts ps t) 0 = mfold (size_body ts ps t) xs 0"
    using for_ok [OF rt(1)] rt(2) by simp
  also have "\<dots> = Some (0 + sum_list (map (\<lambda>a. g (node_val (vt_tree t) a)) xs))"
    by (rule mfold_sum) (rule body)
  also have "map (\<lambda>a. g (node_val (vt_tree t) a)) xs = map g V" using xs(2) by simp
  also have "sum_list (map g V) = sum_list (map g (map snd U))"
    using st unfolding view_state_def view_core_def by (metis mset_map sum_mset_sum_list)
  also have "map g (map snd U) = map (\<lambda>(k, vs). view_stats_get_size ts ps vs + of_nat STATS_NODE_MAX_SIZE) (views t U)"
    by (simp add: views_def g_def case_prod_beta)
  moreover have "lru_count (vt_lru t) = int (length U)" using S(2) by (simp add: lru_rep_def)
  ultimately show ?thesis by (simp add: view_tree_get_size_def views_size_def)
qed

section \<open>Insertion\<close>

lemma entry_ok_mono:
  assumes "entry_ok t u p" "vt_brk t \<le> vt_brk t'" "vt_nodes t' p = vt_nodes t p"
    "vt_stats t (view_at t p) \<noteq> None \<Longrightarrow> vt_stats t' (view_at t p) \<noteq> None"
  shows "entry_ok t' u p"
  using assms by (auto simp: entry_ok_def view_at_def)

lemma view_insert_state:
  assumes st: "view_core t V U" "dom (vt_stats t) = insert vs (view_at t ` set V)" and name: "length name < STATS_NODE_MAX_SIZE" "name \<notin> view_name (vt_nodes t) ` set V"
    and vs: "vs \<noteq> NULL" "vs < vt_brk t" "vt_stats t vs = Some s" "vs \<notin> view_at t ` set V"
    and room: "vt_brk t + 1 < vt_limit t" "0 < lru_room (vt_lru_mem t)"
  obtains t' V' u p where "view_tree_insert t name vs = Some (t', 0)" "view_state t' V' ((u, p) # U)"
    "views t' ((u, p) # U) = (name, s) # views t U" "view_at t' p = vs" "view_room t \<le> view_room t' + 2"
    "vt_stats t' = vt_stats t"
proof -
  note S = view_coreD [OF st(1)]
  define p where "p = vt_brk t"
  let ?n = "\<lambda>u. \<lparr>vn_name = name, vn_vs = vs, vn_ptr = u\<rparr>"
  let ?s = "(vt_nodes t)(p \<mapsto> ?n NULL)"
  have p: "p \<noteq> NULL" "KEY < p" "p \<noteq> NIL" "Suc p \<noteq> NIL" "Suc p \<noteq> NULL"
    using S(5) by (auto simp: p_def KEY_def NIL_def)
  have pV: "p \<notin> set V" using S(3,7) by (force simp: entry_ok_def p_def)
  have "view_index ?s (vt_tree t) (vt_tnodes t) V"
    by (rule view_index_cong [OF _ S(1)]) (use pV in \<open>auto simp: p_def\<close>)
  moreover have "Suc p \<notin> vt_tnodes t" using S(13) by (force simp: p_def)
  ultimately obtain h' V1 V2 where i: "rbtree_insert ?s (Suc p) (set_node_val (Suc p) p (vt_tree t)) = Some (h', Suc p)"
    "V = V1 @ V2" "view_index ?s h' (insert (Suc p) (vt_tnodes t)) (V1 @ p # V2)"
    using view_index_insert [of ?s "vt_tree t" "vt_tnodes t" V "Suc p" p] p pV name(2) by (force simp: image_iff)
  obtain mem lru where l: "lru_list_insert (vt_lru_mem t) (vt_lru t) p = Some (mem, lru, brk (vt_lru_mem t))"
    "lru_rep mem lru ((brk (vt_lru_mem t), p) # U)" "brk mem = brk (vt_lru_mem t) + 1" "limit mem = limit (vt_lru_mem t)"
    using lru_insert_rep [OF S(2) p(1)] room(2) by (auto simp: lru_room_def)
  define u where "u = brk (vt_lru_mem t)"
  define t' where "t' = t\<lparr>vt_tree := h', vt_lru_mem := mem, vt_lru := lru, vt_nodes := (vt_nodes t)(p \<mapsto> ?n u),
    vt_tnodes := insert (Suc p) (vt_tnodes t), vt_brk := Suc (Suc p), vt_count := vt_count t + 1\<rparr>"
  have c: "strcpy_buf STATS_NODE_MAX_SIZE name = Some name" using name(1) by simp
  have ins: "view_tree_insert t name vs = Some (t', 0)"
    using room p i(1) l(1) unfolding p_def
    by (simp add: view_tree_insert_def view_malloc_def t'_def u_def p_def c)
  have at: "view_at t' p = vs" by (simp add: view_at_def t'_def)
  have old: "vt_nodes t' q = vt_nodes t q" "view_at t' q = view_at t q" if "q \<in> set V" for q
    using that pV by (auto simp: view_at_def t'_def)
  have ix: "view_index (vt_nodes t') (vt_tree t') (vt_tnodes t') (V1 @ p # V2)"
    unfolding t'_def by (simp, rule view_index_cong [OF _ i(3)]) auto
  have "entry_ok t' v q" if "(v, q) \<in> set ((u, p) # U)" for v q
  proof (cases "(v, q) = (u, p)")
    case True
    then show ?thesis using p vs at name(1) by (auto simp: entry_ok_def t'_def p_def)
  next
    case False
    then have q: "(v, q) \<in> set U" using that by auto
    moreover have "q \<in> set V" using q S(3) by force
    ultimately show ?thesis using entry_ok_mono [OF S(7) [OF q], of t'] old by (auto simp: t'_def p_def)
  qed
  then have "\<forall>(v, q) \<in> set ((u, p) # U). entry_ok t' v q" by blast
  moreover have "inj_on (view_at t') (set (V1 @ p # V2))"
  proof -
    have "inj_on (view_at t') (set V)" using S(8) old(2) by (auto simp: inj_on_def)
    moreover have "view_at t' ` set V = view_at t ` set V" using old(2) by auto
    ultimately show ?thesis using at vs(4) pV i(2) by (simp add: Un_commute)
  qed
  moreover have "a < vt_brk t'" if "a \<in> vt_tnodes t'" for a using S(13) that by (force simp: t'_def p_def)
  moreover have "dom (vt_nodes t') = set (V1 @ p # V2)" using S(14) i(2) by (auto simp: t'_def)
  moreover have "dom (nodes mem) = fst ` set ((u, p) # U)" using lru_insert_dom [OF l(1)] S(15) by (simp add: u_def)
  moreover have "mset (map snd ((u, p) # U)) = mset (V1 @ p # V2)" "vt_count t = int (length V)"
    using st(1) i(2) by (simp_all add: view_core_def)
  moreover have "vt_lru_mem t' = mem" "vt_lru t' = lru" "vt_count t' = vt_count t + 1" "KEY < vt_brk t'"
    using S(5) by (simp_all add: t'_def p_def)
  ultimately have core: "view_core t' (V1 @ p # V2) ((u, p) # U)"
    using ix l(2) i(2) unfolding view_core_def u_def [symmetric] by simp
  have "view_at t' ` set V = view_at t ` set V" using old(2) by auto
  then have "dom (vt_stats t') = view_at t' ` set (V1 @ p # V2)" using st(2) at i(2) by (auto simp: t'_def)
  with core have st': "view_state t' (V1 @ p # V2) ((u, p) # U)" by (simp add: view_state_def)
  have "views t' U = views t U"
    by (rule views_cong) (use old S(3) in \<open>auto simp: view_name_def stats_of_def t'_def image_iff\<close>)
  then have vw: "views t' ((u, p) # U) = (name, s) # views t U"
    using at vs(3) by (simp add: stats_of_def view_name_def t'_def)
  show thesis
    by (rule that [OF ins st' vw at]) (use l(3,4) in \<open>auto simp: view_room_def lru_room_def t'_def p_def\<close>)
qed

section \<open>Eviction and change\<close>

lemma view_evict_state:
  assumes st: "view_state t V (U @ [(u, p)])" and destroy: "view_stats_destory (stats_of t p) = Some ()"
  obtains mem lru n t' V' where "lru_list_remove_tail (vt_lru_mem t) (vt_lru t) = Some (mem, lru, p)"
    "view_node_at t p = Some n"
    "view_tree_delete (t\<lparr>vt_lru_mem := mem, vt_lru := lru\<rparr>) (vn_name n) = Some t'"
    "view_state t' V' U" "views t' U = views t U" "view_room t' = view_room t" "vt_brk t' = vt_brk t"
    "\<And>q. q \<noteq> p \<Longrightarrow> vt_nodes t' q = vt_nodes t q" "\<And>q. q \<in> set V' \<Longrightarrow> vt_stats t' (view_at t q) = vt_stats t (view_at t q)"
proof -
  note S = view_stateD [OF st]
  obtain mem lru where l: "lru_list_remove_tail (vt_lru_mem t) (vt_lru t) = Some (mem, lru, p)" "lru_rep mem lru U"
    "brk mem = brk (vt_lru_mem t)" "limit mem = limit (vt_lru_mem t)"
    using lru_remove_tail_rep [OF S(2)] by auto
  have pV: "p \<in> set V" using S(3) by simp
  have ok: "entry_ok t u p" using S(7) by simp
  then obtain n where n: "vt_nodes t p = Some n" "length (vn_name n) < STATS_NODE_MAX_SIZE" "p \<noteq> NULL"
    by (auto simp: entry_ok_def)
  have pn: "view_name (vt_nodes t) p = vn_name n" using n(1) by (simp add: view_name_def)
  obtain h' d V1 V2 where d: "rbtree_delete (with_view_key (vn_name n) (vt_nodes t)) KEY (vt_tree t) = Some (h', d)"
    "d \<noteq> NULL" "node_val h' d = p" "V = V1 @ p # V2" "view_index (vt_nodes t) h' (vt_tnodes t - {d}) (V1 @ V2)"
    "d \<in> vt_tnodes t"
    using view_index_delete [OF S(1,9) pV pn] by auto
  define t' where "t' = t\<lparr>vt_lru_mem := mem, vt_lru := lru, vt_tree := h', vt_stats := (vt_stats t)(view_at t p := None),
    vt_tnodes := vt_tnodes t - {d}, vt_nodes := (vt_nodes t)(p := None), vt_count := vt_count t - 1\<rparr>"
  have v: "vn_vs n = view_at t p" using n(1) by (simp add: view_at_def)
  have vs: "view_at t p \<noteq> NULL" "vt_stats t (view_at t p) = Some (stats_of t p)"
    using ok by (auto simp: entry_ok_def stats_of_def)
  have c: "strcpy_buf STATS_NODE_MAX_SIZE (vn_name n) = Some (vn_name n)" using n(2) by simp
  have del: "view_tree_delete (t\<lparr>vt_lru_mem := mem, vt_lru := lru\<rparr>) (vn_name n) = Some t'"
    using d(1-3,6) n(1,3) v vs destroy by (simp add: view_tree_delete_def view_node_at_def stats_at_def t'_def c)
  have pW: "p \<notin> set (V1 @ V2)" "set (V1 @ V2) \<subseteq> set V" "set (V1 @ V2) = snd ` set U" using S(10,11) S(3) d(4) by auto
  have old: "vt_nodes t' q = vt_nodes t q" "view_at t' q = view_at t q" "view_at t q \<noteq> view_at t p"
    if "q \<in> set (V1 @ V2)" for q
  proof -
    have "q \<noteq> p" "q \<in> set V" using that pW by auto
    then show "vt_nodes t' q = vt_nodes t q" "view_at t' q = view_at t q" "view_at t q \<noteq> view_at t p"
      using S(8) pV by (auto simp: t'_def view_at_def inj_on_def)
  qed
  have ix: "view_index (vt_nodes t') (vt_tree t') (vt_tnodes t') (V1 @ V2)"
    unfolding t'_def by (simp, rule view_index_cong [OF _ d(5)]) (use pW(1) in \<open>auto simp: view_name_def\<close>)
  have "entry_ok t' w q" if "(w, q) \<in> set U" for w q
  proof -
    have "q \<in> set (V1 @ V2)" using that pW(3) by force
    then show ?thesis using entry_ok_mono [OF S(7) [of w q], of t'] that old by (auto simp: t'_def)
  qed
  then have "\<forall>(w, q) \<in> set U. entry_ok t' w q" by blast
  moreover have "inj_on (view_at t') (set (V1 @ V2))"
    using inj_on_subset [OF S(8) pW(2)] old(2) inj_on_cong [of "set (V1 @ V2)" "view_at t'" "view_at t"] by blast
  moreover have "tail (vt_lru t) = u" "u \<noteq> NULL" "u \<notin> fst ` set U"
    using S(2) seg_last_not_NULL [of "nodes (vt_lru_mem t)" NULL "header (vt_lru t)" "U @ [(u, p)]" NULL "tail (vt_lru t)"]
      seg_last [of "nodes (vt_lru_mem t)" NULL "header (vt_lru t)" "U @ [(u, p)]" NULL "tail (vt_lru t)"]
    by (auto simp: lru_rep_def)
  then have "dom (nodes mem) = fst ` set U" using lru_remove_dom [OF l(1)] S(15) by auto
  moreover have "dom (vt_nodes t') = set (V1 @ V2)" using S(14) pW(1) d(4) by (auto simp: t'_def)
  moreover have "mset (map snd U) = mset (V1 @ V2)" "vt_count t = int (length V)"
    using st d(4) by (simp_all add: view_state_def view_core_def)
  moreover have "vt_lru_mem t' = mem" "vt_lru t' = lru" "vt_count t' = vt_count t - 1" "KEY < vt_brk t'"
    "\<forall>a \<in> vt_tnodes t'. a < vt_brk t'" using S(5,13) by (simp_all add: t'_def)
  ultimately have core: "view_core t' (V1 @ V2) U"
    using ix l(2) d(4) unfolding view_core_def by simp
  have "view_at t' ` set (V1 @ V2) = view_at t ` set (V1 @ V2)" using old(2) by (intro image_cong) auto
  moreover have "dom (vt_stats t) = view_at t ` set V" using st by (simp add: view_state_def)
  moreover have "view_at t p \<notin> view_at t ` set (V1 @ V2)" using old(3) by force
  ultimately have "dom (vt_stats t') = view_at t' ` set (V1 @ V2)" using d(4) by (auto simp: t'_def)
  with core have st': "view_state t' (V1 @ V2) U" by (simp add: view_state_def)
  have same: "vt_nodes t' q = vt_nodes t q" if "q \<noteq> p" for q using that by (simp add: t'_def)
  have keep: "vt_stats t' (view_at t q) = vt_stats t (view_at t q)" if "q \<in> set (V1 @ V2)" for q
    using old(3) [OF that] by (simp add: t'_def)
  have vw: "views t' U = views t U"
    by (rule views_cong, unfold pW(3) [symmetric]) (simp add: view_name_def stats_of_def old keep)
  show thesis
    by (rule that [OF l(1) _ del st' vw _ _ same keep])
      (use n l(3,4) in \<open>simp_all add: view_node_at_def t'_def view_room_def lru_room_def\<close>)
qed

lemma view_set_state:
  assumes st: "view_state t V ((u, p) # U)"
  shows "view_state (set_stats (view_at t p) s t) V ((u, p) # U)"
    and "views (set_stats (view_at t p) s t) ((u, p) # U) = (view_name (vt_nodes t) p, s) # views t U"
    and "view_room (set_stats (view_at t p) s t) = view_room t"
proof -
  note S = view_stateD [OF st]
  let ?t = "set_stats (view_at t p) s t"
  have at: "view_at ?t = view_at t" by (simp add: view_at_def set_stats_def fun_eq_iff)
  have f: "vt_stats ?t x = (if x = view_at t p then Some s else vt_stats t x)" "vt_nodes ?t = vt_nodes t" for x
    by (simp_all add: set_stats_def)
  have "entry_ok ?t w q" if "(w, q) \<in> set ((u, p) # U)" for w q
    using entry_ok_mono [OF S(7) [OF that], of ?t] by (auto simp: set_stats_def)
  then have "\<forall>(w, q) \<in> set ((u, p) # U). entry_ok ?t w q" by blast
  moreover have "dom (vt_stats ?t) = view_at t ` set V"
    using st S(3) by (auto simp: view_state_def set_stats_def)
  ultimately show "view_state ?t V ((u, p) # U)"
    using st at unfolding view_state_def view_core_def by (simp only: f set_stats_def view_tree.simps) simp
  have "view_at t q \<noteq> view_at t p" if "q \<in> snd ` set U" for q
  proof -
    have "q \<noteq> p" using S(11) that by auto
    then show ?thesis using S(3,8) that by (auto simp: inj_on_def)
  qed
  then have "views ?t U = views t U"
    by (intro views_cong) (simp add: stats_of_def at f)
  then show "views ?t ((u, p) # U) = (view_name (vt_nodes t) p, s) # views t U"
    by (simp add: stats_of_def at f)
  show "view_room ?t = view_room t" by (simp add: view_room_def set_stats_def)
qed

end
