(* ===== verification/C_Stdio.thy ===== *)
theory C_Stdio
  imports C_String
begin

text \<open>
  What the program uses of the C library to read text: \<open>fgets\<close>, which cuts a file into lines, and
  \<open>strtok_r\<close>, which cuts a line into fields; with the inverse operations.
\<close>

section \<open>Reading a line\<close>

text \<open>
  \<open>fgets\<close> with room for \<open>n\<close> bytes before the NUL, on the rest of the file: what it stores, what is
  left, and whether it met the end of the file.
\<close>

fun fgets :: "nat \<Rightarrow> string \<Rightarrow> string \<times> string \<times> bool" where
  "fgets 0 s = ([], s, False)"
| "fgets (Suc n) [] = ([], [], True)"
| "fgets (Suc n) (c # s) =
     (if c = CHR 0x0A then ([c], s, False) else let (line, rest, met) = fgets n s in (c # line, rest, met))"

text \<open>The string that starts in a buffer.\<close>

definition c_str :: "string \<Rightarrow> string" where
  "c_str s = takeWhile (\<lambda>c. c \<noteq> CHR 0x00) s"

lemma fgets_split:
  "fgets n s = (w, r, m) \<Longrightarrow> s = w @ r \<and> length w \<le> n \<and> (w = [] \<longrightarrow> n = 0 \<or> s = []) \<and> (m \<longrightarrow> r = []) \<and>
     CHR 0x0A \<notin> set (butlast w) \<and> (r \<noteq> [] \<longrightarrow> length w = n \<or> last w = CHR 0x0A)"
proof (induction n s arbitrary: w r m rule: fgets.induct)
  case (3 n c s)
  show ?case
  proof (cases "c = CHR 0x0A")
    case False
    then obtain w' where w: "fgets n s = (w', r, m)" "w = c # w'" using 3(2) by (auto split: prod.splits)
    show ?thesis using 3(1) [OF False w(1)] w(2) False by auto
  qed (use 3(2) in auto)
qed auto

lemma fgets_shorter: "length (fst (snd (fgets (Suc n) (c # s)))) < length (c # s)"
proof -
  obtain w r m where f: "fgets (Suc n) (c # s) = (w, r, m)" by (cases "fgets (Suc n) (c # s)") auto
  then show ?thesis using fgets_split [OF f] by (cases w) auto
qed

text \<open>The pieces that \<open>fgets\<close> makes of a text.\<close>

function chunks :: "string \<Rightarrow> string list" where
  "chunks s = (if s = [] then [] else fst (fgets 1023 s) # chunks (fst (snd (fgets 1023 s))))"
  by auto
termination
proof (relation "measure length")
  fix s :: string
  assume "s \<noteq> []"
  then obtain c t where s: "s = c # t" by (cases s) auto
  have "Suc 1022 = 1023" by simp
  then show "(fst (snd (fgets 1023 s)), s) \<in> measure length" using fgets_shorter [of 1022 c t] s by simp
qed simp

declare chunks.simps [simp del]

lemma chunks_Nil [simp]: "chunks [] = []"
  by (simp add: chunks.simps)

lemma chunks_fgets: "fgets 1023 s = (w, r, m) \<Longrightarrow> w \<noteq> [] \<Longrightarrow> chunks s = w # chunks r"
  using fgets_split [of 1023 s w r m] by (subst chunks.simps) auto

lemma concat_chunks: "concat (chunks s) = s"
proof (induction s rule: chunks.induct)
  case (1 s)
  obtain w r m where f: "fgets 1023 s = (w, r, m)" by (cases "fgets 1023 s") auto
  show ?case
  proof (cases "s = []")
    case False
    then show ?thesis using 1 f fgets_split [OF f] by (subst chunks.simps) simp
  qed simp
qed

section \<open>Fields\<close>

text \<open>\<open>strtok_r\<close> with a single separator: the maximal parts without it.\<close>

lemma dropWhile_shorter [termination_simp]: "length (dropWhile P xs) < Suc (length xs)"
  by (simp add: length_dropWhile_le le_imp_less_Suc)

fun strtok :: "char \<Rightarrow> string \<Rightarrow> string list" where
  "strtok c [] = []"
| "strtok c (x # xs) =
     (if x = c then strtok c xs
      else (x # takeWhile (\<lambda>y. y \<noteq> c) xs) # strtok c (dropWhile (\<lambda>y. y \<noteq> c) xs))"

lemma strtok_append:
  assumes "w \<noteq> []" "c \<notin> set w"
  shows "strtok c (w @ c # rest) = w # strtok c rest" "strtok c w = [w]"
proof -
  obtain x xs where w: "w = x # xs" using assms(1) by (cases w) auto
  have "takeWhile (\<lambda>y. y \<noteq> c) (xs @ c # rest) = xs \<and> dropWhile (\<lambda>y. y \<noteq> c) (xs @ c # rest) = c # rest" if "c \<notin> set xs" for xs
    using that by (induction xs) auto
  then have "x \<noteq> c" "takeWhile (\<lambda>y. y \<noteq> c) (xs @ c # rest) = xs" "dropWhile (\<lambda>y. y \<noteq> c) (xs @ c # rest) = c # rest"
    using assms(2) w by auto
  then show "strtok c (w @ c # rest) = w # strtok c rest" using w by simp
  have t: "takeWhile (\<lambda>y. y \<noteq> c) xs = xs" and d: "dropWhile (\<lambda>y. y \<noteq> c) xs = []"
    using assms(2) w by (auto simp: takeWhile_eq_all_conv)
  show "strtok c w = [w]" using \<open>x \<noteq> c\<close> by (simp add: w t d)
qed

text \<open>The fields with a blank before each but the first.\<close>

fun blank_join :: "string list \<Rightarrow> string" where
  "blank_join [] = []"
| "blank_join [w] = w"
| "blank_join (w # v # ws) = w @ CHR '' '' # blank_join (v # ws)"

lemma strtok_join: "\<forall>w \<in> set ws. w \<noteq> [] \<and> CHR '' '' \<notin> set w \<Longrightarrow> strtok CHR '' '' (blank_join ws) = ws"
  by (induction ws rule: blank_join.induct) (simp_all add: strtok_append)

end
