(* ===== verification/Zip_Addr.thy ===== *)
theory Zip_Addr
  imports C_String
begin

text \<open>
  The socket addresses of \<^verbatim>\<open>zip_addr.c\<close>. The functions that turn an address into text and back are
  those of the C library, \<open>inet_pton\<close> and \<open>inet_ntop\<close>, parameters of the model; the order of the bytes
  of the host is the argument \<open>little\<close>.
\<close>

unbundle bit_operations_syntax

type_synonym u16 = "16 word"

section \<open>Addresses\<close>

text \<open>The union of the two structures, with \<open>addr_type\<close> as its constructor.\<close>

datatype sockaddr = Sockaddr_in (sin_port: u16) (s_addr: u32) | Sockaddr_in6 (sin6_port: u16) (s6_addr: "8 word list")

record addr_t =
  addr_sock :: sockaddr
  addr_mask :: int

definition MAX_IP_STR_LEN :: nat where
  "MAX_IP_STR_LEN = 64"

fun addr_is_v4 :: "sockaddr \<Rightarrow> bool" where
  "addr_is_v4 (Sockaddr_in _ _) = True"
| "addr_is_v4 (Sockaddr_in6 _ _) = False"

text \<open>The functions \<open>htons\<close> and \<open>htonl\<close> of the C library, each its own inverse.\<close>

definition net_short :: "bool \<Rightarrow> u16 \<Rightarrow> u16" where
  "net_short little w = (if little then push_bit 8 w OR drop_bit 8 w else w)"

definition net_long :: "bool \<Rightarrow> u32 \<Rightarrow> u32" where
  "net_long little w = (if little then push_bit 24 w OR (push_bit 8 w AND 0xFF0000) OR (drop_bit 8 w AND 0xFF00) OR drop_bit 24 w else w)"

definition addr_init ::
    "bool \<Rightarrow> (string \<Rightarrow> u32 option) \<Rightarrow> (string \<Rightarrow> 8 word list option) \<Rightarrow> string \<Rightarrow> u16 \<Rightarrow> addr_t option" where
  "addr_init little pton4 pton6 ip port = (if strchr ip CHR '':'' = None
     then do { a \<leftarrow> pton4 ip; Some \<lparr>addr_sock = Sockaddr_in (net_short little port) a, addr_mask = 32\<rparr> }
     else do { a \<leftarrow> pton6 ip; Some \<lparr>addr_sock = Sockaddr_in6 (net_short little port) a, addr_mask = 128\<rparr> })"

text \<open>\<open>socklen\<close> is the size of the structure.\<close>

definition addr_from_sockaddr :: "sockaddr \<Rightarrow> addr_t" where
  "addr_from_sockaddr sock_addr = \<lparr>addr_sock = sock_addr, addr_mask = (if addr_is_v4 sock_addr then 32 else 128)\<rparr>"

definition addr_get_port :: "bool \<Rightarrow> addr_t \<Rightarrow> u16" where
  "addr_get_port little addr =
     net_short little (case addr_sock addr of Sockaddr_in port _ \<Rightarrow> port | Sockaddr_in6 port _ \<Rightarrow> port)"

definition addr_set_port :: "bool \<Rightarrow> addr_t \<Rightarrow> u16 \<Rightarrow> addr_t" where
  "addr_set_port little addr port = addr\<lparr>addr_sock := (case addr_sock addr of
     Sockaddr_in _ a \<Rightarrow> Sockaddr_in (net_short little port) a | Sockaddr_in6 _ a \<Rightarrow> Sockaddr_in6 (net_short little port) a)\<rparr>"

definition addr_get_ip :: "(u32 \<Rightarrow> string) \<Rightarrow> (8 word list \<Rightarrow> string) \<Rightarrow> addr_t \<Rightarrow> string" where
  "addr_get_ip ntop4 ntop6 addr = (case addr_sock addr of Sockaddr_in _ a \<Rightarrow> ntop4 a | Sockaddr_in6 _ a \<Rightarrow> ntop6 a)"

definition addr_set_mask :: "addr_t \<Rightarrow> int \<Rightarrow> addr_t" where
  "addr_set_mask addr m = addr\<lparr>addr_mask := m\<rparr>"

definition addr_compare :: "(u32 \<Rightarrow> string) \<Rightarrow> (8 word list \<Rightarrow> string) \<Rightarrow> addr_t \<Rightarrow> addr_t \<Rightarrow> bool" where
  "addr_compare ntop4 ntop6 src dst \<longleftrightarrow> strcmp (addr_get_ip ntop4 ntop6 src) (addr_get_ip ntop4 ntop6 dst) = 0"

definition addr_is_loopback :: "(u32 \<Rightarrow> string) \<Rightarrow> (8 word list \<Rightarrow> string) \<Rightarrow> addr_t \<Rightarrow> bool" where
  "addr_is_loopback ntop4 ntop6 addr =
     (let ip = addr_get_ip ntop4 ntop6 addr
      in if addr_is_v4 (addr_sock addr) then strcmp ip ''127.0.0.1'' = 0
         else strcmp ip ''0:0:0:0:0:0:0:1'' = 0 \<or> strcmp ip ''::1'' = 0)"

definition addr_get_v4_addr :: "addr_t \<Rightarrow> u32 option" where
  "addr_get_v4_addr addr = (case addr_sock addr of Sockaddr_in _ a \<Rightarrow> Some a | Sockaddr_in6 _ _ \<Rightarrow> None)"

section \<open>Networks\<close>

text \<open>
  The loop over the bytes of two IPv6 addresses from index \<open>i\<close> on. A byte passes through \<open>ntohs\<close> and is
  cut to eight bits again. Reading past the sixteen bytes is an abort.
\<close>

definition section_of :: "bool \<Rightarrow> 8 word \<Rightarrow> 8 word" where
  "section_of little b = ucast (net_short little (ucast b))"

function same_sections :: "bool \<Rightarrow> 8 word list \<Rightarrow> 8 word list \<Rightarrow> nat \<Rightarrow> int \<Rightarrow> bool option" where
  "same_sections little a b i m =
     (if m < 0 then Some True
      else if 16 \<le> i then None
      else let x = section_of little (a ! i); y = section_of little (b ! i)
           in if m < 8 then (let w = - push_bit (nat (8 - m)) 1 :: u16 in Some (ucast x AND w = ucast y AND w))
              else if x \<noteq> y then Some False
              else same_sections little a b (i + 1) (m - 8))"
  by auto
termination
  by (relation "measure (\<lambda>(little, a, b, i, m). nat (m + 1))") auto

declare same_sections.simps [simp del]

text \<open>A shift of a 32-bit \<open>int\<close> by 32 is an abort.\<close>

definition addr_is_in_same_network :: "bool \<Rightarrow> addr_t \<Rightarrow> addr_t \<Rightarrow> bool option" where
  "addr_is_in_same_network little addr1 addr2 =
     (let m = (if addr_mask addr1 < addr_mask addr2 then addr_mask addr1 else addr_mask addr2);
          m = (if m < 0 then 0 else m)
      in case (addr_sock addr1, addr_sock addr2) of
        (Sockaddr_in _ a, Sockaddr_in _ b) \<Rightarrow>
          (let m = (if m > 32 then 32 else m); a = net_long little a; b = net_long little b
           in if m = 0 then None
              else (let w = - push_bit (nat (32 - m)) 1 in Some (a AND w = b AND w)))
      | (Sockaddr_in6 _ a, Sockaddr_in6 _ b) \<Rightarrow> same_sections little a b 0 (if m > 128 then 128 else m)
      | _ \<Rightarrow> Some False)"

section \<open>Bytes and masks\<close>

lemma net_short_twice: "net_short little (net_short little w) = w"
  by (cases little) (auto simp: net_short_def bit_eq_iff bit_simps)

text \<open>The upper bits.\<close>

lemma upper_bits:
  fixes a b :: "'a :: len word"
  shows "a AND - push_bit k 1 = b AND - push_bit k 1 \<longleftrightarrow> (\<forall>n. k \<le> n \<and> n < LENGTH('a) \<longrightarrow> bit a n = bit b n)"
proof -
  have "- push_bit k 1 = NOT (mask k :: 'a word)" by (simp add: minus_exp_eq_not_mask push_bit_of_1)
  then show ?thesis by (auto simp: bit_eq_iff bit_simps)
qed

lemma mask_shift: "- (push_bit k 1 :: 'a :: len word) = push_bit k (- 1)"
  by (simp add: push_bit_minus_one_eq_not_mask minus_exp_eq_not_mask push_bit_of_1)

text \<open>The first \<open>m\<close> bits of a word of \<open>w\<close> bits, counted from the most significant one.\<close>

lemma upper_first:
  fixes a b :: "'a :: len word"
  assumes "m \<le> LENGTH('a)"
  shows "(\<forall>n. LENGTH('a) - m \<le> n \<and> n < LENGTH('a) \<longrightarrow> bit a n = bit b n) \<longleftrightarrow>
    (\<forall>i < m. bit a (LENGTH('a) - 1 - i) = bit b (LENGTH('a) - 1 - i))"
proof (rule iffI; intro allI impI)
  fix n
  assume h: "\<forall>i < m. bit a (LENGTH('a) - 1 - i) = bit b (LENGTH('a) - 1 - i)" and n: "LENGTH('a) - m \<le> n \<and> n < LENGTH('a)"
  then have "LENGTH('a) - 1 - n < m" "LENGTH('a) - 1 - (LENGTH('a) - 1 - n) = n" using assms by auto
  then show "bit a n = bit b n" using h by metis
qed (use assms in auto)

section \<open>Networks\<close>

definition same_bits :: "8 word list \<Rightarrow> 8 word list \<Rightarrow> nat \<Rightarrow> bool" where
  "same_bits a b m \<longleftrightarrow> (\<forall>j < m. bit (a ! (j div 8)) (7 - j mod 8) = bit (b ! (j div 8)) (7 - j mod 8))"

lemma byte_bit: "bit (b :: 8 word) n \<Longrightarrow> n < 8"
  using bit_imp_le_length [of b n] by simp

lemma section_big: "section_of False b = b"
  by (rule bit_word_eqI) (simp add: section_of_def net_short_def bit_simps)

lemma section_little: "section_of True b = 0"
  by (rule bit_word_eqI) (auto simp: section_of_def net_short_def bit_simps dest: byte_bit)

lemma last_section:
  assumes "m \<le> 8"
  shows "(ucast x :: u16) AND - push_bit (8 - m) 1 = ucast y AND - push_bit (8 - m) 1 \<longleftrightarrow>
    (\<forall>i < m. bit (x :: 8 word) (7 - i) = bit (y :: 8 word) (7 - i))"
proof -
  have "(ucast x :: u16) AND - push_bit (8 - m) 1 = ucast y AND - push_bit (8 - m) 1 \<longleftrightarrow>
      (\<forall>n. 8 - m \<le> n \<and> n < 8 \<longrightarrow> bit x n = bit y n)"
  proof -
    have "n < 16 \<longrightarrow> bit (ucast x :: u16) n = bit (ucast y :: u16) n" if "n < 8 \<longrightarrow> bit x n = bit y n" for n
      using that byte_bit [of x n] byte_bit [of y n] by (auto simp: bit_simps)
    moreover have "bit x n = bit y n" if "bit (ucast x :: u16) n = bit (ucast y :: u16) n" "n < 8" for n
      using that by (simp add: bit_simps)
    ultimately show ?thesis unfolding upper_bits by fastforce
  qed
  also have "\<dots> \<longleftrightarrow> (\<forall>i < m. bit x (7 - i) = bit y (7 - i))" using upper_first [of m x y] assms by simp
  finally show ?thesis .
qed

lemma same_bits_Cons:
  "same_bits (x # a) (y # b) (8 + m) \<longleftrightarrow> x = y \<and> same_bits a b m"
proof
  assume h: "same_bits (x # a) (y # b) (8 + m)"
  have "bit x n = bit y n" if "n < 8" for n
    using h that unfolding same_bits_def by (auto dest: spec [of _ "7 - n"])
  then have "x = y" by (auto simp: bit_eq_iff)
  moreover have "same_bits a b m" unfolding same_bits_def
  proof (intro allI impI)
    fix j
    assume "j < m"
    moreover have "(8 + j) div 8 = Suc (j div 8)" "(8 + j) mod 8 = j mod 8" by simp_all
    ultimately show "bit (a ! (j div 8)) (7 - j mod 8) = bit (b ! (j div 8)) (7 - j mod 8)"
      using h unfolding same_bits_def by (metis nat_add_left_cancel_less nth_Cons_Suc)
  qed
  ultimately show "x = y \<and> same_bits a b m" by simp
next
  assume h: "x = y \<and> same_bits a b m"
  show "same_bits (x # a) (y # b) (8 + m)" unfolding same_bits_def
  proof (intro allI impI)
    fix j
    assume j: "j < 8 + m"
    show "bit ((x # a) ! (j div 8)) (7 - j mod 8) = bit ((y # b) ! (j div 8)) (7 - j mod 8)"
    proof (cases "j < 8")
      case False
      then have "j div 8 = Suc ((j - 8) div 8)" "j mod 8 = (j - 8) mod 8" "j - 8 < m" using j by (auto simp: le_div_geq le_mod_geq)
      then show ?thesis using h by (simp add: same_bits_def)
    qed (use h in simp)
  qed
qed

lemma sections_big:
  "i + length a = 16 \<Longrightarrow> length b = length a \<Longrightarrow> length a' = i \<Longrightarrow> length b' = i \<Longrightarrow> m < 8 * length a \<Longrightarrow>
     same_sections False (a' @ a) (b' @ b) i (int m) = Some (same_bits a b m)"
proof (induction a arbitrary: i a' b b' m)
  case (Cons x a)
  obtain y b2 where b: "b = y # b2" using Cons.prems(2) by (cases b) auto
  have nth: "(a' @ x # a) ! i = x" "(b' @ y # b2) ! i = y" using Cons.prems(3,4) by (auto simp: nth_append)
  note step = same_sections.simps [of False "a' @ x # a" "b' @ b" i "int m"]
  show ?case
  proof (cases "m < 8")
    case True
    have "nat (8 - int m) = 8 - m" by simp
    then have "same_sections False (a' @ x # a) (b' @ b) i (int m) = Some (\<forall>i < m. bit x (7 - i) = bit y (7 - i))"
      using step True Cons.prems(1) nth last_section [of m x y] by (simp add: section_big b)
    also have "(\<forall>i < m. bit x (7 - i) = bit y (7 - i)) \<longleftrightarrow> same_bits (x # a) b m"
      using True by (auto simp: same_bits_def b)
    finally show ?thesis .
  next
    case False
    then obtain m' where m: "m = 8 + m'" by (metis le_add_diff_inverse not_less)
    show ?thesis
    proof (cases "x = y")
      case False
      then show ?thesis using step m Cons.prems(1) nth same_bits_Cons [of x a y b2 m'] by (simp add: section_big b)
    next
      case True
      have "same_sections False (a' @ x # a) (b' @ b) i (int m) = same_sections False ((a' @ [x]) @ a) ((b' @ [y]) @ b2) (i + 1) (int m')"
        using step m Cons.prems(1) nth True by (simp add: section_big b)
      also have "\<dots> = Some (same_bits a b2 m')" using Cons.prems b m by (intro Cons.IH) auto
      finally show ?thesis using True m by (simp add: b same_bits_Cons)
    qed
  qed
qed simp

lemma sections_little:
  "same_sections True a b i m = (if m < 128 - 8 * int i then Some True else None)" if "i \<le> 16" "0 \<le> m"
  using that
proof (induction "16 - i" arbitrary: i m)
  case 0
  then show ?case using same_sections.simps [of True a b 16 m] by simp
next
  case (Suc n)
  note step = same_sections.simps [of True a b i m]
  have i: "i < 16" using Suc.hyps(2) by simp
  show ?case
  proof (cases "m < 8")
    case True
    then show ?thesis using step Suc.prems i by (simp add: section_little)
  next
    case False
    have "same_sections True a b i m = same_sections True a b (i + 1) (m - 8)" using step False i Suc.prems by (simp add: section_little)
    also have "\<dots> = (if m - 8 < 128 - 8 * int (i + 1) then Some True else None)"
      using Suc.hyps False i by (intro Suc.hyps(1)) auto
    finally show ?thesis by simp
  qed
qed

section \<open>Properties\<close>

text \<open>The smaller mask, not below 0.\<close>

definition common_mask :: "addr_t \<Rightarrow> addr_t \<Rightarrow> nat" where
  "common_mask addr1 addr2 = nat (min (addr_mask addr1) (addr_mask addr2))"

text \<open>C37. Two IPv4 addresses are in the same network exactly when their first bits in the order of the
  network agree, as many as the smaller mask says and 32 at most; a mask of 0 shifts by 32. On a host
  whose bytes are in the order of the network the same holds for two IPv6 addresses with a mask below
  128. Addresses of different types are never in the same network. With a mask of 1 the code shifts into
  the sign bit of an \<open>int\<close> and negates the least \<open>int\<close>, which C leaves undefined; the model takes the
  value that two's complement hardware gives, so for that mask the statement rests on it.\<close>

theorem same_network_prefix:
  assumes "length a6 = 16" "length b6 = 16"
  shows "addr_is_in_same_network little \<lparr>addr_sock = Sockaddr_in p a, addr_mask = m1\<rparr> \<lparr>addr_sock = Sockaddr_in q b, addr_mask = m2\<rparr> =
     (if min m1 m2 \<le> 0 then None
      else Some (\<forall>i < nat (min 32 (min m1 m2)). bit (net_long little a) (31 - i) = bit (net_long little b) (31 - i))) \<and>
   (min m1 m2 < 128 \<longrightarrow>
     addr_is_in_same_network False \<lparr>addr_sock = Sockaddr_in6 p a6, addr_mask = m1\<rparr> \<lparr>addr_sock = Sockaddr_in6 q b6, addr_mask = m2\<rparr> =
       Some (same_bits a6 b6 (nat (min m1 m2)))) \<and>
   (addr_is_v4 s \<noteq> addr_is_v4 t \<longrightarrow> addr_is_in_same_network little \<lparr>addr_sock = s, addr_mask = m1\<rparr> \<lparr>addr_sock = t, addr_mask = m2\<rparr> = Some False)"
proof (intro conjI)
  show "addr_is_in_same_network little \<lparr>addr_sock = Sockaddr_in p a, addr_mask = m1\<rparr> \<lparr>addr_sock = Sockaddr_in q b, addr_mask = m2\<rparr> =
     (if min m1 m2 \<le> 0 then None
      else Some (\<forall>i < nat (min 32 (min m1 m2)). bit (net_long little a) (31 - i) = bit (net_long little b) (31 - i)))"
  proof (cases "min m1 m2 \<le> 0")
    case True
    then show ?thesis by (auto simp: addr_is_in_same_network_def Let_def min_def split: if_splits)
  next
    case False
    define k where "k = nat (min 32 (min m1 m2))"
    have k: "k \<le> 32" "nat (32 - min 32 (min m1 m2)) = 32 - k" using False by (auto simp: k_def)
    have "addr_is_in_same_network little \<lparr>addr_sock = Sockaddr_in p a, addr_mask = m1\<rparr> \<lparr>addr_sock = Sockaddr_in q b, addr_mask = m2\<rparr> =
        Some (net_long little a AND - push_bit (32 - k) 1 = net_long little b AND - push_bit (32 - k) 1)"
      using False unfolding k(2) [symmetric] by (auto simp: addr_is_in_same_network_def Let_def min_def)
    also have "net_long little a AND - push_bit (32 - k) 1 = net_long little b AND - push_bit (32 - k) 1 \<longleftrightarrow>
        (\<forall>i < k. bit (net_long little a) (31 - i) = bit (net_long little b) (31 - i))"
      unfolding upper_bits using upper_first [of k "net_long little a" "net_long little b"] k(1) by simp
    finally show ?thesis using False by (simp add: k_def)
  qed
next
  show "min m1 m2 < 128 \<longrightarrow>
     addr_is_in_same_network False \<lparr>addr_sock = Sockaddr_in6 p a6, addr_mask = m1\<rparr> \<lparr>addr_sock = Sockaddr_in6 q b6, addr_mask = m2\<rparr> =
       Some (same_bits a6 b6 (nat (min m1 m2)))"
  proof -
    have c: "same_sections False a6 b6 0 m = Some (same_bits a6 b6 (nat m))" if "0 \<le> m" "m < 128" for m
      using sections_big [of 0 a6 b6 "[]" "[]" "nat m"] assms that by simp
    have z: "same_bits a6 b6 (nat m) = same_bits a6 b6 0" if "m < 0" for m using that by simp
    show ?thesis by (auto simp: addr_is_in_same_network_def Let_def min_def c z split: if_splits)
  qed
next
  show "addr_is_v4 s \<noteq> addr_is_v4 t \<longrightarrow> addr_is_in_same_network little \<lparr>addr_sock = s, addr_mask = m1\<rparr> \<lparr>addr_sock = t, addr_mask = m2\<rparr> = Some False"
    by (cases s; cases t) (simp_all add: addr_is_in_same_network_def Let_def)
qed

text \<open>C38. On a little-endian host the IPv6 branch compares nothing: \<open>ntohs\<close> moves a byte out of the
  eight bits that are kept, so with masks below 128 all IPv6 addresses are in the same network, and
  with two masks of 128 it reads past the sixteen bytes, even for equal addresses.\<close>

theorem v6_same_network_collapses:
  "addr_is_in_same_network True \<lparr>addr_sock = Sockaddr_in6 p a, addr_mask = m1\<rparr> \<lparr>addr_sock = Sockaddr_in6 q b, addr_mask = m2\<rparr> =
     (if min m1 m2 < 128 then Some True else None)"
proof -
  have c: "same_sections True a b 0 m = (if m < 128 then Some True else None)" if "0 \<le> m" for m
    using sections_little [of 0 m a b] that by simp
  show ?thesis by (auto simp: addr_is_in_same_network_def Let_def min_def c split: if_splits)
qed

theorem same_network_prefix_witness:
  "addr_is_in_same_network True \<lparr>addr_sock = Sockaddr_in 0 0x0100A8C0, addr_mask = 24\<rparr> \<lparr>addr_sock = Sockaddr_in 0 0x0200A8C0, addr_mask = 32\<rparr> =
      Some (\<forall>i < 24. bit (net_long True 0x0100A8C0) (31 - i) = bit (net_long True 0x0200A8C0) (31 - i)) \<and>
    addr_is_in_same_network False \<lparr>addr_sock = Sockaddr_in6 0 (replicate 16 1), addr_mask = 24\<rparr>
      \<lparr>addr_sock = Sockaddr_in6 0 (replicate 16 1), addr_mask = 32\<rparr> = Some True"
  using same_network_prefix [of "replicate 16 1" "replicate 16 1" True 0 "0x0100A8C0" 24 0 "0x0200A8C0" 32]
  by (simp add: same_bits_def)

section \<open>Texts and ports\<close>

text \<open>
  With an \<open>inet_pton\<close> that reads back what \<open>inet_ntop\<close> writes, two addresses of one type compare as
  equal exactly when they are the same; the port and the mask do not matter.
\<close>

lemma addr_compare_v4:
  assumes "\<forall>a. pton4 (ntop4 a) = Some a"
  shows "addr_compare ntop4 ntop6 \<lparr>addr_sock = Sockaddr_in p a, addr_mask = m1\<rparr> \<lparr>addr_sock = Sockaddr_in q b, addr_mask = m2\<rparr> \<longleftrightarrow> a = b"
proof -
  have "ntop4 a = ntop4 b \<longleftrightarrow> a = b" using assms by (metis option.inject)
  then show ?thesis by (simp add: addr_compare_def addr_get_ip_def strcmp_sign)
qed

lemma addr_port_set_get: "addr_get_port little (addr_set_port little x port) = port"
  by (cases "addr_sock x") (simp_all add: addr_get_port_def addr_set_port_def net_short_twice)

end
