(* ===== verification/Zip_Calls.thy ===== *)
theory Zip_Calls
  imports Zip_Addr
begin

text \<open>
  The functions of \<^verbatim>\<open>zip_socket.c\<close> around one system call, as far as they do more than pass it on. The results of
  the call are arguments.
\<close>

section \<open>Sockets\<close>

record socket_t =
  sock_fd :: int
  sock_type :: int
  sock_family :: int

definition SOCK_STREAM :: int where
  "SOCK_STREAM = 1"

definition AF_INET :: int where
  "AF_INET = 2"

definition AF_INET6 :: int where
  "AF_INET6 = 10"

text \<open>\<open>new_fd\<close> is what \<open>socket\<close> or \<open>accept\<close> gives.\<close>

definition socket_open :: "int \<Rightarrow> int \<Rightarrow> int \<Rightarrow> socket_t option" where
  "socket_open new_fd family type = do {
     guard (0 < new_fd);
     Some \<lparr>sock_fd = new_fd, sock_type = type, sock_family = family\<rparr>
   }"

text \<open>The new structure is filled with zeros, and its family stays 0.\<close>

definition socket_accept :: "int \<Rightarrow> socket_t \<Rightarrow> socket_t" where
  "socket_accept new_fd s = \<lparr>sock_fd = new_fd, sock_type = sock_type s, sock_family = 0\<rparr>"

text \<open>\<open>sock_flags\<close> is the answer to \<open>F_GETFL\<close>; the result is the argument of \<open>F_SETFL\<close>.\<close>

definition socket_set_unblock :: "int \<Rightarrow> bool \<Rightarrow> int option" where
  "socket_set_unblock sock_flags is_block = do {
     guard (0 \<le> sock_flags);
     Some (if is_block then sock_flags OR 2048 else sock_flags AND (NOT 2048))
   }"

text \<open>The results of \<open>connect\<close> and \<open>select\<close>, and whether \<open>errno\<close> is \<open>EINPROGRESS\<close>.\<close>

definition socket_connect_with_timeout :: "int \<Rightarrow> bool \<Rightarrow> int \<Rightarrow> int" where
  "socket_connect_with_timeout connect_ret in_progress selected =
     (if connect_ret \<noteq> 0 \<and> in_progress then (if 0 < selected then 0 else 1) else connect_ret)"

definition default_addr :: "socket_t \<Rightarrow> string" where
  "default_addr s = (if sock_family s = AF_INET6 then ''::0'' else ''0.0.0.0'')"

text \<open>\<open>sys\<close> stands for \<open>getpeername\<close> and \<open>recvfrom\<close>: a result and the structure it leaves.\<close>

definition socket_get_peer_addr ::
    "bool \<Rightarrow> (string \<Rightarrow> u32 option) \<Rightarrow> (string \<Rightarrow> 8 word list option) \<Rightarrow> (int \<Rightarrow> sockaddr \<Rightarrow> int \<times> sockaddr) \<Rightarrow>
     socket_t \<Rightarrow> (int \<times> addr_t) option" where
  "socket_get_peer_addr little pton4 pton6 sys s = do {
     peer_addr \<leftarrow> addr_init little pton4 pton6 (default_addr s) 0;
     let (ret, sa) = sys (sock_fd s) (addr_sock peer_addr);
     Some (ret, peer_addr\<lparr>addr_sock := sa\<rparr>)
   }"

definition socket_read_from ::
    "bool \<Rightarrow> (string \<Rightarrow> u32 option) \<Rightarrow> (string \<Rightarrow> 8 word list option) \<Rightarrow> (int \<Rightarrow> sockaddr \<Rightarrow> int \<times> sockaddr) \<Rightarrow>
     socket_t \<Rightarrow> (int \<times> addr_t) option" where
  "socket_read_from little pton4 pton6 sys s = do {
     guard (sock_type s \<noteq> SOCK_STREAM);
     source_addr \<leftarrow> addr_init little pton4 pton6 (default_addr s) 0;
     let (ret, sa) = sys (sock_fd s) (addr_sock source_addr);
     Some (ret, source_addr\<lparr>addr_sock := sa\<rparr>)
   }"

text \<open>\<open>sent\<close> is the result of \<open>sendto\<close>.\<close>

definition socket_write_to :: "int \<Rightarrow> socket_t \<Rightarrow> int option" where
  "socket_write_to sent s = do { guard (sock_type s \<noteq> SOCK_STREAM); Some sent }"

end
