(* ===== verification/Log_Topn.thy ===== *)
theory Log_Topn
  imports View_Tree C_Stdio Zip_Calls
begin

text \<open>
  The house keeper of \<^verbatim>\<open>log_topn.c\<close>: it splits the lines of the query log, counts every query in its
  view and in the view of all clients, enforces the memory limit, and answers the requests of the
  clients. The calls that need memory or the system get what these give them as an argument (\<open>env\<close>). The
  lock and the identifiers of the threads are left out: every operation below runs under the lock. A
  request is what was unpacked and a reply what will be packed.
\<close>

section \<open>State\<close>

record house_keeper =
  hk_qps :: rat
  hk_success_rate :: rat
  hk_count :: u64
  hk_views :: view_tree
  hk_socket :: socket_t
  hk_mem_uplimit :: u64

record env =
  env_falls_off :: "view_stats \<Rightarrow> view_stats option option"
  env_malloc :: bool
  env_names :: tree_mems
  env_ips :: tree_mems
  env_copy :: "(nat \<Rightarrow> addr) option"
  env_tree_struct :: nat
  env_pool_struct :: nat
  env_tree :: "vn_store rbtree"
  env_lru :: lru_heap
  env_garbage :: int
  env_socket :: int
  env_bound :: int
  env_threads :: bool

text \<open>
  The fields \<open>qps\<close>, \<open>success_rate\<close> and \<open>count\<close> of the house keeper are set here and never used. \<open>env_socket\<close> and
  \<open>env_bound\<close> are the results of \<open>socket\<close> and of \<open>bind\<close> on port 8999 of the host, \<open>env_threads\<close> tells whether
  the two threads were created. The comparison of the views that \<^verbatim>\<open>log_topn.c\<close> defines is the one of
  the tree of views.
\<close>

definition house_keeper_create :: "env \<Rightarrow> addr \<Rightarrow> addr \<Rightarrow> house_keeper option" where
  "house_keeper_create e brk0 limit0 = do {
     guard (env_malloc e);
     views \<leftarrow> view_tree_create True view_compare (env_tree e) (env_garbage e) (fresh_memory (env_tree e) (env_lru e) brk0 limit0);
     s \<leftarrow> socket_open (env_socket e) AF_INET SOCK_STREAM;
     guard (env_bound e = 0);
     guard (env_threads e);
     Some \<lparr>hk_qps = 0, hk_success_rate = 1, hk_count = 0, hk_views = views, hk_socket = s, hk_mem_uplimit = 10 * 1024 * 1024\<rparr>
   }"

definition house_keeper_clear_stats :: "env \<Rightarrow> house_keeper \<Rightarrow> house_keeper option" where
  "house_keeper_clear_stats e keeper = do {
     old \<leftarrow> view_tree_destory (hk_views keeper);
     views \<leftarrow> view_tree_create (env_malloc e) view_compare (env_tree e) (env_garbage e) old;
     Some (keeper\<lparr>hk_views := views\<rparr>)
   }"

text \<open>\<open>house_keeper_destroy\<close> also ends the threads and closes the socket.\<close>

definition house_keeper_destroy :: "house_keeper \<Rightarrow> unit option" where
  "house_keeper_destroy keeper = do {
     _ \<leftarrow> view_tree_destory (hk_views keeper);
     Some ()
   }"

section \<open>Counting a query\<close>

text \<open>The allocation of the statistics of a new view.\<close>

definition new_stats :: "env \<Rightarrow> view_tree \<Rightarrow> string \<Rightarrow> (view_tree \<times> addr) option" where
  "new_stats e t view = do {
     let (p, t1) = view_malloc t;
     vs \<leftarrow> view_stats_create (env_falls_off e) (p \<noteq> NULL) (env_names e) (env_ips e) view;
     case vs of None \<Rightarrow> Some (t1, NULL) | Some s \<Rightarrow> Some (set_stats p s t1, p)
   }"

definition add_init_view :: "env \<Rightarrow> house_keeper \<Rightarrow> string \<Rightarrow> house_keeper option" where
  "add_init_view e keeper name = do {
     (t1, vs) \<leftarrow> new_stats e (hk_views keeper) name;
     guard (vs \<noteq> NULL);
     (t2, ret) \<leftarrow> view_tree_insert t1 name vs;
     guard (ret = 0);
     Some (keeper\<lparr>hk_views := t2\<rparr>)
   }"

text \<open>The last four calls of \<open>log_handle\<close>.\<close>

definition count_query :: "view_stats \<Rightarrow> string \<Rightarrow> string \<Rightarrow> string \<Rightarrow> string \<Rightarrow> view_stats option" where
  "count_query vs domain ip rtype rcode = do {
     vs1 \<leftarrow> view_stats_insert_name vs domain;
     vs2 \<leftarrow> view_stats_insert_ip vs1 ip;
     ti \<leftarrow> rtype_index rtype;
     vs3 \<leftarrow> view_stats_rtype_increment vs2 (int ti);
     ci \<leftarrow> rcode_index rcode;
     view_stats_rcode_increment vs3 (int ci)
   }"

text \<open>
  The view of a query, found or made, moved to the front of the list. The address is \<open>None\<close> when its
  statistics could not be created.
\<close>

definition view_for :: "env \<Rightarrow> view_tree \<Rightarrow> string \<Rightarrow> (view_tree \<times> addr option) option" where
  "view_for e t view = do {
     vtnode \<leftarrow> view_tree_find t view;
     if vtnode = NULL then do {
       (t1, vs) \<leftarrow> new_stats e t view;
       if vs = NULL then Some (t1, None)
       else do { (t2, _) \<leftarrow> view_tree_insert t1 view vs; Some (t2, Some vs) }
     }
     else do {
       n \<leftarrow> view_node_at t vtnode;
       (mem, lru) \<leftarrow> lru_list_move_to_first (vt_lru_mem t) (vt_lru t) (vn_ptr n);
       Some (t\<lparr>vt_lru_mem := mem, vt_lru := lru\<rparr>, Some (vn_vs n))
     }
   }"

text \<open>\<open>log_handle\<close>. A query whose view could not be created is dropped.\<close>

definition log_handle :: "env \<Rightarrow> house_keeper \<Rightarrow> string \<Rightarrow> string \<Rightarrow> string \<Rightarrow> string \<Rightarrow> string \<Rightarrow> house_keeper option" where
  "log_handle e keeper view domain ip rtype rcode = do {
     (t1, found) \<leftarrow> view_for e (hk_views keeper) view;
     case found of None \<Rightarrow> Some (keeper\<lparr>hk_views := t1\<rparr>)
     | Some vs \<Rightarrow> do {
         current_mem_size \<leftarrow> view_tree_get_size (env_tree_struct e) (env_pool_struct e) t1;
         t2 \<leftarrow> (if hk_mem_uplimit keeper < current_mem_size
                then view_tree_set_memsize (env_tree_struct e) (env_pool_struct e) (hk_mem_uplimit keeper) t1
                else Some t1);
         s \<leftarrow> stats_at t2 vs;
         s' \<leftarrow> count_query s domain ip rtype rcode;
         Some (keeper\<lparr>hk_views := set_stats vs s' t2\<rparr>)
       }
   }"

section \<open>A line of the log\<close>

definition RECORD_LEN :: nat where
  "RECORD_LEN = 1024"

definition SP_NUM :: nat where
  "SP_NUM = 20"

definition CIP_P :: nat where
  "CIP_P = 3"

definition VIEW_P :: nat where
  "VIEW_P = 6"

definition DOMAIN_P :: nat where
  "DOMAIN_P = 7"

definition RTYPE_P :: nat where
  "RTYPE_P = 9"

definition RCODE_P :: nat where
  "RCODE_P = 10"

definition ZONE_P :: nat where
  "ZONE_P = 17"

text \<open>The array \<open>ptr\<close> after the loop: \<open>None\<close> for \<open>NULL\<close>.\<close>

definition log_fields :: "string \<Rightarrow> nat \<Rightarrow> string option" where
  "log_fields line i = (if i < length (take SP_NUM (strtok CHR '' '' line)) then Some (strtok CHR '' '' line ! i) else None)"

definition handle_string_log :: "env \<Rightarrow> env \<Rightarrow> house_keeper \<Rightarrow> string \<Rightarrow> house_keeper option" where
  "handle_string_log e1 e2 keeper line = do {
     query_log \<leftarrow> strcpy_buf RECORD_LEN line;
     let ptr = log_fields query_log;
     case (ptr VIEW_P, ptr CIP_P, ptr RCODE_P, ptr RTYPE_P) of
       (Some view, Some cip, Some rcode, Some rtype) \<Rightarrow>
         if last view \<noteq> CHR '':'' then Some keeper
         else do {
           zone \<leftarrow> ptr ZONE_P;
           domain \<leftarrow> ptr DOMAIN_P;
           keyword \<leftarrow> strcpy_buf 256 (butlast view @ ''$'' @ butlast zone);
           total_keyword \<leftarrow> strcpy_buf 256 (''*$'' @ butlast zone);
           keeper1 \<leftarrow> log_handle e1 keeper keyword domain cip rtype rcode;
           log_handle e2 keeper1 total_keyword domain cip rtype rcode
         }
     | _ \<Rightarrow> Some keeper
   }"

section \<open>The statistics thread\<close>

definition absolute_diff :: "u32 \<Rightarrow> u32 \<Rightarrow> u32" where
  "absolute_diff first second = (if second \<ge> first then second - first else - 1 - first + second)"

text \<open>
  One round of \<open>qps_thread\<close>. \<open>fl\<close> is the rounding of the machine's floating point result to a
  \<open>float\<close>.
\<close>

definition qps_body :: "(rat \<Rightarrow> rat) \<Rightarrow> vn_store rbtree \<Rightarrow> addr \<Rightarrow> view_tree \<Rightarrow> view_tree option" where
  "qps_body fl h node t = do {
     tnode \<leftarrow> view_node_at t (node_val h node);
     if length (vn_name tnode) = 0 then Some t
     else do {
       vs \<leftarrow> stats_at t (vn_vs tnode);
       let vs1 = vs\<lparr>vs_qps := fl (of_nat (unat (absolute_diff (vs_last_count vs) (vs_count vs))) / 10),
                    vs_last_count := vs_count vs\<rparr>;
       c \<leftarrow> (if 2 < length (vs_rcode vs1) then Some (vs_rcode vs1 ! 2) else None);
       let vs2 = vs1\<lparr>vs_success_rate := (if vs_count vs1 = 0 then 1
                       else fl (of_nat (unat (absolute_diff c (vs_count vs1))) / of_nat (unat (vs_count vs1))))\<rparr>;
       Some (set_stats (vn_vs tnode) vs2 t)
     }
   }"

definition qps_round :: "(rat \<Rightarrow> rat) \<Rightarrow> house_keeper \<Rightarrow> house_keeper option" where
  "qps_round fl keeper = do {
     t \<leftarrow> rbtree_for (vt_tree (hk_views keeper)) (qps_body fl (vt_tree (hk_views keeper))) (hk_views keeper);
     Some (keeper\<lparr>hk_views := t\<rparr>)
   }"

section \<open>Requests\<close>

text \<open>The names go into an array of \<open>count\<close> pointers: one more writes past it.\<close>

definition views_body :: "view_tree \<Rightarrow> addr \<Rightarrow> string list \<Rightarrow> string list option" where
  "views_body t node pdata = do {
     tnode \<leftarrow> view_node_at t (node_val (vt_tree t) node);
     if length (vn_name tnode) = 0 then Some pdata
     else do {
       _ \<leftarrow> guard (int (length pdata) < vt_count t);
       Some (pdata @ [vn_name tnode])
     }
   }"

definition return_all_views :: "(stats_reply \<Rightarrow> 'b) \<Rightarrow> house_keeper \<Rightarrow> 'b option" where
  "return_all_views pack keeper = do {
     pdata \<leftarrow> rbtree_for (vt_tree (hk_views keeper)) (views_body (hk_views keeper)) [];
     Some (pack ((STATS_REPLY__INIT ''views'')\<lparr>r_name := map Some pdata\<rparr>))
   }"

definition view_not_found :: "(stats_reply \<Rightarrow> 'b) \<Rightarrow> 'b" where
  "view_not_found pack = pack ((STATS_REPLY__INIT ''error'')\<lparr>r_maybe := Some ''view not find''\<rparr>)"

definition flush_stats :: "(stats_reply \<Rightarrow> 'b) \<Rightarrow> env \<Rightarrow> house_keeper \<Rightarrow> (house_keeper \<times> 'b) option" where
  "flush_stats pack e keeper = do {
     keeper1 \<leftarrow> house_keeper_clear_stats e keeper;
     Some (keeper1, pack ((STATS_REPLY__INIT ''flush'')\<lparr>r_maybe := Some ''success''\<rparr>))
   }"

text \<open>
  A request of a client, from the unpacked message to the reply. \<open>unpack\<close> gives \<open>NULL\<close>, here
  \<open>None\<close>, for a malformed message, and the code reads through it. The reply is \<open>None\<close> where the
  code sends a message of length 0.
\<close>

record stats_request =
  q_key :: string
  q_view :: string
  q_topn :: int

definition handle_request ::
    "(stats_reply \<Rightarrow> 'b) \<Rightarrow> (rat \<Rightarrow> string) \<Rightarrow> env \<Rightarrow> house_keeper \<Rightarrow> stats_request option \<Rightarrow> (house_keeper \<times> 'b option) option" where
  "handle_request pack show_f e keeper req = do {
     request \<leftarrow> req;
     let topn = (if q_topn request = 0 then 1000 else q_topn request);
     let key = q_key request;
     p \<leftarrow> view_tree_find (hk_views keeper) (q_view request);
     if p = NULL then
       (if strcmp key ''views'' = 0 then do { r \<leftarrow> return_all_views pack keeper; Some (keeper, Some r) }
        else if strcmp key ''flush'' = 0 then do { (k, r) \<leftarrow> flush_stats pack e keeper; Some (k, Some r) }
        else Some (keeper, Some (view_not_found pack)))
     else do {
       vtnode \<leftarrow> view_node_at (hk_views keeper) p;
       vs \<leftarrow> stats_at (hk_views keeper) (vn_vs vtnode);
       if strcmp key ''domaintopn'' = 0 then do { r \<leftarrow> view_stats_name_topn pack (env_copy e) vs topn; Some (keeper, r) }
       else if strcmp key ''iptopn'' = 0 then do { r \<leftarrow> view_stats_ip_topn pack (env_copy e) vs topn; Some (keeper, r) }
       else if strcmp key ''rcode'' = 0 then Some (keeper, Some (view_stats_get_rcode pack vs))
       else if strcmp key ''rtype'' = 0 then Some (keeper, Some (view_stats_get_rtype pack vs))
       else if strcmp key ''qps'' = 0 then do { r \<leftarrow> view_stats_get_qps show_f pack vs; Some (keeper, Some r) }
       else if strcmp key ''success_rate'' = 0 then do { r \<leftarrow> view_stats_get_success_rate show_f pack vs; Some (keeper, Some r) }
       else if strcmp key ''flush'' = 0 then do { (k, r) \<leftarrow> flush_stats pack e keeper; Some (k, Some r) }
       else Some (keeper, None)
     }
   }"

end
