(* ===== verification/Stats_Spec.thy ===== *)
theory Stats_Spec
  imports View_Props Log_Topn
begin

text \<open>
  The statistics of a view read as lists of counted names in the order of use and arrays of
  counters: what creation, counting, eviction and destruction do to them. The relation carries the
  memory of the pools, so that the operations run without a failure as long as a tree has fewer
  names than its pools have elements.
\<close>

section \<open>Counted names in the order of use\<close>

type_synonym counts = "(string \<times> nat) list"

definition bump :: "string \<Rightarrow> counts \<Rightarrow> counts" where
  "bump k N = (k, Suc (case map_of N k of None \<Rightarrow> 0 | Some n \<Rightarrow> n)) # [x \<leftarrow> N. fst x \<noteq> k]"

lemma map_of_others: "map_of [x \<leftarrow> N. fst x \<noteq> k] = (map_of N)(k := None)"
  by (induction N) (auto simp: fun_eq_iff)

lemma bump_model: "map_of (bump k N) = seen k (map_of N)" "map fst (bump k N) = used k (map fst N)"
proof -
  show "map_of (bump k N) = seen k (map_of N)"
    by (auto simp: bump_def seen_def map_of_others fun_eq_iff split: option.splits)
  have "map fst [x \<leftarrow> N. fst x \<noteq> k] = removeAll k (map fst N)" by (induction N) auto
  then show "map fst (bump k N) = used k (map fst N)" by (simp add: bump_def used_def)
qed

text \<open>
  A tree that holds the counts \<open>N\<close>. With \<open>full\<close> its heap holds exactly the records of these names.
\<close>

definition tree_rel :: "bool \<Rightarrow> name_tree \<Rightarrow> counts \<Rightarrow> bool" where
  "tree_rel full t N \<longleftrightarrow>
     (\<exists>V U. name_state t V U \<and> map_of N = name_counts (nt_nvs t) V \<and> map fst N = recent_names (nt_nvs t) U \<and>
       (full \<longrightarrow> heap_complete (nt_nvs t) (nt_heap t) V)) \<and>
     stored_names (fst ` set N) \<and> pools_hold t 1024"

lemma tree_rel_model: "tree_rel full t N \<Longrightarrow> name_model t (map_of N) (map fst N)"
  by (auto simp: tree_rel_def name_model_def)

lemma tree_rel_distinct: "tree_rel full t N \<Longrightarrow> distinct (map fst N)"
  using name_model_sets [OF tree_rel_model] by blast

lemma tree_rel_weak: "tree_rel full t N \<Longrightarrow> tree_rel False t N"
  by (auto simp: tree_rel_def)

lemma tree_rel_insert:
  assumes r: "tree_rel full t N" and fits: "name_fits name" and room: "0 < lru_room (nt_lru_mem t)"
    and n: "length N < 1024" and small: "\<And>n. map_of N (qualify name) = Some n \<Longrightarrow> n < 2 ^ 31 - 1"
    and full: "full \<longrightarrow> length (bump (qualify name) N) \<le> ROOF"
  obtains t' where "name_tree_insert t (Some name) = Some (t', 0)" "tree_rel full t' (bump (qualify name) N)"
    "lru_room (nt_lru_mem t) \<le> lru_room (nt_lru_mem t') + 1"
proof -
  obtain V U where st: "name_state t V U" and C: "map_of N = name_counts (nt_nvs t) V"
    and R: "map fst N = recent_names (nt_nvs t) U" and h: "full \<longrightarrow> heap_complete (nt_nvs t) (nt_heap t) V"
    and sn: "stored_names (fst ` set N)" and hold: "pools_hold t 1024"
    using r by (auto simp: tree_rel_def)
  have lN: "length V = length N"
    using name_stateD(4) [OF st] R by (metis length_map recent_names_def size_mset)
  note pools = pools_hold_take [OF st hold, unfolded lN, OF n]
  have small': "m < 2 ^ 31 - 1" if "name_counts (nt_nvs t) V (qualify name) = Some m" for m
    using small that C by simp
  show thesis
  proof (cases rule: insert_state [OF st fits pools(2,3) room small', consumes 0, case_names small full counted])
    case (full t')
    then show ?thesis using pools(1) by simp
  next
    case (counted t' V' U')
    let ?N = "bump (qualify name) N"
    have m: "map_of ?N = name_counts (nt_nvs t') V'" "map fst ?N = recent_names (nt_nvs t') U'"
      using counted(3,4) C R by (simp_all add: bump_model)
    have "length V' = length ?N"
      using name_stateD(4) [OF counted(2)] m(2) by (metis length_map recent_names_def size_mset)
    then have "full \<longrightarrow> heap_complete (nt_nvs t') (nt_heap t') V'" using counted(5) h full by simp
    moreover have "stored_names (fst ` set ?N)"
      using sn fits qualify_again [of name] by (auto simp: stored_names_def bump_def name_fits_def)
    moreover have "pools_hold t' 1024" using counted(6) pools(4) hold by (auto simp: pools_hold_def)
    ultimately have "tree_rel full t' ?N" using counted(2) m unfolding tree_rel_def by blast
    then show ?thesis using that counted(1,7) by force
  qed
qed

section \<open>One view\<close>

record view_abs =
  va_names :: counts
  va_ips :: counts
  va_rcode :: "u32 list"
  va_rtype :: "u32 list"

definition new_view :: view_abs where
  "new_view = \<lparr>va_names = [], va_ips = [], va_rcode = replicate RCODE_MAX_NUM 0, va_rtype = replicate RTYPE_MAX_NUM 0\<rparr>"

definition stats_rel :: "bool \<Rightarrow> view_stats \<Rightarrow> view_abs \<Rightarrow> bool" where
  "stats_rel full vs a \<longleftrightarrow> tree_rel full (vs_name_tree vs) (va_names a) \<and> tree_rel full (vs_ip_tree vs) (va_ips a) \<and>
     vs_rcode vs = va_rcode a \<and> length (va_rcode a) = RCODE_MAX_NUM \<and>
     vs_rtype vs = va_rtype a \<and> length (va_rtype a) = RTYPE_MAX_NUM \<and> vs_count vs = 0 \<and> vs_last_count vs = 0 \<and>
     vs_qps vs = 0 \<and> vs_success_rate vs = 1"

definition stats_room :: "view_stats \<Rightarrow> nat" where
  "stats_room vs = min (lru_room (nt_lru_mem (vs_name_tree vs))) (lru_room (nt_lru_mem (vs_ip_tree vs)))"

lemma stats_rel_weak: "stats_rel full vs a \<Longrightarrow> stats_rel False vs a"
  by (auto simp: stats_rel_def dest: tree_rel_weak)

subsection \<open>Creation and destruction\<close>

text \<open>What the C library must give for a tree: memory for its parts and for \<open>n\<close> list nodes.\<close>

definition mems_ok :: "nat \<Rightarrow> tree_mems \<Rightarrow> bool" where
  "mems_ok n tm \<longleftrightarrow> tm_calloc tm \<and> tm_heap tm \<noteq> None \<and> pool_space (tm_nodes tm) sizeof_rbnode \<and>
     pool_space (tm_names tm) sizeof_node_value \<and> lru_heap_ok (tm_lru tm) \<and> n \<le> lru_room (tm_lru tm)"

lemma create_tree_rel:
  assumes "mems_ok n tm"
  obtains t where "create_tree tm = Some (Some t)" "tree_rel full t []" "n \<le> lru_room (nt_lru_mem t)"
proof -
  obtain junk where j: "tm_calloc tm = True" "tm_heap tm = Some junk" using assms by (auto simp: mems_ok_def)
  have s: "pool_space (tm_nodes tm) sizeof_rbnode" "pool_space (tm_names tm) sizeof_node_value" "lru_heap_ok (tm_lru tm)"
    using assms by (auto simp: mems_ok_def)
  obtain t where t: "create_tree tm = Some (Some t)" "name_state t [] []" "heap_complete (nt_nvs t) (nt_heap t) []"
    "pools_hold t 1024" "nt_lru_mem t = tm_lru tm"
    by (rule created_state [OF s, of junk "tm_tree tm" "tm_nvs tm"]) (simp add: create_tree_def j)
  have "tree_rel full t []"
    unfolding tree_rel_def using t
    by (auto simp: name_counts_def recent_names_def stored_names_def intro!: exI [of _ "[]"])
  then show thesis using that [OF t(1)] t(5) assms by (simp add: mems_ok_def)
qed

lemma create_stats_rel:
  assumes "mems_ok n names" "mems_ok n ips" "length view < MAX_VIEW_LENGTH"
  obtains vs :: view_stats where "\<And>f. view_stats_create f True names ips view = f vs" "stats_rel full vs new_view" "n \<le> stats_room vs"
proof -
  obtain t where t: "create_tree names = Some (Some t)" "tree_rel full t []" "n \<le> lru_room (nt_lru_mem t)"
    by (rule create_tree_rel [OF assms(1)])
  obtain u where u: "create_tree ips = Some (Some u)" "tree_rel full u []" "n \<le> lru_room (nt_lru_mem u)"
    by (rule create_tree_rel [OF assms(2)])
  let ?vs = "\<lparr>vs_name = view, vs_name_tree = t, vs_ip_tree = u, vs_qps = 0, vs_success_rate = 1, vs_count = 0,
    vs_last_count = 0, vs_rcode = replicate RCODE_MAX_NUM 0, vs_rtype = replicate RTYPE_MAX_NUM 0\<rparr>"
  have c: "strcpy_buf MAX_VIEW_LENGTH view = Some view" using assms(3) by simp
  have "view_stats_create f True names ips view = f ?vs" for f
    using assms(3) by (simp add: view_stats_create_def t(1) u(1) c)
  then show thesis using that [of ?vs] t u by (simp add: stats_rel_def stats_room_def new_view_def)
qed

lemma destroy_rel: "tree_rel full t N \<Longrightarrow> name_tree_destroy t \<noteq> None"
proof -
  assume "tree_rel full t N"
  then obtain V U where st: "name_state t V U" by (auto simp: tree_rel_def)
  note S = name_stateD [OF st]
  have del: "mem_pool_delete (snd s) (fst s) \<noteq> None" if "pool_rep s E" for s E
    using that pool_delete_ok by (fastforce simp: pool_rep_def split: prod.splits)
  obtain xs where "pool_rep (nt_nodes t) (set xs)" using S(1) by (auto simp: tree_rep_def)
  then obtain m1 m2 where "mem_pool_delete (snd (nt_nodes t)) (fst (nt_nodes t)) = Some m1"
    "mem_pool_delete (snd (nt_names t)) (fst (nt_names t)) = Some m2" using del S(2) by blast
  moreover obtain m3 where "lru_list_destroy (nt_lru_mem t) (nt_lru t) = Some m3"
    using S(3) lru_destroy_rep by (fastforce simp: lru_rep_def lru_list_destroy_def)
  ultimately show ?thesis by (simp add: name_tree_destroy_def)
qed

lemma destroy_stats_rel: "stats_rel full vs a \<Longrightarrow> view_stats_destory vs = Some ()"
  using destroy_rel [of full "vs_name_tree vs" "va_names a"] destroy_rel [of full "vs_ip_tree vs" "va_ips a"]
  by (auto simp: stats_rel_def view_stats_destory_def split: Option.bind_splits)

subsection \<open>Counting\<close>

definition count_view :: "string \<Rightarrow> string \<Rightarrow> nat \<Rightarrow> nat \<Rightarrow> view_abs \<Rightarrow> view_abs" where
  "count_view domain ip ti ci a = a\<lparr>va_names := bump (qualify domain) (va_names a), va_ips := bump (qualify ip) (va_ips a),
     va_rtype := (va_rtype a)[ti := va_rtype a ! ti + 1], va_rcode := (va_rcode a)[ci := va_rcode a ! ci + 1]\<rparr>"

text \<open>A view has room for one more name, and its counters can count one more.\<close>

definition counts_fit :: "counts \<Rightarrow> bool" where
  "counts_fit N \<longleftrightarrow> length N < 1024 \<and> (\<forall>(k, n) \<in> set N. n < 2 ^ 31 - 1)"

lemma index_bound: "index_from s xs i d = Some j \<Longrightarrow> j = d \<or> i \<le> j \<and> j < i + length xs"
  by (induction xs arbitrary: i) (fastforce elim!: bind_eq_SomeE split: if_splits)+

lemma rtype_index_bound: "rtype_index q = Some i \<Longrightarrow> i < RTYPE_MAX_NUM"
  using index_bound [of q RTYPE 0 "RTYPE_MAX_NUM - 1" i] by (auto simp: rtype_index_def RTYPE_def RTYPE_MAX_NUM_def)

lemma rcode_index_bound: "rcode_index q = Some i \<Longrightarrow> i < RCODE_MAX_NUM"
  using index_bound [of q RCODE 0 "RCODE_MAX_NUM - 1" i] by (auto simp: rcode_index_def RCODE_def RCODE_MAX_NUM_def)

lemma rcode_index_total: "rcode_index q \<noteq> None"
proof -
  have "index_from s (map Some xs) i d \<noteq> None" for s xs i d by (induction xs arbitrary: i) auto
  then show ?thesis by (simp add: rcode_index_def RCODE_def del: list.map)
qed

lemma count_query_rel:
  assumes r: "stats_rel full vs a" and fits: "name_fits domain" "name_fits ip" and room: "0 < stats_room vs"
    and c: "counts_fit (va_names a)" "counts_fit (va_ips a)"
    and full: "full \<longrightarrow> length (bump (qualify domain) (va_names a)) \<le> ROOF \<and> length (bump (qualify ip) (va_ips a)) \<le> ROOF"
    and idx: "rtype_index rtype = Some ti" "rcode_index rcode = Some ci"
  obtains vs' where "count_query vs domain ip rtype rcode = Some vs'" "stats_rel full vs' (count_view domain ip ti ci a)"
    "stats_room vs \<le> stats_room vs' + 1"
proof -
  note R = r [unfolded stats_rel_def]
  have rm: "0 < lru_room (nt_lru_mem (vs_name_tree vs))" "0 < lru_room (nt_lru_mem (vs_ip_tree vs))"
    using room by (auto simp: stats_room_def)
  have small: "n < 2 ^ 31 - 1" if "map_of N k = Some n" "counts_fit N" for N k n
    using map_of_SomeD [OF that(1)] that(2) by (auto simp: counts_fit_def)
  have len: "length N < 1024" if "counts_fit N" for N using that by (simp add: counts_fit_def)
  obtain t where t: "name_tree_insert (vs_name_tree vs) (Some domain) = Some (t, 0)"
    "tree_rel full t (bump (qualify domain) (va_names a))" "lru_room (nt_lru_mem (vs_name_tree vs)) \<le> lru_room (nt_lru_mem t) + 1"
    by (rule tree_rel_insert [of full "vs_name_tree vs" "va_names a" domain]) (use R fits(1) rm(1) len [OF c(1)] small [OF _ c(1)] full in auto)
  obtain u where u: "name_tree_insert (vs_ip_tree vs) (Some ip) = Some (u, 0)"
    "tree_rel full u (bump (qualify ip) (va_ips a))" "lru_room (nt_lru_mem (vs_ip_tree vs)) \<le> lru_room (nt_lru_mem u) + 1"
    by (rule tree_rel_insert [of full "vs_ip_tree vs" "va_ips a" ip]) (use R fits(2) rm(2) len [OF c(2)] small [OF _ c(2)] full in auto)
  define vs' where "vs' = vs\<lparr>vs_name_tree := t, vs_ip_tree := u, vs_rtype := (va_rtype a)[ti := va_rtype a ! ti + 1],
    vs_rcode := (va_rcode a)[ci := va_rcode a ! ci + 1]\<rparr>"
  have b: "ti < RTYPE_MAX_NUM" "ci < RCODE_MAX_NUM" using rtype_index_bound idx(1) rcode_index_bound idx(2) by blast+
  have "count_query vs domain ip rtype rcode = Some vs'"
    using R b t(1) u(1) idx
    by (simp add: count_query_def view_stats_insert_name_def view_stats_insert_ip_def view_stats_rtype_increment_def
        view_stats_rcode_increment_def incr_def vs'_def)
  moreover have "stats_rel full vs' (count_view domain ip ti ci a)"
    using R t(2) u(2) by (simp add: stats_rel_def vs'_def count_view_def)
  ultimately show thesis using that t(3) u(3) by (auto simp: stats_room_def vs'_def)
qed

subsection \<open>The memory limit\<close>

text \<open>Eviction keeps the elements of the pools and the memory of the list.\<close>

definition same_room :: "name_tree \<Rightarrow> name_tree \<Rightarrow> bool" where
  "same_room t t' \<longleftrightarrow> elem_count (snd (nt_names t')) = elem_count (snd (nt_names t)) \<and>
     elem_count (snd (nt_nodes t')) = elem_count (snd (nt_nodes t)) \<and> lru_room (nt_lru_mem t') = lru_room (nt_lru_mem t)"

lemma same_room_trans: "same_room t u \<Longrightarrow> same_room u v \<Longrightarrow> same_room t v"
  by (simp add: same_room_def)

lemma remove_tail_room: "lru_list_remove_tail m l = Some (m', l', d) \<Longrightarrow> lru_room m' = lru_room m"
  by (auto simp: lru_list_remove_tail_def lru_room_def lru_model_defs Let_def elim!: bind_eq_SomeE split: if_splits)

lemma pool_give_count: "pool_give p s = Some s' \<Longrightarrow> elem_count (snd s') = elem_count (snd s)"
  by (cases s) (auto simp: pool_give_def mem_pool_free_def elim!: bind_eq_SomeE)

lemma delete_same_room: "name_tree_delete t arg None = Some (t', r) \<Longrightarrow> same_room t t'"
  by (auto simp: name_tree_delete_def same_room_def Let_def elim!: bind_eq_SomeE
      split: option.splits if_splits dest!: pool_give_count)

lemma evict_same_room: "evict_name t = Some (t', b) \<Longrightarrow> same_room t t'"
  unfolding evict_name_def
  by (auto simp: Let_def elim!: bind_eq_SomeE split: if_splits dest!: remove_tail_room delete_same_room)
    (auto simp: same_room_def)

lemma evict_names_room:
  "evict_names_loop get_size bound vs = Some vs' \<Longrightarrow> \<exists>t. vs' = vs\<lparr>vs_name_tree := t\<rparr> \<and> same_room (vs_name_tree vs) t"
proof (rule evict_names_loop.raw_induct [of "\<lambda>_ _ vs vs'. \<exists>t. vs' = vs\<lparr>vs_name_tree := t\<rparr> \<and> same_room (vs_name_tree vs) t"])
  fix f get_size bound vs vs'
  assume IH: "\<And>g b v v'. f g b v = Some v' \<Longrightarrow> \<exists>t. v' = v\<lparr>vs_name_tree := t\<rparr> \<and> same_room (vs_name_tree v) t"
    and run: "(if bound < get_size vs
      then Option.bind (evict_name (vs_name_tree vs)) (\<lambda>(t, again).
        if again then f get_size bound (vs\<lparr>vs_name_tree := t\<rparr>) else Some (vs\<lparr>vs_name_tree := t\<rparr>))
      else Some vs) = Some vs'"
  show "\<exists>t. vs' = vs\<lparr>vs_name_tree := t\<rparr> \<and> same_room (vs_name_tree vs) t"
  proof (cases "bound < get_size vs")
    case True
    then obtain t again where t: "evict_name (vs_name_tree vs) = Some (t, again)"
      "(if again then f get_size bound (vs\<lparr>vs_name_tree := t\<rparr>) else Some (vs\<lparr>vs_name_tree := t\<rparr>)) = Some vs'"
      using run by (auto elim!: bind_eq_SomeE)
    then obtain u where "vs' = vs\<lparr>vs_name_tree := u\<rparr>" "same_room t u"
      using IH [of get_size bound "vs\<lparr>vs_name_tree := t\<rparr>" vs'] by (cases again) (auto simp: same_room_def)
    then show ?thesis using evict_same_room [OF t(1)] same_room_trans by blast
  qed (use run in \<open>auto simp: same_room_def intro!: exI [of _ "vs_name_tree vs"]\<close>)
qed

lemma evict_ips_room:
  "evict_ips_loop get_size bound vs = Some vs' \<Longrightarrow> \<exists>t. vs' = vs\<lparr>vs_ip_tree := t\<rparr> \<and> same_room (vs_ip_tree vs) t"
proof (rule evict_ips_loop.raw_induct [of "\<lambda>_ _ vs vs'. \<exists>t. vs' = vs\<lparr>vs_ip_tree := t\<rparr> \<and> same_room (vs_ip_tree vs) t"])
  fix f get_size bound vs vs'
  assume IH: "\<And>g b v v'. f g b v = Some v' \<Longrightarrow> \<exists>t. v' = v\<lparr>vs_ip_tree := t\<rparr> \<and> same_room (vs_ip_tree v) t"
    and run: "(if bound < get_size vs
      then Option.bind (evict_name (vs_ip_tree vs)) (\<lambda>(t, again).
        if again then f get_size bound (vs\<lparr>vs_ip_tree := t\<rparr>) else Some (vs\<lparr>vs_ip_tree := t\<rparr>))
      else Some vs) = Some vs'"
  show "\<exists>t. vs' = vs\<lparr>vs_ip_tree := t\<rparr> \<and> same_room (vs_ip_tree vs) t"
  proof (cases "bound < get_size vs")
    case True
    then obtain t again where t: "evict_name (vs_ip_tree vs) = Some (t, again)"
      "(if again then f get_size bound (vs\<lparr>vs_ip_tree := t\<rparr>) else Some (vs\<lparr>vs_ip_tree := t\<rparr>)) = Some vs'"
      using run by (auto elim!: bind_eq_SomeE)
    then obtain u where "vs' = vs\<lparr>vs_ip_tree := u\<rparr>" "same_room t u"
      using IH [of get_size bound "vs\<lparr>vs_ip_tree := t\<rparr>" vs'] by (cases again) (auto simp: same_room_def)
    then show ?thesis using evict_same_room [OF t(1)] same_room_trans by blast
  qed (use run in \<open>auto simp: same_room_def intro!: exI [of _ "vs_ip_tree vs"]\<close>)
qed

text \<open>The limit on the lists of counts: the longest prefixes that fit.\<close>

definition limit_view :: "nat \<Rightarrow> nat \<Rightarrow> u64 \<Rightarrow> view_abs \<Rightarrow> view_abs" where
  "limit_view ts ps bound a =
     (let j = kept bound (\<lambda>n. stats_size ts ps n (length (va_ips a))) (length (va_names a));
          i = kept bound (stats_size ts ps j) (length (va_ips a))
      in a\<lparr>va_names := take j (va_names a), va_ips := take i (va_ips a)\<rparr>)"

lemma map_of_take:
  assumes "distinct (map fst N)"
  shows "map_of N |` set (take j (map fst N)) = map_of (take j N)"
proof
  fix k
  show "(map_of N |` set (take j (map fst N))) k = map_of (take j N) k"
  proof (cases "k \<in> set (take j (map fst N))")
    case True
    then obtain n where "(k, n) \<in> set (take j N)" by (auto simp: take_map)
    moreover have "distinct (map fst (take j N))" using assms by (simp add: take_map [symmetric])
    ultimately have "map_of (take j N) k = Some n" "map_of N k = Some n"
      using assms in_set_takeD by (metis map_of_is_SomeI)+
    then show ?thesis using True by simp
  next
    case False
    then have "map_of (take j N) k = None" by (simp add: map_of_eq_None_iff take_map)
    then show ?thesis using False by simp
  qed
qed

lemma tree_rel_limit:
  assumes "tree_rel full t N" "name_model u (map_of N |` set (take j (map fst N))) (take j (map fst N))" "same_room t u"
  shows "tree_rel False u (take j N)"
proof -
  have "name_model u (map_of (take j N)) (map fst (take j N))"
    using assms(2) map_of_take [OF tree_rel_distinct [OF assms(1)]] by (simp add: take_map)
  moreover have "stored_names (fst ` set (take j N))" "pools_hold u 1024"
    using assms(1,3) by (auto simp: tree_rel_def stored_names_def pools_hold_def same_room_def dest: in_set_takeD)
  ultimately show ?thesis by (auto simp: tree_rel_def name_model_def)
qed

lemma limit_view_rel:
  assumes r: "stats_rel full vs a"
  obtains vs' where "view_stats_set_memsize ts ps bound vs = Some vs'" "stats_rel False vs' (limit_view ts ps bound a)"
    "stats_room vs' = stats_room vs"
proof -
  note R = r [unfolded stats_rel_def]
  let ?N = "va_names a" and ?I = "va_ips a"
  define j where "j = kept bound (\<lambda>n. stats_size ts ps n (length ?I)) (length ?N)"
  define i where "i = kept bound (stats_size ts ps j) (length ?I)"
  have sn: "stored_names (dom (map_of ?N) \<union> dom (map_of ?I))"
  proof -
    have "stored_names (fst ` set ?N)" "stored_names (fst ` set ?I)" using R by (simp_all add: tree_rel_def)
    then show ?thesis unfolding dom_map_of_conv_image_fst stored_names_def by blast
  qed
  have nm: "name_model (vs_name_tree vs) (map_of ?N) (map fst ?N)" and im: "name_model (vs_ip_tree vs) (map_of ?I) (map fst ?I)"
    using R tree_rel_model by blast+
  obtain t u where m: "view_stats_set_memsize ts ps bound vs = Some (vs\<lparr>vs_name_tree := t, vs_ip_tree := u\<rparr>)"
    "name_model t (map_of ?N |` set (take j (map fst ?N))) (take j (map fst ?N))"
    "name_model u (map_of ?I |` set (take i (map fst ?I))) (take i (map fst ?I))"
    using memsize_model [OF nm im sn, of j bound ts ps i] by (auto simp: j_def i_def)
  obtain v where "evict_names_loop (view_stats_get_size ts ps) bound vs = Some v"
    "evict_ips_loop (view_stats_get_size ts ps) bound v = Some (vs\<lparr>vs_name_tree := t, vs_ip_tree := u\<rparr>)"
    using m(1) by (auto simp: view_stats_set_memsize_def elim!: bind_eq_SomeE)
  then obtain t0 u0 where e: "vs\<lparr>vs_name_tree := t, vs_ip_tree := u\<rparr> = vs\<lparr>vs_name_tree := t0, vs_ip_tree := u0\<rparr>"
    "same_room (vs_name_tree vs) t0" "same_room (vs_ip_tree vs) u0"
    using evict_names_room [of _ bound vs v] evict_ips_room [of _ bound v] by fastforce
  then have rooms: "same_room (vs_name_tree vs) t" "same_room (vs_ip_tree vs) u"
    using arg_cong [OF e(1), of vs_name_tree] arg_cong [OF e(1), of vs_ip_tree] by simp_all
  have "tree_rel False t (take j ?N)" "tree_rel False u (take i ?I)"
    using tree_rel_limit [OF _ m(2) rooms(1)] tree_rel_limit [OF _ m(3) rooms(2)] R by blast+
  then have "stats_rel False (vs\<lparr>vs_name_tree := t, vs_ip_tree := u\<rparr>) (limit_view ts ps bound a)"
    using R by (simp add: stats_rel_def limit_view_def j_def i_def Let_def)
  then show thesis using that [OF m(1)] rooms by (simp add: stats_room_def same_room_def)
qed

end
