(* ===== verification/Log_Spec.thy ===== *)
theory Log_Spec
  imports View_Spec Stats_Spec
begin

text \<open>
  The house keeper read as a list of views in the order of use, each with its lists of counts: what
  counting a query does to it, the memory limit included.
\<close>

section \<open>The abstract log\<close>

type_synonym log_abs = "(string \<times> view_abs) list"

definition touch_view :: "string \<Rightarrow> log_abs \<Rightarrow> log_abs" where
  "touch_view v A = (v, case map_of A v of None \<Rightarrow> new_view | Some a \<Rightarrow> a) # [x \<leftarrow> A. fst x \<noteq> v]"

definition log_size :: "nat \<Rightarrow> nat \<Rightarrow> log_abs \<Rightarrow> u64" where
  "log_size ts ps A =
     (\<Sum>(k, a) \<leftarrow> A. stats_size ts ps (length (va_names a)) (length (va_ips a)) + of_nat STATS_NODE_MAX_SIZE) +
     of_nat sizeof_view_tree + of_nat sizeof_lru_node * of_nat (length A)"

text \<open>The memory limit: views go from the end while there are two, and the last one is cut down.\<close>

function keep_views :: "nat \<Rightarrow> nat \<Rightarrow> u64 \<Rightarrow> log_abs \<Rightarrow> log_abs" where
  "keep_views ts ps bound A = (if bound < log_size ts ps A \<and> 1 < length A then keep_views ts ps bound (butlast A) else A)"
  by pat_completeness auto
termination by (relation "measure (\<lambda>(_, _, _, A). length A)") auto

declare keep_views.simps [simp del]

definition limit_views :: "nat \<Rightarrow> nat \<Rightarrow> u64 \<Rightarrow> log_abs \<Rightarrow> log_abs" where
  "limit_views ts ps bound A = (case keep_views ts ps bound A of
     [(k, a)] \<Rightarrow> [(k, limit_view ts ps bound a)]
   | B \<Rightarrow> B)"

record log_query =
  lq_view :: string
  lq_domain :: string
  lq_ip :: string
  lq_rtype :: string
  lq_rcode :: string

definition count_first :: "log_query \<Rightarrow> log_abs \<Rightarrow> log_abs" where
  "count_first q A = (case A of [] \<Rightarrow> []
   | (k, a) # B \<Rightarrow>
       (k, count_view (lq_domain q) (lq_ip q) (the (rtype_index (lq_rtype q))) (the (rcode_index (lq_rcode q))) a) # B)"

definition log_step :: "nat \<Rightarrow> nat \<Rightarrow> u64 \<Rightarrow> log_query \<Rightarrow> log_abs \<Rightarrow> log_abs" where
  "log_step ts ps bound q A =
     (let T = touch_view (lq_view q) A
      in count_first q (if bound < log_size ts ps T then limit_views ts ps bound T else T))"

section \<open>The relation\<close>

definition entry_rel :: "bool \<Rightarrow> nat \<Rightarrow> string \<times> view_stats \<Rightarrow> string \<times> view_abs \<Rightarrow> bool" where
  "entry_rel full n x y \<longleftrightarrow> fst x = fst y \<and> stats_rel full (snd x) (snd y) \<and> n \<le> stats_room (snd x)"

text \<open>
  A tree of views that stands for \<open>A\<close>, with memory for \<open>n\<close> more queries.
\<close>

definition tree_state :: "bool \<Rightarrow> nat \<Rightarrow> view_tree \<Rightarrow> addr list \<Rightarrow> (addr \<times> addr) list \<Rightarrow> log_abs \<Rightarrow> bool" where
  "tree_state full n t V U A \<longleftrightarrow> view_state t V U \<and> list_all2 (entry_rel full n) (views t U) A \<and>
     3 * n \<le> view_room t"

definition keeper_rel :: "bool \<Rightarrow> nat \<Rightarrow> house_keeper \<Rightarrow> log_abs \<Rightarrow> bool" where
  "keeper_rel full n keeper A \<longleftrightarrow> (\<exists>V U. tree_state full n (hk_views keeper) V U A)"

lemma keeper_relI: "tree_state full n (hk_views keeper) V U A \<Longrightarrow> keeper_rel full n keeper A"
  by (auto simp: keeper_rel_def)

lemma entry_rel_weak: "entry_rel full n x y \<Longrightarrow> m \<le> n \<Longrightarrow> entry_rel False m x y"
  by (auto simp: entry_rel_def dest: stats_rel_weak)

lemma entries_weak: "list_all2 (entry_rel full n) L A \<Longrightarrow> m \<le> n \<Longrightarrow> list_all2 (entry_rel False m) L A"
  by (erule list_all2_mono) (rule entry_rel_weak)

lemma entries_fewer: "list_all2 (entry_rel full n) L A \<Longrightarrow> m \<le> n \<Longrightarrow> list_all2 (entry_rel full m) L A"
  by (erule list_all2_mono) (auto simp: entry_rel_def)

lemma entries_names: "list_all2 (entry_rel full n) L A \<Longrightarrow> map fst L = map fst A"
  by (induction rule: list_all2_induct) (auto simp: entry_rel_def)

lemma tree_state_distinct: "tree_state full n t V U A \<Longrightarrow> distinct (map fst A)"
  using views_distinct entries_names by (metis tree_state_def)

lemma stats_rel_size: "stats_rel full vs a \<Longrightarrow> view_stats_get_size ts ps vs = stats_size ts ps (length (va_names a)) (length (va_ips a))"
  using stats_size_model [OF tree_rel_model tree_rel_model] by (fastforce simp: stats_rel_def)

lemma entries_size: "list_all2 (entry_rel full n) L A \<Longrightarrow> views_size ts ps L = log_size ts ps A"
proof -
  assume r: "list_all2 (entry_rel full n) L A"
  then have "(\<Sum>(k, vs) \<leftarrow> L. view_stats_get_size ts ps vs + of_nat STATS_NODE_MAX_SIZE) =
    (\<Sum>(k, a) \<leftarrow> A. stats_size ts ps (length (va_names a)) (length (va_ips a)) + of_nat STATS_NODE_MAX_SIZE :: u64)"
    by (induction rule: list_all2_induct) (auto simp: entry_rel_def stats_rel_size)
  then show ?thesis using list_all2_lengthD [OF r] by (simp add: views_size_def log_size_def)
qed

lemma tree_state_size:
  "tree_state full n t V U A \<Longrightarrow> view_tree_get_size ts ps t = Some (log_size ts ps A)"
  using view_size_state entries_size by (fastforce simp: tree_state_def)

section \<open>The view of a query\<close>

definition env_ok :: "nat \<Rightarrow> env \<Rightarrow> bool" where
  "env_ok n e \<longleftrightarrow> env_falls_off e = (\<lambda>vs. Some (Some vs)) \<and> mems_ok n (env_names e) \<and> mems_ok n (env_ips e)"

lemma new_stats_state:
  assumes st: "view_state t V U" and brk: "vt_brk t < vt_limit t"
    and c: "view_stats_create (env_falls_off e) True (env_names e) (env_ips e) view = Some (Some vs)"
  obtains t' where "new_stats e t view = Some (t', vt_brk t)" "view_core t' V U" "views t' U = views t U"
    "dom (vt_stats t') = insert (vt_brk t) (view_at t' ` set V)"
    "vt_brk t' = vt_brk t + 1" "vt_stats t' (vt_brk t) = Some vs" "vt_brk t \<notin> view_at t' ` set V"
    "view_name (vt_nodes t') = view_name (vt_nodes t)" "view_room t \<le> view_room t' + 1" "vt_limit t' = vt_limit t"
    "vt_lru_mem t' = vt_lru_mem t"
proof -
  note S = view_stateD [OF st]
  define t' where "t' = set_stats (vt_brk t) vs (t\<lparr>vt_brk := vt_brk t + 1\<rparr>)"
  have f: "vt_nodes t' = vt_nodes t" "vt_tree t' = vt_tree t" "vt_brk t' = vt_brk t + 1" "vt_lru_mem t' = vt_lru_mem t"
    "vt_lru t' = vt_lru t" "vt_count t' = vt_count t" "vt_limit t' = vt_limit t" "view_at t' = view_at t"
    "vt_tnodes t' = vt_tnodes t" "vt_stats t' q = (if q = vt_brk t then Some vs else vt_stats t q)" for q
    by (simp_all add: t'_def set_stats_def view_at_def fun_eq_iff)
  have b: "vt_brk t \<noteq> NULL" using S(5) by simp
  have new: "new_stats e t view = Some (t', vt_brk t)"
    using b brk c by (simp add: new_stats_def view_malloc_def t'_def)
  have low: "view_at t p < vt_brk t" if "p \<in> set V" for p using that S(3,7) by (force simp: entry_ok_def)
  have "entry_ok t' u p" if "(u, p) \<in> set U" for u p
    by (rule entry_ok_mono [OF S(7) [OF that]]) (simp_all add: f)
  then have "\<forall>(u, p) \<in> set U. entry_ok t' u p" by blast
  moreover have "\<forall>a \<in> vt_tnodes t'. a < vt_brk t'" using S(13) by (force simp: f)
  ultimately have st': "view_core t' V U" using view_state_core [OF st] by (simp add: view_core_def f)
  have "dom (vt_stats t') = insert (vt_brk t) (dom (vt_stats t))" by (simp add: t'_def set_stats_def)
  then have dm: "dom (vt_stats t') = insert (vt_brk t) (view_at t' ` set V)" using st by (simp add: view_state_def f)
  have "views t' U = views t U"
    by (rule views_cong) (use low S(3) in \<open>force simp: f stats_of_def\<close>)
  moreover have "vt_brk t \<notin> view_at t' ` set V" using low by (force simp: f)
  ultimately show thesis
    by (intro that [OF new st' _ dm]) (auto simp: f view_room_def)
qed

lemma list_all2_split:
  assumes "list_all2 P xs (B @ b # C)"
  obtains ys y zs where "xs = ys @ y # zs" "list_all2 P ys B" "P y b" "list_all2 P zs C"
  using assms by (auto simp: list_all2_append2 list_all2_Cons2)

lemma touch_present:
  assumes "distinct (map fst (B @ (v, a) # C))"
  shows "touch_view v (B @ (v, a) # C) = (v, a) # B @ C"
proof -
  have "v \<notin> fst ` set B" "v \<notin> fst ` set C" using assms by auto
  then have "[x \<leftarrow> B. fst x \<noteq> v] = B" "[x \<leftarrow> C. fst x \<noteq> v] = C" "map_of B v = None"
    by (auto simp: filter_id_conv map_of_eq_None_iff)
  then show ?thesis by (simp add: touch_view_def map_add_def)
qed

lemma touch_absent: "v \<notin> fst ` set A \<Longrightarrow> touch_view v A = (v, new_view) # A"
  by (force simp: touch_view_def filter_id_conv map_of_eq_None_iff split: option.splits dest: map_of_SomeD)

lemma view_for_found:
  assumes ts: "tree_state full n t V U (B @ (view, a) # C)" and v: "length view < MAX_VIEW_LENGTH"
  obtains t1 u p U1 where "view_for e t view = Some (t1, Some (view_at t1 p))" "view_state t1 V ((u, p) # U1)"
    "list_all2 (entry_rel full n) (views t1 ((u, p) # U1)) (touch_view view (B @ (view, a) # C))"
    "view_room t1 = view_room t"
proof -
  have st: "view_state t V U" and r: "list_all2 (entry_rel full n) (views t U) (B @ (view, a) # C)"
    using ts by (auto simp: tree_state_def)
  obtain ys y zs where y: "views t U = ys @ y # zs" "list_all2 (entry_rel full n) ys B" "entry_rel full n y (view, a)"
    "list_all2 (entry_rel full n) zs C" by (rule list_all2_split [OF r])
  obtain U1 u p U2 where U: "U = U1 @ (u, p) # U2" "ys = views t U1" "y = (view_name (vt_nodes t) p, stats_of t p)"
    "zs = views t U2"
    using y(1) by (auto simp: views_def map_eq_append_conv map_eq_Cons_conv)
  have name: "view_name (vt_nodes t) p = view" using y(3) U(3) by (simp add: entry_rel_def)
  have p: "p \<in> set V" "entry_ok t u p" using view_stateD(3,7) [OF st] U(1) by auto
  then obtain nd where nd: "vt_nodes t p = Some nd" "vn_ptr nd = u" "p \<noteq> NULL" "vn_vs nd = view_at t p"
    by (auto simp: entry_ok_def view_at_def)
  have len: "length view < STATS_NODE_MAX_SIZE" using v by (simp add: MAX_VIEW_LENGTH_def STATS_NODE_MAX_SIZE_def)
  have find: "view_tree_find t view = Some p" by (rule view_find_state(1) [OF st len p(1) name])
  obtain mem lru where m: "lru_list_move_to_first (vt_lru_mem t) (vt_lru t) u = Some (mem, lru)"
    "view_state (t\<lparr>vt_lru_mem := mem, vt_lru := lru\<rparr>) V ((u, p) # U1 @ U2)"
    "view_room (t\<lparr>vt_lru_mem := mem, vt_lru := lru\<rparr>) = view_room t"
    by (rule view_touch_state [OF st [unfolded U(1)]])
  have "list_all2 (entry_rel full n) (views t ((u, p) # U1 @ U2)) ((view, a) # B @ C)"
    using y U by (simp add: list_all2_appendI)
  then have "list_all2 (entry_rel full n) (views t ((u, p) # U1 @ U2)) (touch_view view (B @ (view, a) # C))"
    using touch_present tree_state_distinct [OF ts] by simp
  moreover have "view_for e t view = Some (t\<lparr>vt_lru_mem := mem, vt_lru := lru\<rparr>, Some (view_at t p))"
    using find nd m(1) by (simp add: view_for_def view_node_at_def)
  ultimately show thesis using m(2,3) by (intro that [of "t\<lparr>vt_lru_mem := mem, vt_lru := lru\<rparr>" p u "U1 @ U2"]) simp_all
qed

lemma view_for_new:
  assumes ts: "tree_state full n t V U A" and n: "0 < n" and new: "view \<notin> fst ` set A"
    and v: "length view < MAX_VIEW_LENGTH" and env: "env_ok n e"
  obtains t1 V1 u p U1 where "view_for e t view = Some (t1, Some (view_at t1 p))" "view_state t1 V1 ((u, p) # U1)"
    "list_all2 (entry_rel full n) (views t1 ((u, p) # U1)) (touch_view view A)" "view_room t \<le> view_room t1 + 3"
proof -
  have st: "view_state t V U" and r: "list_all2 (entry_rel full n) (views t U) A" and room: "3 * n \<le> view_room t"
    using ts by (auto simp: tree_state_def)
  have rm: "vt_brk t + 2 < vt_limit t" "0 < lru_room (vt_lru_mem t)" using room n by (auto simp: view_room_def)
  have len: "length view < STATS_NODE_MAX_SIZE" using v by (simp add: MAX_VIEW_LENGTH_def STATS_NODE_MAX_SIZE_def)
  have abs: "view \<notin> view_name (vt_nodes t) ` set V"
    using new entries_names [OF r] views_names [of t U] view_stateD(3) [OF st] by (metis list.set_map)
  have find: "view_tree_find t view = Some NULL" by (rule view_find_state(2) [OF st len abs])
  obtain vs :: view_stats where c: "\<And>f. view_stats_create f True (env_names e) (env_ips e) view = f vs"
    "stats_rel full vs new_view" "n \<le> stats_room vs"
    using create_stats_rel [of n "env_names e" "env_ips e" view full] env v by (auto simp: env_ok_def)
  obtain t' where t': "new_stats e t view = Some (t', vt_brk t)" "view_core t' V U" "views t' U = views t U"
    and dm: "dom (vt_stats t') = insert (vt_brk t) (view_at t' ` set V)"
    and t's: "vt_brk t' = vt_brk t + 1" "vt_stats t' (vt_brk t) = Some vs" "vt_brk t \<notin> view_at t' ` set V"
    "view_name (vt_nodes t') = view_name (vt_nodes t)" "view_room t \<le> view_room t' + 1" "vt_limit t' = vt_limit t"
    "vt_lru_mem t' = vt_lru_mem t"
    by (rule new_stats_state [OF st, of e view vs]) (use rm c(1) env in \<open>auto simp: env_ok_def\<close>)
  have b: "vt_brk t \<noteq> NULL" using view_stateD(5) [OF st] by simp
  obtain t1 V1 u p where i: "view_tree_insert t' view (vt_brk t) = Some (t1, 0)" "view_state t1 V1 ((u, p) # U)"
    "views t1 ((u, p) # U) = (view, vs) # views t' U" "view_at t1 p = vt_brk t" "view_room t' \<le> view_room t1 + 2"
    by (rule view_insert_state [OF t'(2) dm len, of vs]) (use abs b t's rm in auto)
  have "list_all2 (entry_rel full n) (views t1 ((u, p) # U)) (touch_view view A)"
    using i(3) t'(3) r c(2,3) touch_absent [OF new] by (simp add: entry_rel_def)
  moreover have "view_for e t view = Some (t1, Some (view_at t1 p))"
    using find t'(1) i(1,4) b by (simp add: view_for_def)
  ultimately show thesis using that i(2,5) t's(5) by force
qed

section \<open>The memory limit\<close>

lemma keep_views_stop: "\<not> (bound < log_size ts ps A \<and> 1 < length A) \<Longrightarrow> keep_views ts ps bound A = A"
  by (simp only: keep_views.simps [of ts ps bound A] if_False simp_thms)

lemma keep_views_step:
  "bound < log_size ts ps (A @ [y]) \<Longrightarrow> A \<noteq> [] \<Longrightarrow> keep_views ts ps bound (A @ [y]) = keep_views ts ps bound A"
  by (subst keep_views.simps) simp

definition views_evicted :: "view_tree \<Rightarrow> (addr \<times> addr) list \<Rightarrow> nat \<Rightarrow> view_tree \<Rightarrow> bool" where
  "views_evicted t U k t' \<longleftrightarrow> 0 < k \<and> k \<le> length U \<and> (\<exists>V'. view_state t' V' (take k U)) \<and>
     views t' (take k U) = take k (views t U) \<and> view_room t' = view_room t \<and>
     (\<forall>q \<in> snd ` set (take k U). view_at t' q = view_at t q)"

lemma evict_views_ok:
  "view_state t V U \<Longrightarrow> list_all2 (entry_rel False n) (views t U) A \<Longrightarrow> U \<noteq> [] \<Longrightarrow>
   \<exists>t' k. keep_views ts ps bound A = take k A \<and> views_evicted t U k t' \<and>
     evict_views_loop ts ps bound (log_size ts ps A) t = Some (t', log_size ts ps (take k A))"
proof (induction U arbitrary: t V A rule: rev_induct)
  case Nil
  then show ?case by simp
next
  case (snoc x U)
  obtain u p where x: "x = (u, p)" by force
  note st = snoc.prems(1) [unfolded x]
  have count: "vt_count t = int (length A)" "length A = Suc (length U)"
    using view_stateD(6) [OF st] list_all2_lengthD [OF snoc.prems(2)] by simp_all
  show ?case
  proof (cases "bound < log_size ts ps A \<and> 1 < length A")
    case False
    have "views_evicted t (U @ [x]) (length A) t"
      using snoc.prems(1) count(2) by (auto simp: views_evicted_def)
    moreover have "evict_views_loop ts ps bound (log_size ts ps A) t = Some (t, log_size ts ps A)"
      using False count(1) by (subst evict_views_loop.simps) auto
    ultimately show ?thesis using keep_views_stop [OF False] by (intro exI [of _ t] exI [of _ "length A"]) simp
  next
    case True
    then have U: "U \<noteq> []" using count(2) by auto
    obtain B y where B: "A = B @ [y]" "list_all2 (entry_rel False n) (views t U) B"
      "entry_rel False n (view_name (vt_nodes t) p, stats_of t p) y"
      using snoc.prems(2) x by (auto simp: list_all2_append1 list_all2_Cons1)
    have des: "view_stats_destory (stats_of t p) = Some ()"
      using B(3) destroy_stats_rel by (auto simp: entry_rel_def)
    obtain mem lru nd t1 V1 where e: "lru_list_remove_tail (vt_lru_mem t) (vt_lru t) = Some (mem, lru, p)"
      "view_node_at t p = Some nd" "view_tree_delete (t\<lparr>vt_lru_mem := mem, vt_lru := lru\<rparr>) (vn_name nd) = Some t1"
      "view_state t1 V1 U" "views t1 U = views t U" "view_room t1 = view_room t"
      "\<And>q. q \<noteq> p \<Longrightarrow> vt_nodes t1 q = vt_nodes t q"
      by (rule view_evict_state [OF st des]) blast
    have r1: "list_all2 (entry_rel False n) (views t1 U) B" using B(2) e(5) by simp
    obtain t' k where k: "keep_views ts ps bound B = take k B" "views_evicted t1 U k t'"
      "evict_views_loop ts ps bound (log_size ts ps B) t1 = Some (t', log_size ts ps (take k B))"
      using snoc.IH [OF e(4) r1 U] by blast
    have kl: "k \<le> length U" "k \<le> length B" using k(2) list_all2_lengthD [OF r1] by (auto simp: views_evicted_def)
    have sz: "view_tree_get_size ts ps t1 = Some (log_size ts ps B)"
      using view_size_state [OF e(4)] entries_size [OF r1] by simp
    have at: "view_at t1 q = view_at t q" if "q \<in> snd ` set (take k U)" for q
    proof -
      have "q \<noteq> p" using that view_stateD(11) [OF st] by (auto dest: in_set_takeD)
      then show ?thesis using e(7) by (simp add: view_at_def)
    qed
    have "views_evicted t (U @ [x]) k t'"
      using k(2) kl e(5,6) at unfolding views_evicted_def by auto
    moreover have "evict_views_loop ts ps bound (log_size ts ps A) t = Some (t', log_size ts ps (take k A))"
      using True count(1) e(1-3) sz k(3) kl B(1) by (subst evict_views_loop.simps) simp
    moreover have "B \<noteq> []" using B(1) True by auto
    then have "keep_views ts ps bound A = take k A" using keep_views_step k(1) kl(2) True B(1) by simp
    ultimately show ?thesis by blast
  qed
qed

lemma the_only_one_state:
  assumes "view_state t V [(u, p)]"
  shows "view_tree_the_only_one t = Some p"
proof -
  have "set V = {p}" "length V = 1" using view_stateD(3) [OF assms] view_stateD(4) [OF assms] by simp_all
  then have V: "V = [p]" by (cases V) auto
  have "view_index (vt_nodes t) (vt_tree t) (vt_tnodes t) [p]" using view_stateD(1) [OF assms] unfolding V .
  then obtain xs where xs: "vk.tree_inv (vt_nodes t) (vt_tree t) xs" "[p] = map (node_val (vt_tree t)) xs"
    unfolding view_index_def by (elim exE conjE)
  obtain a where a: "xs = [a]" "node_val (vt_tree t) a = p" using xs(2) by (auto simp: map_eq_Cons_conv)
  obtain rt where "rep (vt_tree t) rt" "inorder rt = [a]" using xs(1) a(1) by (auto simp: vk.tree_inv_def)
  then show ?thesis
    using a(2) for_ok [of "vt_tree t" rt "\<lambda>node vtnode. Some (node_val (vt_tree t) node)" NULL]
    by (simp add: view_tree_the_only_one_def)
qed

text \<open>The view at the front of the list stays, so its statistics can be counted in afterwards.\<close>

lemma set_memsize_ok:
  assumes st: "view_state t V ((u, p) # U)" and r: "list_all2 (entry_rel False n) (views t ((u, p) # U)) A"
  obtains t' V' U' where "view_tree_set_memsize ts ps bound t = Some t'" "view_state t' V' ((u, p) # U')"
    "list_all2 (entry_rel False n) (views t' ((u, p) # U')) (limit_views ts ps bound A)"
    "view_room t' = view_room t" "view_at t' p = view_at t p"
proof -
  obtain t1 k where k: "keep_views ts ps bound A = take k A" "views_evicted t ((u, p) # U) k t1"
    "evict_views_loop ts ps bound (log_size ts ps A) t = Some (t1, log_size ts ps (take k A))"
    using evict_views_ok [OF st r] by blast
  define W where "W = take (k - 1) U"
  have W: "take k ((u, p) # U) = (u, p) # W" using k(2) by (cases k) (auto simp: W_def views_evicted_def)
  obtain V1 where s1: "view_state t1 V1 ((u, p) # W)" "views t1 ((u, p) # W) = take k (views t ((u, p) # U))"
    "view_room t1 = view_room t" "view_at t1 p = view_at t p"
    using k(2) unfolding views_evicted_def W by auto
  have r1: "list_all2 (entry_rel False n) (views t1 ((u, p) # W)) (keep_views ts ps bound A)"
    unfolding k(1) s1(2) using r by (rule list_all2_takeI)
  have size: "view_tree_get_size ts ps t = Some (log_size ts ps A)"
    using view_size_state [OF st] entries_size [OF r] by simp
  note run = view_tree_set_memsize_def size k(3) Option.bind.simps prod.case
  have count: "vt_count t1 = int (length ((u, p) # W))" by (rule view_stateD(6) [OF s1(1)])
  show thesis
  proof (cases "W = []")
    case False
    then have "limit_views ts ps bound A = keep_views ts ps bound A"
      using list_all2_lengthD [OF r1] by (auto simp: limit_views_def split: list.splits)
    moreover have "view_tree_set_memsize ts ps bound t = Some t1" using False count by (simp add: run)
    ultimately show ?thesis using that s1(1,3,4) r1 by metis
  next
    case True
    obtain v a where a: "keep_views ts ps bound A = [(v, a)]" "v = view_name (vt_nodes t1) p"
      "stats_rel False (stats_of t1 p) a" "n \<le> stats_room (stats_of t1 p)"
      using r1 True by (auto simp: entry_rel_def list_all2_Cons1)
    obtain vs' where vs: "view_stats_set_memsize ts ps bound (stats_of t1 p) = Some vs'"
      "stats_rel False vs' (limit_view ts ps bound a)" "stats_room vs' = stats_room (stats_of t1 p)"
      by (rule limit_view_rel [OF a(3)])
    have ok: "entry_ok t1 u p" using view_stateD(7) [OF s1(1)] by simp
    then obtain nd where nd: "view_node_at t1 p = Some nd" "vn_vs nd = view_at t1 p" "p \<noteq> NULL"
      "stats_at t1 (view_at t1 p) = Some (stats_of t1 p)"
      by (auto simp: entry_ok_def view_node_at_def view_at_def stats_at_def stats_of_def)
    note st1 = s1(1) [unfolded True]
    have "view_tree_set_memsize ts ps bound t = Some (set_stats (view_at t1 p) vs' t1)"
      using count True nd the_only_one_state [OF st1] vs(1) by (simp add: run)
    moreover have "limit_views ts ps bound A = [(v, limit_view ts ps bound a)]" using a(1) by (simp add: limit_views_def)
    moreover have "view_at (set_stats (view_at t1 p) vs' t1) p = view_at t1 p" by (simp add: view_at_def set_stats_def)
    ultimately show ?thesis
      using that view_set_state [OF st1, of vs'] a vs s1(3,4) by (auto simp: entry_rel_def)
  qed
qed

section \<open>Counting a query\<close>

definition query_ok :: "log_query \<Rightarrow> bool" where
  "query_ok q \<longleftrightarrow> length (lq_view q) < MAX_VIEW_LENGTH \<and> name_fits (lq_domain q) \<and> name_fits (lq_ip q) \<and>
     rtype_index (lq_rtype q) \<noteq> None"

text \<open>The view has room for the query; with \<open>full\<close> also its heaps.\<close>

definition view_fits :: "bool \<Rightarrow> log_query \<Rightarrow> view_abs \<Rightarrow> bool" where
  "view_fits full q a \<longleftrightarrow> counts_fit (va_names a) \<and> counts_fit (va_ips a) \<and>
     (full \<longrightarrow> length (bump (qualify (lq_domain q)) (va_names a)) \<le> ROOF \<and>
       length (bump (qualify (lq_ip q)) (va_ips a)) \<le> ROOF)"

lemma view_fits_weak: "view_fits full q a \<Longrightarrow> full' \<longrightarrow> full \<Longrightarrow> view_fits full' q a"
  by (auto simp: view_fits_def)

lemma counts_fit_take: "counts_fit N \<Longrightarrow> counts_fit (take j N)"
  by (auto simp: counts_fit_def dest: in_set_takeD)

lemma view_fits_limit: "view_fits full q a \<Longrightarrow> view_fits False q (limit_view ts ps bound a)"
  by (simp add: view_fits_def limit_view_def Let_def counts_fit_take)

lemma keep_views_take: "A \<noteq> [] \<Longrightarrow> \<exists>k > 0. keep_views ts ps bound A = take k A"
proof (induction A rule: rev_induct)
  case (snoc y A)
  show ?case
  proof (cases "bound < log_size ts ps (A @ [y]) \<and> 1 < length (A @ [y])")
    case True
    then have "A \<noteq> []" by auto
    then obtain k where "0 < k" "keep_views ts ps bound (A @ [y]) = take k A"
      using snoc.IH keep_views_step True by metis
    moreover from this have "take k A = take (min k (length A)) (A @ [y])" by (simp add: min_def)
    ultimately show ?thesis using \<open>A \<noteq> []\<close> by (intro exI [of _ "min k (length A)"]) simp
  next
    case False
    then show ?thesis using keep_views_stop [OF False] by (intro exI [of _ "length (A @ [y])"]) simp
  qed
qed simp

lemma limit_views_head:
  obtains a' B' where "limit_views ts ps bound ((v, a) # B) = (v, a') # B'"
    "view_fits full q a \<Longrightarrow> view_fits False q a'"
proof -
  obtain k where "0 < k" "keep_views ts ps bound ((v, a) # B) = take k ((v, a) # B)"
    using keep_views_take by blast
  then have k: "keep_views ts ps bound ((v, a) # B) = (v, a) # take (k - 1) B" by (cases k) auto
  show thesis
  proof (cases "take (k - 1) B")
    case Nil
    then have "limit_views ts ps bound ((v, a) # B) = [(v, limit_view ts ps bound a)]"
      by (simp only: limit_views_def k Nil list.case prod.case)
    then show ?thesis using that view_fits_limit by blast
  next
    case (Cons y ys)
    then show ?thesis using that [of a "y # ys"] k view_fits_weak [of full q a False] by (simp add: limit_views_def)
  qed
qed

lemma view_for_ok:
  assumes ts: "tree_state full n t V U A" and n: "0 < n" and v: "length view < MAX_VIEW_LENGTH" and env: "env_ok n e"
  obtains t1 V1 u p U1 where "view_for e t view = Some (t1, Some (view_at t1 p))" "view_state t1 V1 ((u, p) # U1)"
    "list_all2 (entry_rel full n) (views t1 ((u, p) # U1)) (touch_view view A)" "view_room t \<le> view_room t1 + 3"
proof (cases "view \<in> fst ` set A")
  case True
  then obtain a B C where A: "A = B @ (view, a) # C" by (auto dest!: split_list)
  obtain t1 u p U1 where "view_for e t view = Some (t1, Some (view_at t1 p))" "view_state t1 V ((u, p) # U1)"
    "list_all2 (entry_rel full n) (views t1 ((u, p) # U1)) (touch_view view A)" "view_room t1 = view_room t"
    using view_for_found [OF ts [unfolded A] v, of e thesis] unfolding A by blast
  then show thesis using that by simp
next
  case False
  show thesis by (rule view_for_new [OF ts n False v env]) (use that in blast)
qed

definition still_full :: "bool \<Rightarrow> nat \<Rightarrow> nat \<Rightarrow> u64 \<Rightarrow> string \<Rightarrow> log_abs \<Rightarrow> bool" where
  "still_full full ts ps bound v A \<longleftrightarrow> full \<and> \<not> bound < log_size ts ps (touch_view v A)"

lemma memory_limit_ok:
  assumes st: "view_state t V ((u, p) # U)" and r: "list_all2 (entry_rel full n) (views t ((u, p) # U)) T"
    and T: "T = touch_view v A"
  obtains t' V' U' where
    "(if bound < log_size ts ps T then view_tree_set_memsize ts ps bound t else Some t) = Some t'"
    "view_state t' V' ((u, p) # U')"
    "list_all2 (entry_rel (still_full full ts ps bound v A) n) (views t' ((u, p) # U'))
       (if bound < log_size ts ps T then limit_views ts ps bound T else T)"
    "view_room t' = view_room t" "view_at t' p = view_at t p"
proof (cases "bound < log_size ts ps T")
  case True
  then have f: "still_full full ts ps bound v A = False" by (simp add: still_full_def T [symmetric])
  obtain t' V' U' where "view_tree_set_memsize ts ps bound t = Some t'" "view_state t' V' ((u, p) # U')"
    "list_all2 (entry_rel False n) (views t' ((u, p) # U')) (limit_views ts ps bound T)"
    "view_room t' = view_room t" "view_at t' p = view_at t p"
    by (rule set_memsize_ok [OF st entries_weak [OF r order_refl]])
  then show ?thesis using that [of t' V' U'] True by (simp add: f)
next
  case False
  then have "still_full full ts ps bound v A = full" by (simp add: still_full_def T [symmetric])
  then show ?thesis using that [of t V U] st r False by simp
qed

lemma log_handle_ok:
  assumes k: "keeper_rel full (Suc n) keeper A" and q: "query_ok q" and env: "env_ok (Suc n) e"
    and fits: "view_fits full q (snd (hd (touch_view (lq_view q) A)))"
    and sizes: "env_tree_struct e = ts" "env_pool_struct e = ps"
  obtains keeper' where "log_handle e keeper (lq_view q) (lq_domain q) (lq_ip q) (lq_rtype q) (lq_rcode q) = Some keeper'"
    "keeper_rel (still_full full ts ps (hk_mem_uplimit keeper) (lq_view q) A) n keeper' (log_step ts ps (hk_mem_uplimit keeper) q A)"
    "hk_mem_uplimit keeper' = hk_mem_uplimit keeper"
proof -
  let ?t = "hk_views keeper" and ?b = "hk_mem_uplimit keeper" and ?v = "lq_view q"
  define T where "T = touch_view ?v A"
  define full' where "full' = still_full full ts ps ?b ?v A"
  obtain V U where ts0: "tree_state full (Suc n) ?t V U A" using k by (auto simp: keeper_rel_def)
  have vl: "length ?v < MAX_VIEW_LENGTH" using q by (simp add: query_ok_def)
  obtain t1 V1 u p U1 where t1: "view_for e ?t ?v = Some (t1, Some (view_at t1 p))" "view_state t1 V1 ((u, p) # U1)"
    "list_all2 (entry_rel full (Suc n)) (views t1 ((u, p) # U1)) T" "view_room ?t \<le> view_room t1 + 3"
    by (rule view_for_ok [OF ts0 zero_less_Suc vl env, folded T_def])
  have size: "view_tree_get_size ts ps t1 = Some (log_size ts ps T)"
    using view_size_state [OF t1(2)] entries_size [OF t1(3)] by simp
  obtain t2 V2 U2 where t2: "(if ?b < log_size ts ps T then view_tree_set_memsize ts ps ?b t1 else Some t1) = Some t2"
    "view_state t2 V2 ((u, p) # U2)"
    "list_all2 (entry_rel full' (Suc n)) (views t2 ((u, p) # U2)) (if ?b < log_size ts ps T then limit_views ts ps ?b T else T)"
    "view_room t2 = view_room t1" "view_at t2 p = view_at t1 p"
    by (rule memory_limit_ok [OF t1(2,3) T_def, of ?b ts ps, folded full'_def])
  obtain a B where TB: "T = (?v, a) # B" by (simp add: T_def touch_view_def)
  have fa: "view_fits full q a" using fits TB by (simp add: T_def)
  obtain a' B' where T2: "(if ?b < log_size ts ps T then limit_views ts ps ?b T else T) = (?v, a') # B'" "view_fits full' q a'"
  proof (cases "?b < log_size ts ps T")
    case True
    then have "\<not> full'" by (simp add: full'_def still_full_def T_def [symmetric])
    then show ?thesis using that True fa limit_views_head [of ts ps ?b ?v a B full q] TB by (auto simp: TB)
  next
    case False
    then show ?thesis using that [of a B] TB fa view_fits_weak [of full q a full'] by (simp add: full'_def still_full_def)
  qed
  have e: "view_name (vt_nodes t2) p = ?v" "stats_rel full' (stats_of t2 p) a'" "Suc n \<le> stats_room (stats_of t2 p)"
    "list_all2 (entry_rel full' (Suc n)) (views t2 U2) B'"
    using t2(3) unfolding T2 by (simp_all add: entry_rel_def)
  obtain ti ci where idx: "rtype_index (lq_rtype q) = Some ti" "rcode_index (lq_rcode q) = Some ci"
    using q rcode_index_total [of "lq_rcode q"] by (auto simp: query_ok_def)
  obtain s' where s': "count_query (stats_of t2 p) (lq_domain q) (lq_ip q) (lq_rtype q) (lq_rcode q) = Some s'"
    "stats_rel full' s' (count_view (lq_domain q) (lq_ip q) ti ci a')" "stats_room (stats_of t2 p) \<le> stats_room s' + 1"
    by (rule count_query_rel [OF e(2) _ _ _ _ _ _ idx, of "lq_domain q" "lq_ip q"])
      (use q e(3) T2(2) in \<open>auto simp: query_ok_def view_fits_def\<close>)
  have at: "stats_at t2 (view_at t1 p) = Some (stats_of t2 p)"
    using view_stateD(7) [OF t2(2), of u p] t2(5) by (auto simp: entry_ok_def stats_at_def stats_of_def)
  let ?t3 = "set_stats (view_at t2 p) s' t2"
  note new = view_set_state [OF t2(2), of s']
  have run: "log_handle e keeper ?v (lq_domain q) (lq_ip q) (lq_rtype q) (lq_rcode q) = Some (keeper\<lparr>hk_views := ?t3\<rparr>)"
    by (simp only: log_handle_def t1(1) size t2(1,5) at s'(1) sizes Option.bind.simps prod.case option.case)
  have "log_step ts ps ?b q A = (?v, count_view (lq_domain q) (lq_ip q) ti ci a') # B'"
    unfolding log_step_def Let_def T_def [symmetric] T2(1) by (simp add: count_first_def idx)
  moreover have "list_all2 (entry_rel full' n) (views ?t3 ((u, p) # U2)) ((?v, count_view (lq_domain q) (lq_ip q) ti ci a') # B')"
    unfolding new(2) using e(1,3) s'(2,3) entries_fewer [OF e(4), of n] by (simp add: entry_rel_def)
  moreover have "3 * n \<le> view_room ?t3" using ts0 t1(4) t2(4) new(3) by (simp add: tree_state_def)
  ultimately have "keeper_rel full' n (keeper\<lparr>hk_views := ?t3\<rparr>) (log_step ts ps ?b q A)"
    using new(1) by (intro keeper_relI [of _ _ _ V2 "(u, p) # U2"]) (simp add: tree_state_def)
  then show thesis using that [OF run] by (simp add: full'_def)
qed

end
