(* ===== verification/Log_Props.thy ===== *)
theory Log_Props
  imports Log_Spec
begin

text \<open>
  The house keeper of \<^verbatim>\<open>log_topn.c\<close>: a log of queries, counted one after the other from the creation
  of the house keeper on, keeps the counts of the abstract log, with the memory limit and without
  it; the lines that reach the counting; and the replies to the requests of the clients.
\<close>

section \<open>Bounds on the counts\<close>

text \<open>Counts of names in \<open>D\<close>, each at most \<open>m\<close>.\<close>

definition counts_in :: "string set \<Rightarrow> nat \<Rightarrow> counts \<Rightarrow> bool" where
  "counts_in D m N \<longleftrightarrow> distinct (map fst N) \<and> fst ` set N \<subseteq> D \<and> (\<forall>c \<in> snd ` set N. c \<le> m)"

lemma counts_in_Nil [simp]: "counts_in D m []"
  by (simp add: counts_in_def)

lemma counts_in_bump: "counts_in D m N \<Longrightarrow> k \<in> D \<Longrightarrow> counts_in D (Suc m) (bump k N)"
proof -
  assume N: "counts_in D m N" and k: "k \<in> D"
  have "distinct (map fst [x \<leftarrow> N. fst x \<noteq> k])" using N by (simp add: counts_in_def distinct_map_filter)
  moreover have "c \<le> m" if "map_of N k = Some c" for c
    using N map_of_SomeD [OF that] by (force simp: counts_in_def)
  ultimately show ?thesis using N k by (force simp: counts_in_def bump_def split: option.splits)
qed

lemma counts_in_take: "counts_in D m N \<Longrightarrow> counts_in D m (take j N)"
  by (auto simp: counts_in_def take_map [symmetric] dest: in_set_takeD)

lemma counts_in_mono: "counts_in D m N \<Longrightarrow> m \<le> m' \<Longrightarrow> counts_in D m' N"
  by (force simp: counts_in_def)

lemma counts_in_length:
  assumes "counts_in D m N" "finite D"
  shows "length N \<le> card D" "k \<in> D \<Longrightarrow> length (bump k N) \<le> card D"
proof -
  have l: "length N \<le> card D" if "counts_in D m N" for m N
  proof -
    have "length N = card (fst ` set N)" using that by (metis counts_in_def distinct_card length_map set_map)
    moreover have "card (fst ` set N) \<le> card D" using that assms(2) by (intro card_mono) (simp_all add: counts_in_def)
    ultimately show ?thesis by simp
  qed
  then show "length N \<le> card D" using assms(1) .
  show "k \<in> D \<Longrightarrow> length (bump k N) \<le> card D" using l [OF counts_in_bump [OF assms(1)]] .
qed

definition log_inv :: "(string \<Rightarrow> string set) \<Rightarrow> (string \<Rightarrow> string set) \<Rightarrow> nat \<Rightarrow> log_abs \<Rightarrow> bool" where
  "log_inv D I m A \<longleftrightarrow> (\<forall>(v, a) \<in> set A. counts_in (D v) m (va_names a) \<and> counts_in (I v) m (va_ips a))"

lemma log_inv_touch: "log_inv D I m A \<Longrightarrow> log_inv D I m (touch_view v A)"
  by (auto simp: log_inv_def touch_view_def new_view_def split: option.splits dest: map_of_SomeD)

lemma log_inv_limit:
  assumes "log_inv D I m A"
  shows "log_inv D I m (limit_views ts ps bound A)"
proof (cases "A = []")
  case True
  then show ?thesis by (simp add: limit_views_def keep_views_stop log_inv_def)
next
  case False
  then obtain k where "keep_views ts ps bound A = take k A" using keep_views_take by blast
  then have inv: "log_inv D I m (keep_views ts ps bound A)" using assms by (auto simp: log_inv_def dest: in_set_takeD)
  consider "limit_views ts ps bound A = keep_views ts ps bound A"
    | v a where "keep_views ts ps bound A = [(v, a)]" "limit_views ts ps bound A = [(v, limit_view ts ps bound a)]"
  proof (cases "keep_views ts ps bound A")
    case (Cons x B)
    then show ?thesis using that by (cases x; cases B) (simp_all add: limit_views_def)
  qed (use that in \<open>simp add: limit_views_def\<close>)
  then show ?thesis using inv by cases (simp_all add: log_inv_def limit_view_def Let_def counts_in_take)
qed

lemma log_inv_step:
  assumes "log_inv D I m A" "qualify (lq_domain q) \<in> D (lq_view q)" "qualify (lq_ip q) \<in> I (lq_view q)"
  shows "log_inv D I (Suc m) (log_step ts ps bound q A)"
proof -
  define T where "T = touch_view (lq_view q) A"
  obtain a B where TB: "T = (lq_view q, a) # B" by (simp add: T_def touch_view_def)
  have "log_inv D I m T" using log_inv_touch [OF assms(1)] by (simp add: T_def)
  then have inv: "log_inv D I m (if bound < log_size ts ps T then limit_views ts ps bound T else T)"
    using log_inv_limit by simp
  obtain a' B' where "(if bound < log_size ts ps T then limit_views ts ps bound T else T) = (lq_view q, a') # B'"
    using limit_views_head [of ts ps bound "lq_view q" a B] TB by (metis (full_types))
  then show ?thesis
    using inv assms(2,3) unfolding log_step_def Let_def T_def [symmetric]
    by (auto simp: count_first_def log_inv_def count_view_def intro: counts_in_bump counts_in_mono [of _ m])
qed

section \<open>A log of queries\<close>

fun log_run :: "house_keeper \<Rightarrow> (env \<times> log_query) list \<Rightarrow> house_keeper option" where
  "log_run keeper [] = Some keeper"
| "log_run keeper ((e, q) # qs) = do {
     keeper1 \<leftarrow> log_handle e keeper (lq_view q) (lq_domain q) (lq_ip q) (lq_rtype q) (lq_rcode q);
     log_run keeper1 qs
   }"

text \<open>The names that the queries of a list count in the view \<open>v\<close>.\<close>

definition view_queries :: "log_query list \<Rightarrow> string \<Rightarrow> log_query list" where
  "view_queries qs v = [q \<leftarrow> qs. lq_view q = v]"

definition domains_of :: "log_query list \<Rightarrow> string \<Rightarrow> string list" where
  "domains_of qs v = map (\<lambda>q. qualify (lq_domain q)) (view_queries qs v)"

definition ips_of :: "log_query list \<Rightarrow> string \<Rightarrow> string list" where
  "ips_of qs v = map (\<lambda>q. qualify (lq_ip q)) (view_queries qs v)"

text \<open>No query of the log exceeds the limit.\<close>

fun within_limit :: "nat \<Rightarrow> nat \<Rightarrow> u64 \<Rightarrow> log_query list \<Rightarrow> log_abs \<Rightarrow> bool" where
  "within_limit ts ps bound [] A \<longleftrightarrow> True"
| "within_limit ts ps bound (q # qs) A \<longleftrightarrow>
     \<not> bound < log_size ts ps (touch_view (lq_view q) A) \<and> within_limit ts ps bound qs (log_step ts ps bound q A)"

definition queries_ok :: "nat \<Rightarrow> nat \<Rightarrow> (env \<times> log_query) list \<Rightarrow> bool" where
  "queries_ok ts ps qs \<longleftrightarrow> (\<forall>(e, q) \<in> set qs. env_ok (length qs) e \<and> env_tree_struct e = ts \<and> env_pool_struct e = ps \<and> query_ok q)"

lemma mems_ok_fewer: "mems_ok n tm \<Longrightarrow> m \<le> n \<Longrightarrow> mems_ok m tm"
  by (auto simp: mems_ok_def)

lemma env_ok_fewer: "env_ok n e \<Longrightarrow> m \<le> n \<Longrightarrow> env_ok m e"
  by (auto simp: env_ok_def intro: mems_ok_fewer)

lemma queries_ok_Cons:
  "queries_ok ts ps ((e, q) # qs) \<Longrightarrow> env_ok (Suc (length qs)) e \<and> env_tree_struct e = ts \<and> env_pool_struct e = ps \<and>
     query_ok q \<and> queries_ok ts ps qs"
  by (fastforce simp: queries_ok_def intro: env_ok_fewer)

lemma still_full_same:
  "full \<longrightarrow> \<not> bound < log_size ts ps (touch_view v A) \<Longrightarrow> still_full full ts ps bound v A = full"
  by (auto simp: still_full_def)

text \<open>One query, with the bounds that the names of a set give.\<close>

lemma log_query_ok:
  assumes k: "keeper_rel full (Suc n) keeper A" and env: "env_ok (Suc n) e" "env_tree_struct e = ts" "env_pool_struct e = ps"
    and q: "query_ok q" and inv: "log_inv D I m A" and m: "m < 2 ^ 31 - 1"
    and mem: "qualify (lq_domain q) \<in> D (lq_view q)" "qualify (lq_ip q) \<in> I (lq_view q)"
    and card: "\<forall>v. finite (D v) \<and> card (D v) \<le> cap \<and> finite (I v) \<and> card (I v) \<le> cap" "cap < 1024" "full \<longrightarrow> cap \<le> ROOF"
    and fl: "full \<longrightarrow> \<not> hk_mem_uplimit keeper < log_size ts ps (touch_view (lq_view q) A)"
  obtains keeper' where "log_handle e keeper (lq_view q) (lq_domain q) (lq_ip q) (lq_rtype q) (lq_rcode q) = Some keeper'"
    "keeper_rel full n keeper' (log_step ts ps (hk_mem_uplimit keeper) q A)" "hk_mem_uplimit keeper' = hk_mem_uplimit keeper"
    "log_inv D I (Suc m) (log_step ts ps (hk_mem_uplimit keeper) q A)"
proof -
  obtain a B where T: "touch_view (lq_view q) A = (lq_view q, a) # B" by (simp add: touch_view_def)
  have "log_inv D I m (touch_view (lq_view q) A)" by (rule log_inv_touch [OF inv])
  then have a: "counts_in (D (lq_view q)) m (va_names a)" "counts_in (I (lq_view q)) m (va_ips a)"
    by (simp_all add: T log_inv_def)
  have fit: "counts_fit N" "full \<longrightarrow> length (bump k N) \<le> ROOF"
    if N: "counts_in E m N" "k \<in> E" and E: "finite E" "card E \<le> cap" for N E k
  proof -
    have "length N \<le> cap" "length (bump k N) \<le> cap"
      using counts_in_length(1) [OF N(1) E(1)] counts_in_length(2) [OF N(1) E(1) N(2)] E(2) by linarith+
    moreover have "c < 2 ^ 31 - 1" if "(k', c) \<in> set N" for k' c
    proof -
      have "c \<le> m" using N(1) that by (force simp: counts_in_def)
      then show ?thesis using m by simp
    qed
    ultimately show "counts_fit N" "full \<longrightarrow> length (bump k N) \<le> ROOF"
      using card(2,3) by (auto simp: counts_fit_def)
  qed
  have "view_fits full q a"
    using fit [OF a(1) mem(1)] fit [OF a(2) mem(2)] card(1) by (simp add: view_fits_def)
  then have fits: "view_fits full q (snd (hd (touch_view (lq_view q) A)))" by (simp add: T)
  show thesis
    by (rule log_handle_ok [OF k q env(1) fits env(2,3), unfolded still_full_same [OF fl]])
      (rule that [OF _ _ _ log_inv_step [OF inv mem]])
qed

lemma log_run_ok:
  assumes "keeper_rel full (length qs) keeper A" "queries_ok ts ps qs" "log_inv D I m A" "m + length qs < 2 ^ 31"
    and "\<forall>(e, q) \<in> set qs. qualify (lq_domain q) \<in> D (lq_view q) \<and> qualify (lq_ip q) \<in> I (lq_view q)"
    and "\<forall>v. finite (D v) \<and> card (D v) \<le> cap \<and> finite (I v) \<and> card (I v) \<le> cap" "cap < 1024" "full \<longrightarrow> cap \<le> ROOF"
    and "full \<longrightarrow> within_limit ts ps (hk_mem_uplimit keeper) (map snd qs) A"
  shows "\<exists>keeper'. log_run keeper qs = Some keeper' \<and>
    keeper_rel full 0 keeper' (fold (log_step ts ps (hk_mem_uplimit keeper)) (map snd qs) A) \<and>
    hk_mem_uplimit keeper' = hk_mem_uplimit keeper"
  using assms(1-5,9)
proof (induction qs arbitrary: keeper A m)
  case Nil
  then show ?case by simp
next
  case (Cons x qs)
  obtain e q where x: "x = (e, q)" by force
  let ?b = "hk_mem_uplimit keeper"
  have qo: "env_ok (Suc (length qs)) e" "env_tree_struct e = ts" "env_pool_struct e = ps" "query_ok q" "queries_ok ts ps qs"
    using queries_ok_Cons Cons.prems(2) x by blast+
  have mem: "qualify (lq_domain q) \<in> D (lq_view q)" "qualify (lq_ip q) \<in> I (lq_view q)"
    and mem1: "\<forall>(e, q) \<in> set qs. qualify (lq_domain q) \<in> D (lq_view q) \<and> qualify (lq_ip q) \<in> I (lq_view q)"
    using Cons.prems(5) x by simp_all
  have fl: "full \<longrightarrow> \<not> ?b < log_size ts ps (touch_view (lq_view q) A)"
    "full \<longrightarrow> within_limit ts ps ?b (map snd qs) (log_step ts ps ?b q A)"
    using Cons.prems(6) x by auto
  have k0: "keeper_rel full (Suc (length qs)) keeper A" using Cons.prems(1) by simp
  obtain keeper1 where k1: "log_handle e keeper (lq_view q) (lq_domain q) (lq_ip q) (lq_rtype q) (lq_rcode q) = Some keeper1"
    "keeper_rel full (length qs) keeper1 (log_step ts ps ?b q A)" "hk_mem_uplimit keeper1 = ?b"
    and inv: "log_inv D I (Suc m) (log_step ts ps ?b q A)"
    by (rule log_query_ok [OF k0 qo(1-4) Cons.prems(3) _ mem assms(6-8) fl(1)]) (use Cons.prems(4) in simp)
  obtain keeper' where "log_run keeper1 qs = Some keeper'"
    "keeper_rel full 0 keeper' (fold (log_step ts ps (hk_mem_uplimit keeper1)) (map snd qs) (log_step ts ps ?b q A))"
    "hk_mem_uplimit keeper' = hk_mem_uplimit keeper1"
    using Cons.IH [OF k1(2) qo(5) inv _ mem1] Cons.prems(4) fl(2) unfolding k1(3) by auto
  then show ?case using k1(1,3) x by simp
qed

text \<open>The house keeper after its creation, with the memory it starts from.\<close>

definition start_ok :: "env \<Rightarrow> addr \<Rightarrow> addr \<Rightarrow> nat \<Rightarrow> bool" where
  "start_ok e brk0 limit0 n \<longleftrightarrow> 0 < env_socket e \<and> env_bound e = 0 \<and> env_threads e \<and> env_malloc e \<and> env_garbage e = 0 \<and> lru_heap_ok (env_lru e) \<and> KEY < brk0 \<and>
     brk0 + 3 * n \<le> limit0 \<and> 3 * n \<le> lru_room (env_lru e)"

definition UPLIMIT :: u64 where
  "UPLIMIT = 10 * 1024 * 1024"

text \<open>An empty tree of views, in memory where every block of a tree before it was freed.\<close>

lemma created_tree:
  assumes "no_blocks old" "0 < brk (vt_lru_mem old)" "KEY < vt_brk old" "3 * n \<le> view_room old"
  obtains t where "view_tree_create True view_compare tm g old = Some t" "no_blocks t" "g = 0 \<longrightarrow> tree_state full n t [] [] []"
proof -
  let ?t = "old\<lparr>vt_tree := rbtree_create view_compare tm, vt_lru := lru_list_create, vt_count := g\<rparr>"
  note nb = assms(1) [unfolded no_blocks_def]
  have "vk.tree_inv Map.empty (rbtree_create view_compare tm) []"
    by (auto simp: vk.tree_inv_def vk.ordered_def rep_def rb_ok_def sentinel_def rbtree_create_def intro!: exI [of _ Lf])
  then have "view_index (vt_nodes ?t) (vt_tree ?t) (vt_tnodes ?t) []" using nb by (auto simp: view_index_def)
  moreover have "lru_rep (vt_lru_mem ?t) (vt_lru ?t) []"
    using lru_rep_create [of "vt_lru_mem old"] nb assms(2) by (simp add: lru_heap_ok_def)
  ultimately have "view_state ?t [] []" if "g = 0"
    using that nb assms(3) by (simp add: view_state_def view_core_def)
  then have "g = 0 \<longrightarrow> tree_state full n ?t [] [] []" using assms(4) by (simp add: tree_state_def view_room_def)
  moreover have "no_blocks ?t" using nb by (simp add: no_blocks_def)
  ultimately show thesis using that by (simp add: view_tree_create_def)
qed

lemma created_keeper:
  assumes "start_ok e brk0 limit0 n"
  obtains keeper where "house_keeper_create e brk0 limit0 = Some keeper" "keeper_rel full n keeper []"
    "hk_mem_uplimit keeper = UPLIMIT"
proof -
  let ?m = "fresh_memory (env_tree e) (env_lru e) brk0 limit0"
  have m: "no_blocks ?m" "0 < brk (vt_lru_mem ?m)" "KEY < vt_brk ?m" "3 * n \<le> view_room ?m"
    using assms by (auto simp: fresh_memory_def no_blocks_def start_ok_def view_room_def lru_room_def lru_heap_ok_def)
  obtain t where t: "view_tree_create True view_compare (env_tree e) (env_garbage e) ?m = Some t"
    "env_garbage e = 0 \<longrightarrow> tree_state full n t [] [] []"
    by (rule created_tree [OF m])
  then show thesis
    using that [of "\<lparr>hk_qps = 0, hk_success_rate = 1, hk_count = 0, hk_views = t,
      hk_socket = \<lparr>sock_fd = env_socket e, sock_type = SOCK_STREAM, sock_family = AF_INET\<rparr>, hk_mem_uplimit = UPLIMIT\<rparr>"] assms
    by (auto simp: house_keeper_create_def socket_open_def keeper_rel_def start_ok_def UPLIMIT_def)
qed

section \<open>What the abstract log counts\<close>

definition count_query_abs :: "log_query \<Rightarrow> view_abs \<Rightarrow> view_abs" where
  "count_query_abs q = count_view (lq_domain q) (lq_ip q) (the (rtype_index (lq_rtype q))) (the (rcode_index (lq_rcode q)))"

lemma touch_lookup:
  "map_of (touch_view v A) w = (if w = v then Some (case map_of A v of None \<Rightarrow> new_view | Some a \<Rightarrow> a) else map_of A w)"
  by (simp add: touch_view_def map_of_others)

lemma log_fold_view:
  "within_limit ts ps bound qs A \<Longrightarrow> map_of (fold (log_step ts ps bound) qs A) v =
    (if view_queries qs v = [] then map_of A v
     else Some (fold count_query_abs (view_queries qs v) (case map_of A v of None \<Rightarrow> new_view | Some a \<Rightarrow> a)))"
proof (induction qs arbitrary: A)
  case Nil
  then show ?case by (simp add: view_queries_def)
next
  case (Cons q qs)
  let ?w = "lq_view q" and ?T = "touch_view (lq_view q) A"
  obtain a B where T: "?T = (?w, a) # B" "a = (case map_of A ?w of None \<Rightarrow> new_view | Some a \<Rightarrow> a)"
    by (simp add: touch_view_def)
  have "log_step ts ps bound q A = (?w, count_query_abs q a) # B"
    using Cons.prems T(1) by (simp add: log_step_def Let_def count_first_def count_query_abs_def)
  then have "map_of (log_step ts ps bound q A) v = (if v = ?w then Some (count_query_abs q a) else map_of A v)"
    using touch_lookup [of ?w A v] T(1) by auto
  then show ?case using Cons T(2) by (auto simp: view_queries_def)
qed

lemma fold_bump: "map_of (fold bump ks N) = fold seen ks (map_of N)" "map fst (fold bump ks N) = fold used ks (map fst N)"
  by (induction ks arbitrary: N) (simp_all add: bump_model)

lemma fold_count_names: "va_names (fold count_query_abs qs a) = fold bump (map (\<lambda>q. qualify (lq_domain q)) qs) (va_names a)"
  "va_ips (fold count_query_abs qs a) = fold bump (map (\<lambda>q. qualify (lq_ip q)) qs) (va_ips a)"
  by (induction qs arbitrary: a) (simp_all add: count_query_abs_def count_view_def)

lemma fold_count_codes:
  "i < length (va_rcode a) \<Longrightarrow> va_rcode (fold count_query_abs qs a) ! i =
     va_rcode a ! i + of_nat (length [q \<leftarrow> qs. the (rcode_index (lq_rcode q)) = i])"
  "i < length (va_rtype a) \<Longrightarrow> va_rtype (fold count_query_abs qs a) ! i =
     va_rtype a ! i + of_nat (length [q \<leftarrow> qs. the (rtype_index (lq_rtype q)) = i])"
proof -
  show "va_rcode (fold count_query_abs qs a) ! i =
      va_rcode a ! i + of_nat (length [q \<leftarrow> qs. the (rcode_index (lq_rcode q)) = i])" if "i < length (va_rcode a)"
    using that by (induction qs arbitrary: a) (auto simp: count_query_abs_def count_view_def nth_list_update)
  show "va_rtype (fold count_query_abs qs a) ! i =
      va_rtype a ! i + of_nat (length [q \<leftarrow> qs. the (rtype_index (lq_rtype q)) = i])" if "i < length (va_rtype a)"
    using that by (induction qs arbitrary: a) (auto simp: count_query_abs_def count_view_def nth_list_update)
qed

section \<open>Reading the state\<close>

text \<open>The statistics \<open>vs\<close> that the code finds for a view.\<close>

definition found_view :: "house_keeper \<Rightarrow> string \<Rightarrow> view_stats \<Rightarrow> bool" where
  "found_view keeper v vs \<longleftrightarrow> (\<exists>p nd. view_tree_find (hk_views keeper) v = Some p \<and> p \<noteq> NULL \<and>
     view_node_at (hk_views keeper) p = Some nd \<and> stats_at (hk_views keeper) (vn_vs nd) = Some vs)"

lemma keeper_find:
  assumes k: "keeper_rel full n keeper A" and v: "length v < STATS_NODE_MAX_SIZE"
  shows "map_of A v = None \<Longrightarrow> view_tree_find (hk_views keeper) v = Some NULL"
    and "map_of A v = Some a \<Longrightarrow> \<exists>vs. found_view keeper v vs \<and> stats_rel full vs a"
proof -
  let ?t = "hk_views keeper"
  obtain V U where ts: "tree_state full n ?t V U A" using k by (auto simp: keeper_rel_def)
  then have st: "view_state ?t V U" and r: "list_all2 (entry_rel full n) (views ?t U) A" by (auto simp: tree_state_def)
  have names: "view_name (vt_nodes ?t) ` set V = fst ` set A"
    using entries_names [OF r] views_names [of ?t U] view_stateD(3) [OF st] by (metis list.set_map)
  show "view_tree_find ?t v = Some NULL" if "map_of A v = None"
    using view_find_state(2) [OF st v] that names by (simp add: map_of_eq_None_iff)
  show "\<exists>vs. found_view keeper v vs \<and> stats_rel full vs a" if a: "map_of A v = Some a"
  proof -
    have "(v, a) \<in> set A" using a by (rule map_of_SomeD)
    then obtain x where x: "x \<in> set (views ?t U)" "entry_rel full n x (v, a)"
      using r by (metis in_set_conv_nth list_all2_conv_all_nth)
    then obtain u p where p: "(u, p) \<in> set U" "view_name (vt_nodes ?t) p = v" "stats_rel full (stats_of ?t p) a"
      by (auto simp: views_def entry_rel_def)
    have pV: "p \<in> set V" using p(1) view_stateD(3) [OF st] by force
    have "found_view keeper v (stats_of ?t p)"
      using view_find_state(1) [OF st v pV p(2)] view_stateD(7) [OF st p(1)]
      by (auto simp: found_view_def entry_ok_def view_node_at_def stats_at_def view_at_def stats_of_def)
    then show ?thesis using p(3) by blast
  qed
qed

definition counts_of :: "string list \<Rightarrow> string \<rightharpoonup> nat" where
  "counts_of ks = (\<lambda>k. if count_list ks k = 0 then None else Some (count_list ks k))"

lemma fold_seen_counts: "fold seen ks Map.empty = counts_of ks"
  by (simp add: fold_seen counts_of_def fun_eq_iff)

lemma created_run:
  assumes start: "start_ok e0 brk0 limit0 (length qs)" and qs: "queries_ok ts ps qs" "length qs < 2 ^ 31"
    and card: "\<forall>v. card (set (domains_of (map snd qs) v)) \<le> cap \<and> card (set (ips_of (map snd qs) v)) \<le> cap"
    and cap: "cap < 1024" "full \<longrightarrow> cap \<le> ROOF" and limit: "full \<longrightarrow> within_limit ts ps UPLIMIT (map snd qs) []"
  obtains keeper keeper' where "house_keeper_create e0 brk0 limit0 = Some keeper" "log_run keeper qs = Some keeper'"
    "keeper_rel full 0 keeper' (fold (log_step ts ps UPLIMIT) (map snd qs) [])"
proof -
  obtain keeper where k: "house_keeper_create e0 brk0 limit0 = Some keeper" "keeper_rel full (length qs) keeper []"
    "hk_mem_uplimit keeper = UPLIMIT"
    by (rule created_keeper [OF start])
  let ?D = "\<lambda>v. set (domains_of (map snd qs) v)" and ?I = "\<lambda>v. set (ips_of (map snd qs) v)"
  have mem: "\<forall>(e, q) \<in> set qs. qualify (lq_domain q) \<in> ?D (lq_view q) \<and> qualify (lq_ip q) \<in> ?I (lq_view q)"
    by (force simp: domains_of_def ips_of_def view_queries_def)
  have inv: "log_inv ?D ?I 0 []" by (simp add: log_inv_def)
  have cards: "\<forall>v. finite (?D v) \<and> card (?D v) \<le> cap \<and> finite (?I v) \<and> card (?I v) \<le> cap" using card by simp
  show thesis
    using log_run_ok [OF k(2) qs(1) inv _ mem cards cap] qs(2) limit k that by auto
qed

lemma counted_stats:
  assumes r: "stats_rel full vs (fold count_query_abs Q new_view)" and q: "\<forall>q \<in> set Q. rtype_index (lq_rtype q) \<noteq> None"
  shows "name_model (vs_name_tree vs) (counts_of (map (\<lambda>q. qualify (lq_domain q)) Q)) (fold used (map (\<lambda>q. qualify (lq_domain q)) Q) [])"
    and "name_model (vs_ip_tree vs) (counts_of (map (\<lambda>q. qualify (lq_ip q)) Q)) (fold used (map (\<lambda>q. qualify (lq_ip q)) Q) [])"
    and "vs_rcode vs = map (\<lambda>i. of_nat (length [q \<leftarrow> Q. rcode_index (lq_rcode q) = Some i])) [0..<RCODE_MAX_NUM]"
    and "vs_rtype vs = map (\<lambda>i. of_nat (length [q \<leftarrow> Q. rtype_index (lq_rtype q) = Some i])) [0..<RTYPE_MAX_NUM]"
proof -
  let ?a = "fold count_query_abs Q new_view"
  note R = r [unfolded stats_rel_def]
  have new: "va_names new_view = []" "va_ips new_view = []" "length (va_rcode new_view) = RCODE_MAX_NUM"
    "length (va_rtype new_view) = RTYPE_MAX_NUM" "i < RCODE_MAX_NUM \<Longrightarrow> va_rcode new_view ! i = 0"
    "i < RTYPE_MAX_NUM \<Longrightarrow> va_rtype new_view ! i = 0" for i by (simp_all add: new_view_def)
  have "name_model (vs_name_tree vs) (map_of (va_names ?a)) (map fst (va_names ?a))"
    "name_model (vs_ip_tree vs) (map_of (va_ips ?a)) (map fst (va_ips ?a))"
    using R tree_rel_model by blast+
  then show "name_model (vs_name_tree vs) (counts_of (map (\<lambda>q. qualify (lq_domain q)) Q)) (fold used (map (\<lambda>q. qualify (lq_domain q)) Q) [])"
    "name_model (vs_ip_tree vs) (counts_of (map (\<lambda>q. qualify (lq_ip q)) Q)) (fold used (map (\<lambda>q. qualify (lq_ip q)) Q) [])"
    by (simp_all add: fold_count_names fold_bump new fold_seen_counts)
  have "[q \<leftarrow> Q. the (rcode_index (lq_rcode q)) = i] = [q \<leftarrow> Q. rcode_index (lq_rcode q) = Some i]" for i
    using rcode_index_total by (intro filter_cong) force+
  then show "vs_rcode vs = map (\<lambda>i. of_nat (length [q \<leftarrow> Q. rcode_index (lq_rcode q) = Some i])) [0..<RCODE_MAX_NUM]"
    using R new by (intro nth_equalityI) (simp_all add: fold_count_codes)
  have "[q \<leftarrow> Q. the (rtype_index (lq_rtype q)) = i] = [q \<leftarrow> Q. rtype_index (lq_rtype q) = Some i]" for i
    using q by (intro filter_cong) auto
  then show "vs_rtype vs = map (\<lambda>i. of_nat (length [q \<leftarrow> Q. rtype_index (lq_rtype q) = Some i])) [0..<RTYPE_MAX_NUM]"
    using R new by (intro nth_equalityI) (simp_all add: fold_count_codes)
qed

section \<open>Properties\<close>

text \<open>A log of queries from the creation of the house keeper on, with the memory limit: every
  query is counted without a failure, and the pointers, pools, heaps and trees that the code leaves
  behind stand for the abstract log: views and names in the order of use, with counts that eviction
  cuts from the end, the view and the names in use never among them. The conditions are the memory
  that the C library must give, fewer than 1024 names and addresses for each view, names that fit
  their buffers, query types of the table, and a counter of views that starts at 0.\<close>

lemma log_run_refines:
  assumes "start_ok e0 brk0 limit0 (length qs)" "queries_ok ts ps qs" "length qs < 2 ^ 31"
    and "\<forall>v. card (set (domains_of (map snd qs) v)) < 1024 \<and> card (set (ips_of (map snd qs) v)) < 1024"
  shows "\<exists>keeper keeper'. house_keeper_create e0 brk0 limit0 = Some keeper \<and> log_run keeper qs = Some keeper' \<and>
    keeper_rel False 0 keeper' (fold (log_step ts ps UPLIMIT) (map snd qs) [])"
proof -
  have "\<forall>v. card (set (domains_of (map snd qs) v)) \<le> 1023 \<and> card (set (ips_of (map snd qs) v)) \<le> 1023"
    using assms(4) by (simp add: less_Suc_eq_le [symmetric] eval_nat_numeral)
  then obtain keeper keeper' where "house_keeper_create e0 brk0 limit0 = Some keeper" "log_run keeper qs = Some keeper'"
    "keeper_rel False 0 keeper' (fold (log_step ts ps UPLIMIT) (map snd qs) [])"
    by (rule created_run [OF assms(1-3), of 1023 False]) simp_all
  then show ?thesis by blast
qed

text \<open>C3. A log that stays within the memory limit is counted exactly: for every view the tree of
  names counts each domain name as often as the queries of the view asked for it, in the order of
  the last use, and the same holds for the addresses of the clients; each code and each type is
  counted modulo \<open>2 ^ 32\<close>; and a view without queries is not found. The conditions: fewer than
  \<open>2 ^ 31\<close> queries, at most 1000 names and 1000 addresses for each view, no query above the limit
  (\<open>within_limit\<close>); each query has a view, a name and an address that fit their buffers and a type of
  the table (\<open>query_ok\<close>); the C library gives memory for all of them, and \<open>view_stats_create\<close>, which
  ends without a \<open>return\<close>, gives back its structure (\<open>env_ok\<close>); at the creation the socket opens, the
  threads start and \<open>malloc\<close> leaves 0 in the counter of the views (\<open>start_ok\<close>).\<close>

theorem log_counts:
  assumes "start_ok e0 brk0 limit0 (length qs)" "queries_ok ts ps qs" "length qs < 2 ^ 31"
    and "\<forall>v. card (set (domains_of (map snd qs) v)) \<le> ROOF \<and> card (set (ips_of (map snd qs) v)) \<le> ROOF"
    and "within_limit ts ps UPLIMIT (map snd qs) []" "length v < STATS_NODE_MAX_SIZE"
  shows "\<exists>keeper keeper'. house_keeper_create e0 brk0 limit0 = Some keeper \<and> log_run keeper qs = Some keeper' \<and>
    (if view_queries (map snd qs) v = [] then view_tree_find (hk_views keeper') v = Some NULL
     else \<exists>vs. found_view keeper' v vs \<and>
       name_model (vs_name_tree vs) (counts_of (domains_of (map snd qs) v)) (fold used (domains_of (map snd qs) v) []) \<and>
       name_model (vs_ip_tree vs) (counts_of (ips_of (map snd qs) v)) (fold used (ips_of (map snd qs) v) []) \<and>
       vs_rcode vs = map (\<lambda>i. of_nat (length [q \<leftarrow> view_queries (map snd qs) v. rcode_index (lq_rcode q) = Some i])) [0..<RCODE_MAX_NUM] \<and>
       vs_rtype vs = map (\<lambda>i. of_nat (length [q \<leftarrow> view_queries (map snd qs) v. rtype_index (lq_rtype q) = Some i])) [0..<RTYPE_MAX_NUM])"
proof -
  let ?Q = "view_queries (map snd qs) v" and ?A = "fold (log_step ts ps UPLIMIT) (map snd qs) []"
  obtain keeper keeper' where k: "house_keeper_create e0 brk0 limit0 = Some keeper" "log_run keeper qs = Some keeper'"
    "keeper_rel True 0 keeper' ?A"
    by (rule created_run [OF assms(1-4), of True]) (use assms(5) in \<open>auto simp: ROOF_def\<close>)
  have A: "map_of ?A v = (if ?Q = [] then None else Some (fold count_query_abs ?Q new_view))"
    using log_fold_view [OF assms(5), of v] by simp
  show ?thesis
  proof (cases "?Q = []")
    case True
    then show ?thesis using k(1,2) keeper_find(1) [OF k(3) assms(6)] A by auto
  next
    case False
    then obtain vs where vs: "found_view keeper' v vs" "stats_rel True vs (fold count_query_abs ?Q new_view)"
      using keeper_find(2) [OF k(3) assms(6)] A by auto
    have "\<forall>q \<in> set ?Q. rtype_index (lq_rtype q) \<noteq> None"
      using assms(2) by (fastforce simp: view_queries_def queries_ok_def query_ok_def)
    note c = counted_stats [OF vs(2) this, folded domains_of_def ips_of_def]
    show ?thesis using k(1,2) False vs(1) c by auto
  qed
qed

subsection \<open>An example\<close>

definition demo_mems :: tree_mems where
  "demo_mems = \<lparr>tm_calloc = True, tm_heap = Some (\<lambda>_. NULL), tm_tree = one_tree, tm_nvs = one_nvs, tm_nodes = big_mem,
     tm_names = big_mem, tm_lru = big_lru\<rparr>"

definition demo_vtree :: "vn_store rbtree" where
  "demo_vtree = \<lparr>rb_root = NIL, rb_count = 0, rb_walk = NIL, rb_cmp = view_compare, parent = (\<lambda>_. NIL), left = (\<lambda>_. NIL),
     right = (\<lambda>_. NIL), node_val = (\<lambda>_. NULL), color = (\<lambda>_. BLACK)\<rparr>"

definition demo_env :: env where
  "demo_env = \<lparr>env_falls_off = (\<lambda>vs. Some (Some vs)), env_malloc = True, env_names = demo_mems, env_ips = demo_mems,
     env_copy = Some (\<lambda>_. NULL), env_tree_struct = 152, env_pool_struct = 96, env_tree = demo_vtree, env_lru = big_lru,
     env_garbage = 0, env_socket = 3, env_bound = 0, env_threads = True\<rparr>"

definition demo_query :: "string \<Rightarrow> log_query" where
  "demo_query name = \<lparr>lq_view = ''v'', lq_domain = name, lq_ip = ''10.0.0.1'', lq_rtype = ''A'', lq_rcode = ''NXDOMAIN''\<rparr>"

definition demo_log :: "(env \<times> log_query) list" where
  "demo_log = [(demo_env, demo_query ''a''), (demo_env, demo_query ''b.''), (demo_env, demo_query ''a.'')]"

lemma demo_env_ok: "n \<le> 999 \<Longrightarrow> env_ok n demo_env"
  by (simp add: env_ok_def demo_env_def mems_ok_def demo_mems_def big_space)

lemma demo_start: "n \<le> 300 \<Longrightarrow> start_ok demo_env 16 10000 n"
  by (simp add: start_ok_def demo_env_def KEY_def big_space)

lemma demo_index: "rtype_index ''A'' = Some 0" "rcode_index ''NXDOMAIN'' = Some 3"
  by (simp_all add: rtype_index_def RTYPE_def rcode_index_def RCODE_def strcmp_sign)

lemma demo_query_ok: "name \<in> {''a'', ''b.'', ''a.''} \<Longrightarrow> query_ok (demo_query name)"
  by (auto simp: query_ok_def demo_query_def MAX_VIEW_LENGTH_def name_fits_def qualify_def MAX_NAME_LEN_def demo_index)

lemma demo_queries: "queries_ok 152 96 demo_log"
  using demo_query_ok demo_env_ok by (auto simp: queries_ok_def demo_log_def) (simp_all add: demo_env_def)

lemma demo_views: "view_queries (map snd demo_log) v = (if v = ''v'' then map snd demo_log else [])"
  by (simp add: view_queries_def demo_log_def demo_query_def)

lemma demo_names: "domains_of (map snd demo_log) v = (if v = ''v'' then [''a.'', ''b.'', ''a.''] else [])"
  "ips_of (map snd demo_log) v = (if v = ''v'' then [''10.0.0.1.'', ''10.0.0.1.'', ''10.0.0.1.''] else [])"
  by (simp_all add: domains_of_def ips_of_def demo_views) (simp_all add: demo_log_def demo_query_def qualify_def)

lemma demo_sizes: "\<not> UPLIMIT < log_size 152 96 [(v, a)]" if "length (va_names a) \<in> {0, 1, 2}" "length (va_ips a) \<in> {0, 1}"
  using that by (auto simp: log_size_def stats_size_def tree_size_def UPLIMIT_def sizeof_view_stats_def sizeof_heap_def
      MAX_HEAP_NODE_NUM_def sizeof_rbnode_def sizeof_node_value_def sizeof_lru_node_def STATS_NODE_MAX_SIZE_def
      sizeof_view_tree_def word_less_nat_alt unsigned_ucast_eq)

lemma demo_within: "within_limit 152 96 UPLIMIT (map snd demo_log) []"
  by (simp add: demo_log_def demo_query_def touch_view_def new_view_def log_step_def Let_def demo_sizes count_first_def
      count_view_def bump_def qualify_def)

lemma demo_cards: "card (set (domains_of (map snd demo_log) v)) \<le> 3" "card (set (ips_of (map snd demo_log) v)) \<le> 3"
  by (rule order_trans [OF card_length], simp add: demo_names)+

lemma demo_length: "length demo_log = 3"
  by (simp add: demo_log_def)

lemma log_run_refines_witness:
  "\<exists>keeper keeper'. house_keeper_create demo_env 16 10000 = Some keeper \<and> log_run keeper demo_log = Some keeper' \<and>
    keeper_rel False 0 keeper' (fold (log_step 152 96 UPLIMIT) (map snd demo_log) [])"
  by (rule log_run_refines [OF _ demo_queries])
    (simp_all add: demo_length demo_start le_less_trans [OF demo_cards(1)] le_less_trans [OF demo_cards(2)])

theorem log_counts_witness:
  "\<exists>keeper keeper'. house_keeper_create demo_env 16 10000 = Some keeper \<and> log_run keeper demo_log = Some keeper' \<and>
    (if view_queries (map snd demo_log) ''v'' = [] then view_tree_find (hk_views keeper') ''v'' = Some NULL
     else \<exists>vs. found_view keeper' ''v'' vs \<and>
       name_model (vs_name_tree vs) (counts_of (domains_of (map snd demo_log) ''v''))
         (fold used (domains_of (map snd demo_log) ''v'') []) \<and>
       name_model (vs_ip_tree vs) (counts_of (ips_of (map snd demo_log) ''v'')) (fold used (ips_of (map snd demo_log) ''v'') []) \<and>
       vs_rcode vs = map (\<lambda>i. of_nat (length [q \<leftarrow> view_queries (map snd demo_log) ''v''. rcode_index (lq_rcode q) = Some i]))
         [0..<RCODE_MAX_NUM] \<and>
       vs_rtype vs = map (\<lambda>i. of_nat (length [q \<leftarrow> view_queries (map snd demo_log) ''v''. rtype_index (lq_rtype q) = Some i]))
         [0..<RTYPE_MAX_NUM])"
  by (rule log_counts [OF _ demo_queries _ _ demo_within])
    (simp_all add: demo_length demo_start order_trans [OF demo_cards(1)] order_trans [OF demo_cards(2)]
      STATS_NODE_MAX_SIZE_def ROOF_def)

end
