(* ===== verification/Request_Props.thy ===== *)
theory Request_Props
  imports Log_Props
begin

text \<open>
  What the house keeper does between the queries: it answers the requests of its clients
  (\<open>socket_thread\<close>), empties itself, computes its rates (\<open>qps_thread\<close>), and reads the lines of the log.
\<close>

section \<open>Destruction\<close>

text \<open>Destroying a tree of views leaves no view node, tree node, statistics or node of the list allocated.\<close>

lemma destory_fold:
  assumes "distinct (map (node_val h) xs)" "inj_on f (node_val h ` set xs)"
    and "\<forall>a \<in> set xs. \<exists>nd vs. view_node_at st (node_val h a) = Some nd \<and> vn_vs nd = f (node_val h a) \<and>
      stats_at st (vn_vs nd) = Some vs \<and> view_stats_destory vs = Some ()"
    and "set xs \<subseteq> vt_tnodes st"
  shows "\<exists>st'. mfold (destory_func h) xs st = Some st' \<and> vt_brk st' = vt_brk st \<and> vt_limit st' = vt_limit st \<and>
    vt_lru_mem st' = vt_lru_mem st \<and> vt_lru st' = vt_lru st \<and> vt_tnodes st' = vt_tnodes st - set xs \<and>
    vt_nodes st' = vt_nodes st |` (- node_val h ` set xs) \<and> vt_stats st' = vt_stats st |` (- f ` node_val h ` set xs)"
  using assms
proof (induction xs arbitrary: st)
  case Nil
  then show ?case by simp
next
  case (Cons a xs)
  let ?p = "node_val h a"
  obtain nd vs where nd: "view_node_at st ?p = Some nd" "vn_vs nd = f ?p" "stats_at st (f ?p) = Some vs"
    "view_stats_destory vs = Some ()" using Cons.prems(3) by auto
  define st1 where "st1 = st\<lparr>vt_stats := (vt_stats st)(f ?p := None), vt_nodes := (vt_nodes st)(?p := None),
    vt_tnodes := vt_tnodes st - {a}\<rparr>"
  have run: "destory_func h a st = Some st1" using nd Cons.prems(4) by (simp add: destory_func_def st1_def)
  have "\<exists>nd vs. view_node_at st1 (node_val h b) = Some nd \<and> vn_vs nd = f (node_val h b) \<and>
      stats_at st1 (vn_vs nd) = Some vs \<and> view_stats_destory vs = Some ()" if b: "b \<in> set xs" for b
  proof -
    have "node_val h b \<noteq> ?p" "f (node_val h b) \<noteq> f ?p" using Cons.prems(1,2) b by (auto simp: inj_on_def image_iff)
    moreover obtain nd vs where "view_node_at st (node_val h b) = Some nd" "vn_vs nd = f (node_val h b)"
      "stats_at st (vn_vs nd) = Some vs" "view_stats_destory vs = Some ()" using Cons.prems(3) b by auto
    ultimately show ?thesis by (intro exI [of _ nd] exI [of _ vs]) (auto simp: view_node_at_def stats_at_def st1_def split: if_splits)
  qed
  moreover have "a \<notin> set xs" using Cons.prems(1) by auto
  then have "set xs \<subseteq> vt_tnodes st1" using Cons.prems(4) by (auto simp: st1_def)
  moreover have "distinct (map (node_val h) xs)" "inj_on f (node_val h ` set xs)"
    using Cons.prems(1,2) by (simp_all add: inj_on_def)
  ultimately obtain st' where st': "mfold (destory_func h) xs st1 = Some st'" "vt_brk st' = vt_brk st1" "vt_limit st' = vt_limit st1"
    "vt_lru_mem st' = vt_lru_mem st1" "vt_lru st' = vt_lru st1" "vt_tnodes st' = vt_tnodes st1 - set xs"
    "vt_nodes st' = vt_nodes st1 |` (- node_val h ` set xs)" "vt_stats st' = vt_stats st1 |` (- f ` node_val h ` set xs)"
    using Cons.IH [of st1] by blast
  have "vt_tnodes st' = vt_tnodes st - set (a # xs)" using st'(6) by (auto simp: st1_def)
  moreover have "vt_nodes st' = vt_nodes st |` (- node_val h ` set (a # xs))"
    using st'(7) by (auto simp: st1_def restrict_map_def fun_eq_iff)
  moreover have "vt_stats st' = vt_stats st |` (- f ` node_val h ` set (a # xs))"
    using st'(8) by (auto simp: st1_def restrict_map_def fun_eq_iff)
  moreover have "mfold (destory_func h) (a # xs) st = Some st'" using run st'(1) by simp
  moreover have "vt_brk st' = vt_brk st" "vt_limit st' = vt_limit st" "vt_lru_mem st' = vt_lru_mem st" "vt_lru st' = vt_lru st"
    using st'(2-5) by (simp_all add: st1_def)
  ultimately show ?case by blast
qed

lemma destory_tree:
  assumes ts: "tree_state full n t V U A"
  obtains t' where "view_tree_destory t = Some t'" "no_blocks t'" "vt_brk t' = vt_brk t" "view_room t' = view_room t"
    "brk (vt_lru_mem t') = brk (vt_lru_mem t)"
proof -
  have st: "view_state t V U" and r: "list_all2 (entry_rel full n) (views t U) A" using ts by (auto simp: tree_state_def)
  note S = view_stateD [OF st]
  obtain xs where xs: "vk.tree_inv (vt_nodes t) (vt_tree t) xs" "V = map (node_val (vt_tree t)) xs" "set xs = vt_tnodes t"
    using S(1) by (auto simp: view_index_def)
  obtain rt where rt: "rep (vt_tree t) rt" "inorder rt = xs" using xs(1) by (auto simp: vk.tree_inv_def)
  have po: "mset (postorder rt) = mset xs" using mset_postorder rt(2) by metis
  then have poV: "mset (map (node_val (vt_tree t)) (postorder rt)) = mset V" using xs(2) by (metis mset_map)
  then have d: "distinct (map (node_val (vt_tree t)) (postorder rt))" using S(10) by (metis mset_eq_imp_distinct_iff)
  have sV: "node_val (vt_tree t) ` set (postorder rt) = set V" using poV by (metis set_map set_mset_mset)
  have "\<exists>nd vs. view_node_at t p = Some nd \<and> vn_vs nd = view_at t p \<and> stats_at t (vn_vs nd) = Some vs \<and>
      view_stats_destory vs = Some ()" if p: "p \<in> set V" for p
  proof -
    obtain u where u: "(u, p) \<in> set U" using p S(3) by auto
    then have "(view_name (vt_nodes t) p, stats_of t p) \<in> set (views t U)" by (force simp: views_def)
    then obtain y where "entry_rel full n (view_name (vt_nodes t) p, stats_of t p) y"
      using r by (metis in_set_conv_nth list_all2_conv_all_nth)
    then have "view_stats_destory (stats_of t p) = Some ()" using destroy_stats_rel by (auto simp: entry_rel_def)
    then show ?thesis using S(7) [OF u]
      by (auto simp: entry_ok_def view_node_at_def view_at_def stats_at_def stats_of_def)
  qed
  then have all: "\<forall>a \<in> set (postorder rt). \<exists>nd vs. view_node_at t (node_val (vt_tree t) a) = Some nd \<and>
      vn_vs nd = view_at t (node_val (vt_tree t) a) \<and> stats_at t (vn_vs nd) = Some vs \<and> view_stats_destory vs = Some ()"
    using sV by blast
  have tn: "set (postorder rt) = vt_tnodes t" using po xs(3) by (metis set_mset_mset)
  obtain t' where t': "mfold (destory_func (vt_tree t)) (postorder rt) t = Some t'" "vt_brk t' = vt_brk t"
    "vt_limit t' = vt_limit t" "vt_lru_mem t' = vt_lru_mem t" "vt_lru t' = vt_lru t"
    and f: "vt_tnodes t' = vt_tnodes t - set (postorder rt)"
    "vt_nodes t' = vt_nodes t |` (- node_val (vt_tree t) ` set (postorder rt))"
    "vt_stats t' = vt_stats t |` (- view_at t ` node_val (vt_tree t) ` set (postorder rt))"
    using destory_fold [OF d S(8) [folded sV] all] tn by auto
  have "dom (vt_nodes t) = set V" "dom (vt_stats t) = view_at t ` set V" using S(14) st by (simp_all add: view_state_def)
  then have none: "vt_tnodes t' = {}" "vt_nodes t' = Map.empty" "vt_stats t' = Map.empty"
    using f unfolding sV by (simp_all add: tn) (auto simp: restrict_map_def fun_eq_iff dom_def)
  have "rb_root (vt_tree t) = ptr rt" using rt(1) by (simp add: rep_def)
  then have "rbtree_destory (vt_tree t) (Some (destory_func (vt_tree t))) t = Some t'"
    using delete_node_fold [of "vt_tree t" rt "[]" "destory_func (vt_tree t)" t] rt(1) t'(1) by (simp add: rbtree_destory_def)
  moreover obtain mem where mem: "lru_destroy_loop (vt_lru_mem t) (header (vt_lru t)) = Some mem"
    "nodes mem = nodes (vt_lru_mem t) |` (- (fst ` set U))" "brk mem = brk (vt_lru_mem t)" "limit mem = limit (vt_lru_mem t)"
    using S(2) lru_destroy_rep unfolding lru_rep_def by blast
  ultimately have run: "view_tree_destory t = Some (t'\<lparr>vt_lru_mem := mem\<rparr>)"
    using t'(4,5) by (simp add: view_tree_destory_def lru_list_destroy_def)
  have "nodes mem = Map.empty" using mem(2) S(15) by (auto simp: restrict_map_def fun_eq_iff dom_def)
  then have "no_blocks (t'\<lparr>vt_lru_mem := mem\<rparr>)" using none by (simp add: no_blocks_def)
  then show thesis
    by (rule that [OF run]) (use t'(2,3) mem(3,4) in \<open>simp_all add: view_room_def lru_room_def\<close>)
qed

lemma clear_stats_ok:
  assumes k: "keeper_rel full n keeper A" and env: "env_malloc e"
  obtains keeper' old where "house_keeper_clear_stats e keeper = Some keeper'" "env_garbage e = 0 \<longrightarrow> keeper_rel full' n keeper' []"
    "hk_mem_uplimit keeper' = hk_mem_uplimit keeper" "no_blocks (hk_views keeper')"
    "view_tree_destory (hk_views keeper) = Some old" "no_blocks old"
proof -
  obtain V U where ts: "tree_state full n (hk_views keeper) V U A" using k by (auto simp: keeper_rel_def)
  then have st: "view_state (hk_views keeper) V U" by (simp add: tree_state_def)
  obtain t' where t': "view_tree_destory (hk_views keeper) = Some t'" "no_blocks t'" "vt_brk t' = vt_brk (hk_views keeper)"
    "view_room t' = view_room (hk_views keeper)" "brk (vt_lru_mem t') = brk (vt_lru_mem (hk_views keeper))"
    by (rule destory_tree [OF ts])
  have "lru_heap_ok (vt_lru_mem (hk_views keeper))" using view_stateD(2) [OF st] by (simp add: lru_rep_def)
  then have b: "0 < brk (vt_lru_mem t')" "KEY < vt_brk t'" "3 * n \<le> view_room t'"
    using ts t'(3-5) view_stateD(5) [OF st] by (auto simp: tree_state_def lru_heap_ok_def)
  obtain t where t: "view_tree_create True view_compare (env_tree e) (env_garbage e) t' = Some t" "no_blocks t"
    "env_garbage e = 0 \<longrightarrow> tree_state full' n t [] [] []"
    by (rule created_tree [OF t'(2) b])
  have "house_keeper_clear_stats e keeper = Some (keeper\<lparr>hk_views := t\<rparr>)"
    using t(1) t'(1) env by (simp add: house_keeper_clear_stats_def)
  moreover have "env_garbage e = 0 \<longrightarrow> keeper_rel full' n (keeper\<lparr>hk_views := t\<rparr>) []"
    using t(3) by (auto simp: keeper_rel_def)
  ultimately show thesis by (rule that [OF _ _ _ _ t'(1,2)]) (use t(2) in simp_all)
qed

section \<open>The names of the views\<close>

lemma views_loop:
  assumes "\<forall>a \<in> set xs. \<exists>nd. view_node_at t (node_val (vt_tree t) a) = Some nd" "int (length acc + length xs) \<le> vt_count t"
  shows "mfold (views_body t) xs acc =
    Some (acc @ [s \<leftarrow> map (\<lambda>a. view_name (vt_nodes t) (node_val (vt_tree t) a)) xs. s \<noteq> []])"
  using assms
proof (induction xs arbitrary: acc)
  case Nil
  then show ?case by simp
next
  case (Cons a xs)
  obtain nd where nd: "view_node_at t (node_val (vt_tree t) a) = Some nd" using Cons.prems(1) by auto
  then have "view_name (vt_nodes t) (node_val (vt_tree t) a) = vn_name nd"
    by (simp add: view_node_at_def view_name_def split: if_splits)
  then show ?case
    using nd Cons.prems Cons.IH [of acc] Cons.IH [of "acc @ [vn_name nd]"] by (auto simp: views_body_def guard_def)
qed

lemma strict_sorted_names:
  fixes xs :: "string list"
  assumes "sorted_wrt (<) xs"
  shows "[s \<leftarrow> xs. s \<noteq> []] = sorted_list_of_set (set xs - {[]})"
proof -
  have "sorted_wrt (<) [s \<leftarrow> xs. s \<noteq> []]" using assms by (rule sorted_wrt_filter)
  then show ?thesis
    by (intro sorted_distinct_set_unique) (auto simp: strict_sorted_iff)
qed

lemma all_views_ok:
  assumes "keeper_rel full n keeper A"
  shows "return_all_views pack keeper =
    Some (pack ((STATS_REPLY__INIT ''views'')\<lparr>r_name := map Some (sorted_list_of_set (fst ` set A - {[]}))\<rparr>))"
proof -
  let ?t = "hk_views keeper"
  obtain V U where st: "view_state ?t V U" and r: "list_all2 (entry_rel full n) (views ?t U) A"
    using assms by (auto simp: keeper_rel_def tree_state_def)
  note S = view_stateD [OF st]
  obtain xs where xs: "vk.tree_inv (vt_nodes ?t) (vt_tree ?t) xs" "V = map (node_val (vt_tree ?t)) xs"
    using S(1) by (auto simp: view_index_def)
  obtain rt where rt: "rep (vt_tree ?t) rt" "inorder rt = xs" using xs(1) by (auto simp: vk.tree_inv_def)
  have nd: "\<exists>nd. view_node_at ?t (node_val (vt_tree ?t) a) = Some nd" if "a \<in> set xs" for a
  proof -
    have "node_val (vt_tree ?t) a \<in> set V" using that xs(2) by simp
    then obtain u where "entry_ok ?t u (node_val (vt_tree ?t) a)" using S(3,7) by fastforce
    then show ?thesis by (auto simp: entry_ok_def view_node_at_def)
  qed
  have names: "map (\<lambda>a. view_name (vt_nodes ?t) (node_val (vt_tree ?t) a)) xs = map (view_name (vt_nodes ?t)) V"
    using xs(2) by simp
  have "length xs = length U" using S(4) xs(2) by simp
  then have "rbtree_for (vt_tree ?t) (views_body ?t) [] = Some [s \<leftarrow> map (view_name (vt_nodes ?t)) V. s \<noteq> []]"
    using for_ok [OF rt(1), of "views_body ?t" "[]"] views_loop [of xs ?t "[]"] nd S(6) rt(2) names by simp
  moreover have "sorted_wrt (<) (map (view_name (vt_nodes ?t)) V)"
    using view_indexD(1) [OF S(1)] by (simp add: sorted_wrt_map)
  moreover have "set (map (view_name (vt_nodes ?t)) V) = fst ` set A"
    using entries_names [OF r] views_names [of ?t U] S(3) by (metis list.set_map)
  ultimately show ?thesis by (simp add: return_all_views_def strict_sorted_names)
qed

section \<open>Replies\<close>

lemma nonzero_loop_zip: "length xs = length ps \<Longrightarrow> nonzero_loop xs ps = [(p, a) \<leftarrow> zip ps xs. a \<noteq> 0]"
  by (induction xs ps rule: list_induct2) auto

definition request :: "string \<Rightarrow> string \<Rightarrow> int \<Rightarrow> stats_request option" where
  "request key v topn = Some \<lparr>q_key = key, q_view = v, q_topn = topn\<rparr>"

lemma request_found:
  assumes "found_view keeper v vs"
  shows "handle_request pack show_f e keeper (request key v topn) =
    (let topn = (if topn = 0 then 1000 else topn)
     in if key = ''domaintopn'' then map_option (Pair keeper) (view_stats_name_topn pack (env_copy e) vs topn)
        else if key = ''iptopn'' then map_option (Pair keeper) (view_stats_ip_topn pack (env_copy e) vs topn)
        else if key = ''rcode'' then Some (keeper, Some (view_stats_get_rcode pack vs))
        else if key = ''rtype'' then Some (keeper, Some (view_stats_get_rtype pack vs))
        else if key = ''qps'' then map_option (\<lambda>r. (keeper, Some r)) (view_stats_get_qps show_f pack vs)
        else if key = ''success_rate'' then map_option (\<lambda>r. (keeper, Some r)) (view_stats_get_success_rate show_f pack vs)
        else if key = ''flush'' then map_option (\<lambda>(k, r). (k, Some r)) (flush_stats pack e keeper)
        else Some (keeper, None))"
proof -
  obtain p nd where "view_tree_find (hk_views keeper) v = Some p" "p \<noteq> NULL"
    "view_node_at (hk_views keeper) p = Some nd" "stats_at (hk_views keeper) (vn_vs nd) = Some vs"
    using assms by (auto simp: found_view_def)
  then show ?thesis
    by (simp add: handle_request_def request_def Let_def strcmp_sign map_option_case split: option.split)
qed

lemma request_missing:
  assumes "view_tree_find (hk_views keeper) v = Some NULL"
  shows "handle_request pack show_f e keeper (request key v topn) =
    (if key = ''views'' then map_option (\<lambda>r. (keeper, Some r)) (return_all_views pack keeper)
     else if key = ''flush'' then map_option (\<lambda>(k, r). (k, Some r)) (flush_stats pack e keeper)
     else Some (keeper, Some (view_not_found pack)))"
  using assms by (simp add: handle_request_def request_def Let_def strcmp_sign map_option_case split: option.split)

section \<open>The statistics thread\<close>

text \<open>The growth of a counter from \<open>a\<close> to \<open>b\<close>, and what a round makes of the statistics.\<close>

definition growth :: "u32 \<Rightarrow> u32 \<Rightarrow> rat" where
  "growth a b = of_int ((int (unat b) - int (unat a)) mod 2 ^ 32 - (if b < a then 1 else 0))"

definition rated :: "(rat \<Rightarrow> rat) \<Rightarrow> view_stats \<Rightarrow> view_stats" where
  "rated fl vs = vs\<lparr>vs_qps := fl (growth (vs_last_count vs) (vs_count vs) / 10),
     vs_last_count := vs_count vs,
     vs_success_rate := if vs_count vs = 0 then 1 else fl (growth (vs_rcode vs ! 2) (vs_count vs) / of_nat (unat (vs_count vs)))\<rparr>"

lemma absolute_diff_growth: "of_nat (unat (absolute_diff a b)) = growth a b"
proof -
  have ab: "int (unat a) < 2 ^ 32" "int (unat b) < 2 ^ 32" "0 \<le> int (unat a)" "0 \<le> int (unat b)"
    using unsigned_less [of a] unsigned_less [of b] by simp_all
  have "int (unat (absolute_diff a b)) = (int (unat b) - int (unat a)) mod 2 ^ 32 - (if b < a then 1 else 0)"
  proof (cases "a \<le> b")
    case True
    then have "unat a \<le> unat b" by (simp add: word_le_nat_alt)
    moreover have "unat (b - a) = unat b - unat a" using True by (simp add: unat_sub)
    moreover have "(int (unat b) - int (unat a)) mod 2 ^ 32 = int (unat b) - int (unat a)"
      using calculation(1) ab by (intro mod_pos_pos_trivial) linarith+
    moreover have "\<not> b < a" using True by simp
    ultimately show ?thesis using True by (simp only: absolute_diff_def if_True if_False of_nat_diff)
  next
    case False
    then have lt: "unat b < unat a" by (simp add: word_le_nat_alt)
    have "int (unat (- 1 - a + b)) = (2 ^ 32 - 1 - int (unat a) + int (unat b)) mod 2 ^ 32"
      by (simp add: uint_word_ariths mod_simps)
    also have "\<dots> = 2 ^ 32 - 1 - int (unat a) + int (unat b)"
      using lt ab by (intro mod_pos_pos_trivial) linarith+
    finally have d: "int (unat (- 1 - a + b)) = 2 ^ 32 - 1 - int (unat a) + int (unat b)" .
    have "(int (unat b) - int (unat a)) mod 2 ^ 32 = int (unat b) - int (unat a) + 2 ^ 32"
      using lt ab by (subst mod_add_self2 [symmetric], intro mod_pos_pos_trivial) linarith+
    moreover have "b < a" using False by simp
    ultimately show ?thesis using False d by (simp only: absolute_diff_def if_True if_False)
  qed
  then show ?thesis unfolding growth_def by (metis of_int_of_nat_eq)
qed

lemma qps_body_rated:
  assumes "view_node_at t (node_val h a) = Some nd" "stats_at t (vn_vs nd) = Some vs" "2 < length (vs_rcode vs)"
  shows "qps_body fl h a t = Some (if vn_name nd = [] then t else set_stats (vn_vs nd) (rated fl vs) t)"
  using assms by (simp add: qps_body_def Let_def absolute_diff_growth [simplified] rated_def)

lemma view_set_any:
  assumes st: "view_state t V U" and p: "p \<in> set V"
  shows "view_state (set_stats (view_at t p) s t) V U"
    and "q \<in> set V \<Longrightarrow> stats_of (set_stats (view_at t p) s t) q = (if q = p then s else stats_of t q)"
proof -
  note S = view_stateD [OF st]
  let ?t = "set_stats (view_at t p) s t"
  have at: "view_at ?t = view_at t" by (simp add: view_at_def set_stats_def fun_eq_iff)
  have f: "vt_stats ?t x = (if x = view_at t p then Some s else vt_stats t x)" for x by (simp add: set_stats_def)
  have "entry_ok ?t w q" if "(w, q) \<in> set U" for w q
    using entry_ok_mono [OF S(7) [OF that], of ?t] by (auto simp: set_stats_def)
  then have "\<forall>(w, q) \<in> set U. entry_ok ?t w q" by blast
  then have "view_core ?t V U" using view_state_core [OF st] at unfolding view_core_def by (simp add: set_stats_def)
  moreover have "dom (vt_stats ?t) = view_at t ` set V" using st p by (auto simp: view_state_def set_stats_def)
  ultimately show "view_state ?t V U" using at by (simp add: view_state_def)
  show "stats_of ?t q = (if q = p then s else stats_of t q)" if "q \<in> set V"
    using inj_on_eq_iff [OF S(8) that p] by (simp add: stats_of_def at f)
qed

lemma rates_fold:
  assumes "view_state t V U" "node_val h ` set ys \<subseteq> set V" "distinct (map (node_val h) ys)"
    "\<forall>p \<in> set V. 2 < length (vs_rcode (stats_of t p))"
  shows "\<exists>t'. mfold (qps_body fl h) ys t = Some t' \<and> view_state t' V U \<and> vt_nodes t' = vt_nodes t \<and>
    (\<forall>p \<in> set V. stats_of t' p =
       (if p \<in> node_val h ` set ys \<and> view_name (vt_nodes t) p \<noteq> [] then rated fl (stats_of t p) else stats_of t p))"
  using assms
proof (induction ys arbitrary: t)
  case Nil
  then show ?case by simp
next
  case (Cons a ys)
  note S = view_stateD [OF Cons.prems(1)]
  define p where "p = node_val h a"
  have p: "p \<in> set V" "p \<notin> node_val h ` set ys" using Cons.prems(2,3) by (auto simp: p_def)
  then obtain u where "entry_ok t u p" using S(3,7) by fastforce
  then obtain nd where nd: "view_node_at t p = Some nd" "vn_vs nd = view_at t p" "stats_at t (view_at t p) = Some (stats_of t p)"
    "view_name (vt_nodes t) p = vn_name nd"
    by (auto simp: entry_ok_def view_node_at_def view_at_def stats_at_def stats_of_def view_name_def)
  define t1 where "t1 = (if vn_name nd = [] then t else set_stats (view_at t p) (rated fl (stats_of t p)) t)"
  have run: "qps_body fl h a t = Some t1"
    using qps_body_rated [of t h a nd "stats_of t p" fl] nd p Cons.prems(4) by (simp add: p_def t1_def)
  have t1: "view_state t1 V U" "vt_nodes t1 = vt_nodes t"
    "q \<in> set V \<Longrightarrow> stats_of t1 q = (if q = p \<and> vn_name nd \<noteq> [] then rated fl (stats_of t q) else stats_of t q)" for q
    using Cons.prems(1) view_set_any [OF Cons.prems(1) p(1)] by (auto simp: t1_def set_stats_def)
  have "\<forall>q \<in> set V. 2 < length (vs_rcode (stats_of t1 q))" using t1(3) Cons.prems(4) by (simp add: rated_def)
  then obtain t' where t': "mfold (qps_body fl h) ys t1 = Some t'" "view_state t' V U" "vt_nodes t' = vt_nodes t1"
    "\<forall>q \<in> set V. stats_of t' q =
       (if q \<in> node_val h ` set ys \<and> view_name (vt_nodes t1) q \<noteq> [] then rated fl (stats_of t1 q) else stats_of t1 q)"
    using Cons.IH [OF t1(1)] Cons.prems(2,3) by auto
  have "\<forall>q \<in> set V. stats_of t' q =
       (if q \<in> node_val h ` set (a # ys) \<and> view_name (vt_nodes t) q \<noteq> [] then rated fl (stats_of t q) else stats_of t q)"
    using t'(4) t1(2,3) p(2) nd(4) by (auto simp: p_def [symmetric])
  moreover have "mfold (qps_body fl h) (a # ys) t = Some t'" using run t'(1) by simp
  ultimately show ?case using t'(2,3) t1(2) by metis
qed

lemma rates_loop:
  assumes "view_state t V U" "\<forall>(v, vs) \<in> set (views t U). 2 < length (vs_rcode vs)"
  obtains t' where "rbtree_for (vt_tree t) (qps_body fl (vt_tree t)) t = Some t'" "view_state t' V U"
    "views t' U = map (\<lambda>(v, vs). (v, if v = [] then vs else rated fl vs)) (views t U)"
proof -
  note S = view_stateD [OF assms(1)]
  obtain xs where xs: "vk.tree_inv (vt_nodes t) (vt_tree t) xs" "V = map (node_val (vt_tree t)) xs"
    using S(1) by (auto simp: view_index_def)
  obtain rt where rt: "rep (vt_tree t) rt" "inorder rt = xs" using xs(1) by (auto simp: vk.tree_inv_def)
  have "\<forall>p \<in> set V. 2 < length (vs_rcode (stats_of t p))" using assms(2) S(3) by (force simp: views_def)
  then obtain t' where t': "mfold (qps_body fl (vt_tree t)) xs t = Some t'" "view_state t' V U" "vt_nodes t' = vt_nodes t"
    "\<forall>p \<in> set V. stats_of t' p = (if view_name (vt_nodes t) p \<noteq> [] then rated fl (stats_of t p) else stats_of t p)"
    using rates_fold [OF assms(1), of "vt_tree t" xs fl] xs(2) S(10) by auto
  have "views t' U = map (\<lambda>(v, vs). (v, if v = [] then vs else rated fl vs)) (views t U)"
    using t'(3,4) S(3) by (auto simp: views_def view_name_def)
  then show thesis using that t'(1,2) for_ok [OF rt(1), of "qps_body fl (vt_tree t)" t] rt(2) by simp
qed

lemma qps_body_idle:
  assumes "view_node_at t (node_val h a) = Some nd" "stats_at t (vn_vs nd) = Some vs" "stats_rel full vs b" "fl 0 = 0"
  shows "qps_body fl h a t = Some t"
proof -
  note R = assms(3) [unfolded stats_rel_def]
  have d: "absolute_diff 0 0 = 0" by (simp add: absolute_diff_def)
  have c: "2 < length (vs_rcode vs)" using R by (simp add: RCODE_MAX_NUM_def)
  have e: "vs\<lparr>vs_qps := 0, vs_last_count := 0, vs_success_rate := 1\<rparr> = vs" using R by simp
  have "set_stats (vn_vs nd) vs t = t"
    using assms(2) by (simp add: set_stats_def stats_at_def fun_upd_idem split: if_splits)
  then have "set_stats (vn_vs nd) (vs\<lparr>vs_qps := 0, vs_last_count := 0, vs_success_rate := 1\<rparr>) t = t" by (simp only: e)
  then show ?thesis
    using assms(1,2,4) R c d by (simp add: qps_body_def Let_def)
qed

lemma qps_round_idle:
  assumes k: "keeper_rel full n keeper A" and fl: "fl 0 = 0"
  shows "qps_round fl keeper = Some keeper"
proof -
  let ?t = "hk_views keeper"
  obtain V U where st: "view_state ?t V U" and r: "list_all2 (entry_rel full n) (views ?t U) A"
    using k by (auto simp: keeper_rel_def tree_state_def)
  note S = view_stateD [OF st]
  obtain xs where xs: "vk.tree_inv (vt_nodes ?t) (vt_tree ?t) xs" "V = map (node_val (vt_tree ?t)) xs"
    using S(1) by (auto simp: view_index_def)
  obtain rt where rt: "rep (vt_tree ?t) rt" "inorder rt = xs" using xs(1) by (auto simp: vk.tree_inv_def)
  have body: "qps_body fl (vt_tree ?t) a ?t = Some ?t" if a: "a \<in> set xs" for a
  proof -
    let ?p = "node_val (vt_tree ?t) a"
    obtain u where u: "(u, ?p) \<in> set U" using a xs(2) S(3) by (metis (no_types) imageE image_eqI list.set_map prod.collapse)
    then have "(view_name (vt_nodes ?t) ?p, stats_of ?t ?p) \<in> set (views ?t U)" by (force simp: views_def)
    then obtain y where "entry_rel full n (view_name (vt_nodes ?t) ?p, stats_of ?t ?p) y"
      using r by (metis in_set_conv_nth list_all2_conv_all_nth)
    then have rel: "stats_rel full (stats_of ?t ?p) (snd y)" by (simp add: entry_rel_def)
    obtain nd where n: "view_node_at ?t ?p = Some nd" "stats_at ?t (vn_vs nd) = Some (stats_of ?t ?p)"
      using S(7) [OF u] by (auto simp: entry_ok_def view_node_at_def view_at_def stats_at_def stats_of_def)
    show ?thesis using fl by (rule qps_body_idle [OF n rel])
  qed
  have "mfold (qps_body fl (vt_tree ?t)) xs ?t = Some ?t" using body by (induction xs) auto
  then show ?thesis using for_ok [OF rt(1), of "qps_body fl (vt_tree ?t)" ?t] rt(2) by (simp add: qps_round_def)
qed

section \<open>Properties\<close>

text \<open>The reply with the top names, over the list of the names that were counted.\<close>

lemma topn_counts:
  assumes "counted_tree t (counts_of ks)" "0 \<le> topn"
  obtains names where "view_stats_result pack (Some junk) t key topn =
      Some (Some (pack ((STATS_REPLY__INIT key)\<lparr>r_name := map Some names, r_count := map (\<lambda>k. of_nat (count_list ks k)) names\<rparr>)))"
    and "length names = min (nat topn) (card (set ks))" "distinct names" "set names \<subseteq> set ks"
    and "nv_ordered (nt_nvs t) (nt_heap t) \<longrightarrow> sorted_wrt (\<lambda>a b. count_list ks b \<le> count_list ks a) names \<and>
      (\<forall>k \<in> set ks - set names. \<forall>a \<in> set names. count_list ks k \<le> count_list ks a)"
proof -
  have d: "dom (counts_of ks) = set ks" by (auto simp: counts_of_def count_list_0_iff split: if_splits)
  have c: "the (counts_of ks k) = count_list ks k" if "k \<in> set ks" for k
    using that by (simp add: counts_of_def count_list_0_iff)
  have "\<not> topn < 0" using assms(2) by simp
  with topn_reply [OF assms(1), of topn pack junk key, unfolded d]
  obtain ns where ns: "view_stats_result pack (Some junk) t key topn =
      Some (Some (pack ((STATS_REPLY__INIT key)\<lparr>r_name := map Some ns, r_count := map (\<lambda>k. of_nat (the (counts_of ks k))) ns\<rparr>)))"
    "length ns = min (nat topn) (card (set ks))" "distinct ns" "set ns \<subseteq> set ks"
    and top: "nv_ordered (nt_nvs t) (nt_heap t) \<Longrightarrow> sorted_wrt (\<lambda>a b. the (counts_of ks b) \<le> the (counts_of ks a)) ns \<and>
      (\<forall>k \<in> set ks - set ns. \<forall>a \<in> set ns. the (counts_of ks k) \<le> the (counts_of ks a))"
    by (simp only: if_False) blast
  have m: "map (\<lambda>k. of_nat (the (counts_of ks k))) ns = map (\<lambda>k. of_nat (count_list ks k) :: u32) ns"
    using ns(4) c by auto
  show thesis
  proof (rule that [OF _ ns(2-4)], goal_cases)
    case 1
    then show ?case using ns(1) by (simp only: m)
  next
    case 2
    show ?case
    proof
      assume o: "nv_ordered (nt_nvs t) (nt_heap t)"
      have "sorted_wrt (\<lambda>a b. count_list ks b \<le> count_list ks a) ns"
        by (rule sorted_wrt_mono_rel [OF _ conjunct1 [OF top [OF o]]]) (use ns(4) c in \<open>metis subsetD\<close>)
      moreover have "count_list ks k \<le> count_list ks a" if "k \<in> set ks - set ns" "a \<in> set ns" for k a
        using top [OF o] that c ns(4) by fastforce
      ultimately show "sorted_wrt (\<lambda>a b. count_list ks b \<le> count_list ks a) ns \<and>
          (\<forall>k \<in> set ks - set ns. \<forall>a \<in> set ns. count_list ks k \<le> count_list ks a)" by blast
    qed
  qed
qed

text \<open>C6. The top names after a log that stays within the memory limit: a request for \<open>topn\<close> names of
  a view (1000 when it is 0) is answered with that many different domain names of the queries of the
  view, or with all when there are fewer, each with the number of queries that asked for it. When the
  heap of the view is in order the counts descend and no name that was left out was asked for more
  often than one in the reply. The state does not change. The conditions are those of \<open>log_counts\<close>, and a
  \<open>topn\<close> that is not negative.\<close>

theorem log_topn_reply:
  assumes "start_ok e0 brk0 limit0 (length qs)" "queries_ok ts ps qs" "length qs < 2 ^ 31"
    and "\<forall>v. card (set (domains_of (map snd qs) v)) \<le> ROOF \<and> card (set (ips_of (map snd qs) v)) \<le> ROOF"
    and "within_limit ts ps UPLIMIT (map snd qs) []" "length v < STATS_NODE_MAX_SIZE"
    and "view_queries (map snd qs) v \<noteq> []" "env_copy e = Some junk" "0 \<le> topn"
  shows "\<exists>keeper keeper' vs names. house_keeper_create e0 brk0 limit0 = Some keeper \<and> log_run keeper qs = Some keeper' \<and>
    handle_request pack show_f e keeper' (request ''domaintopn'' v topn) =
      Some (keeper', Some (pack ((STATS_REPLY__INIT ''domaintopn'')\<lparr>r_name := map Some names,
        r_count := map (\<lambda>k. of_nat (count_list (domains_of (map snd qs) v) k)) names\<rparr>))) \<and>
    distinct names \<and> set names \<subseteq> set (domains_of (map snd qs) v) \<and>
    length names = min (if topn = 0 then 1000 else nat topn) (card (set (domains_of (map snd qs) v))) \<and>
    found_view keeper' v vs \<and>
    (nv_ordered (nt_nvs (vs_name_tree vs)) (nt_heap (vs_name_tree vs)) \<longrightarrow>
      sorted_wrt (\<lambda>a b. count_list (domains_of (map snd qs) v) b \<le> count_list (domains_of (map snd qs) v) a) names \<and>
      (\<forall>k \<in> set (domains_of (map snd qs) v) - set names. \<forall>a \<in> set names.
        count_list (domains_of (map snd qs) v) k \<le> count_list (domains_of (map snd qs) v) a))"
proof -
  let ?Q = "view_queries (map snd qs) v" and ?ks = "domains_of (map snd qs) v"
  let ?A = "fold (log_step ts ps UPLIMIT) (map snd qs) []" and ?n = "if topn = 0 then 1000 else topn"
  obtain keeper keeper' where k: "house_keeper_create e0 brk0 limit0 = Some keeper" "log_run keeper qs = Some keeper'"
    "keeper_rel True 0 keeper' ?A"
    by (rule created_run [OF assms(1-4), of True]) (use assms(5) in \<open>auto simp: ROOF_def\<close>)
  have "map_of ?A v = Some (fold count_query_abs ?Q new_view)"
    using log_fold_view [OF assms(5), of v] assms(7) by simp
  then obtain vs where vs: "found_view keeper' v vs" "stats_rel True vs (fold count_query_abs ?Q new_view)"
    using keeper_find(2) [OF k(3) assms(6)] by blast
  have names: "map_of (va_names (fold count_query_abs ?Q new_view)) = counts_of ?ks"
    by (simp add: fold_count_names fold_bump new_view_def fold_seen_counts domains_of_def)
  have ct: "counted_tree (vs_name_tree vs) (counts_of ?ks)"
    using vs(2) names by (fastforce simp: stats_rel_def tree_rel_def counted_tree_def)
  have n: "0 \<le> ?n" "nat ?n = (if topn = 0 then 1000 else nat topn)" using assms(9) by simp_all
  obtain ns where ns: "view_stats_result pack (Some junk) (vs_name_tree vs) ''domaintopn'' ?n =
      Some (Some (pack ((STATS_REPLY__INIT ''domaintopn'')\<lparr>r_name := map Some ns, r_count := map (\<lambda>k. of_nat (count_list ?ks k)) ns\<rparr>)))"
    and rest: "length ns = min (nat ?n) (card (set ?ks))" "distinct ns" "set ns \<subseteq> set ?ks"
    "nv_ordered (nt_nvs (vs_name_tree vs)) (nt_heap (vs_name_tree vs)) \<longrightarrow>
      sorted_wrt (\<lambda>a b. count_list ?ks b \<le> count_list ?ks a) ns \<and>
      (\<forall>k \<in> set ?ks - set ns. \<forall>a \<in> set ns. count_list ?ks k \<le> count_list ?ks a)"
    by (rule topn_counts [OF ct n(1)])
  have "handle_request pack show_f e keeper' (request ''domaintopn'' v topn) =
      Some (keeper', Some (pack ((STATS_REPLY__INIT ''domaintopn'')\<lparr>r_name := map Some ns,
        r_count := map (\<lambda>k. of_nat (count_list ?ks k)) ns\<rparr>)))"
    using ns assms(8) by (simp add: request_found [OF vs(1)] Let_def view_stats_name_topn_def)
  then show ?thesis using k(1,2) rest vs(1) unfolding n(2) by blast
qed

text \<open>The reply that lists the nonzero counters of a table of names.\<close>

definition codes_reply :: "string \<Rightarrow> string option list \<Rightarrow> u32 list \<Rightarrow> stats_reply" where
  "codes_reply key names counts =
     (let shown = [(p, c) \<leftarrow> zip names counts. c \<noteq> 0]
      in (STATS_REPLY__INIT key)\<lparr>r_name := map fst shown, r_count := map snd shown\<rparr>)"

lemma codes_result:
  assumes "stats_rel full vs a"
  shows "view_stats_get_rcode pack vs = pack (codes_reply ''rcode'' RCODE (va_rcode a))"
    and "view_stats_get_rtype pack vs = pack (codes_reply ''rtype'' RTYPE (va_rtype a))"
  using assms
  by (simp_all add: stats_rel_def view_stats_get_rcode_def view_stats_get_rtype_def view_stats_result1_def codes_reply_def
      Let_def strcmp_sign nonzero_loop_zip RCODE_def RTYPE_def RCODE_MAX_NUM_def RTYPE_MAX_NUM_def)

lemma rates_result:
  assumes "stats_rel full vs a" "length (show_f 0) < 16" "length (show_f 1) < 16"
  shows "view_stats_get_qps show_f pack vs = Some (pack ((STATS_REPLY__INIT ''qps'')\<lparr>r_value := 0, r_maybe := Some (show_f 0)\<rparr>))"
    and "view_stats_get_success_rate show_f pack vs =
      Some (pack ((STATS_REPLY__INIT ''success_rate'')\<lparr>r_value := 1, r_maybe := Some (show_f 1)\<rparr>))"
  using assms
  by (simp_all add: stats_rel_def view_stats_get_qps_def view_stats_get_success_rate_def view_stats_result2_def strcpy_buf_def)

definition known_keys :: "string set" where
  "known_keys = {''domaintopn'', ''iptopn'', ''rcode'', ''rtype'', ''qps'', ''success_rate'', ''flush''}"

text \<open>C7. The replies of a house keeper that stands for the abstract log \<open>A\<close>, which they do not
  change. A view that was not seen is answered with the sorted names of all views for the key
  \<open>views\<close> and with the error otherwise. A view that was seen is answered with its nonzero counters
  and their names, with the rates 0 and 1 whatever was counted, and not at all for another key.\<close>

theorem request_replies:
  assumes "keeper_rel full n keeper A" "length v < STATS_NODE_MAX_SIZE"
    and "length (show_f 0) < 16" "length (show_f 1) < 16"
  shows "case map_of A v of
      None \<Rightarrow> handle_request pack show_f e keeper (request ''views'' v topn) =
          Some (keeper, Some (pack ((STATS_REPLY__INIT ''views'')\<lparr>r_name := map Some (sorted_list_of_set (fst ` set A - {[]}))\<rparr>))) \<and>
        (key \<noteq> ''views'' \<and> key \<noteq> ''flush'' \<longrightarrow>
          handle_request pack show_f e keeper (request key v topn) =
            Some (keeper, Some (pack ((STATS_REPLY__INIT ''error'')\<lparr>r_maybe := Some ''view not find''\<rparr>))))
    | Some a \<Rightarrow> handle_request pack show_f e keeper (request ''rcode'' v topn) =
          Some (keeper, Some (pack (codes_reply ''rcode'' RCODE (va_rcode a)))) \<and>
        handle_request pack show_f e keeper (request ''rtype'' v topn) =
          Some (keeper, Some (pack (codes_reply ''rtype'' RTYPE (va_rtype a)))) \<and>
        handle_request pack show_f e keeper (request ''qps'' v topn) =
          Some (keeper, Some (pack ((STATS_REPLY__INIT ''qps'')\<lparr>r_value := 0, r_maybe := Some (show_f 0)\<rparr>))) \<and>
        handle_request pack show_f e keeper (request ''success_rate'' v topn) =
          Some (keeper, Some (pack ((STATS_REPLY__INIT ''success_rate'')\<lparr>r_value := 1, r_maybe := Some (show_f 1)\<rparr>))) \<and>
        (key \<notin> known_keys \<longrightarrow> handle_request pack show_f e keeper (request key v topn) = Some (keeper, None))"
proof (cases "map_of A v")
  case None
  then show ?thesis
    using keeper_find(1) [OF assms(1,2)] all_views_ok [OF assms(1), of pack]
    by (simp add: request_missing view_not_found_def)
next
  case (Some a)
  then obtain vs where vs: "found_view keeper v vs" "stats_rel full vs a"
    using keeper_find(2) [OF assms(1,2)] by blast
  note eq = codes_result [OF vs(2)] rates_result [OF vs(2) assms(3,4)]
  show ?thesis
    using Some by (simp add: request_found [OF vs(1)] Let_def eq known_keys_def)
qed

text \<open>C8. A flush, asked for with or without a view that was seen, is answered with success. It destroys
  the old tree of views without a fault, with the pools of its statistics, and frees each view node, each tree node, each
  structure of statistics and each node of the list: none of these blocks is left, before or after the
  new tree is made. The new house keeper has no views and is ready for a log when \<open>malloc\<close> left 0 in
  the counter of the new tree, which the code does not set. Destroying the house keeper does not fault
  either.\<close>

theorem flush_empties:
  assumes "keeper_rel full n keeper A" "length v < STATS_NODE_MAX_SIZE" "env_malloc e"
  shows "\<exists>keeper' old. handle_request pack show_f e keeper (request ''flush'' v topn) =
      Some (keeper', Some (pack ((STATS_REPLY__INIT ''flush'')\<lparr>r_maybe := Some ''success''\<rparr>))) \<and>
    view_tree_destory (hk_views keeper) = Some old \<and> no_blocks old \<and> no_blocks (hk_views keeper') \<and>
    (env_garbage e = 0 \<longrightarrow> keeper_rel True n keeper' []) \<and> hk_mem_uplimit keeper' = hk_mem_uplimit keeper \<and>
    house_keeper_destroy keeper = Some ()"
proof -
  obtain keeper' old where k: "house_keeper_clear_stats e keeper = Some keeper'"
    "env_garbage e = 0 \<longrightarrow> keeper_rel True n keeper' []" "hk_mem_uplimit keeper' = hk_mem_uplimit keeper"
    "no_blocks (hk_views keeper')" "view_tree_destory (hk_views keeper) = Some old" "no_blocks old"
    by (rule clear_stats_ok [OF assms(1,3)])
  then have f: "flush_stats pack e keeper = Some (keeper', pack ((STATS_REPLY__INIT ''flush'')\<lparr>r_maybe := Some ''success''\<rparr>))"
    by (simp add: flush_stats_def)
  have d: "house_keeper_destroy keeper = Some ()" using k(5) by (simp add: house_keeper_destroy_def)
  have "handle_request pack show_f e keeper (request ''flush'' v topn) = map_option (\<lambda>(k, r). (k, Some r)) (flush_stats pack e keeper)"
  proof (cases "map_of A v")
    case None
    then show ?thesis using keeper_find(1) [OF assms(1,2)] by (simp add: request_missing)
  next
    case (Some a)
    then obtain vs where "found_view keeper v vs" using keeper_find(2) [OF assms(1,2)] by blast
    then show ?thesis by (simp add: request_found Let_def)
  qed
  then have "handle_request pack show_f e keeper (request ''flush'' v topn) =
      Some (keeper', Some (pack ((STATS_REPLY__INIT ''flush'')\<lparr>r_maybe := Some ''success''\<rparr>)))" using f by simp
  then show ?thesis using k d by blast
qed

text \<open>C9. A round of the statistics thread, whatever the counters hold: it ends without a fault, keeps
  the tree and the list of the views, and gives each view with a name the rate of its queries since the last
  round, over ten seconds, the part of its queries that did not fail (1 without queries), and the count
  to start the next round from. A difference is the growth modulo \<open>2 ^ 32\<close>, one less than it when
  the counter wrapped: \<open>absolute_diff\<close> adds to \<open>UINT32_MAX\<close>, not to \<open>2 ^ 32\<close>.\<close>

theorem rates_computed:
  assumes "view_state (hk_views keeper) V U" "\<forall>(v, vs) \<in> set (views (hk_views keeper) U). 2 < length (vs_rcode vs)"
  shows "\<exists>t. qps_round fl keeper = Some (keeper\<lparr>hk_views := t\<rparr>) \<and> view_state t V U \<and>
    views t U = map (\<lambda>(v, vs). (v, if v = [] then vs else rated fl vs)) (views (hk_views keeper) U)"
proof -
  obtain t where "rbtree_for (vt_tree (hk_views keeper)) (qps_body fl (vt_tree (hk_views keeper))) (hk_views keeper) = Some t"
    "view_state t V U" "views t U = map (\<lambda>(v, vs). (v, if v = [] then vs else rated fl vs)) (views (hk_views keeper) U)"
    by (rule rates_loop [OF assms])
  then show ?thesis by (auto simp: qps_round_def)
qed

section \<open>A line of the log\<close>

text \<open>What a line asks to count: the query in the view of the client and in the view of all.\<close>

definition line_queries :: "string list \<Rightarrow> log_query list" where
  "line_queries ws =
     (if length ws \<le> RCODE_P \<or> last (ws ! VIEW_P) \<noteq> CHR '':'' then []
      else map (\<lambda>v. \<lparr>lq_view = v @ ''$'' @ butlast (ws ! ZONE_P), lq_domain = ws ! DOMAIN_P, lq_ip = ws ! CIP_P,
          lq_rtype = ws ! RTYPE_P, lq_rcode = ws ! RCODE_P\<rparr>) [butlast (ws ! VIEW_P), ''*''])"

lemma line_fields: "strtok CHR '' '' line = ws \<Longrightarrow> i < SP_NUM \<Longrightarrow> log_fields line i = (if i < length ws then Some (ws ! i) else None)"
  by (auto simp: log_fields_def)

definition line_faults :: "string list \<Rightarrow> bool" where
  "line_faults ws \<longleftrightarrow> RCODE_P < length ws \<and> last (ws ! VIEW_P) = CHR '':'' \<and>
     (length ws \<le> ZONE_P \<or> (\<exists>q \<in> set (line_queries ws). 256 \<le> length (lq_view q)))"

lemma handle_line:
  assumes "strtok CHR '' '' line = ws" "length line < RECORD_LEN"
  shows "handle_string_log e1 e2 keeper line = (if line_faults ws then None else log_run keeper (zip [e1, e2] (line_queries ws)))"
proof -
  have copy: "strcpy_buf RECORD_LEN line = Some line" using assms(2) by simp
  note P = VIEW_P_def CIP_P_def RCODE_P_def RTYPE_P_def ZONE_P_def DOMAIN_P_def SP_NUM_def
  note f = line_fields [OF assms(1)]
  consider "length ws \<le> 10" | "10 < length ws" "last (ws ! 6) \<noteq> CHR '':''"
    | "10 < length ws" "length ws \<le> 17" "last (ws ! 6) = CHR '':''" | "17 < length ws" "last (ws ! 6) = CHR '':''" by linarith
  then show ?thesis
  proof cases
    case 1
    then show ?thesis by (simp add: handle_string_log_def copy f P line_queries_def line_faults_def Let_def split: option.split)
  next
    case 2
    then show ?thesis by (simp add: handle_string_log_def copy f P line_queries_def line_faults_def Let_def)
  next
    case 3
    then show ?thesis by (simp add: handle_string_log_def copy f P line_faults_def Let_def)
  next
    case 4
    then show ?thesis
      using assms(2)
      by (auto simp: handle_string_log_def f P line_faults_def line_queries_def Let_def strcpy_buf_def split: option.split)
  qed
qed

text \<open>The lines of a log, each with what the C library gives to its two calls.\<close>

fun lines_run :: "house_keeper \<Rightarrow> (env \<times> env \<times> string) list \<Rightarrow> house_keeper option" where
  "lines_run keeper [] = Some keeper"
| "lines_run keeper ((e1, e2, line) # ls) = do {
     keeper1 \<leftarrow> handle_string_log e1 e2 keeper line;
     lines_run keeper1 ls
   }"

definition lines_queries :: "(env \<times> env \<times> string) list \<Rightarrow> (env \<times> log_query) list" where
  "lines_queries ls = concat (map (\<lambda>(e1, e2, line). zip [e1, e2] (line_queries (strtok CHR '' '' line))) ls)"

lemma log_run_append: "log_run keeper (xs @ ys) = do { keeper1 \<leftarrow> log_run keeper xs; log_run keeper1 ys }"
  by (induction keeper xs rule: log_run.induct) (auto split: Option.bind_split)

lemma lines_run_queries:
  assumes "\<forall>(e1, e2, line) \<in> set ls. length line < RECORD_LEN" "lines_run keeper ls = Some keeper'"
  shows "log_run keeper (lines_queries ls) = Some keeper'"
  using assms
proof (induction keeper ls rule: lines_run.induct)
  case (1 keeper)
  then show ?case by (simp add: lines_queries_def)
next
  case (2 keeper e1 e2 line ls)
  then obtain keeper1 where k: "handle_string_log e1 e2 keeper line = Some keeper1" "lines_run keeper1 ls = Some keeper'"
    by (auto split: Option.bind_split_asm)
  then have "log_run keeper (zip [e1, e2] (line_queries (strtok CHR '' '' line))) = Some keeper1"
    using handle_line [OF refl, of line e1 e2 keeper] 2(2) by (auto split: if_splits)
  moreover have "log_run keeper1 (lines_queries ls) = Some keeper'" using 2 k by auto
  ultimately show ?case by (simp add: lines_queries_def log_run_append)
qed

text \<open>C4. Reading a log line by line with \<open>strtok_r\<close> and pointers into the copied line is counting
  the queries that the fields of each line name: none for a line with fewer than 11 fields or
  without a colon behind the view, else one for \<open>view$zone\<close> and one for \<open>*$zone\<close>, each without the
  last byte of its field. A line whose fields are written with a blank between them gives these
  fields back. The conditions exclude the lines that read through a missing zone field or
  overflow a keyword.\<close>

theorem lines_parsed:
  assumes "\<forall>(e1, e2, line) \<in> set ls. length line < RECORD_LEN \<and> \<not> line_faults (strtok CHR '' '' line)"
  shows "lines_run keeper ls = log_run keeper (lines_queries ls) \<and>
    (\<forall>ws. (\<forall>w \<in> set ws. w \<noteq> [] \<and> CHR '' '' \<notin> set w) \<longrightarrow> strtok CHR '' '' (blank_join ws) = ws)"
proof
  show "lines_run keeper ls = log_run keeper (lines_queries ls)" using assms
  proof (induction keeper ls rule: lines_run.induct)
    case (1 keeper)
    then show ?case by (simp add: lines_queries_def)
  next
    case (2 keeper e1 e2 line ls)
    then have "handle_string_log e1 e2 keeper line = log_run keeper (zip [e1, e2] (line_queries (strtok CHR '' '' line)))"
      using handle_line [OF refl, of line e1 e2 keeper] by simp
    then show ?case using 2 by (auto simp: lines_queries_def log_run_append split: Option.bind_split)
  qed
qed (simp add: strtok_join)

text \<open>C35. Lines that the splitting cannot take: with a colon behind the view a line of 11 to 17 fields
  reads the missing zone through \<open>NULL\<close>, and a view or zone too long for the 256 bytes of a keyword
  overflows it, whatever was counted before.\<close>

theorem line_faults_abort:
  assumes "\<forall>w \<in> set ws. w \<noteq> [] \<and> CHR '' '' \<notin> set w" "length (blank_join ws) < RECORD_LEN"
    and "10 < length ws" "last (ws ! 6) = CHR '':''"
    and "length ws \<le> 17 \<or> 256 < length (ws ! 6) + length (ws ! 17)"
  shows "handle_string_log e1 e2 keeper (blank_join ws) = None"
proof -
  have "ws ! i \<noteq> []" if "i < length ws" for i using assms(1) that by simp
  then have "0 < length (ws ! 6)" "17 < length ws \<Longrightarrow> 0 < length (ws ! 17)" using assms(3) by auto
  then have "line_faults ws"
    using assms(3-5)
    by (auto simp: line_faults_def line_queries_def VIEW_P_def CIP_P_def RCODE_P_def RTYPE_P_def ZONE_P_def DOMAIN_P_def)
  then show ?thesis using handle_line [OF strtok_join [OF assms(1)] assms(2)] by simp
qed

subsection \<open>Examples\<close>

definition demo_abs :: log_abs where
  "demo_abs = fold (log_step 152 96 UPLIMIT) (map snd demo_log) []"

definition demo_stats :: view_abs where
  "demo_stats = fold count_query_abs (map snd demo_log) new_view"

lemma demo_keeper:
  obtains k0 keeper where "house_keeper_create demo_env 16 10000 = Some k0" "log_run k0 demo_log = Some keeper"
    "keeper_rel True 0 keeper demo_abs"
  unfolding demo_abs_def
  by (rule created_run [OF _ demo_queries, of demo_env 16 10000 3 True])
    (simp_all add: demo_length demo_start demo_cards demo_within ROOF_def)

lemma demo_view: "map_of demo_abs ''v'' = Some demo_stats" "map_of demo_abs ''u'' = None"
  using log_fold_view [OF demo_within, of "''v''"] log_fold_view [OF demo_within, of "''u''"]
  by (simp_all add: demo_abs_def demo_stats_def demo_views) (simp_all add: demo_log_def)

lemma demo_rcode: "va_rcode demo_stats = [0, 0, 0, 3, 0, 0, 0]"
  by (simp add: demo_stats_def demo_log_def demo_query_def count_query_abs_def count_view_def new_view_def demo_index
      RCODE_MAX_NUM_def eval_nat_numeral(2,3))

lemma demo_codes: "codes_reply ''rcode'' RCODE (va_rcode demo_stats) =
    (STATS_REPLY__INIT ''rcode'')\<lparr>r_name := [Some ''NXDOMAIN''], r_count := [3]\<rparr>"
  by (simp add: demo_rcode RCODE_def codes_reply_def Let_def)

theorem log_topn_reply_witness:
  "\<exists>keeper keeper' names. house_keeper_create demo_env 16 10000 = Some keeper \<and> log_run keeper demo_log = Some keeper' \<and>
    handle_request (\<lambda>r. r) (\<lambda>_. ''0.0'') demo_env keeper' (request ''domaintopn'' ''v'' 0) =
      Some (keeper', Some ((STATS_REPLY__INIT ''domaintopn'')\<lparr>r_name := map Some names,
        r_count := map (\<lambda>k. of_nat (count_list [''a.'', ''b.'', ''a.''] k)) names\<rparr>)) \<and>
    distinct names \<and> set names \<subseteq> {''a.'', ''b.''} \<and> length names = 2"
proof -
  have h: "start_ok demo_env 16 10000 (length demo_log)" "length demo_log < 2 ^ 31" "length ''v'' < STATS_NODE_MAX_SIZE"
    "view_queries (map snd demo_log) ''v'' \<noteq> []" and c: "env_copy demo_env = Some (\<lambda>_. NULL)" "0 \<le> (0 :: int)" and k:
    "\<forall>v. card (set (domains_of (map snd demo_log) v)) \<le> ROOF \<and> card (set (ips_of (map snd demo_log) v)) \<le> ROOF"
    by (simp_all add: demo_length demo_start order_trans [OF demo_cards(1)] order_trans [OF demo_cards(2)] ROOF_def
        STATS_NODE_MAX_SIZE_def demo_views) (simp_all add: demo_log_def demo_env_def)
  have d: "domains_of (map snd demo_log) ''v'' = [''a.'', ''b.'', ''a.'']" "set [''a.'', ''b.'', ''a.''] = {''a.'', ''b.''}"
    "card {''a.'', ''b.''} = 2" by (simp_all add: demo_names insert_commute)
  show ?thesis
    using log_topn_reply [OF h(1) demo_queries h(2) k demo_within h(3,4) c, of "\<lambda>r. r" "\<lambda>_. ''0.0''"]
    unfolding d by (elim exE conjE) (intro exI conjI; (assumption | simp))
qed

theorem request_replies_witness:
  "\<exists>keeper. keeper_rel True 0 keeper demo_abs \<and>
    handle_request (\<lambda>r. r) (\<lambda>_. ''0.0'') demo_env keeper (request ''rcode'' ''v'' 0) =
      Some (keeper, Some ((STATS_REPLY__INIT ''rcode'')\<lparr>r_name := [Some ''NXDOMAIN''], r_count := [3]\<rparr>)) \<and>
    handle_request (\<lambda>r. r) (\<lambda>_. ''0.0'') demo_env keeper (request ''rcode'' ''u'' 0) =
      Some (keeper, Some ((STATS_REPLY__INIT ''error'')\<lparr>r_maybe := Some ''view not find''\<rparr>))"
proof -
  obtain k0 keeper where k: "keeper_rel True 0 keeper demo_abs" by (rule demo_keeper)
  have l: "length ''v'' < STATS_NODE_MAX_SIZE" "length ''u'' < STATS_NODE_MAX_SIZE" by (simp_all add: STATS_NODE_MAX_SIZE_def)
  show ?thesis
    using request_replies [OF k l(1), of "\<lambda>_. ''0.0''" "\<lambda>r. r" demo_env 0 "''rcode''"]
      request_replies [OF k l(2), of "\<lambda>_. ''0.0''" "\<lambda>r. r" demo_env 0 "''rcode''"] k
    by (intro exI [of _ keeper]) (simp add: demo_view demo_codes)
qed

theorem flush_empties_witness:
  "\<exists>keeper keeper' old. keeper_rel True 0 keeper demo_abs \<and>
    handle_request (\<lambda>r. r) (\<lambda>_. ''0.0'') demo_env keeper (request ''flush'' ''v'' 0) =
      Some (keeper', Some ((STATS_REPLY__INIT ''flush'')\<lparr>r_maybe := Some ''success''\<rparr>)) \<and>
    view_tree_destory (hk_views keeper) = Some old \<and> no_blocks old \<and> keeper_rel True 0 keeper' []"
proof -
  obtain k0 keeper where k: "keeper_rel True 0 keeper demo_abs" by (rule demo_keeper)
  have l: "length ''v'' < STATS_NODE_MAX_SIZE" "env_malloc demo_env" "env_garbage demo_env = 0"
    by (simp_all add: STATS_NODE_MAX_SIZE_def demo_env_def)
  from flush_empties [OF k l(1,2), of "\<lambda>r. r" "\<lambda>_. ''0.0''" 0] show ?thesis
    using k l(3) by blast
qed

theorem rates_computed_witness:
  "\<exists>keeper V U t. keeper_rel True 0 keeper demo_abs \<and> qps_round (\<lambda>q. q) keeper = Some (keeper\<lparr>hk_views := t\<rparr>) \<and> view_state t V U \<and>
    views t U = map (\<lambda>(v, vs). (v, if v = [] then vs else rated (\<lambda>q. q) vs)) (views (hk_views keeper) U)"
proof -
  obtain k0 keeper where k: "keeper_rel True 0 keeper demo_abs" by (rule demo_keeper)
  then obtain V U where s: "view_state (hk_views keeper) V U" and r: "list_all2 (entry_rel True 0) (views (hk_views keeper) U) demo_abs"
    by (auto simp: keeper_rel_def tree_state_def)
  have "\<forall>(v, vs) \<in> set (views (hk_views keeper) U). 2 < length (vs_rcode vs)"
  proof (clarify)
    fix v vs assume "(v, vs) \<in> set (views (hk_views keeper) U)"
    then obtain y where "entry_rel True 0 (v, vs) y" using r by (metis in_set_conv_nth list_all2_conv_all_nth)
    then show "2 < length (vs_rcode vs)" by (simp add: entry_rel_def stats_rel_def RCODE_MAX_NUM_def)
  qed
  from rates_computed [OF s this, of "\<lambda>q. q"] show ?thesis using k by blast
qed

definition demo_line :: string where
  "demo_line = ''d t client 10.0.0.1 5: view v: a. IN A NXDOMAIN + NS NE NT ND NC com:''"

text \<open>A house keeper that was just created.\<close>

definition demo_house :: house_keeper where
  "demo_house = the (house_keeper_create demo_env 16 10000)"

theorem lines_parsed_witness:
  "lines_run demo_house [(demo_env, demo_env, demo_line)] =
    log_run demo_house [(demo_env, \<lparr>lq_view = ''v$com'', lq_domain = ''a.'', lq_ip = ''10.0.0.1'', lq_rtype = ''A'', lq_rcode = ''NXDOMAIN''\<rparr>),
      (demo_env, \<lparr>lq_view = ''*$com'', lq_domain = ''a.'', lq_ip = ''10.0.0.1'', lq_rtype = ''A'', lq_rcode = ''NXDOMAIN''\<rparr>)]"
  using lines_parsed [of "[(demo_env, demo_env, demo_line)]" demo_house]
  by (simp add: demo_line_def RECORD_LEN_def line_faults_def line_queries_def lines_queries_def
      VIEW_P_def CIP_P_def RCODE_P_def RTYPE_P_def ZONE_P_def DOMAIN_P_def eval_nat_numeral)

theorem line_faults_abort_witness:
  "handle_string_log demo_env demo_env demo_house (blank_join (replicate 6 ''x'' @ [''v:''] @ replicate 5 ''y'')) = None"
  by (rule line_faults_abort) (simp_all add: RECORD_LEN_def eval_nat_numeral)

end
