(* ===== verification/Memory_Limit.thy ===== *)
theory Memory_Limit
  imports Request_Props
begin

text \<open>
  What the memory limit of \<^verbatim>\<open>log_view_tree.c\<close> achieves: the size after it, and that it gives up no more than
  it has to.
\<close>

lemma keep_views_most:
  assumes "A \<noteq> []"
  obtains k where "0 < k" "k \<le> length A" "keep_views ts ps bound A = take k A" "log_size ts ps (take k A) \<le> bound \<or> k = 1"
    "\<And>j. k < j \<Longrightarrow> j \<le> length A \<Longrightarrow> bound < log_size ts ps (take j A)"
  using assms
proof (induction A arbitrary: thesis rule: rev_induct)
  case (snoc y A)
  let ?A = "A @ [y]"
  show ?case
  proof (cases "bound < log_size ts ps ?A \<and> A \<noteq> []")
    case False
    then have "keep_views ts ps bound ?A = ?A" by (intro keep_views_stop) auto
    then show ?thesis using snoc.prems(1) [of "length ?A"] False by (auto simp: not_less)
  next
    case True
    obtain k where k: "0 < k" "k \<le> length A" "keep_views ts ps bound A = take k A" "log_size ts ps (take k A) \<le> bound \<or> k = 1"
      "\<And>j. k < j \<Longrightarrow> j \<le> length A \<Longrightarrow> bound < log_size ts ps (take j A)"
      using snoc.IH True by blast
    show ?thesis
    proof (rule snoc.prems(1) [of k])
      show "keep_views ts ps bound ?A = take k ?A" using keep_views_step k(2,3) True by simp
      show "bound < log_size ts ps (take j ?A)" if "k < j" "j \<le> length ?A" for j
        using that k(5) [of j] True by (cases "j = length ?A") auto
    qed (use k in auto)
  qed
qed simp

lemma limit_view_fits:
  "stats_size ts ps (length (va_names (limit_view ts ps bound a))) (length (va_ips (limit_view ts ps bound a))) \<le> bound \<or>
   va_names (limit_view ts ps bound a) = [] \<and> va_ips (limit_view ts ps bound a) = []"
proof -
  let ?f = "\<lambda>n. stats_size ts ps n (length (va_ips a))"
  define j where "j = kept bound ?f (length (va_names a))"
  define i where "i = kept bound (stats_size ts ps j) (length (va_ips a))"
  have l: "limit_view ts ps bound a = a\<lparr>va_names := take j (va_names a), va_ips := take i (va_ips a)\<rparr>"
    by (simp add: limit_view_def Let_def j_def i_def)
  have le: "j \<le> length (va_names a)" "i \<le> length (va_ips a)" using kept_facts(1) by (auto simp: j_def i_def)
  have "stats_size ts ps j i \<le> bound \<or> i = 0" using kept_facts(2) [of "stats_size ts ps j" bound] by (simp add: i_def)
  moreover have "?f j \<le> bound \<or> j = 0" using kept_facts(2) [of ?f bound] by (simp add: j_def)
  moreover have "i = length (va_ips a)" if "?f j \<le> bound"
    using kept_facts(3) [of bound "stats_size ts ps j" "length (va_ips a)" "length (va_ips a)"] that le(2)
    by (force simp: i_def [symmetric])
  ultimately show ?thesis using le by (auto simp: l)
qed

text \<open>C15. The memory limit on the house keeper, for every state and limit: \<open>view_tree_set_memsize\<close> ends, and
  afterwards the size that \<open>view_tree_get_size\<close> computes is within the limit, or only the view that was
  used last is left, and then its statistics alone are within the limit or have neither names nor
  addresses. It keeps the \<open>k\<close> views that were used last, unchanged if there are two, and no more could have
  been kept: any longer beginning of the list is above the limit. The size of the only view together with
  its node and the tree can stay above the limit, which bounds the statistics alone.\<close>

theorem memory_limit_holds:
  assumes "keeper_rel full n keeper A" "A \<noteq> []"
  shows "\<exists>t B k size. view_tree_set_memsize ts ps bound (hk_views keeper) = Some t \<and> keeper_rel False n (keeper\<lparr>hk_views := t\<rparr>) B \<and>
    view_tree_get_size ts ps t = Some size \<and>
    (size \<le> bound \<or> (\<exists>v a. B = [(v, a)] \<and>
       (stats_size ts ps (length (va_names a)) (length (va_ips a)) \<le> bound \<or> va_names a = [] \<and> va_ips a = []))) \<and>
    0 < k \<and> k \<le> length A \<and> map fst B = map fst (take k A) \<and> (1 < k \<longrightarrow> B = take k A) \<and>
    (\<forall>j. k < j \<and> j \<le> length A \<longrightarrow> bound < log_size ts ps (take j A))"
proof -
  obtain V U where st: "view_state (hk_views keeper) V U" "list_all2 (entry_rel full n) (views (hk_views keeper) U) A"
    "3 * n \<le> view_room (hk_views keeper)" using assms(1) by (auto simp: keeper_rel_def tree_state_def)
  obtain u p W where U: "U = (u, p) # W" using st(2) assms(2) by (cases U) auto
  let ?B = "limit_views ts ps bound A"
  obtain t V' W' where t: "view_tree_set_memsize ts ps bound (hk_views keeper) = Some t" "view_state t V' ((u, p) # W')"
    "list_all2 (entry_rel False n) (views t ((u, p) # W')) ?B" "view_room t = view_room (hk_views keeper)"
    by (rule set_memsize_ok [OF st(1) [unfolded U] entries_weak [OF st(2) [unfolded U] order_refl]])
  have rel: "keeper_rel False n (keeper\<lparr>hk_views := t\<rparr>) ?B"
    unfolding keeper_rel_def tree_state_def using t(2-4) st(3)
    by (intro exI [of _ V'] exI [of _ "(u, p) # W'"]) (simp del: views_simps)
  have size: "view_tree_get_size ts ps t = Some (log_size ts ps ?B)"
    using view_size_state [OF t(2)] entries_size [OF t(3)] by simp
  obtain k where k: "0 < k" "k \<le> length A" "keep_views ts ps bound A = take k A" "log_size ts ps (take k A) \<le> bound \<or> k = 1"
    "\<And>j. k < j \<Longrightarrow> j \<le> length A \<Longrightarrow> bound < log_size ts ps (take j A)"
    using keep_views_most [OF assms(2)] by blast
  obtain v a A' where A: "A = (v, a) # A'" using assms(2) by (cases A) auto
  have fits: "(log_size ts ps ?B \<le> bound \<or> (\<exists>v a. ?B = [(v, a)] \<and>
      (stats_size ts ps (length (va_names a)) (length (va_ips a)) \<le> bound \<or> va_names a = [] \<and> va_ips a = []))) \<and>
    map fst ?B = map fst (take k A) \<and> (1 < k \<longrightarrow> ?B = take k A)"
  proof (cases "k = 1")
    case True
    then have "?B = [(v, limit_view ts ps bound a)]" using k(3) A by (simp add: limit_views_def)
    then show ?thesis using limit_view_fits [of ts ps bound a] A True by simp
  next
    case False
    then have "1 < length (keep_views ts ps bound A)" using k(1-3) by simp
    then have "?B = keep_views ts ps bound A" by (auto simp: limit_views_def split: list.splits)
    then have "?B = take k A" by (simp only: k(3))
    then show ?thesis using k(4) False by simp
  qed
  show ?thesis
    by (intro exI [of _ t] exI [of _ ?B] exI [of _ k] exI [of _ "log_size ts ps ?B"]) (use t(1) rel size fits k in simp)
qed

text \<open>A limit of 0 takes everything but the last view away.\<close>

theorem memory_limit_holds_witness:
  "\<exists>keeper t B k size. keeper_rel True 0 keeper demo_abs \<and> view_tree_set_memsize 152 96 0 (hk_views keeper) = Some t \<and>
    keeper_rel False 0 (keeper\<lparr>hk_views := t\<rparr>) B \<and> view_tree_get_size 152 96 t = Some size \<and> 0 < k \<and> map fst B = map fst (take k demo_abs)"
proof -
  obtain k0 keeper where k: "keeper_rel True 0 keeper demo_abs" by (rule demo_keeper)
  have "demo_abs \<noteq> []" using demo_view(1) by auto
  then show ?thesis using memory_limit_holds [OF k, of 152 96 0] k by blast
qed

end
