(* ===== verification/Log_Reader.thy ===== *)
theory Log_Reader
  imports Request_Props
begin

text \<open>
  The program of \<^verbatim>\<open>main.c\<close>: it makes the house keeper, follows the end of the query log and hands every
  line to \<open>handle_string_log\<close>; when the name of the log refers to another file, it opens that file.
  The program is a function of its state; what other programs do to the files (they append, and
  they give the name to another file) are the further steps of a relation. The read errors of
  \<open>fgets\<close> are not modelled: \<open>NULL\<close> means the end of the file.
\<close>

section \<open>The program\<close>

datatype main_pc = Again | Stat | Goon | Check | Exited int

record main_state =
  m_pc :: main_pc
  m_keeper :: house_keeper
  m_first :: bool
  m_file :: nat
  m_pos :: nat
  m_eof :: bool
  m_sbuf :: nat
  m_last_inode :: u32
  f_bytes :: "nat \<Rightarrow> string"
  f_name :: "nat option"

text \<open>A file is its inode number, of which \<open>get_inode\<close> of \<^verbatim>\<open>log_topn.c\<close> keeps 32 bits; they are only compared.\<close>

definition get_inode :: "nat \<Rightarrow> u32" where
  "get_inode st_ino = of_nat st_ino"

text \<open>\<open>lstat\<close> leaves the buffer as it was when there is no such file.\<close>

definition lstat :: "main_state \<Rightarrow> nat" where
  "lstat s = (case f_name s of Some ino \<Rightarrow> ino | None \<Rightarrow> m_sbuf s)"

text \<open>
  One step from label to label, with the line that was handled. \<open>sticky\<close> tells whether the C library
  honours the end-of-file indicator, as the standard and the GNU library from 2.28 on do: then \<open>fgets\<close>
  returns \<open>NULL\<close> once the indicator is set. \<open>None\<close> is a fault of \<open>handle_string_log\<close>.
\<close>

definition main_step :: "bool \<Rightarrow> env \<Rightarrow> env \<Rightarrow> main_state \<Rightarrow> (main_state \<times> string option) option" where
  "main_step sticky e1 e2 s = (case m_pc s of
     Again \<Rightarrow> (case f_name s of
         None \<Rightarrow> Some (s\<lparr>m_pc := Exited 1\<rparr>, None)
       | Some ino \<Rightarrow> Some (s\<lparr>m_pc := Stat, m_file := ino, m_pos := (if m_first s then 0 else length (f_bytes s ino)),
           m_eof := False, m_first := True\<rparr>, None))
   | Stat \<Rightarrow> Some (s\<lparr>m_pc := Goon, m_sbuf := lstat s, m_last_inode := get_inode (lstat s)\<rparr>, None)
   | Goon \<Rightarrow>
       (let (line, rest, met) = fgets 1023 (drop (m_pos s) (f_bytes s (m_file s)))
        in if sticky \<and> m_eof s \<or> line = [] then Some (s\<lparr>m_pc := Check, m_eof := True\<rparr>, None)
           else do {
             keeper \<leftarrow> handle_string_log e1 e2 (m_keeper s) (c_str line);
             Some (s\<lparr>m_keeper := keeper, m_pos := m_pos s + length line, m_eof := met\<rparr>, Some (c_str line))
           })
   | Check \<Rightarrow> Some (s\<lparr>m_sbuf := lstat s, m_pc := (if get_inode (lstat s) = m_last_inode s then Goon else Again)\<rparr>, None)
   | Exited r \<Rightarrow> Some (s, None))"

text \<open>
  The start: the arguments, the house keeper or \<open>NULL\<close>, and the files. The stack holds garbage in
  \<open>sbuf\<close>.
\<close>

definition main_start ::
    "string list \<Rightarrow> house_keeper option \<Rightarrow> (nat \<Rightarrow> string) \<Rightarrow> nat option \<Rightarrow> nat \<Rightarrow> (main_state + int) option" where
  "main_start argv created bytes name garbage =
     (if length argv \<noteq> 2 then Some (Inr 1)
      else case created of None \<Rightarrow> Some (Inr 1)
      | Some keeper \<Rightarrow> do {
          filename \<leftarrow> strcpy_buf 1024 (argv ! 1);
          Some (Inl \<lparr>m_pc = Again, m_keeper = keeper, m_first = False, m_file = 0, m_pos = 0, m_eof = False,
            m_sbuf = garbage, m_last_inode = 0, f_bytes = bytes, f_name = name\<rparr>)
        })"

section \<open>The program among others\<close>

datatype main_label = Line env env string | Quiet | Renamed

inductive tail_step :: "bool \<Rightarrow> main_state \<Rightarrow> main_label \<Rightarrow> main_state \<Rightarrow> bool" for sticky where
  quiet: "main_step sticky e1 e2 s = Some (s', None) \<Longrightarrow> tail_step sticky s Quiet s'"
| line: "main_step sticky e1 e2 s = Some (s', Some l) \<Longrightarrow> tail_step sticky s (Line e1 e2 l) s'"
| append: "tail_step sticky s Quiet (s\<lparr>f_bytes := (f_bytes s)(i := f_bytes s i @ t)\<rparr>)"
| rename: "tail_step sticky s Renamed (s\<lparr>f_name := name\<rparr>)"

inductive tail_run :: "bool \<Rightarrow> main_state \<Rightarrow> main_label list \<Rightarrow> main_state \<Rightarrow> bool" for sticky where
  stop: "tail_run sticky s [] s"
| step: "tail_step sticky s l s1 \<Longrightarrow> tail_run sticky s1 ls s' \<Longrightarrow> tail_run sticky s (l # ls) s'"

inductive_cases tail_step_lineE: "tail_step sticky s (Line e1 e2 l) s'"

text \<open>The lines that a run handled.\<close>

fun run_lines :: "main_label list \<Rightarrow> (env \<times> env \<times> string) list" where
  "run_lines [] = []"
| "run_lines (Line e1 e2 l # ls) = (e1, e2, l) # run_lines ls"
| "run_lines (_ # ls) = run_lines ls"

section \<open>One step\<close>

text \<open>The step that handles a line, and the others.\<close>

lemma main_step_line:
  assumes "main_step sticky e1 e2 s = Some (s', Some l)"
  obtains w r met keeper where "m_pc s = Goon" "fgets 1023 (drop (m_pos s) (f_bytes s (m_file s))) = (w, r, met)" "w \<noteq> []"
    "\<not> (sticky \<and> m_eof s)" "handle_string_log e1 e2 (m_keeper s) l = Some keeper" "l = c_str w"
    "s' = s\<lparr>m_keeper := keeper, m_pos := m_pos s + length w, m_eof := met\<rparr>"
  using assms
  by (auto simp: main_step_def split: main_pc.splits option.splits prod.splits if_splits Option.bind_split_asm)

lemma main_step_quiet:
  assumes "main_step sticky e1 e2 s = Some (s', None)"
  shows "m_keeper s' = m_keeper s \<and> f_bytes s' = f_bytes s \<and> f_name s' = f_name s"
  using assms
  by (auto simp: main_step_def split: main_pc.splits option.splits prod.splits if_splits Option.bind_split_asm)

lemma line_step:
  assumes "tail_step sticky s (Line e1 e2 l) s'"
  shows "handle_string_log e1 e2 (m_keeper s) l = Some (m_keeper s')" "length l < RECORD_LEN"
proof -
  obtain w r met keeper where w: "fgets 1023 (drop (m_pos s) (f_bytes s (m_file s))) = (w, r, met)"
    "handle_string_log e1 e2 (m_keeper s) l = Some keeper" "l = c_str w"
    "s' = s\<lparr>m_keeper := keeper, m_pos := m_pos s + length w, m_eof := met\<rparr>"
    using assms by (auto elim!: tail_step_lineE main_step_line)
  then show "handle_string_log e1 e2 (m_keeper s) l = Some (m_keeper s')" by simp
  have "length l \<le> length w" by (simp add: w(3) c_str_def length_takeWhile_le)
  then show "length l < RECORD_LEN" using fgets_split [OF w(1)] by (simp add: RECORD_LEN_def)
qed

lemma tail_keeper:
  "tail_run sticky s ls s' \<Longrightarrow> lines_run (m_keeper s) (run_lines ls) = Some (m_keeper s') \<and>
     (\<forall>(e1, e2, l) \<in> set (run_lines ls). length l < RECORD_LEN)"
proof (induction rule: tail_run.induct)
  case (step s l s1 ls s')
  show ?case
  proof (cases l)
    case (Line e1 e2 t)
    then show ?thesis using step line_step by auto
  next
    case Quiet
    then have "m_keeper s1 = m_keeper s" using step.hyps(1) by (auto elim!: tail_step.cases dest: main_step_quiet)
    then show ?thesis using step.IH Quiet by simp
  next
    case Renamed
    then have "m_keeper s1 = m_keeper s" using step.hyps(1) by (auto elim!: tail_step.cases)
    then show ?thesis using step.IH Renamed by simp
  qed
qed simp

section \<open>Following one file\<close>

definition following :: "main_state \<Rightarrow> bool" where
  "following s \<longleftrightarrow> (m_pc s = Goon \<or> m_pc s = Check) \<and> get_inode (lstat s) = m_last_inode s"

lemma step_bytes: "tail_step sticky s l s' \<Longrightarrow> \<exists>t. f_bytes s' i = f_bytes s i @ t"
  by (cases rule: tail_step.cases) (auto dest: main_step_quiet elim!: main_step_line)

lemma run_bytes: "tail_run sticky s ls s' \<Longrightarrow> \<exists>t. f_bytes s' i = f_bytes s i @ t"
proof (induction rule: tail_run.induct)
  case (step s l s1 ls s')
  then show ?case using step_bytes [of sticky s l s1 i] by force
qed simp

lemma follow_quiet:
  assumes "tail_step sticky s Quiet s'" "following s"
  shows "following s' \<and> m_file s' = m_file s \<and> m_pos s' = m_pos s \<and> (m_eof s \<longrightarrow> m_eof s')"
  using assms
  by (cases rule: tail_step.cases)
    (auto simp: following_def main_step_def lstat_def split: option.splits prod.splits if_splits Option.bind_split_asm)

lemma follow_line:
  assumes "tail_step sticky s (Line e1 e2 l) s'" "following s"
  obtains w rest where "following s'" "m_file s' = m_file s" "drop (m_pos s) (f_bytes s (m_file s)) = w @ rest"
    "l = c_str w" "m_pos s' = m_pos s + length w" "\<not> (sticky \<and> m_eof s)"
proof -
  obtain w r met keeper where w: "m_pc s = Goon" "fgets 1023 (drop (m_pos s) (f_bytes s (m_file s))) = (w, r, met)"
    "\<not> (sticky \<and> m_eof s)" "l = c_str w" "s' = s\<lparr>m_keeper := keeper, m_pos := m_pos s + length w, m_eof := met\<rparr>"
    using assms(1) by (auto elim!: tail_step_lineE main_step_line)
  have "following s'" using w(1,5) assms(2) by (auto simp: following_def lstat_def split: option.splits)
  then show thesis using that [of w r] w fgets_split [OF w(2)] by simp
qed

lemma follow_run:
  assumes "tail_run sticky s ls s'" "Renamed \<notin> set ls" "following s" "m_pos s \<le> length (f_bytes s (m_file s))"
    and "CHR 0x00 \<notin> set (f_bytes s' (m_file s))"
  shows "m_file s' = m_file s \<and> m_pos s \<le> m_pos s' \<and> m_pos s' \<le> length (f_bytes s' (m_file s)) \<and>
    concat (map (\<lambda>(e1, e2, l). l) (run_lines ls)) = take (m_pos s' - m_pos s) (drop (m_pos s) (f_bytes s' (m_file s)))"
  using assms
proof (induction rule: tail_run.induct)
  case (step s l s1 ls s')
  obtain t where t: "f_bytes s1 (m_file s) = f_bytes s (m_file s) @ t" using step_bytes [OF step.hyps(1)] by blast
  obtain t' where t': "f_bytes s' (m_file s) = f_bytes s1 (m_file s) @ t'" using run_bytes [OF step.hyps(2)] by blast
  show ?case
  proof (cases l)
    case (Line e1 e2 x)
    obtain w rest where w: "following s1" "m_file s1 = m_file s" "drop (m_pos s) (f_bytes s (m_file s)) = w @ rest"
      "x = c_str w" "m_pos s1 = m_pos s + length w"
      using follow_line step.hyps(1) step.prems(2) Line by metis
    have len: "length (f_bytes s (m_file s)) = m_pos s + length w + length rest"
      using arg_cong [OF w(3), of length] step.prems(3) by simp
    have d: "drop (m_pos s) (f_bytes s' (m_file s)) = w @ rest @ t @ t'"
      using w(3) step.prems(3) t t' by simp
    then have "set w \<subseteq> set (f_bytes s' (m_file s))" by (metis Un_upper1 order_trans set_append set_drop_subset)
    then have "CHR 0x00 \<notin> set w" using step.prems(4) by auto
    then have x: "x = w" using w(4) by (auto simp: c_str_def takeWhile_eq_all_conv)
    have IH: "m_file s' = m_file s" "m_pos s1 \<le> m_pos s'" "m_pos s' \<le> length (f_bytes s' (m_file s))"
      "concat (map (\<lambda>(e1, e2, l). l) (run_lines ls)) = take (m_pos s' - m_pos s1) (drop (m_pos s1) (f_bytes s' (m_file s)))"
      using step.IH step.prems w(1,2,5) len t by auto
    have "drop (m_pos s1) (f_bytes s' (m_file s)) = rest @ t @ t'"
      using arg_cong [OF d, of "drop (length w)"] w(5) by (simp add: add.commute)
    moreover have "m_pos s' - m_pos s = length w + (m_pos s' - m_pos s1)" using IH(2) w(5) by simp
    ultimately show ?thesis using IH w(5) Line x d by simp
  next
    case Quiet
    then have "following s1 \<and> m_file s1 = m_file s \<and> m_pos s1 = m_pos s" using follow_quiet step.hyps(1) step.prems(2) by blast
    then show ?thesis using step.IH step.prems Quiet t by simp
  next
    case Renamed
    then show ?thesis using step.prems(1) by simp
  qed
qed simp

lemma stuck_run:
  assumes "tail_run True s ls s'" "Renamed \<notin> set ls" "following s" "m_eof s"
  shows "run_lines ls = []"
  using assms
proof (induction rule: tail_run.induct)
  case (step s l s1 ls s')
  show ?case
  proof (cases l)
    case (Line e1 e2 x)
    then show ?thesis using follow_line [of True s e1 e2 x s1] step.hyps(1) step.prems(2,3) by blast
  next
    case Quiet
    then have "following s1 \<and> m_eof s1" using follow_quiet step.hyps(1) step.prems(2,3) by blast
    then show ?thesis using step.IH step.prems(1) Quiet by simp
  next
    case Renamed
    then show ?thesis using step.prems(1) by simp
  qed
qed simp

section \<open>The program alone\<close>

fun main_iter :: "bool \<Rightarrow> env \<Rightarrow> env \<Rightarrow> nat \<Rightarrow> main_state \<Rightarrow> (main_state \<times> string list) option" where
  "main_iter sticky e1 e2 0 s = Some (s, [])"
| "main_iter sticky e1 e2 (Suc n) s = do {
     (s1, l) \<leftarrow> main_step sticky e1 e2 s;
     (s', ls) \<leftarrow> main_iter sticky e1 e2 n s1;
     Some (s', (case l of None \<Rightarrow> ls | Some x \<Rightarrow> x # ls))
   }"

lemma main_iter_quiet: "main_step sticky e1 e2 s = Some (s1, None) \<Longrightarrow> main_iter sticky e1 e2 (Suc n) s = main_iter sticky e1 e2 n s1"
  by (cases "main_iter sticky e1 e2 n s1") auto

lemma main_iter_line:
  "main_step sticky e1 e2 s = Some (s1, Some x) \<Longrightarrow> main_iter sticky e1 e2 n s1 = Some (s', ls) \<Longrightarrow>
     main_iter sticky e1 e2 (Suc n) s = Some (s', x # ls)"
  by simp

lemma drain:
  assumes "m_pc s = Goon" "drop (m_pos s) (f_bytes s (m_file s)) = rest" "sticky \<and> m_eof s \<longrightarrow> rest = []"
    and "m_pos s + length rest = length (f_bytes s (m_file s))"
    and "lines_run (m_keeper s) (map (\<lambda>w. (e1, e2, c_str w)) (chunks rest)) = Some keeper"
  shows "main_iter sticky e1 e2 (Suc (length (chunks rest))) s =
    Some (s\<lparr>m_pc := Check, m_keeper := keeper, m_pos := m_pos s + length rest, m_eof := True\<rparr>, map c_str (chunks rest))"
  using assms
proof (induction rest arbitrary: s rule: chunks.induct)
  case (1 rest)
  obtain w r met where f: "fgets 1023 rest = (w, r, met)" by (cases "fgets 1023 rest") auto
  note F = fgets_split [OF f]
  show ?case
  proof (cases "rest = []")
    case True
    then have "w = []" using F by simp
    then show ?thesis using 1(2-) True f by (simp add: main_step_def)
  next
    case False
    then have ne: "w \<noteq> []" using F by auto
    have ch: "chunks rest = w # chunks r" by (rule chunks_fgets [OF f ne])
    have rest: "rest = w @ r" using F by simp
    obtain k1 where k1: "handle_string_log e1 e2 (m_keeper s) (c_str w) = Some k1"
      "lines_run k1 (map (\<lambda>w. (e1, e2, c_str w)) (chunks r)) = Some keeper"
      using 1(6) ch by (auto split: Option.bind_split_asm)
    let ?s1 = "s\<lparr>m_keeper := k1, m_pos := m_pos s + length w, m_eof := met\<rparr>"
    have s1: "main_step sticky e1 e2 s = Some (?s1, Some (c_str w))"
      using 1(2-4) False f ne k1(1) by (simp add: main_step_def)
    have "drop (m_pos s + length w) (f_bytes s (m_file s)) = r"
      using arg_cong [OF 1(3), of "drop (length w)"] rest by (simp add: add.commute)
    then have "main_iter sticky e1 e2 (Suc (length (chunks r))) ?s1 =
        Some (s\<lparr>m_pc := Check, m_keeper := keeper, m_pos := m_pos s + length rest, m_eof := True\<rparr>, map c_str (chunks r))"
      using 1(1) [OF False, of ?s1, unfolded f fst_conv snd_conv] 1(2,5) F k1(2) by (simp add: rest add.assoc)
    from main_iter_line [OF s1 this] show ?thesis by (simp add: ch)
  qed
qed

section \<open>Properties\<close>

text \<open>C5. Whatever other programs do to the files, the house keeper of \<open>main\<close> has counted exactly the
  queries that a reference parser finds in the lines that were read, in their order; every line that
  is handed on fits the buffer that \<open>handle_string_log\<close> copies it into.\<close>

theorem main_counts_lines:
  assumes "tail_run sticky s ls s'"
  shows "log_run (m_keeper s) (lines_queries (run_lines ls)) = Some (m_keeper s') \<and>
    (\<forall>(e1, e2, l) \<in> set (run_lines ls). length l < RECORD_LEN)"
  using tail_keeper [OF assms] lines_run_queries by blast

text \<open>C11. As long as the name of the log refers to the same file, what was read is exactly the text of
  the file between the two positions, in order and with nothing lost or read twice, however the file
  grows meanwhile.\<close>

theorem main_reads_in_order:
  assumes "tail_run sticky s ls s'" "Renamed \<notin> set ls" "following s" "m_pos s \<le> length (f_bytes s (m_file s))"
    and "CHR 0x00 \<notin> set (f_bytes s' (m_file s))"
  shows "m_file s' = m_file s \<and> m_pos s \<le> m_pos s' \<and> m_pos s' \<le> length (f_bytes s' (m_file s)) \<and>
    concat (map (\<lambda>(e1, e2, l). l) (run_lines ls)) = take (m_pos s' - m_pos s) (drop (m_pos s) (f_bytes s' (m_file s)))"
  by (rule follow_run [OF assms])

text \<open>C13. With a C library that honours the end-of-file indicator, the program handles no line any more
  once it has met the end of the log, whatever is appended, until the log is renamed: nothing clears
  the indicator, and the log is opened at its end.\<close>

theorem main_stuck_at_end:
  assumes "tail_run True s ls s'" "Renamed \<notin> set ls" "following s" "m_eof s"
  shows "run_lines ls = [] \<and> m_keeper s' = m_keeper s"
  using stuck_run [OF assms] tail_keeper [OF assms(1)] by simp

text \<open>C12. Rotation: at the end of the old file, with the name given to a file whose inode differs in the
  low 32 bits, the program left alone opens the new file and handles all its lines from the first on
  in a bounded number of steps, with either C library, if no line makes \<open>handle_string_log\<close> fault. It
  is then at the end of the new file.\<close>

theorem main_follows_rotation:
  assumes "m_pc s = Check" "m_first s" "f_name s = Some ino" "get_inode ino \<noteq> m_last_inode s"
    and "lines_run (m_keeper s) (map (\<lambda>w. (e1, e2, c_str w)) (chunks (f_bytes s ino))) = Some keeper"
  shows "main_iter sticky e1 e2 (length (chunks (f_bytes s ino)) + 4) s =
      Some (s\<lparr>m_pc := Check, m_keeper := keeper, m_file := ino, m_pos := length (f_bytes s ino), m_eof := True,
        m_sbuf := ino, m_last_inode := get_inode ino\<rparr>, map c_str (chunks (f_bytes s ino))) \<and>
    concat (chunks (f_bytes s ino)) = f_bytes s ino"
proof -
  let ?rest = "f_bytes s ino"
  let ?s = "s\<lparr>m_pc := Goon, m_file := ino, m_pos := 0, m_eof := False, m_sbuf := ino, m_last_inode := get_inode ino\<rparr>"
  have "main_iter sticky e1 e2 (Suc (length (chunks ?rest))) ?s =
    Some (?s\<lparr>m_pc := Check, m_keeper := keeper, m_pos := m_pos ?s + length ?rest, m_eof := True\<rparr>, map c_str (chunks ?rest))"
    by (rule drain) (use assms(5) in simp_all)
  moreover have "main_iter sticky e1 e2 (Suc (Suc (Suc n))) s = main_iter sticky e1 e2 n ?s" for n
  proof -
    let ?again = "s\<lparr>m_pc := Again, m_sbuf := ino\<rparr>"
    let ?stat = "?again\<lparr>m_pc := Stat, m_file := ino, m_pos := 0, m_eof := False\<rparr>"
    have "main_step sticky e1 e2 s = Some (?again, None)" "main_step sticky e1 e2 ?again = Some (?stat, None)"
      "main_step sticky e1 e2 ?stat = Some (?s, None)"
      using assms(1-4) by (simp_all add: main_step_def lstat_def)
    then show ?thesis by (simp only: main_iter_quiet)
  qed
  moreover have "length (chunks ?rest) + 4 = Suc (Suc (Suc (Suc (length (chunks ?rest)))))" by simp
  ultimately have "main_iter sticky e1 e2 (length (chunks ?rest) + 4) s =
    Some (?s\<lparr>m_pc := Check, m_keeper := keeper, m_pos := m_pos ?s + length ?rest, m_eof := True\<rparr>, map c_str (chunks ?rest))"
    by (simp only:)
  then show ?thesis by (simp add: concat_chunks)
qed

subsection \<open>An example\<close>

lemma fgets_pos: "0 < n \<Longrightarrow> fgets n (c # s) =
    (if c = CHR 0x0A then ([c], s, False) else let (line, rest, met) = fgets (n - 1) s in (c # line, rest, met))"
  "0 < n \<Longrightarrow> fgets n [] = ([], [], True)"
  by (cases n; simp)+

definition demo_main :: "house_keeper \<Rightarrow> main_state" where
  "demo_main keeper = \<lparr>m_pc = Goon, m_keeper = keeper, m_first = True, m_file = 1, m_pos = 0, m_eof = False, m_sbuf = 1,
     m_last_inode = 1, f_bytes = (\<lambda>i. if i = 2 then [CHR ''y''] else [CHR ''x'', CHR 0x0A]), f_name = Some 1\<rparr>"

lemma demo_short: "handle_string_log e1 e2 keeper [CHR ''x'', CHR 0x0A] = Some keeper" "handle_string_log e1 e2 keeper [CHR ''y''] = Some keeper"
  by (simp_all add: handle_line [OF refl] RECORD_LEN_def line_faults_def line_queries_def RCODE_P_def)

lemma demo_main_step: "main_step sticky demo_env demo_env (demo_main keeper) =
    Some ((demo_main keeper)\<lparr>m_pos := 2\<rparr>, Some [CHR ''x'', CHR 0x0A])"
  by (simp add: main_step_def demo_main_def fgets_pos c_str_def demo_short)

lemma demo_main_run: "tail_run sticky (demo_main keeper) [Line demo_env demo_env [CHR ''x'', CHR 0x0A]] ((demo_main keeper)\<lparr>m_pos := 2\<rparr>)"
  by (rule tail_run.step [OF tail_step.line [OF demo_main_step] tail_run.stop])

lemma demo_following: "following (demo_main keeper)"
  by (simp add: following_def demo_main_def lstat_def get_inode_def)

theorem main_counts_lines_witness:
  "log_run demo_house (lines_queries (run_lines [Line demo_env demo_env [CHR ''x'', CHR 0x0A]])) = Some demo_house"
  using main_counts_lines [OF demo_main_run, of demo_house] by (simp add: demo_main_def)

theorem main_reads_in_order_witness:
  "m_pos ((demo_main demo_house)\<lparr>m_pos := 2\<rparr>) = 2 \<and> [CHR ''x'', CHR 0x0A] = take 2 (f_bytes (demo_main demo_house) 1)"
  using main_reads_in_order [OF demo_main_run _ demo_following, of demo_house] by (simp add: demo_main_def)

theorem main_stuck_at_end_witness:
  "\<exists>s'. tail_run True ((demo_main demo_house)\<lparr>m_eof := True\<rparr>) [Quiet, Quiet] s' \<and> m_pc s' = Check \<and> run_lines [Quiet, Quiet] = [] \<and>
    m_keeper s' = demo_house"
proof -
  let ?s = "(demo_main demo_house)\<lparr>m_eof := True\<rparr>"
  let ?s1 = "?s\<lparr>f_bytes := (f_bytes ?s)(1 := f_bytes ?s 1 @ ''z'')\<rparr>"
  let ?s2 = "?s1\<lparr>m_pc := Check\<rparr>"
  have m: "main_step True demo_env demo_env ?s1 = Some (?s2, None)"
    by (simp add: main_step_def demo_main_def split: prod.split)
  have r: "tail_run True ?s [Quiet, Quiet] ?s2"
    by (rule tail_run.step [OF tail_step.append tail_run.step [OF tail_step.quiet [OF m] tail_run.stop]])
  have "following ?s" using demo_following [of demo_house] by (simp add: following_def lstat_def demo_main_def)
  then show ?thesis using main_stuck_at_end [OF r] r by (auto simp: demo_main_def)
qed

theorem main_follows_rotation_witness:
  "\<exists>s'. main_iter True demo_env demo_env 5 ((demo_main demo_house)\<lparr>m_pc := Check, f_name := Some 2\<rparr>) = Some (s', [[CHR ''y'']]) \<and>
    m_file s' = 2 \<and> m_pos s' = 1 \<and> m_pc s' = Check"
proof -
  have c: "chunks [CHR ''y''] = [[CHR ''y'']]"
    by (subst chunks.simps) (simp add: fgets_pos)
  show ?thesis
    using main_follows_rotation [of "(demo_main demo_house)\<lparr>m_pc := Check, f_name := Some 2\<rparr>" 2 demo_env demo_env demo_house True]
    by (simp add: demo_main_def get_inode_def c c_str_def demo_short)
qed

end
