(* ===== verification/Keeper_Session.thy ===== *)
theory Keeper_Session
  imports Request_Props
begin

text \<open>
  The threads of the house keeper together. Each of them holds \<open>mlock\<close> while it counts a query,
  answers a request or computes the rates, so a run of the program is a sequence of these steps, in
  any order. Every sequence keeps the house keeper in step with the abstract log.
\<close>

section \<open>The steps\<close>

datatype keeper_event = Counted env log_query | Asked env stats_request | Rated

fun event_step ::
    "(stats_reply \<Rightarrow> 'b) \<Rightarrow> (rat \<Rightarrow> string) \<Rightarrow> (rat \<Rightarrow> rat) \<Rightarrow> house_keeper \<Rightarrow> keeper_event \<Rightarrow> house_keeper option" where
  "event_step pack show_f fl keeper (Counted e q) = log_handle e keeper (lq_view q) (lq_domain q) (lq_ip q) (lq_rtype q) (lq_rcode q)"
| "event_step pack show_f fl keeper (Asked e r) = map_option fst (handle_request pack show_f e keeper (Some r))"
| "event_step pack show_f fl keeper Rated = qps_round fl keeper"

fun session_run ::
    "(stats_reply \<Rightarrow> 'b) \<Rightarrow> (rat \<Rightarrow> string) \<Rightarrow> (rat \<Rightarrow> rat) \<Rightarrow> house_keeper \<Rightarrow> keeper_event list \<Rightarrow> house_keeper option" where
  "session_run pack show_f fl keeper [] = Some keeper"
| "session_run pack show_f fl keeper (ev # evs) = do {
     keeper1 \<leftarrow> event_step pack show_f fl keeper ev;
     session_run pack show_f fl keeper1 evs
   }"

text \<open>The steps of the abstract log.\<close>

fun event_abs :: "nat \<Rightarrow> nat \<Rightarrow> u64 \<Rightarrow> keeper_event \<Rightarrow> log_abs \<Rightarrow> log_abs" where
  "event_abs ts ps bound (Counted e q) A = log_step ts ps bound q A"
| "event_abs ts ps bound (Asked e r) A = (if q_key r = ''flush'' then [] else A)"
| "event_abs ts ps bound Rated A = A"

text \<open>What a step asks of its arguments and of the memory, with \<open>n\<close> steps to come.\<close>

fun event_ok :: "nat \<Rightarrow> nat \<Rightarrow> nat \<Rightarrow> keeper_event \<Rightarrow> bool" where
  "event_ok n ts ps (Counted e q) \<longleftrightarrow> env_ok n e \<and> env_tree_struct e = ts \<and> env_pool_struct e = ps \<and> query_ok q"
| "event_ok n ts ps (Asked e r) \<longleftrightarrow> length (q_view r) < STATS_NODE_MAX_SIZE \<and> 0 \<le> q_topn r \<and>
     (q_key r = ''flush'' \<longrightarrow> env_malloc e \<and> env_garbage e = 0)"
| "event_ok n ts ps Rated \<longleftrightarrow> True"

definition session_ok :: "nat \<Rightarrow> nat \<Rightarrow> keeper_event list \<Rightarrow> bool" where
  "session_ok ts ps evs \<longleftrightarrow> (\<forall>ev \<in> set evs. event_ok (length evs) ts ps ev)"

fun session_queries :: "keeper_event list \<Rightarrow> log_query list" where
  "session_queries [] = []"
| "session_queries (Counted e q # evs) = q # session_queries evs"
| "session_queries (_ # evs) = session_queries evs"

lemma event_ok_fewer: "event_ok n ts ps ev \<Longrightarrow> m \<le> n \<Longrightarrow> event_ok m ts ps ev"
  by (cases ev) (auto intro: env_ok_fewer)

lemma session_ok_Cons:
  "session_ok ts ps (ev # evs) \<Longrightarrow> event_ok (Suc (length evs)) ts ps ev \<and> session_ok ts ps evs"
  by (fastforce simp: session_ok_def intro: event_ok_fewer)

lemma session_queries_set: "q \<in> set (session_queries evs) \<longleftrightarrow> (\<exists>e. Counted e q \<in> set evs)"
  by (induction evs rule: session_queries.induct) auto

section \<open>Each step\<close>

lemma keeper_rel_fewer:
  assumes "keeper_rel full n keeper A" "m \<le> n"
  shows "keeper_rel full m keeper A"
  using assms entries_fewer unfolding keeper_rel_def tree_state_def by fastforce

lemma topn_total:
  assumes "tree_rel full t N" "0 \<le> topn"
  shows "view_stats_result pack copy t key topn \<noteq> None"
proof (cases copy)
  case None
  then show ?thesis by (simp add: view_stats_result_def heap_copy_def)
next
  case (Some junk)
  obtain V U where "name_state t V U" using assms(1) by (auto simp: tree_rel_def)
  then show ?thesis using result_total [of t V U pack junk] assms(2) Some
    by (metis linorder_not_less option.distinct(1))
qed

lemma request_step:
  assumes k: "keeper_rel full n keeper A" and ok: "event_ok n ts ps (Asked e r)"
    and show_f: "length (show_f 0) < 16" "length (show_f 1) < 16"
  obtains keeper' reply where "handle_request pack show_f e keeper (Some r) = Some (keeper', reply)"
    "keeper_rel full n keeper' (if q_key r = ''flush'' then [] else A)" "hk_mem_uplimit keeper' = hk_mem_uplimit keeper"
proof -
  let ?v = "q_view r" and ?key = "q_key r"
  have r: "Some r = request ?key ?v (q_topn r)" by (simp add: request_def)
  have v: "length ?v < STATS_NODE_MAX_SIZE" and topn: "0 \<le> (if q_topn r = 0 then 1000 else q_topn r)" using ok by auto
  consider (flush) keeper' where "?key = ''flush''" "flush_stats pack e keeper = Some (keeper', pack ((STATS_REPLY__INIT ''flush'')\<lparr>r_maybe := Some ''success''\<rparr>))"
      "keeper_rel full n keeper' []" "hk_mem_uplimit keeper' = hk_mem_uplimit keeper" | (other) "?key \<noteq> ''flush''"
  proof (cases "?key = ''flush''")
    case True
    then have e: "env_malloc e" "env_garbage e = 0" using ok by auto
    obtain keeper' where "house_keeper_clear_stats e keeper = Some keeper'" "env_garbage e = 0 \<longrightarrow> keeper_rel full n keeper' []"
      "hk_mem_uplimit keeper' = hk_mem_uplimit keeper" by (rule clear_stats_ok [OF k e(1)])
    then show ?thesis using flush [of keeper'] True e(2) by (simp add: flush_stats_def)
  qed (rule other)
  note f = this
  show thesis
  proof (cases "map_of A ?v")
    case None
    note m = request_missing [OF keeper_find(1) [OF k v None], of pack show_f e ?key "q_topn r", folded r]
    show ?thesis using f
    proof cases
      case flush
      then show ?thesis using that [of keeper'] by (simp add: m)
    next
      case other
      then have "\<exists>reply. handle_request pack show_f e keeper (Some r) = Some (keeper, reply)"
        using all_views_ok [OF k, of pack] by (simp add: m)
      then show ?thesis using that k other by auto
    qed
  next
    case (Some a)
    then obtain vs where vs: "found_view keeper ?v vs" "stats_rel full vs a" using keeper_find(2) [OF k v] by blast
    note m = request_found [OF vs(1), of pack show_f e ?key "q_topn r", folded r]
    show ?thesis using f
    proof cases
      case flush
      then show ?thesis using that [of keeper'] by (simp add: m Let_def)
    next
      case other
      have t: "tree_rel full (vs_name_tree vs) (va_names a)" "tree_rel full (vs_ip_tree vs) (va_ips a)"
        using vs(2) by (simp_all add: stats_rel_def)
      obtain x y where "view_stats_name_topn pack (env_copy e) vs (if q_topn r = 0 then 1000 else q_topn r) = Some x"
        "view_stats_ip_topn pack (env_copy e) vs (if q_topn r = 0 then 1000 else q_topn r) = Some y"
        using topn_total [OF t(1) topn] topn_total [OF t(2) topn]
        by (fastforce simp: view_stats_name_topn_def view_stats_ip_topn_def)
      then have "\<exists>reply. handle_request pack show_f e keeper (Some r) = Some (keeper, reply)"
        using other rates_result [OF vs(2) show_f, where pack = pack] by (simp add: m Let_def)
      then show ?thesis using that k other by auto
    qed
  qed
qed

lemma session_run_ok:
  assumes "keeper_rel False (length evs) keeper A" "session_ok ts ps evs" "log_inv D I m A" "m + length evs < 2 ^ 31"
    and "\<forall>q \<in> set (session_queries evs). qualify (lq_domain q) \<in> D (lq_view q) \<and> qualify (lq_ip q) \<in> I (lq_view q)"
    and "\<forall>v. finite (D v) \<and> card (D v) \<le> 1023 \<and> finite (I v) \<and> card (I v) \<le> 1023"
    and "length (show_f 0) < 16" "length (show_f 1) < 16" "fl 0 = 0"
  shows "\<exists>keeper'. session_run pack show_f fl keeper evs = Some keeper' \<and>
    keeper_rel False 0 keeper' (fold (event_abs ts ps (hk_mem_uplimit keeper)) evs A)"
  using assms(1-5)
proof (induction evs arbitrary: keeper A m)
  case Nil
  then show ?case by simp
next
  case (Cons ev evs)
  let ?b = "hk_mem_uplimit keeper"
  have ok: "event_ok (Suc (length evs)) ts ps ev" "session_ok ts ps evs" using session_ok_Cons [OF Cons.prems(2)] by auto
  have mem: "\<forall>q \<in> set (session_queries evs). qualify (lq_domain q) \<in> D (lq_view q) \<and> qualify (lq_ip q) \<in> I (lq_view q)"
    using Cons.prems(5) by (auto simp: session_queries_set)
  have k: "keeper_rel False (Suc (length evs)) keeper A" using Cons.prems(1) by simp
  obtain keeper1 m1 where s: "event_step pack show_f fl keeper ev = Some keeper1"
    "keeper_rel False (length evs) keeper1 (event_abs ts ps ?b ev A)" "hk_mem_uplimit keeper1 = ?b"
    "log_inv D I m1 (event_abs ts ps ?b ev A)" "m1 \<le> Suc m"
  proof (cases ev)
    case (Counted e q)
    then have e: "env_ok (Suc (length evs)) e" "env_tree_struct e = ts" "env_pool_struct e = ps" "query_ok q"
      and q: "qualify (lq_domain q) \<in> D (lq_view q)" "qualify (lq_ip q) \<in> I (lq_view q)" using ok(1) Cons.prems(5) by auto
    have m: "m < 2 ^ 31 - 1" using Cons.prems(4) by simp
    show ?thesis
      by (rule log_query_ok [OF k e Cons.prems(3) m q assms(6)]) (use that [of _ "Suc m"] Counted in simp_all)
  next
    case (Asked e r)
    obtain keeper1 reply where "handle_request pack show_f e keeper (Some r) = Some (keeper1, reply)"
      "keeper_rel False (Suc (length evs)) keeper1 (if q_key r = ''flush'' then [] else A)" "hk_mem_uplimit keeper1 = ?b"
      using request_step [OF k ok(1) [unfolded Asked] assms(7,8)] by blast
    then show ?thesis using that [of keeper1 m] Asked keeper_rel_fewer [of False "Suc (length evs)"] Cons.prems(3)
      by (auto simp: log_inv_def)
  next
    case Rated
    have "qps_round fl keeper = Some keeper" using assms(9) by (rule qps_round_idle [OF k])
    then show ?thesis using that [of keeper m] Rated keeper_rel_fewer [OF k] Cons.prems(3) by simp
  qed
  have "m1 + length evs < 2 ^ 31" using s(5) Cons.prems(4) by simp
  from Cons.IH [OF s(2) ok(2) s(4) this mem] show ?case using s(1,3) by simp
qed

lemma found_view_rates:
  assumes k: "keeper_rel full n keeper A" and f: "found_view keeper v vs"
  shows "vs_count vs = 0 \<and> vs_last_count vs = 0 \<and> vs_qps vs = 0 \<and> vs_success_rate vs = 1"
proof -
  have v: "length v < STATS_NODE_MAX_SIZE"
    using f by (auto simp: found_view_def view_tree_find_def strcpy_buf_def split: if_splits)
  show ?thesis
  proof (cases "map_of A v")
    case None
    then show ?thesis using keeper_find(1) [OF k v] f by (auto simp: found_view_def)
  next
    case (Some a)
    then obtain vs' where "found_view keeper v vs'" "stats_rel full vs' a" using keeper_find(2) [OF k v] by blast
    then show ?thesis using f by (auto simp: found_view_def stats_rel_def)
  qed
qed

text \<open>From the state of a new house keeper.\<close>

lemma session_run_start:
  assumes "keeper_rel False (length evs) keeper []" "hk_mem_uplimit keeper = UPLIMIT"
    and "session_ok ts ps evs" "length evs < 2 ^ 31"
    and "\<forall>v. card (set (domains_of (session_queries evs) v)) < 1024 \<and> card (set (ips_of (session_queries evs) v)) < 1024"
    and "length (show_f 0) < 16" "length (show_f 1) < 16" "fl 0 = 0"
  shows "\<exists>keeper'. session_run pack show_f fl keeper evs = Some keeper' \<and>
    keeper_rel False 0 keeper' (fold (event_abs ts ps UPLIMIT) evs [])"
proof -
  let ?D = "\<lambda>v. set (domains_of (session_queries evs) v)" and ?I = "\<lambda>v. set (ips_of (session_queries evs) v)"
  have mem: "\<forall>q \<in> set (session_queries evs). qualify (lq_domain q) \<in> ?D (lq_view q) \<and> qualify (lq_ip q) \<in> ?I (lq_view q)"
    by (force simp: domains_of_def ips_of_def view_queries_def)
  have cards: "\<forall>v. finite (?D v) \<and> card (?D v) \<le> 1023 \<and> finite (?I v) \<and> card (?I v) \<le> 1023"
    using assms(5) by (simp add: less_Suc_eq_le [symmetric] eval_nat_numeral)
  have inv: "log_inv ?D ?I 0 []" by (simp add: log_inv_def)
  have "0 + length evs < 2 ^ 31" using assms(4) by simp
  from session_run_ok [OF assms(1,3) inv this mem cards assms(6,7), of fl pack] assms(2,8) show ?thesis by simp
qed

text \<open>C2. The threads together: every sequence of queries, requests, flushes and rounds of the
  statistics thread, in any order, runs without a fault from the creation of the house keeper on
  and leaves the state that the abstract log has after the same steps, in which a flush forgets
  everything and the other requests and the rounds change nothing. The conditions: memory for the
  steps to come, fewer than \<open>2 ^ 31\<close> steps, fewer than 1024 names and addresses for each view, queries with
  a type of the table and with views and names that fit their buffers, \<open>view_stats_create\<close>, which ends
  without a \<open>return\<close>, giving back its structure, unpacked requests with a view that fits and \<open>topn\<close> not
  negative, \<open>malloc\<close> leaving 0 in the counter of a new tree, at the start and at a flush, and rates that fit 16 bytes.\<close>

theorem session_refines:
  assumes "start_ok e0 brk0 limit0 (length evs)" "session_ok ts ps evs" "length evs < 2 ^ 31"
    and "\<forall>v. card (set (domains_of (session_queries evs) v)) < 1024 \<and> card (set (ips_of (session_queries evs) v)) < 1024"
    and "length (show_f 0) < 16" "length (show_f 1) < 16" "fl 0 = 0"
  shows "\<exists>keeper keeper'. house_keeper_create e0 brk0 limit0 = Some keeper \<and> session_run pack show_f fl keeper evs = Some keeper' \<and>
    keeper_rel False 0 keeper' (fold (event_abs ts ps UPLIMIT) evs [])"
proof -
  obtain keeper where k: "house_keeper_create e0 brk0 limit0 = Some keeper" "keeper_rel False (length evs) keeper []"
    "hk_mem_uplimit keeper = UPLIMIT" by (rule created_keeper [OF assms(1)])
  show ?thesis using session_run_start [OF k(2,3) assms(2-6), of fl pack] k(1) assms(7) by blast
qed

text \<open>C10. The rates that the clients read never change: whatever was counted, asked and flushed since
  the creation of the house keeper, every view that is found has the counters at 0, the rate 0 and the success rate 1, as
  they were created, and one more round of the statistics thread changes nothing. No operation
  increments the counter of queries that the thread computes the rates from. The conditions are those of the
  session.\<close>

theorem rates_are_constant:
  assumes "start_ok e0 brk0 limit0 (length evs)" "session_ok ts ps evs" "length evs < 2 ^ 31"
    and "\<forall>v. card (set (domains_of (session_queries evs) v)) < 1024 \<and> card (set (ips_of (session_queries evs) v)) < 1024"
    and "length (show_f 0) < 16" "length (show_f 1) < 16" "fl 0 = 0"
  shows "\<exists>keeper keeper'. house_keeper_create e0 brk0 limit0 = Some keeper \<and> session_run pack show_f fl keeper evs = Some keeper' \<and>
    (\<forall>v vs. found_view keeper' v vs \<longrightarrow> vs_count vs = 0 \<and> vs_last_count vs = 0 \<and> vs_qps vs = 0 \<and> vs_success_rate vs = 1) \<and>
    qps_round fl keeper' = Some keeper'"
proof -
  obtain keeper where k: "house_keeper_create e0 brk0 limit0 = Some keeper" "keeper_rel False (length evs) keeper []"
    "hk_mem_uplimit keeper = UPLIMIT" by (rule created_keeper [OF assms(1)])
  obtain keeper' where k': "session_run pack show_f fl keeper evs = Some keeper'"
    "keeper_rel False 0 keeper' (fold (event_abs ts ps UPLIMIT) evs [])"
    using session_run_start [OF k(2,3) assms(2-6), of fl pack] assms(7) by blast
  have "qps_round fl keeper' = Some keeper'" using assms(7) by (rule qps_round_idle [OF k'(2)])
  then show ?thesis using k(1) k'(1) found_view_rates [OF k'(2)] by blast
qed

text \<open>A query, a round, a request, a flush and another query.\<close>

definition demo_session :: "keeper_event list" where
  "demo_session = [Counted demo_env (demo_query ''a''), Rated, Asked demo_env \<lparr>q_key = ''domaintopn'', q_view = ''v'', q_topn = 3\<rparr>,
     Asked demo_env \<lparr>q_key = ''flush'', q_view = [], q_topn = 0\<rparr>, Counted demo_env (demo_query ''b.'')]"

lemma demo_session_abs: "fold (event_abs 152 96 UPLIMIT) demo_session [] = [(''v'', count_query_abs (demo_query ''b.'') new_view)]"
  by (simp add: demo_session_def log_step_def touch_view_def Let_def count_first_def demo_sizes new_view_def
      count_query_abs_def demo_query_def)

lemma demo_structs: "env_tree_struct demo_env = 152" "env_pool_struct demo_env = 96"
  by (simp_all add: demo_env_def)

lemma demo_session_ok:
  "start_ok demo_env 16 10000 (length demo_session)" "session_ok 152 96 demo_session"
  "\<forall>v. card (set (domains_of (session_queries demo_session) v)) < 1024 \<and> card (set (ips_of (session_queries demo_session) v)) < 1024"
  "length demo_session = 5"
proof -
  show l: "length demo_session = 5" by (simp add: demo_session_def)
  show "start_ok demo_env 16 10000 (length demo_session)" by (simp add: l demo_start)
  show "session_ok 152 96 demo_session"
    unfolding session_ok_def l using demo_start [of 5] demo_env_ok [of 5] demo_query_ok
    by (simp add: demo_session_def start_ok_def STATS_NODE_MAX_SIZE_def demo_structs)
  show "\<forall>v. card (set (domains_of (session_queries demo_session) v)) < 1024 \<and> card (set (ips_of (session_queries demo_session) v)) < 1024"
  proof
    fix v
    have "length (domains_of (session_queries demo_session) v) \<le> 2" "length (ips_of (session_queries demo_session) v) \<le> 2"
      by (simp_all add: demo_session_def domains_of_def ips_of_def view_queries_def)
    then show "card (set (domains_of (session_queries demo_session) v)) < 1024 \<and> card (set (ips_of (session_queries demo_session) v)) < 1024"
      using card_length [of "domains_of (session_queries demo_session) v"] card_length [of "ips_of (session_queries demo_session) v"] by linarith
  qed
qed

theorem session_refines_witness:
  "\<exists>keeper keeper'. house_keeper_create demo_env 16 10000 = Some keeper \<and>
    session_run (\<lambda>r. r) (\<lambda>_. ''0.0'') (\<lambda>q. q) keeper demo_session = Some keeper' \<and>
    keeper_rel False 0 keeper' [(''v'', count_query_abs (demo_query ''b.'') new_view)]"
  using session_refines [OF demo_session_ok(1,2) _ demo_session_ok(3), of "\<lambda>_. ''0.0''" "\<lambda>q. q" "\<lambda>r. r"]
  unfolding demo_session_abs by (simp add: demo_session_ok(4))

theorem rates_are_constant_witness:
  "\<exists>keeper keeper'. house_keeper_create demo_env 16 10000 = Some keeper \<and>
    session_run (\<lambda>r. r) (\<lambda>_. ''0.0'') (\<lambda>q. q) keeper demo_session = Some keeper' \<and>
    (\<forall>v vs. found_view keeper' v vs \<longrightarrow> vs_count vs = 0 \<and> vs_last_count vs = 0 \<and> vs_qps vs = 0 \<and> vs_success_rate vs = 1) \<and>
    qps_round (\<lambda>q. q) keeper' = Some keeper'"
  using rates_are_constant [OF demo_session_ok(1,2) _ demo_session_ok(3), of "\<lambda>_. ''0.0''" "\<lambda>q. q" "\<lambda>r. r"]
  by (simp add: demo_session_ok(4))

end
