(* ===== verification/Zip_Socket.thy ===== *)
theory Zip_Socket
  imports Keeper_Session
begin

text \<open>
  The reading and writing loops of \<^verbatim>\<open>zip_socket.c\<close> on a stream socket, and \<open>socket_thread\<close> of
  \<^verbatim>\<open>log_topn.c\<close>, which serves one client with them. What the kernel does at the calls of \<open>read\<close> and
  \<open>write\<close> is a list of events; the bytes of the peer come in their order. The functions
  around one system call are in \<^verbatim>\<open>Zip_Calls\<close>, as far as they do more than pass it on.
\<close>

section \<open>Reading and writing\<close>

text \<open>
  At \<open>Gave k\<close> a call moves up to \<open>k\<close> bytes, at \<open>Interrupted\<close>, \<open>Not_ready\<close> and \<open>Failed\<close> it returns -1 with
  \<open>EINTR\<close>, \<open>EAGAIN\<close> or another error. A read gives at least one byte until the peer has closed and all
  its bytes were read. After the end of the list every call moves all it can.
\<close>

datatype io_event = Gave nat | Interrupted | Not_ready | Failed

text \<open>A \<open>size_t\<close> returned as \<open>int\<close>.\<close>

definition size_int :: "nat \<Rightarrow> int" where
  "size_int n = sint (of_nat n :: u32)"

text \<open>
  \<open>socket_read\<close>: the result, the bytes in the buffer, and the events and bytes that are left. \<open>left_len\<close> is the
  number of bytes still wanted.
\<close>

function socket_read ::
    "io_event list \<Rightarrow> string \<Rightarrow> nat \<Rightarrow> string \<Rightarrow> int \<times> string \<times> io_event list \<times> string" where
  "socket_read evs inp left_len got =
     (if left_len = 0 then (size_int (length got), got, evs, inp)
      else case evs of
        [] \<Rightarrow> if inp = [] then (size_int (length got), got, [], inp)
              else socket_read [] (drop left_len inp) (left_len - min left_len (length inp)) (got @ take left_len inp)
      | Gave k # evs' \<Rightarrow> if inp = [] then (size_int (length got), got, evs', inp)
              else let n = min (max 1 k) (min left_len (length inp))
                   in socket_read evs' (drop n inp) (left_len - n) (got @ take n inp)
      | Interrupted # evs' \<Rightarrow> socket_read evs' inp left_len got
      | Not_ready # evs' \<Rightarrow> (size_int (length got), got, evs', inp)
      | Failed # evs' \<Rightarrow> (- 1, got, evs', inp))"
  by auto
termination
  by (relation "measure (\<lambda>(evs, inp, left_len, got). length evs + length inp)") auto

declare socket_read.simps [simp del]

text \<open>\<open>socket_write\<close>: the result, the bytes sent, and the events that are left.\<close>

fun socket_write :: "nat \<Rightarrow> io_event list \<Rightarrow> string \<Rightarrow> string \<Rightarrow> int \<times> string \<times> io_event list" where
  "socket_write n evs [] sent = (size_int n, sent, evs)"
| "socket_write n [] bytes sent = (size_int n, sent @ bytes, [])"
| "socket_write n (Gave k # evs) bytes sent =
     (if k = 0 then (- 1, sent, evs) else socket_write n evs (drop k bytes) (sent @ take k bytes))"
| "socket_write n (Interrupted # evs) bytes sent = socket_write n evs bytes sent"
| "socket_write n (_ # evs) bytes sent = (- 1, sent, evs)"

section \<open>The thread of a client\<close>

text \<open>The four bytes of a 32-bit number in the order of the network, and back.\<close>

definition htonl :: "u32 \<Rightarrow> string" where
  "htonl w = map (\<lambda>i. char_of (unat w div 256 ^ i)) [3, 2, 1, 0]"

definition ntohl :: "string \<Rightarrow> u32" where
  "ntohl bs = of_nat (foldl (\<lambda>n c. n * 256 + of_char c) 0 bs)"

record client =
  c_keeper :: house_keeper
  c_in :: string
  c_reads :: "io_event list"
  c_out :: string
  c_writes :: "io_event list"
  c_served :: nat

text \<open>
  One turn of the loop, and whether there is another. The messages are packed and unpacked by
  generated code, \<open>pack\<close> and \<open>unpack\<close>. \<open>garbage\<close> are the four bytes of \<open>temp\<close> before the first is
  read, \<open>room\<close> tells whether \<open>malloc\<close> gives so many bytes. \<open>len\<close>, here \<open>got_len\<close>, bytes of the buffer are unpacked: it
  aborts when more are asked for than were read into it.
\<close>

definition thread_turn ::
    "(string \<Rightarrow> stats_request option) \<Rightarrow> (stats_reply \<Rightarrow> string) \<Rightarrow> (rat \<Rightarrow> string) \<Rightarrow> (nat \<Rightarrow> env) \<Rightarrow> string \<Rightarrow>
     (u32 \<Rightarrow> bool) \<Rightarrow> client \<Rightarrow> (client \<times> bool) option" where
  "thread_turn unpack pack show_f envs garbage room c =
     (let (ret, temp, reads1, in1) = socket_read (c_reads c) (c_in c) 4 []
      in if ret \<le> 0 then Some (c\<lparr>c_reads := reads1, c_in := in1\<rparr>, False)
         else do {
           let prefix_len = ntohl (temp @ drop (length temp) garbage);
           guard (room prefix_len);
           let (ret2, buffer, reads2, in2) = socket_read reads1 in1 (unat prefix_len) [];
           let got_len = unat (word_of_int ret2 :: u32);
           guard (got_len \<le> length buffer);
           (keeper, reply) \<leftarrow> handle_request pack show_f (envs (c_served c)) (c_keeper c) (unpack (take got_len buffer));
           let result = (case reply of None \<Rightarrow> [] | Some bytes \<Rightarrow> bytes);
           let (_, out1, writes1) = socket_write 4 (c_writes c) (htonl (of_nat (length result))) (c_out c);
           let (_, out2, writes2) = socket_write (length result) writes1 result out1;
           Some (\<lparr>c_keeper = keeper, c_in = in2, c_reads = reads2, c_out = out2, c_writes = writes2,
             c_served = c_served c + 1\<rparr>, True)
         })"

partial_function (option) socket_thread ::
    "(string \<Rightarrow> stats_request option) \<Rightarrow> (stats_reply \<Rightarrow> string) \<Rightarrow> (rat \<Rightarrow> string) \<Rightarrow> (nat \<Rightarrow> env) \<Rightarrow> string \<Rightarrow>
     (u32 \<Rightarrow> bool) \<Rightarrow> client \<Rightarrow> client option" where
  "socket_thread unpack pack show_f envs garbage room c = do {
     (c', more) \<leftarrow> thread_turn unpack pack show_f envs garbage room c;
     if more then socket_thread unpack pack show_f envs garbage room c' else Some c'
   }"

section \<open>Without errors\<close>

text \<open>Calls that may move fewer bytes or be interrupted, but do not fail.\<close>

definition clean :: "io_event list \<Rightarrow> bool" where
  "clean evs \<longleftrightarrow> (\<forall>ev \<in> set evs. ev = Interrupted \<or> (\<exists>k > 0. ev = Gave k))"

lemma moved_bytes:
  "n \<le> min a (length inp) \<Longrightarrow> length (got @ take n inp) + min (a - n) (length (drop n inp)) = length got + min a (length inp)"
  by (auto simp: min_def)

lemma read_clean:
  "clean evs \<Longrightarrow> \<exists>evs'. clean evs' \<and>
     socket_read evs inp left_len got = (size_int (length got + min left_len (length inp)), got @ take left_len inp, evs', drop left_len inp)"
proof (induction evs inp left_len got rule: socket_read.induct)
  case (1 evs inp left_len got)
  note step = socket_read.simps [of evs inp left_len got]
  show ?case
  proof (cases "left_len = 0 \<or> inp = []")
    case True
    show ?thesis
    proof (cases evs)
      case (Cons ev evs')
      have cl: "clean evs'" "ev = Interrupted \<or> (\<exists>k. ev = Gave k)" using 1(4) Cons by (auto simp: clean_def)
      show ?thesis
      proof (cases "left_len = 0")
        case False
        show ?thesis
        proof (cases "ev = Interrupted")
          case True
          then show ?thesis using 1(3) [OF False Cons True cl(1)] step False Cons by simp
        next
          case False
          then show ?thesis using step cl \<open>left_len \<noteq> 0\<close> \<open>left_len = 0 \<or> inp = []\<close> Cons by auto
        qed
      qed (use step 1(4) in auto)
    qed (use step True in \<open>auto simp: clean_def\<close>)
  next
    case False
    show ?thesis
    proof (cases evs)
      case Nil
      then show ?thesis using 1(1) [of] step False by (auto simp: clean_def min_def)
    next
      case (Cons ev evs')
      have cl: "clean evs'" using 1(4) Cons by (auto simp: clean_def)
      consider "ev = Interrupted" | k where "ev = Gave k" "0 < k" using 1(4) Cons by (auto simp: clean_def)
      then show ?thesis
      proof cases
        case 1
        then show ?thesis using "1.IH"(3) [OF _ Cons 1 cl] step False Cons by simp
      next
        case 2
        let ?n = "min (max 1 k) (min left_len (length inp))"
        obtain evs'' where "clean evs''" "socket_read evs' (drop ?n inp) (left_len - ?n) (got @ take ?n inp) =
            (size_int (length (got @ take ?n inp) + min (left_len - ?n) (length (drop ?n inp))),
             (got @ take ?n inp) @ take (left_len - ?n) (drop ?n inp), evs'', drop (left_len - ?n) (drop ?n inp))"
          using "1.IH"(2) [OF _ Cons 2(1) _ refl cl] False by auto
        moreover have "take ?n inp @ take (left_len - ?n) (drop ?n inp) = take left_len inp"
          by (metis le_add_diff_inverse min.cobounded1 min.coboundedI2 take_add)
        moreover have "length (got @ take ?n inp) + min (left_len - ?n) (length (drop ?n inp)) = length got + min left_len (length inp)"
          by (rule moved_bytes) (rule min.cobounded2)
        moreover have "drop (left_len - ?n) (drop ?n inp) = drop left_len inp"
          by (metis drop_drop le_add_diff_inverse2 min.cobounded1 min.coboundedI2)
        moreover have "socket_read evs inp left_len got = socket_read evs' (drop ?n inp) (left_len - ?n) (got @ take ?n inp)"
          using step False by (simp only: Cons 2 Let_def list.case io_event.case if_False) simp
        ultimately show ?thesis by (metis append_assoc)
      qed
    qed
  qed
qed

lemma write_clean:
  "clean evs \<Longrightarrow> \<exists>evs'. clean evs' \<and> socket_write n evs bytes sent = (size_int n, sent @ bytes, evs')"
  by (induction n evs bytes sent rule: socket_write.induct) (auto simp: clean_def)

lemma size_int_pos: "0 < n \<Longrightarrow> n < 2 ^ 31 \<Longrightarrow> 0 < size_int n"
  by (simp add: size_int_def sint_small unat_of_nat)

lemma size_int_word: "n < 2 ^ 32 \<Longrightarrow> unat (word_of_int (size_int n) :: u32) = n"
  by (simp add: size_int_def unat_of_nat)

lemma ntohl_htonl: "ntohl (htonl w) = w"
proof -
  have w: "unat w < 4294967296" by (rule order_less_le_trans [OF unsigned_less]) simp
  let ?n = "unat w"
  have q: "?n div 65536 = ?n div 256 div 256" "?n div 16777216 = ?n div 256 div 256 div 256"
    by (simp_all add: div_mult2_eq [symmetric])
  have "((?n div 16777216 * 256 + ?n div 65536 mod 256) * 256 + ?n div 256 mod 256) * 256 + ?n mod 256 = ?n"
    unfolding q by (simp only: div_mult_mod_eq)
  moreover have "?n div 16777216 mod 256 = ?n div 16777216"
    using w by (intro mod_less) (simp add: less_mult_imp_div_less)
  ultimately have "foldl (\<lambda>n c. n * 256 + of_char c) 0 (htonl w) = ?n" by (simp add: htonl_def)
  then show ?thesis by (simp add: ntohl_def)
qed

lemma length_htonl [simp]: "length (htonl w) = 4"
  by (simp add: htonl_def)

text \<open>A message behind its length.\<close>

definition frame :: "string \<Rightarrow> string" where
  "frame m = htonl (of_nat (length m)) @ m"

text \<open>The requests of a client, one after the other.\<close>

fun requests_run ::
    "(string \<Rightarrow> stats_request option) \<Rightarrow> (stats_reply \<Rightarrow> string) \<Rightarrow> (rat \<Rightarrow> string) \<Rightarrow> (nat \<Rightarrow> env) \<Rightarrow> nat \<Rightarrow> house_keeper \<Rightarrow>
     string list \<Rightarrow> (house_keeper \<times> string list) option" where
  "requests_run unpack pack show_f envs i keeper [] = Some (keeper, [])"
| "requests_run unpack pack show_f envs i keeper (m # ms) = do {
     (keeper1, reply) \<leftarrow> handle_request pack show_f (envs i) keeper (unpack m);
     (keeper2, replies) \<leftarrow> requests_run unpack pack show_f envs (i + 1) keeper1 ms;
     Some (keeper2, (case reply of None \<Rightarrow> [] | Some bytes \<Rightarrow> bytes) # replies)
   }"

lemma turn_request:
  assumes "clean (c_reads c)" "clean (c_writes c)" "c_in c = frame m @ rest" "length m < 2 ^ 32" "room (of_nat (length m))"
    and "handle_request pack show_f (envs (c_served c)) (c_keeper c) (unpack m) = Some (keeper, reply)" "length garbage = 4"
  obtains c' where "thread_turn unpack pack show_f envs garbage room c = Some (c', True)" "clean (c_reads c')" "clean (c_writes c')"
    "c_in c' = rest" "c_keeper c' = keeper" "c_served c' = c_served c + 1"
    "c_out c' = c_out c @ frame (case reply of None \<Rightarrow> [] | Some bytes \<Rightarrow> bytes)"
proof -
  let ?out = "case reply of None \<Rightarrow> [] | Some bytes \<Rightarrow> bytes"
  obtain reads1 where r1: "clean reads1" "socket_read (c_reads c) (c_in c) 4 [] = (size_int 4, htonl (of_nat (length m)), reads1, m @ rest)"
    using read_clean [OF assms(1), of "c_in c" 4 "[]"] assms(3) by (auto simp: frame_def)
  have p: "unat (of_nat (length m) :: u32) = length m" using assms(4) by (simp add: unat_of_nat)
  obtain reads2 where r2: "clean reads2" "socket_read reads1 (m @ rest) (length m) [] = (size_int (length m), m, reads2, rest)"
    using read_clean [OF r1(1), of "m @ rest" "length m" "[]"] by auto
  obtain writes1 where w1: "clean writes1" "socket_write 4 (c_writes c) (htonl (of_nat (length ?out))) (c_out c) =
      (size_int 4, c_out c @ htonl (of_nat (length ?out)), writes1)"
    using write_clean [OF assms(2)] by blast
  obtain writes2 where w2: "clean writes2" "socket_write (length ?out) writes1 ?out (c_out c @ htonl (of_nat (length ?out))) =
      (size_int (length ?out), (c_out c @ htonl (of_nat (length ?out))) @ ?out, writes2)"
    using write_clean [OF w1(1)] by blast
  have four: "\<not> size_int 4 \<le> 0" using size_int_pos [of 4] by simp
  define c' where "c' = \<lparr>c_keeper = keeper, c_in = rest, c_reads = reads2,
    c_out = (c_out c @ htonl (of_nat (length ?out))) @ ?out, c_writes = writes2, c_served = c_served c + 1\<rparr>"
  have "thread_turn unpack pack show_f envs garbage room c = Some (c', True)"
    unfolding thread_turn_def r1(2) Let_def prod.case using four assms(4-7)
    by (simp add: ntohl_htonl p r2(2) size_int_word w1(2) w2(2) c'_def)
  then show thesis using that [of c'] r2(1) w2(1) by (simp add: c'_def frame_def)
qed

lemma turn_closed:
  assumes "clean (c_reads c)" "c_in c = []"
  obtains c' where "thread_turn unpack pack show_f envs garbage room c = Some (c', False)" "c_in c' = []"
    "c_keeper c' = c_keeper c" "c_out c' = c_out c" "c_served c' = c_served c"
proof -
  obtain reads1 where "socket_read (c_reads c) (c_in c) 4 [] = (size_int 0, [], reads1, [])"
    using read_clean [OF assms(1), of "c_in c" 4 "[]"] assms(2) by auto
  then have "thread_turn unpack pack show_f envs garbage room c = Some (c\<lparr>c_reads := reads1, c_in := []\<rparr>, False)"
    by (simp add: thread_turn_def size_int_def)
  then show thesis by (rule that) simp_all
qed

lemma thread_ok:
  assumes "clean (c_reads c)" "clean (c_writes c)" "c_in c = concat (map frame ms)"
    and "\<forall>m \<in> set ms. length m < 2 ^ 32 \<and> room (of_nat (length m))"
    and "requests_run unpack pack show_f envs (c_served c) (c_keeper c) ms = Some (keeper, replies)" "length garbage = 4"
  shows "\<exists>c'. socket_thread unpack pack show_f envs garbage room c = Some c' \<and> c_keeper c' = keeper \<and> c_in c' = [] \<and>
    c_out c' = c_out c @ concat (map frame replies) \<and> c_served c' = c_served c + length ms"
  using assms
proof (induction ms arbitrary: c replies)
  case Nil
  have "c_in c = []" using Nil.prems(3) by simp
  from turn_closed [OF Nil.prems(1) this] obtain c' where "thread_turn unpack pack show_f envs garbage room c = Some (c', False)"
    "c_in c' = []" "c_keeper c' = c_keeper c" "c_out c' = c_out c" "c_served c' = c_served c" by metis
  then show ?case using Nil.prems(5) by (subst socket_thread.simps) simp
next
  case (Cons m ms)
  obtain keeper1 reply rs where h: "handle_request pack show_f (envs (c_served c)) (c_keeper c) (unpack m) = Some (keeper1, reply)"
    "requests_run unpack pack show_f envs (c_served c + 1) keeper1 ms = Some (keeper, rs)"
    "replies = (case reply of None \<Rightarrow> [] | Some bytes \<Rightarrow> bytes) # rs"
    using Cons.prems(5) by (auto elim!: bind_eq_SomeE)
  have i: "c_in c = frame m @ concat (map frame ms)" "length m < 2 ^ 32" "room (of_nat (length m))" using Cons.prems(3,4) by simp_all
  obtain c1 where c1: "thread_turn unpack pack show_f envs garbage room c = Some (c1, True)" "clean (c_reads c1)" "clean (c_writes c1)"
    "c_in c1 = concat (map frame ms)" "c_keeper c1 = keeper1" "c_served c1 = c_served c + 1"
    "c_out c1 = c_out c @ frame (case reply of None \<Rightarrow> [] | Some bytes \<Rightarrow> bytes)"
    by (rule turn_request [where envs = envs and room = room and unpack = unpack, OF Cons.prems(1,2) i h(1) Cons.prems(6)])
  have "requests_run unpack pack show_f envs (c_served c1) (c_keeper c1) ms = Some (keeper, rs)" using h(2) c1(5,6) by simp
  from Cons.IH [OF c1(2-4) _ this Cons.prems(6)] Cons.prems(4) obtain c' where "socket_thread unpack pack show_f envs garbage room c1 = Some c'"
    "c_keeper c' = keeper" "c_in c' = []" "c_out c' = c_out c1 @ concat (map frame rs)" "c_served c' = c_served c1 + length ms" by auto
  then show ?case using c1(1,6,7) h(3) by (subst socket_thread.simps) simp
qed

section \<open>Properties\<close>

text \<open>C14. A client that sends its requests, each behind its length, and closes is answered with the
  replies to them, in their order and each behind its length, whatever pieces \<open>read\<close> and \<open>write\<close>
  move and however often they are interrupted; the thread ends, and the house keeper is as after the
  same requests one by one. The length of a frame is read back from its four bytes.\<close>

theorem socket_thread_replies:
  assumes "clean (c_reads c)" "clean (c_writes c)" "c_in c = concat (map frame ms)"
    and "\<forall>m \<in> set ms. length m < 2 ^ 32 \<and> room (of_nat (length m))" "length garbage = 4"
    and "requests_run unpack pack show_f envs (c_served c) (c_keeper c) ms = Some (keeper, replies)"
  shows "(\<exists>c'. socket_thread unpack pack show_f envs garbage room c = Some c' \<and> c_keeper c' = keeper \<and> c_in c' = [] \<and>
      c_out c' = c_out c @ concat (map frame replies) \<and> c_served c' = c_served c + length ms) \<and>
    (\<forall>m rest. ntohl (take 4 (frame m @ rest)) = of_nat (length m) \<and> drop 4 (frame m @ rest) = m @ rest)"
  using thread_ok [where envs = envs and room = room and unpack = unpack, OF assms(1-4,6,5)] by (simp add: frame_def ntohl_htonl)

text \<open>C36. A client that closes before its request is complete brings the program down: behind a part of
  the four bytes of a length the thread goes on with what was in the buffer, and behind a part of a
  message it unpacks that part; the generated code refuses both, and the refusal is dereferenced.\<close>

theorem short_request_faults:
  assumes "clean (c_reads c)" "length garbage = 4" "unpack [] = None"
    and "c_in c = part \<and> 0 < length part \<and> length part < 4 \<or>
      c_in c = htonl (of_nat n) @ part \<and> length part < n \<and> n < 2 ^ 32 \<and> unpack part = None"
  shows "socket_thread unpack pack show_f envs garbage room c = None"
proof -
  have refused: "handle_request pack show_f e keeper None = None" for e keeper by (simp add: handle_request_def)
  from assms(4) have "thread_turn unpack pack show_f envs garbage room c = None"
  proof (elim disjE conjE)
    assume 1: "c_in c = part" "0 < length part" "length part < 4"
    obtain reads1 where r1: "clean reads1" "socket_read (c_reads c) (c_in c) 4 [] = (size_int (length part), part, reads1, [])"
      using read_clean [OF assms(1), of "c_in c" 4 "[]"] 1 by auto
    have "\<exists>reads2. socket_read reads1 [] m [] = (size_int 0, [], reads2, [])" for m
      using read_clean [OF r1(1), of "[]" m "[]"] by auto
    then obtain reads2 where r2: "socket_read reads1 [] (unat (ntohl (part @ drop (length part) garbage))) [] = (size_int 0, [], reads2, [])"
      by blast
    have "\<not> size_int (length part) \<le> 0" using size_int_pos [of "length part"] 1 by simp
    then show ?thesis unfolding thread_turn_def r1(2) Let_def prod.case r2 by (simp add: size_int_def assms(3) refused)
  next
    assume 2: "c_in c = htonl (of_nat n) @ part" "length part < n" "n < 2 ^ 32" "unpack part = None"
    obtain reads1 where r1: "clean reads1" "socket_read (c_reads c) (c_in c) 4 [] = (size_int 4, htonl (of_nat n), reads1, part)"
      using read_clean [OF assms(1), of "c_in c" 4 "[]"] 2 by auto
    have p: "unat (of_nat n :: u32) = n" using 2(3) by (simp add: unat_of_nat)
    obtain reads2 where r2: "socket_read reads1 part n [] = (size_int (length part), part, reads2, [])"
      using read_clean [OF r1(1), of part n "[]"] 2(2) by auto
    have "\<not> size_int 4 \<le> 0" using size_int_pos [of 4] by simp
    moreover have "unat (word_of_int (size_int (length part)) :: u32) = length part" using size_int_word [of "length part"] 2(2,3) by simp
    ultimately show ?thesis
      unfolding thread_turn_def r1(2) Let_def prod.case using assms(2) by (simp add: ntohl_htonl p r2 2(4) refused)
  qed
  then show ?thesis by (subst socket_thread.simps) simp
qed

subsection \<open>An example\<close>

definition demo_client :: "house_keeper \<Rightarrow> string \<Rightarrow> client" where
  "demo_client keeper inp = \<lparr>c_keeper = keeper, c_in = inp, c_reads = [Gave 1, Interrupted, Gave 2], c_out = [],
     c_writes = [Gave 3, Interrupted], c_served = 0\<rparr>"

definition demo_unpack :: "string \<Rightarrow> stats_request option" where
  "demo_unpack m = (if m = [] then None else Some \<lparr>q_key = ''rcode'', q_view = m, q_topn = 0\<rparr>)"

lemma demo_clean: "clean (c_reads (demo_client keeper inp))" "clean (c_writes (demo_client keeper inp))"
  by (simp_all add: demo_client_def clean_def)

theorem socket_thread_replies_witness:
  "\<exists>keeper c'. keeper_rel True 0 keeper demo_abs \<and>
    socket_thread demo_unpack r_key (\<lambda>_. ''0.0'') (\<lambda>_. demo_env) ''temp'' (\<lambda>_. True) (demo_client keeper (frame ''u'' @ frame ''t'')) = Some c' \<and>
    c_out c' = frame ''error'' @ frame ''error''"
proof -
  obtain k0 keeper where k: "keeper_rel True 0 keeper demo_abs" by (rule demo_keeper)
  have "map_of demo_abs v = None" if "v \<in> {''u'', ''t''}" for v
    using that log_fold_view [OF demo_within, of v] by (auto simp: demo_abs_def demo_views)
  then have h: "handle_request r_key (\<lambda>_. ''0.0'') demo_env keeper (demo_unpack v) = Some (keeper, Some ''error'')" if "v \<in> {''u'', ''t''}" for v
    using request_missing [OF keeper_find(1) [OF k], of v r_key "\<lambda>_. ''0.0''" demo_env "''rcode''" 0] that
    by (auto simp: request_def demo_unpack_def view_not_found_def STATS_REPLY__INIT_def STATS_NODE_MAX_SIZE_def)
  let ?c = "demo_client keeper (frame ''u'' @ frame ''t'')"
  have run: "requests_run demo_unpack r_key (\<lambda>_. ''0.0'') (\<lambda>_. demo_env) (c_served ?c) (c_keeper ?c) [''u'', ''t''] =
      Some (keeper, [''error'', ''error''])"
    using h by (simp add: demo_client_def)
  have "\<exists>c'. socket_thread demo_unpack r_key (\<lambda>_. ''0.0'') (\<lambda>_. demo_env) ''temp'' (\<lambda>_. True) ?c = Some c' \<and>
      c_out c' = frame ''error'' @ frame ''error''"
    using socket_thread_replies [OF demo_clean _ _ _ run, of "\<lambda>_. True" "''temp''"] by (auto simp: demo_client_def)
  then show ?thesis using k by blast
qed

theorem short_request_faults_witness:
  "socket_thread demo_unpack r_key (\<lambda>_. ''0.0'') (\<lambda>_. demo_env) ''temp'' (\<lambda>_. True) (demo_client demo_house ''ab'') = None"
  by (rule short_request_faults [OF demo_clean(1), where part = "''ab''"]) (simp_all add: demo_unpack_def demo_client_def)

end
