(* ===== verification/Command_Server.thy ===== *)
theory Command_Server
  imports Zip_Socket
begin

text \<open>
  The server of \<^verbatim>\<open>log_topn.c\<close>: \<open>command_handler\<close> accepts clients, each of which gets a thread that runs
  \<open>socket_thread\<close>, while the log is counted and the rates are computed. A turn of a thread touches what it
  shares with the others only under \<open>mlock\<close>, so it is one step, and a run is a sequence of steps in any
  order.
\<close>

section \<open>The server\<close>

text \<open>
  What happens: a query of the log, a round of the rates, a client that \<open>accept\<close> gives, and a turn of
  the thread of the client \<open>i\<close>. A client is given by what it sends and what the kernel does for it.
\<close>

datatype 'c server_event = Logged env log_query | Round | Accepted 'c | Turn nat env

text \<open>The threads of the clients with what they read and wrote, and whether they still run.\<close>

record server =
  sv_keeper :: house_keeper
  sv_clients :: "(client \<times> bool) list"

text \<open>
  \<open>Accepted\<close> is the body of the loop of \<open>command_handler\<close>. It does not test what \<open>accept\<close> gave; with -1 the first
  \<open>read\<close> of the client fails.
\<close>

fun server_step ::
    "(string \<Rightarrow> stats_request option) \<Rightarrow> (stats_reply \<Rightarrow> string) \<Rightarrow> (rat \<Rightarrow> string) \<Rightarrow> (rat \<Rightarrow> rat) \<Rightarrow> string \<Rightarrow> (u32 \<Rightarrow> bool) \<Rightarrow>
     server \<Rightarrow> client server_event \<Rightarrow> server option" where
  "server_step unpack pack show_f fl garbage room S (Logged e q) = do {
     k \<leftarrow> log_handle e (sv_keeper S) (lq_view q) (lq_domain q) (lq_ip q) (lq_rtype q) (lq_rcode q);
     Some (S\<lparr>sv_keeper := k\<rparr>)
   }"
| "server_step unpack pack show_f fl garbage room S Round = do {
     k \<leftarrow> qps_round fl (sv_keeper S);
     Some (S\<lparr>sv_keeper := k\<rparr>)
   }"
| "server_step unpack pack show_f fl garbage room S (Accepted c) = Some (S\<lparr>sv_clients := sv_clients S @ [(c, True)]\<rparr>)"
| "server_step unpack pack show_f fl garbage room S (Turn i e) =
     (if i < length (sv_clients S) \<and> snd (sv_clients S ! i) then do {
        (c, more) \<leftarrow> thread_turn unpack pack show_f (\<lambda>_. e) garbage room ((fst (sv_clients S ! i))\<lparr>c_keeper := sv_keeper S\<rparr>);
        Some \<lparr>sv_keeper = c_keeper c, sv_clients = (sv_clients S)[i := (c, more)]\<rparr>
      } else Some S)"

fun server_run ::
    "(string \<Rightarrow> stats_request option) \<Rightarrow> (stats_reply \<Rightarrow> string) \<Rightarrow> (rat \<Rightarrow> string) \<Rightarrow> (rat \<Rightarrow> rat) \<Rightarrow> string \<Rightarrow> (u32 \<Rightarrow> bool) \<Rightarrow>
     server \<Rightarrow> client server_event list \<Rightarrow> server option" where
  "server_run unpack pack show_f fl garbage room S [] = Some S"
| "server_run unpack pack show_f fl garbage room S (ev # evs) = do {
     S1 \<leftarrow> server_step unpack pack show_f fl garbage room S ev;
     server_run unpack pack show_f fl garbage room S1 evs
   }"

section \<open>The server of messages\<close>

text \<open>
  What the server is meant to do: each client has a line of messages to send and a line of replies
  received, and a turn answers its next message.
\<close>

record desk =
  dk_keeper :: house_keeper
  dk_lines :: "(string list \<times> string list) list"

fun desk_step ::
    "(string \<Rightarrow> stats_request option) \<Rightarrow> (stats_reply \<Rightarrow> string) \<Rightarrow> (rat \<Rightarrow> string) \<Rightarrow> (rat \<Rightarrow> rat) \<Rightarrow>
     desk \<Rightarrow> string list server_event \<Rightarrow> desk option" where
  "desk_step unpack pack show_f fl D (Logged e q) = do {
     k \<leftarrow> log_handle e (dk_keeper D) (lq_view q) (lq_domain q) (lq_ip q) (lq_rtype q) (lq_rcode q);
     Some (D\<lparr>dk_keeper := k\<rparr>)
   }"
| "desk_step unpack pack show_f fl D Round = do {
     k \<leftarrow> qps_round fl (dk_keeper D);
     Some (D\<lparr>dk_keeper := k\<rparr>)
   }"
| "desk_step unpack pack show_f fl D (Accepted ms) = Some (D\<lparr>dk_lines := dk_lines D @ [(ms, [])]\<rparr>)"
| "desk_step unpack pack show_f fl D (Turn i e) =
     (if i < length (dk_lines D) then (case dk_lines D ! i of
        ([], replies) \<Rightarrow> Some D
      | (m # ms, replies) \<Rightarrow> do {
          (k, reply) \<leftarrow> handle_request pack show_f e (dk_keeper D) (unpack m);
          Some \<lparr>dk_keeper = k, dk_lines = (dk_lines D)[i := (ms, replies @ [case reply of None \<Rightarrow> [] | Some bytes \<Rightarrow> bytes])]\<rparr>
        }) else Some D)"

fun desk_run ::
    "(string \<Rightarrow> stats_request option) \<Rightarrow> (stats_reply \<Rightarrow> string) \<Rightarrow> (rat \<Rightarrow> string) \<Rightarrow> (rat \<Rightarrow> rat) \<Rightarrow>
     desk \<Rightarrow> string list server_event list \<Rightarrow> desk option" where
  "desk_run unpack pack show_f fl D [] = Some D"
| "desk_run unpack pack show_f fl D (ev # evs) = do {
     D1 \<leftarrow> desk_step unpack pack show_f fl D ev;
     desk_run unpack pack show_f fl D1 evs
   }"

text \<open>The steps of the house keeper in a run, from the messages that the clients have still to send.\<close>

fun served :: "(string \<Rightarrow> stats_request option) \<Rightarrow> string list list \<Rightarrow> string list server_event list \<Rightarrow> keeper_event list" where
  "served unpack todo [] = []"
| "served unpack todo (Logged e q # evs) = Counted e q # served unpack todo evs"
| "served unpack todo (Round # evs) = Rated # served unpack todo evs"
| "served unpack todo (Accepted ms # evs) = served unpack (todo @ [ms]) evs"
| "served unpack todo (Turn i e # evs) =
     (if i < length todo then (case todo ! i of
        [] \<Rightarrow> served unpack todo evs
      | m # ms \<Rightarrow> Asked e (the (unpack m)) # served unpack (todo[i := ms]) evs)
      else served unpack todo evs)"

text \<open>The messages are well-formed, and there is memory for them.\<close>

definition known :: "(string \<Rightarrow> stats_request option) \<Rightarrow> (u32 \<Rightarrow> bool) \<Rightarrow> string list \<Rightarrow> bool" where
  "known unpack room ms \<longleftrightarrow> (\<forall>m \<in> set ms. unpack m \<noteq> None \<and> length m < 2 ^ 32 \<and> room (of_nat (length m)))"

definition desk_ok :: "(string \<Rightarrow> stats_request option) \<Rightarrow> (u32 \<Rightarrow> bool) \<Rightarrow> desk \<Rightarrow> bool" where
  "desk_ok unpack room D \<longleftrightarrow> (\<forall>(ms, replies) \<in> set (dk_lines D). known unpack room ms)"

definition plan_ok :: "(string \<Rightarrow> stats_request option) \<Rightarrow> (u32 \<Rightarrow> bool) \<Rightarrow> string list server_event list \<Rightarrow> bool" where
  "plan_ok unpack room plan \<longleftrightarrow> (\<forall>ms. Accepted ms \<in> set plan \<longrightarrow> known unpack room ms)"

section \<open>The messages refine the steps of the house keeper\<close>

lemma known_tl: "known unpack room (m # ms) \<Longrightarrow> known unpack room ms"
  by (simp add: known_def)

lemma desk_step_served:
  assumes "desk_ok unpack room D" "plan_ok unpack room (ev # plan)"
    and "session_run pack show_f fl (dk_keeper D) (served unpack (map fst (dk_lines D)) (ev # plan)) = Some k"
  obtains D1 where "desk_step unpack pack show_f fl D ev = Some D1" "desk_ok unpack room D1"
    "session_run pack show_f fl (dk_keeper D1) (served unpack (map fst (dk_lines D1)) plan) = Some k"
proof (cases ev)
  case (Accepted ms)
  then have "desk_ok unpack room (D\<lparr>dk_lines := dk_lines D @ [(ms, [])]\<rparr>)" using assms(1,2) by (auto simp: desk_ok_def plan_ok_def)
  then show thesis using that assms(3) Accepted by simp
next
  case (Turn i e)
  show thesis
  proof (cases "i < length (dk_lines D)")
    case False
    then show thesis using that assms(1,3) Turn by simp
  next
    case True
    obtain todo replies where l: "dk_lines D ! i = (todo, replies)" by (cases "dk_lines D ! i")
    have t: "known unpack room todo" using nth_mem [OF True] assms(1) l by (fastforce simp: desk_ok_def)
    show thesis
    proof (cases todo)
      case Nil
      then show thesis using that assms(1,3) Turn True l by simp
    next
      case (Cons m ms)
      obtain r where r: "unpack m = Some r" using t Cons by (auto simp: known_def)
      obtain k1 reply where h: "handle_request pack show_f e (dk_keeper D) (Some r) = Some (k1, reply)"
        "session_run pack show_f fl k1 (served unpack ((map fst (dk_lines D))[i := ms]) plan) = Some k"
        using assms(3) Turn True l Cons r by (auto elim!: bind_eq_SomeE)
      let ?D = "\<lparr>dk_keeper = k1, dk_lines = (dk_lines D)[i := (ms, replies @ [case reply of None \<Rightarrow> [] | Some bytes \<Rightarrow> bytes])]\<rparr>"
      have "desk_ok unpack room ?D"
        using assms(1) t Cons set_update_subset_insert [of "dk_lines D" i] by (fastforce simp: desk_ok_def known_def)
      then show thesis using that [of ?D] h Turn True l Cons r by (simp add: map_update)
    qed
  qed
qed (use that assms in \<open>auto simp: desk_ok_def elim!: bind_eq_SomeE\<close>)

lemma desk_run_served:
  assumes "desk_ok unpack room D" "plan_ok unpack room plan"
    and "session_run pack show_f fl (dk_keeper D) (served unpack (map fst (dk_lines D)) plan) = Some k"
  shows "\<exists>D'. desk_run unpack pack show_f fl D plan = Some D' \<and> dk_keeper D' = k"
  using assms
proof (induction plan arbitrary: D)
  case (Cons ev plan)
  obtain D1 where D1: "desk_step unpack pack show_f fl D ev = Some D1" "desk_ok unpack room D1"
    "session_run pack show_f fl (dk_keeper D1) (served unpack (map fst (dk_lines D1)) plan) = Some k"
    by (rule desk_step_served [OF Cons.prems])
  have "plan_ok unpack room plan" using Cons.prems(2) by (simp add: plan_ok_def)
  then show ?case using Cons.IH [OF D1(2) _ D1(3)] D1(1) by simp
qed simp

section \<open>The bytes refine the messages\<close>

text \<open>
  A client sends its messages in frames and its kernel does not fail, or \<open>accept\<close> has failed and there is
  none.
\<close>

definition sends :: "client \<Rightarrow> string list \<Rightarrow> bool" where
  "sends c ms \<longleftrightarrow> (clean (c_reads c) \<and> clean (c_writes c) \<and> c_in c = concat (map frame ms)) \<or> (ms = [] \<and> (\<exists>evs. c_reads c = Failed # evs))"

fun line_rel :: "client \<times> bool \<Rightarrow> string list \<times> string list \<Rightarrow> bool" where
  "line_rel (c, running) (todo, replies) \<longleftrightarrow>
     c_out c = concat (map frame replies) \<and> (if running then sends c todo else todo = [])"

definition server_rel :: "server \<Rightarrow> desk \<Rightarrow> bool" where
  "server_rel S D \<longleftrightarrow> sv_keeper S = dk_keeper D \<and> list_all2 line_rel (sv_clients S) (dk_lines D)"

lemma turn_idle:
  assumes "sends c []" "c_out c = concat (map frame replies)"
  obtains c' more where "thread_turn unpack pack show_f (\<lambda>_. e) garbage room c = Some (c', more)"
    "c_keeper c' = c_keeper c" "line_rel (c', more) ([], replies)"
proof (cases "\<exists>evs. c_reads c = Failed # evs")
  case True
  then obtain evs where r: "c_reads c = Failed # evs" by blast
  have "socket_read (c_reads c) (c_in c) 4 [] = (- 1, [], evs, c_in c)" by (simp add: r socket_read.simps)
  then show thesis using assms(2) that [of "c\<lparr>c_reads := evs, c_in := c_in c\<rparr>" False] by (simp add: thread_turn_def)
next
  case False
  then have c: "clean (c_reads c)" "c_in c = []" using assms(1) by (auto simp: sends_def)
  obtain c' where "thread_turn unpack pack show_f (\<lambda>_. e) garbage room c = Some (c', False)"
    "c_keeper c' = c_keeper c" "c_out c' = c_out c" using turn_closed [OF c] by metis
  then show thesis using that [of c' False] assms(2) by simp
qed

lemma turn_served:
  assumes "sends c (m # ms)" "c_out c = concat (map frame replies)" "known unpack room (m # ms)" "length garbage = 4"
    and h: "handle_request pack show_f e (c_keeper c) (unpack m) = Some (k, reply)"
  obtains c' where "thread_turn unpack pack show_f (\<lambda>_. e) garbage room c = Some (c', True)" "c_keeper c' = k"
    "line_rel (c', True) (ms, replies @ [case reply of None \<Rightarrow> [] | Some bytes \<Rightarrow> bytes])"
proof -
  have c: "clean (c_reads c)" "clean (c_writes c)" and i: "c_in c = frame m @ concat (map frame ms)" "length m < 2 ^ 32" "room (of_nat (length m))"
    using assms(1,3) by (simp_all add: sends_def known_def)
  obtain c' where c': "thread_turn unpack pack show_f (\<lambda>_. e) garbage room c = Some (c', True)" "clean (c_reads c')" "clean (c_writes c')"
    "c_in c' = concat (map frame ms)" "c_keeper c' = k" "c_served c' = c_served c + 1"
    "c_out c' = c_out c @ frame (case reply of None \<Rightarrow> [] | Some bytes \<Rightarrow> bytes)"
    by (rule turn_request [where envs = "\<lambda>_. e" and room = room and unpack = unpack, OF c i h assms(4)])
  then show thesis using that [of c'] assms(2) by (simp add: sends_def)
qed

lemma server_step_desk:
  assumes R: "server_rel S D" and ok: "desk_ok unpack room D" and ev: "rel_server_event (\<lambda>c ms. c_out c = [] \<and> sends c ms) ev dv"
    and D1: "desk_step unpack pack show_f fl D dv = Some D1" and g: "length garbage = 4"
  shows "\<exists>S1. server_step unpack pack show_f fl garbage room S ev = Some S1 \<and> server_rel S1 D1"
proof (cases dv)
  case (Logged e q)
  then have "ev = Logged e q" using ev by (cases ev) auto
  then show ?thesis using R D1 Logged by (auto simp: server_rel_def elim!: bind_eq_SomeE)
next
  case Round
  then have "ev = Round" using ev by (cases ev) auto
  then show ?thesis using R D1 Round by (auto simp: server_rel_def elim!: bind_eq_SomeE)
next
  case (Accepted ms)
  then obtain c where "ev = Accepted c" "c_out c = []" "sends c ms" using ev by (cases ev) auto
  then show ?thesis using R D1 Accepted by (auto simp: server_rel_def intro!: list_all2_appendI)
next
  case (Turn i e)
  have evi: "ev = Turn i e" using ev Turn by (cases ev) auto
  have k: "sv_keeper S = dk_keeper D" and L: "list_all2 line_rel (sv_clients S) (dk_lines D)" using R by (simp_all add: server_rel_def)
  have len: "length (sv_clients S) = length (dk_lines D)" using L by (rule list_all2_lengthD)
  show ?thesis
  proof (cases "i < length (dk_lines D)")
    case False
    then show ?thesis using evi len R D1 Turn by simp
  next
    case True
    obtain c running todo replies where l: "sv_clients S ! i = (c, running)" "dk_lines D ! i = (todo, replies)"
      by (cases "sv_clients S ! i", cases "dk_lines D ! i")
    have lr: "line_rel (c, running) (todo, replies)" using list_all2_nthD2 [OF L True] l by simp
    have t: "known unpack room todo" using nth_mem [OF True] ok l(2) by (fastforce simp: desk_ok_def)
    show ?thesis
    proof (cases running)
      case False
      then have "todo = []" using lr by simp
      then show ?thesis using evi l R D1 Turn False True by simp
    next
      case running: True
      let ?c = "c\<lparr>c_keeper := sv_keeper S\<rparr>"
      have s: "sends ?c todo" "c_out ?c = concat (map frame replies)" using lr running by (simp_all add: sends_def)
      have upd: "list_all2 line_rel ((sv_clients S)[i := x]) ((dk_lines D)[i := y])" if "line_rel x y" for x y
        using L that by (rule list_all2_update_cong)
      have same: "(dk_lines D)[i := (todo, replies)] = dk_lines D" using l(2) by (metis list_update_id)
      show ?thesis
      proof (cases todo)
        case Nil
        obtain c' more where "thread_turn unpack pack show_f (\<lambda>_. e) garbage room ?c = Some (c', more)"
          "c_keeper c' = c_keeper ?c" "line_rel (c', more) ([], replies)"
          using turn_idle [of ?c replies] s Nil by metis
        then show ?thesis using evi l D1 Turn True running Nil len k upd [of "(c', more)" "([], replies)"] same by (simp add: server_rel_def)
      next
        case (Cons m ms)
        obtain k1 reply where h: "handle_request pack show_f e (dk_keeper D) (unpack m) = Some (k1, reply)"
          "D1 = \<lparr>dk_keeper = k1, dk_lines = (dk_lines D)[i := (ms, replies @ [case reply of None \<Rightarrow> [] | Some bytes \<Rightarrow> bytes])]\<rparr>"
          using D1 Turn True l Cons by (auto elim!: bind_eq_SomeE)
        have "handle_request pack show_f e (c_keeper ?c) (unpack m) = Some (k1, reply)" using h(1) k by simp
        then obtain c' where "thread_turn unpack pack show_f (\<lambda>_. e) garbage room ?c = Some (c', True)"
          "c_keeper c' = k1" "line_rel (c', True) (ms, replies @ [case reply of None \<Rightarrow> [] | Some bytes \<Rightarrow> bytes])"
          using turn_served [of ?c m ms replies unpack room garbage pack show_f e k1 reply] s t g Cons by metis
        then show ?thesis using evi l Turn True running len h(2) upd by (simp add: server_rel_def)
      qed
    qed
  qed
qed

lemma server_run_desk:
  assumes "server_rel S D" "desk_ok unpack room D" "plan_ok unpack room plan"
    and "list_all2 (rel_server_event (\<lambda>c ms. c_out c = [] \<and> sends c ms)) evs plan"
    and "session_run pack show_f fl (dk_keeper D) (served unpack (map fst (dk_lines D)) plan) = Some k"
    and "desk_run unpack pack show_f fl D plan = Some D'" "length garbage = 4"
  shows "\<exists>S'. server_run unpack pack show_f fl garbage room S evs = Some S' \<and> server_rel S' D'"
  using assms(1-6)
proof (induction plan arbitrary: S D evs)
  case Nil
  then show ?case by simp
next
  case (Cons dv plan)
  obtain ev evs1 where evs: "evs = ev # evs1" "rel_server_event (\<lambda>c ms. c_out c = [] \<and> sends c ms) ev dv"
    "list_all2 (rel_server_event (\<lambda>c ms. c_out c = [] \<and> sends c ms)) evs1 plan"
    using Cons.prems(4) by (auto simp: list_all2_Cons2)
  obtain D1 where D1: "desk_step unpack pack show_f fl D dv = Some D1" "desk_ok unpack room D1"
    "session_run pack show_f fl (dk_keeper D1) (served unpack (map fst (dk_lines D1)) plan) = Some k"
    by (rule desk_step_served [OF Cons.prems(2,3,5)])
  obtain S1 where S1: "server_step unpack pack show_f fl garbage room S ev = Some S1" "server_rel S1 D1"
    using server_step_desk [OF Cons.prems(1,2) evs(2) D1(1) assms(7)] by blast
  have p: "plan_ok unpack room plan" using Cons.prems(3) by (simp add: plan_ok_def)
  have "desk_run unpack pack show_f fl D1 plan = Some D'" using Cons.prems(6) D1(1) by simp
  from Cons.IH [OF S1(2) D1(2) p evs(3) D1(3) this] show ?case using evs(1) S1(1) by simp
qed

section \<open>Who gets how many replies\<close>

text \<open>The number of the clients accepted, and of the turns of the client \<open>i\<close>.\<close>

fun accepted :: "'c server_event list \<Rightarrow> nat" where
  "accepted [] = 0"
| "accepted (Accepted c # evs) = Suc (accepted evs)"
| "accepted (_ # evs) = accepted evs"

fun turns :: "nat \<Rightarrow> 'c server_event list \<Rightarrow> nat" where
  "turns i [] = 0"
| "turns i (Turn j e # evs) = (if i = j then Suc (turns i evs) else turns i evs)"
| "turns i (_ # evs) = turns i evs"

text \<open>The client \<open>i\<close> has sent \<open>n\<close> of its messages \<open>ms\<close>.\<close>

definition line_at :: "desk \<Rightarrow> nat \<Rightarrow> nat \<Rightarrow> string list \<Rightarrow> bool" where
  "line_at D i n ms \<longleftrightarrow> i < length (dk_lines D) \<and> (\<exists>rs. dk_lines D ! i = (drop n ms, rs) \<and> length rs = min n (length ms))"

lemma line_at_step:
  assumes "line_at D i n ms" "desk_step unpack pack show_f fl D ev = Some D1"
  shows "line_at D1 i (n + turns i [ev]) ms"
proof (cases ev)
  case (Turn j e)
  obtain rs where l: "i < length (dk_lines D)" "dk_lines D ! i = (drop n ms, rs)" "length rs = min n (length ms)"
    using assms(1) by (auto simp: line_at_def)
  show ?thesis
  proof (cases "i = j")
    case False
    then show ?thesis using assms Turn
      by (auto simp: line_at_def split: if_splits prod.splits list.splits elim!: bind_eq_SomeE)
  next
    case True
    show ?thesis
    proof (cases "drop n ms")
      case Nil
      then have "length ms \<le> n" by simp
      then show ?thesis using assms l Turn True Nil by (simp add: line_at_def)
    next
      case (Cons m rest)
      then have n: "n < length ms" by (metis drop_eq_Nil linorder_not_less list.distinct(1))
      have "drop (Suc n) ms = rest" using Cons by (metis drop_Suc list.sel(3) tl_drop)
      then show ?thesis using assms(2) l Turn True Cons n by (auto simp: line_at_def elim!: bind_eq_SomeE)
    qed
  qed
qed (use assms in \<open>auto simp: line_at_def nth_append elim!: bind_eq_SomeE\<close>)

lemma turns_Cons: "turns i (ev # evs) = turns i [ev] + turns i evs"
  by (cases ev) auto

lemma line_at_run:
  "line_at D i n ms \<Longrightarrow> desk_run unpack pack show_f fl D plan = Some D' \<Longrightarrow> line_at D' i (n + turns i plan) ms"
proof (induction plan arbitrary: D n)
  case (Cons ev plan)
  obtain D1 where D1: "desk_step unpack pack show_f fl D ev = Some D1" "desk_run unpack pack show_f fl D1 plan = Some D'"
    using Cons.prems(2) by (auto elim!: bind_eq_SomeE)
  from Cons.IH [OF line_at_step [OF Cons.prems(1) D1(1)] D1(2)] show ?case by (simp only: turns_Cons [of i ev plan] add.assoc)
qed simp

lemma desk_step_accepted:
  "desk_step unpack pack show_f fl D ev = Some D1 \<Longrightarrow> length (dk_lines D1) = length (dk_lines D) + accepted [ev]"
  by (cases ev) (auto split: if_splits prod.splits list.splits elim!: bind_eq_SomeE)

lemma accepted_Cons: "accepted (ev # evs) = accepted [ev] + accepted evs"
  by (cases ev) auto

lemma accepted_line:
  assumes "desk_run unpack pack show_f fl D (pre @ Accepted ms # post) = Some D'"
  shows "line_at D' (length (dk_lines D) + accepted pre) (turns (length (dk_lines D) + accepted pre) post) ms"
  using assms
proof (induction pre arbitrary: D)
  case Nil
  let ?D = "D\<lparr>dk_lines := dk_lines D @ [(ms, [])]\<rparr>"
  have "line_at ?D (length (dk_lines D)) 0 ms" by (simp add: line_at_def)
  from line_at_run [OF this, of unpack pack show_f fl post D'] Nil show ?case by simp
next
  case (Cons ev pre)
  obtain D1 where D1: "desk_step unpack pack show_f fl D ev = Some D1"
    "desk_run unpack pack show_f fl D1 (pre @ Accepted ms # post) = Some D'"
    using Cons.prems by (auto elim!: bind_eq_SomeE)
  from Cons.IH [OF D1(2)] show ?case
    using desk_step_accepted [OF D1(1)] by (simp only: accepted_Cons [of ev pre] add.assoc)
qed

section \<open>Properties\<close>

text \<open>C1. The server as a whole: whatever the order in which queries are logged, rates computed, clients
  accepted and their threads run, and however the transfers are split and interrupted, nothing aborts.
  The house keeper ends as the abstract log does after the same queries and requests; every client has
  received, in frames and in order, exactly the replies to its own messages that the server of messages
  gives, as many as its thread had turns, and a thread that still runs waits for the other messages. A
  failed \<open>accept\<close> only costs a thread. The conditions are those on a sequence of steps of the house keeper
  (see \<open>session_refines\<close>: the memory, fewer than 1024 names and addresses for each view, queries that fit with a type of the
  table, \<open>view_stats_create\<close> giving back its structure, \<open>malloc\<close> leaving 0 in the counter of a new tree),
  and that the messages of the clients are complete and unpacked.\<close>

theorem server_refines:
  assumes "list_all2 (rel_server_event (\<lambda>c ms. c_out c = [] \<and> sends c ms)) evs plan" "plan_ok unpack room plan"
    and "start_ok e0 brk0 limit0 (length (served unpack [] plan))" "session_ok ts ps (served unpack [] plan)"
    and "length (served unpack [] plan) < 2 ^ 31"
    and "\<forall>v. card (set (domains_of (session_queries (served unpack [] plan)) v)) < 1024 \<and>
      card (set (ips_of (session_queries (served unpack [] plan)) v)) < 1024"
    and "length (show_f 0) < 16" "length (show_f 1) < 16" "fl 0 = 0" "length garbage = 4"
  shows "\<exists>keeper S D. house_keeper_create e0 brk0 limit0 = Some keeper \<and>
    server_run unpack pack show_f fl garbage room \<lparr>sv_keeper = keeper, sv_clients = []\<rparr> evs = Some S \<and>
    desk_run unpack pack show_f fl \<lparr>dk_keeper = keeper, dk_lines = []\<rparr> plan = Some D \<and>
    keeper_rel False 0 (sv_keeper S) (fold (event_abs ts ps UPLIMIT) (served unpack [] plan) []) \<and>
    list_all2 line_rel (sv_clients S) (dk_lines D) \<and>
    (\<forall>pre ms post. plan = pre @ Accepted ms # post \<longrightarrow> line_at D (accepted pre) (turns (accepted pre) post) ms)"
proof -
  let ?evs = "served unpack [] plan"
  obtain keeper where k: "house_keeper_create e0 brk0 limit0 = Some keeper" "keeper_rel False (length ?evs) keeper []"
    "hk_mem_uplimit keeper = UPLIMIT" by (rule created_keeper [OF assms(3)])
  obtain keeper' where k': "session_run pack show_f fl keeper ?evs = Some keeper'"
    "keeper_rel False 0 keeper' (fold (event_abs ts ps UPLIMIT) ?evs [])"
    using session_run_start [OF k(2,3) assms(4-8)] assms(9) by blast
  let ?D = "\<lparr>dk_keeper = keeper, dk_lines = []\<rparr>" and ?S = "\<lparr>sv_keeper = keeper, sv_clients = []\<rparr>"
  have ok: "desk_ok unpack room ?D" "server_rel ?S ?D" by (simp_all add: desk_ok_def server_rel_def)
  have run: "session_run pack show_f fl (dk_keeper ?D) (served unpack (map fst (dk_lines ?D)) plan) = Some keeper'"
    using k'(1) by simp
  obtain D where D: "desk_run unpack pack show_f fl ?D plan = Some D" "dk_keeper D = keeper'"
    using desk_run_served [OF ok(1) assms(2) run] by blast
  obtain S where S: "server_run unpack pack show_f fl garbage room ?S evs = Some S" "server_rel S D"
    using server_run_desk [OF ok(2,1) assms(2,1) run D(1) assms(10)] by blast
  have "line_at D (accepted pre) (turns (accepted pre) post) ms" if "plan = pre @ Accepted ms # post" for pre ms post
    using accepted_line [of unpack pack show_f fl ?D pre ms post D] D(1) that by simp
  then show ?thesis using k(1) k'(2) D S by (auto simp: server_rel_def)
qed

subsection \<open>An example\<close>

text \<open>A client with two requests, a failed \<open>accept\<close>, a query and a round between their turns.\<close>

definition demo_plan :: "string list server_event list" where
  "demo_plan = [Accepted [''u'', ''v''], Turn 0 demo_env, Accepted [], Logged demo_env (demo_query ''a''), Turn 1 demo_env, Round,
     Turn 0 demo_env, Turn 1 demo_env]"

definition demo_failed :: client where
  "demo_failed = \<lparr>c_keeper = demo_house, c_in = [], c_reads = [Failed], c_out = [], c_writes = [], c_served = 0\<rparr>"

definition demo_events :: "client server_event list" where
  "demo_events = [Accepted (demo_client demo_house (frame ''u'' @ frame ''v'')), Turn 0 demo_env, Accepted demo_failed,
     Logged demo_env (demo_query ''a''), Turn 1 demo_env, Round, Turn 0 demo_env, Turn 1 demo_env]"

lemma demo_served: "served demo_unpack [] demo_plan =
    [Asked demo_env \<lparr>q_key = ''rcode'', q_view = ''u'', q_topn = 0\<rparr>, Counted demo_env (demo_query ''a''), Rated,
     Asked demo_env \<lparr>q_key = ''rcode'', q_view = ''v'', q_topn = 0\<rparr>]"
  by (simp add: demo_plan_def demo_unpack_def)

theorem server_refines_witness:
  "\<exists>keeper S D c running rs. house_keeper_create demo_env 16 10000 = Some keeper \<and>
    server_run demo_unpack r_key (\<lambda>_. ''0.0'') (\<lambda>q. q) ''temp'' (\<lambda>_. True) \<lparr>sv_keeper = keeper, sv_clients = []\<rparr> demo_events = Some S \<and>
    keeper_rel False 0 (sv_keeper S) [(''v'', count_query_abs (demo_query ''a'') new_view)] \<and>
    sv_clients S ! 0 = (c, running) \<and> c_out c = concat (map frame rs) \<and> length rs = 2"
proof -
  have sd: "sends (demo_client demo_house (frame ''u'' @ frame ''v'')) [''u'', ''v'']" "sends demo_failed []"
    using demo_clean by (simp_all add: sends_def demo_client_def demo_failed_def)
  have "c_out (demo_client demo_house (frame ''u'' @ frame ''v'')) = []" "c_out demo_failed = []"
    by (simp_all add: demo_client_def demo_failed_def)
  with sd have r: "list_all2 (rel_server_event (\<lambda>c ms. c_out c = [] \<and> sends c ms)) demo_events demo_plan"
    by (simp add: demo_events_def demo_plan_def)
  have p: "plan_ok demo_unpack (\<lambda>_. True) demo_plan" by (auto simp: plan_ok_def demo_plan_def known_def demo_unpack_def)
  let ?evs = "served demo_unpack [] demo_plan"
  have l: "length ?evs = 4" by (simp add: demo_served)
  have s: "start_ok demo_env 16 10000 (length ?evs)" by (simp add: l demo_start)
  have ok: "session_ok 152 96 ?evs"
    unfolding session_ok_def l using demo_env_ok [of 4] demo_query_ok
    by (simp add: demo_served STATS_NODE_MAX_SIZE_def demo_structs)
  have c: "\<forall>v. card (set (domains_of (session_queries ?evs) v)) < 1024 \<and> card (set (ips_of (session_queries ?evs) v)) < 1024"
    by (simp add: demo_served domains_of_def ips_of_def view_queries_def)
  have a: "fold (event_abs 152 96 UPLIMIT) ?evs [] = [(''v'', count_query_abs (demo_query ''a'') new_view)]"
    by (simp add: demo_served log_step_def touch_view_def Let_def count_first_def demo_sizes new_view_def count_query_abs_def demo_query_def)
  obtain keeper S D where S: "house_keeper_create demo_env 16 10000 = Some keeper"
    "server_run demo_unpack r_key (\<lambda>_. ''0.0'') (\<lambda>q. q) ''temp'' (\<lambda>_. True) \<lparr>sv_keeper = keeper, sv_clients = []\<rparr> demo_events = Some S"
    "keeper_rel False 0 (sv_keeper S) [(''v'', count_query_abs (demo_query ''a'') new_view)]"
    "list_all2 line_rel (sv_clients S) (dk_lines D)"
    "\<And>pre ms post. demo_plan = pre @ Accepted ms # post \<Longrightarrow> line_at D (accepted pre) (turns (accepted pre) post) ms"
    using server_refines [OF r p s ok _ c, of "\<lambda>_. ''0.0''" "\<lambda>q. q" "''temp''" r_key] unfolding a by (auto simp: l)
  have "line_at D 0 2 [''u'', ''v'']" using S(5) [of "[]" "[''u'', ''v'']" "tl demo_plan"] by (simp add: demo_plan_def numeral_2_eq_2)
  then obtain rs where rs: "0 < length (dk_lines D)" "dk_lines D ! 0 = ([], rs)" "length rs = 2" by (auto simp: line_at_def)
  obtain c running where cl: "sv_clients S ! 0 = (c, running)" by (cases "sv_clients S ! 0")
  have "line_rel (c, running) ([], rs)" using list_all2_nthD2 [OF S(4) rs(1)] rs(2) cl by simp
  then show ?thesis using S(1-3) rs(3) cl by auto
qed

end
