(* ===== verification/Log_Utils.thy ===== *)
theory Log_Utils
  imports C_Stdio
begin

text \<open>
  The configuration file of \<^verbatim>\<open>log_utils.c\<close>: reading it into a structure and writing the structure out.
  \<open>malloc\<close> is assumed to give memory. The copy \<open>while (src[i] = p[i++])\<close> in \<open>strip\<close> reads and
  increments \<open>i\<close> without a sequence point between; which comes first is up to the compiler, here the
  argument \<open>left_first\<close>.
\<close>

section \<open>Removing blanks\<close>

text \<open>The loop that copies down, in a buffer \<open>b\<close>; an access outside the buffer is an abort.\<close>

function copy_down :: "bool \<Rightarrow> string \<Rightarrow> nat \<Rightarrow> nat \<Rightarrow> string option" where
  "copy_down left_first b p i =
     (let w = (if left_first then i else i + 1)
      in if length b \<le> p + i \<or> length b \<le> w then None
         else if b ! (p + i) = CHR 0x00 then Some (b[w := CHR 0x00])
         else copy_down left_first (b[w := b ! (p + i)]) p (i + 1))"
  by auto
termination
  by (relation "measure (\<lambda>(left_first, b, p, i). length b - i)") auto

declare copy_down.simps [simp del]

text \<open>\<open>strip\<close> on the string and its closing NUL.\<close>

definition strip :: "bool \<Rightarrow> string \<Rightarrow> string option" where
  "strip left_first src = do {
     let s = rev (dropWhile (\<lambda>c. c = CHR '' '') (rev src));
     let p = length (takeWhile (\<lambda>c. c = CHR '' '') s);
     b \<leftarrow> copy_down left_first (s @ [CHR 0x00]) p 0;
     Some (c_str b)
   }"

section \<open>Numbers\<close>

text \<open>\<open>printf\<close> with \<open>%d\<close>, and \<open>atoi\<close>, whose result is not defined outside the range of \<open>int\<close>.\<close>

fun dec_digits :: "nat \<Rightarrow> string" where
  "dec_digits n = (if n < 10 then [] else dec_digits (n div 10)) @ [char_of (48 + n mod 10)]"

declare dec_digits.simps [simp del]

definition show_d :: "int \<Rightarrow> string" where
  "show_d i = (if i < 0 then CHR ''-'' # dec_digits (nat (- i)) else dec_digits (nat i))"

definition is_digit :: "char \<Rightarrow> bool" where
  "is_digit c \<longleftrightarrow> 48 \<le> (of_char c :: nat) \<and> (of_char c :: nat) \<le> 57"

definition digits_value :: "string \<Rightarrow> nat" where
  "digits_value s = foldl (\<lambda>n c. n * 10 + (of_char c - 48)) 0 (takeWhile is_digit s)"

definition is_space :: "char \<Rightarrow> bool" where
  "is_space c \<longleftrightarrow> c = CHR '' '' \<or> 9 \<le> (of_char c :: nat) \<and> (of_char c :: nat) \<le> 13"

definition atoi :: "string \<Rightarrow> int option" where
  "atoi text = (let s = dropWhile is_space text;
       v = (case s of [] \<Rightarrow> 0
            | c # t \<Rightarrow> if c = CHR ''-'' then - int (digits_value t)
                       else if c = CHR ''+'' then int (digits_value t) else int (digits_value s))
     in if - (2 ^ 31) \<le> v \<and> v < 2 ^ 31 then Some v else None)"

section \<open>The configuration\<close>

definition REDIS_INSTANCE :: nat where
  "REDIS_INSTANCE = 100"

text \<open>\<open>redis_unix_sock\<close> is the list of the first \<open>redis_unix_num\<close> entries of the array; \<open>cf_file_prefix\<close> is
  \<open>file_prefix\<close>.\<close>

record config =
  filename :: string
  eth_dev :: string
  server_ip :: string
  server_port :: int
  server_mgr_port :: int
  max_line :: int
  enable_auto :: int
  home_dir :: string
  cf_file_prefix :: string
  max_file_count :: int
  file_size_limit :: int
  redis_unix_sock :: "string list"
  log_ip :: string

text \<open>One assignment of the file: the name and the text behind the \<open>=\<close>. Other names are ignored.\<close>

definition config_set :: "config \<Rightarrow> string \<Rightarrow> string \<Rightarrow> config option" where
  "config_set conf name p =
     (if strcmp ''eth_dev'' name = 0 then do { s \<leftarrow> strcpy_buf 20 p; Some (conf\<lparr>eth_dev := s\<rparr>) }
      else if strcmp ''enable_auto'' name = 0 then do { i \<leftarrow> atoi p; Some (conf\<lparr>enable_auto := i\<rparr>) }
      else if strcmp ''redis_sock_path'' name = 0 then do {
        unix_socks \<leftarrow> strcpy_buf 1024 p;
        let socks = redis_unix_sock conf @ strtok CHR '' '' unix_socks;
        guard (length socks \<le> REDIS_INSTANCE);
        Some (conf\<lparr>redis_unix_sock := socks\<rparr>)
      }
      else if strcmp ''server_ip'' name = 0 then do { s \<leftarrow> strcpy_buf 20 p; Some (conf\<lparr>server_ip := s\<rparr>) }
      else if strcmp ''server_port'' name = 0 then do { i \<leftarrow> atoi p; Some (conf\<lparr>server_port := i\<rparr>) }
      else if strcmp ''server_mgr_port'' name = 0 then do { i \<leftarrow> atoi p; Some (conf\<lparr>server_mgr_port := i\<rparr>) }
      else if strcmp ''max_line'' name = 0 then do { i \<leftarrow> atoi p; Some (conf\<lparr>max_line := i\<rparr>) }
      else if strcmp ''home_dir'' name = 0 then do { s \<leftarrow> strcpy_buf 128 p; Some (conf\<lparr>home_dir := s\<rparr>) }
      else if strcmp ''file_prefix'' name = 0 then do { s \<leftarrow> strcpy_buf 128 p; Some (conf\<lparr>cf_file_prefix := s\<rparr>) }
      else if strcmp ''file_size_limit'' name = 0 then do { i \<leftarrow> atoi p; Some (conf\<lparr>file_size_limit := i\<rparr>) }
      else if strcmp ''max_file_count'' name = 0 then do { i \<leftarrow> atoi p; Some (conf\<lparr>max_file_count := i\<rparr>) }
      else if strcmp ''log_ip'' name = 0 then do { s \<leftarrow> strcpy_buf 100 p; Some (conf\<lparr>log_ip := s\<rparr>) }
      else Some conf)"

text \<open>The body of the loop. Without a \<open>=\<close> the pointer behind \<open>NULL\<close> is read.\<close>

definition config_line :: "bool \<Rightarrow> config \<Rightarrow> string \<Rightarrow> config option" where
  "config_line left_first conf line =
     (let tempconf = c_str line
      in if length tempconf \<le> 1 then Some conf
         else if hd tempconf = CHR ''#'' then Some conf
         else do {
           s \<leftarrow> strip left_first (butlast tempconf);
           p \<leftarrow> strchr s CHR ''='';
           name \<leftarrow> strip left_first (takeWhile (\<lambda>c. c \<noteq> CHR ''='') s);
           val \<leftarrow> strip left_first (tl p);
           config_set conf name val
         })"

fun config_lines :: "bool \<Rightarrow> config \<Rightarrow> string list \<Rightarrow> config option" where
  "config_lines left_first conf [] = Some conf"
| "config_lines left_first conf (line # ls) = do {
     conf1 \<leftarrow> config_line left_first conf line;
     config_lines left_first conf1 ls
   }"

text \<open>
  \<open>garbage\<close> is what \<open>malloc\<close> gives; without a file it is returned. The lines are those that \<open>fgets\<close>
  makes of the text.
\<close>

definition config_create :: "bool \<Rightarrow> config \<Rightarrow> string \<Rightarrow> string option \<Rightarrow> config option" where
  "config_create left_first garbage name file = (case file of
     None \<Rightarrow> Some garbage
   | Some text \<Rightarrow> do {
       f \<leftarrow> strcpy_buf 100 name;
       config_lines left_first (garbage\<lparr>filename := f, redis_unix_sock := []\<rparr>) (chunks text)
     })"

definition config_entry :: "string \<Rightarrow> string \<Rightarrow> string" where
  "config_entry name v = name @ '' = '' @ v @ [CHR 0x0A]"

definition config_output :: "config \<Rightarrow> string" where
  "config_output conf =
     config_entry ''eth_dev'' (eth_dev conf) @
     config_entry ''server_ip'' (server_ip conf) @
     config_entry ''server_port'' (show_d (server_port conf)) @
     config_entry ''server_mgr_port'' (show_d (server_mgr_port conf)) @
     config_entry ''max_line'' (show_d (max_line conf)) @
     config_entry ''home_dir'' (home_dir conf) @
     config_entry ''enable_auto'' (show_d (enable_auto conf)) @
     config_entry ''file_prefix'' (cf_file_prefix conf) @
     config_entry ''file_size_limit'' (show_d (file_size_limit conf)) @
     config_entry ''max_file_count'' (show_d (max_file_count conf)) @
     config_entry ''redis_sock_path'' (concat (map (\<lambda>s. s @ '' '') (redis_unix_sock conf))) @
     config_entry ''log_ip'' (log_ip conf)"

text \<open>The name and the text of the file that is written, unless it cannot be opened.\<close>

definition config_write_file :: "bool \<Rightarrow> config \<Rightarrow> (string \<times> string) option" where
  "config_write_file opened conf = (if opened then Some (filename conf, config_output conf) else None)"

section \<open>Searching backwards\<close>

text \<open>The loop from index \<open>i\<close> on; \<open>str\<close> has \<open>recv_len\<close> bytes at least.\<close>

function rev_find_loop :: "nat \<Rightarrow> string \<Rightarrow> char \<Rightarrow> nat \<Rightarrow> int" where
  "rev_find_loop recv_len str ch i =
     (if i < recv_len then (if str ! (recv_len - i - 1) = ch then int (recv_len - i) else rev_find_loop recv_len str ch (i + 1))
      else 0)"
  by auto
termination
  by (relation "measure (\<lambda>(recv_len, str, ch, i). recv_len - i)") auto

declare rev_find_loop.simps [simp del]

definition rev_find_str :: "nat \<Rightarrow> string option \<Rightarrow> char \<Rightarrow> int" where
  "rev_find_str recv_len str ch = (case str of None \<Rightarrow> - 1 | Some s \<Rightarrow> rev_find_loop recv_len s ch 0)"

section \<open>Blanks\<close>

definition trim :: "string \<Rightarrow> string" where
  "trim s = dropWhile (\<lambda>c. c = CHR '' '') (rev (dropWhile (\<lambda>c. c = CHR '' '') (rev s)))"

lemma c_str_append [simp]: "CHR 0x00 \<notin> set t \<Longrightarrow> c_str (t @ CHR 0x00 # rest) = t"
  by (induction t) (auto simp: c_str_def)

lemma c_str_id [simp]: "CHR 0x00 \<notin> set t \<Longrightarrow> c_str t = t"
  by (induction t) (auto simp: c_str_def)

text \<open>With the left index first the buffer begins with the copied text after the loop.\<close>

lemma copy_down_left:
  assumes "length b = p + length t + 1" "drop (p + i) b = drop i (t @ [CHR 0x00])" "take i b = take i t" "i \<le> length t"
    and "CHR 0x00 \<notin> set t"
  shows "\<exists>rest. copy_down True b p i = Some (t @ CHR 0x00 # rest)"
  using assms
proof (induction "length t - i" arbitrary: b i)
  case 0
  then have i: "i = length t" by simp
  then have z: "b ! (p + i) = CHR 0x00" using 0(2,3) by (metis add_diff_cancel_left' append_Nil2 append_eq_conv_conj drop_eq_Nil hd_drop_conv_nth le_refl less_add_one list.sel(1) add.commute)
  have "b[i := CHR 0x00] = t @ CHR 0x00 # drop (Suc i) b"
    using 0 i by (simp add: upd_conv_take_nth_drop)
  then show ?case using 0(2) i z copy_down.simps [of True b p i] by (auto simp: Let_def)
next
  case (Suc n)
  have i: "i < length t" using Suc.hyps(2) by simp
  have x: "b ! (p + i) = t ! i"
    using Suc.prems(1,2) i by (metis Cons_nth_drop_Suc add_less_cancel_left append_eq_conv_conj length_append_singleton list.inject
        less_SucI nth_append trans_less_add1 Suc_eq_plus1 add.assoc)
  then have nz: "b ! (p + i) \<noteq> CHR 0x00" using i Suc.prems(5) by (metis nth_mem)
  let ?b = "b[i := t ! i]"
  have "copy_down True b p i = copy_down True ?b p (i + 1)"
    using copy_down.simps [of True b p i] Suc.prems(1) i x nz by (simp add: Let_def)
  moreover have "\<exists>rest. copy_down True ?b p (i + 1) = Some (t @ CHR 0x00 # rest)"
  proof (rule Suc.hyps(1))
    show "n = length t - (i + 1)" using Suc.hyps(2) by simp
    show "length ?b = p + length t + 1" using Suc.prems(1) by simp
    have "drop (p + (i + 1)) b = drop (i + 1) (t @ [CHR 0x00])"
      using arg_cong [OF Suc.prems(2), of "drop 1"] by (simp only: drop_drop add.commute add.left_commute)
    then show "drop (p + (i + 1)) ?b = drop (i + 1) (t @ [CHR 0x00])" by simp
    show "take (i + 1) ?b = take (i + 1) t"
      using Suc.prems(1,3) i by (simp add: take_Suc_conv_app_nth)
  qed (use i Suc.prems(5) in simp_all)
  ultimately show ?case by simp
qed

lemma strip_left:
  assumes "CHR 0x00 \<notin> set src"
  shows "strip True src = Some (trim src)"
proof -
  let ?s = "rev (dropWhile (\<lambda>c. c = CHR '' '') (rev src))"
  let ?p = "length (takeWhile (\<lambda>c. c = CHR '' '') ?s)"
  have split: "takeWhile (\<lambda>c. c = CHR '' '') ?s @ trim src = ?s" by (simp add: trim_def)
  have z: "CHR 0x00 \<notin> set (trim src)" using assms by (auto simp: trim_def dest!: set_dropWhileD)
  have l: "length ?s = ?p + length (trim src)" using arg_cong [OF split, of length] by simp
  have d: "drop ?p ?s = trim src" by (metis append_eq_conv_conj split)
  have "\<exists>rest. copy_down True (?s @ [CHR 0x00]) ?p 0 = Some (trim src @ CHR 0x00 # rest)"
    by (rule copy_down_left) (use l d z in simp_all)
  then show ?thesis using z by (auto simp: strip_def Let_def)
qed

text \<open>With the increment first a text that begins without a blank is copied upwards into itself and never ends in the buffer.\<close>

lemma copy_down_right:
  assumes "\<forall>j \<le> i. b ! j = x" "x \<noteq> CHR 0x00"
  shows "copy_down False b 0 i = None"
  using assms
proof (induction "length b - i" arbitrary: b i)
  case 0
  then show ?case using copy_down.simps [of False b 0 i] by (simp add: Let_def)
next
  case (Suc n)
  show ?case
  proof (cases "length b \<le> i + 1")
    case True
    then show ?thesis using copy_down.simps [of False b 0 i] by (simp add: Let_def)
  next
    case False
    have "copy_down False (b[i + 1 := b ! i]) 0 (i + 1) = None"
    proof (rule Suc.hyps(1))
      show "\<forall>j \<le> i + 1. b[i + 1 := b ! i] ! j = x" using Suc.prems(1) False by (auto simp: nth_list_update)
    qed (use Suc False in auto)
    then show ?thesis using copy_down.simps [of False b 0 i] False Suc.prems by (simp add: Let_def)
  qed
qed

lemma strip_right:
  assumes "src \<noteq> []" "hd src \<noteq> CHR '' ''" "hd src \<noteq> CHR 0x00"
  shows "strip False src = None"
proof -
  obtain x s where src: "src = x # s" using assms(1) by (cases src) auto
  let ?s = "rev (dropWhile (\<lambda>c. c = CHR '' '') (rev src))"
  obtain s' where s': "?s = x # s'" using assms(2) src by (cases "\<forall>c \<in> set s. c = CHR '' ''") (auto simp: dropWhile_append dropWhile_eq_Nil_conv)
  have "copy_down False (?s @ [CHR 0x00]) 0 0 = None"
    by (rule copy_down_right [of 0 _ x]) (use s' src assms(3) in simp_all)
  then show ?thesis using s' src assms(2) by (simp add: strip_def Let_def)
qed

lemma trim_id: "s = [] \<or> hd s \<noteq> CHR '' '' \<and> last s \<noteq> CHR '' '' \<Longrightarrow> trim s = s"
proof -
  assume h: "s = [] \<or> hd s \<noteq> CHR '' '' \<and> last s \<noteq> CHR '' ''"
  show ?thesis
  proof (cases "s = []")
    case False
    then have "dropWhile (\<lambda>c. c = CHR '' '') (rev s) = rev s" using h by (cases "rev s") (auto simp: last_rev [symmetric])
    moreover have "dropWhile (\<lambda>c. c = CHR '' '') s = s" using h False by (cases s) auto
    ultimately show ?thesis by (simp add: trim_def)
  qed (simp add: trim_def)
qed

lemma trim_blank_end: "trim (s @ [CHR '' '']) = trim s"
  by (simp add: trim_def)

lemma trim_blank_begin: "trim (CHR '' '' # s) = trim s"
proof (cases "\<forall>c \<in> set s. c = CHR '' ''")
  case True
  then have "dropWhile (\<lambda>c. c = CHR '' '') (rev s) = []" "dropWhile (\<lambda>c. c = CHR '' '') (rev (CHR '' '' # s)) = []"
    by (auto simp: dropWhile_eq_Nil_conv)
  then show ?thesis by (simp only: trim_def)
next
  case False
  then obtain x where x: "x \<in> set (rev s)" "x \<noteq> CHR '' ''" by auto
  have "dropWhile (\<lambda>c. c = CHR '' '') (rev s @ [CHR '' '']) = dropWhile (\<lambda>c. c = CHR '' '') (rev s) @ [CHR '' '']"
    by (rule dropWhile_append1 [OF x(1)]) (rule x(2))
  then show ?thesis by (simp add: trim_def)
qed

section \<open>Numbers\<close>

lemma dec_digits_value: "foldl (\<lambda>n c. n * 10 + (of_char c - 48)) 0 (dec_digits n) = n \<and> (\<forall>c \<in> set (dec_digits n). is_digit c) \<and> dec_digits n \<noteq> []"
proof (induction n rule: dec_digits.induct)
  case (1 n)
  have c: "of_char (char_of (48 + n mod 10) :: char) = 48 + n mod 10" by (simp add: of_char_of)
  have m: "n mod 10 < 10" by simp
  show ?case
  proof (cases "n < 10")
    case True
    then show ?thesis using c by (subst (1 2 3) dec_digits.simps) (simp add: is_digit_def)
  next
    case False
    then show ?thesis using 1 c by (subst (1 2 3) dec_digits.simps) (auto simp: is_digit_def)
  qed
qed

lemma digits_value_dec: "digits_value (dec_digits n) = n"
proof -
  have t: "takeWhile is_digit (dec_digits n) = dec_digits n" using dec_digits_value [of n] by (simp add: takeWhile_eq_all_conv)
  show ?thesis using dec_digits_value [of n] by (simp add: digits_value_def t)
qed

lemma show_d_safe: "show_d i \<noteq> [] \<and> (\<forall>c \<in> set (show_d i). is_digit c \<or> c = CHR ''-'')"
  using dec_digits_value [of "nat i"] dec_digits_value [of "nat (- i)"] by (auto simp: show_d_def)

lemma atoi_show_d:
  assumes "- (2 ^ 31) \<le> i" "i < 2 ^ 31"
  shows "atoi (show_d i) = Some i"
proof (cases "i < 0")
  case True
  then show ?thesis using assms by (simp add: atoi_def show_d_def digits_value_dec is_space_def)
next
  case False
  obtain c t where d: "dec_digits (nat i) = c # t" "is_digit c" using dec_digits_value [of "nat i"] by (cases "dec_digits (nat i)") auto
  have s: "\<not> is_space c" "c \<noteq> CHR ''-''" "c \<noteq> CHR ''+''" using d(2) by (auto simp: is_digit_def is_space_def)
  have "digits_value (c # t) = nat i" using digits_value_dec [of "nat i"] d(1) by simp
  then show ?thesis using False assms d(1) s by (simp add: atoi_def show_d_def)
qed

section \<open>Lines of the file\<close>

lemma fgets_line:
  assumes "CHR 0x0A \<notin> set w" "length w < n"
  shows "fgets n (w @ CHR 0x0A # rest) = (w @ [CHR 0x0A], rest, False)"
  using assms
proof (induction w arbitrary: n)
  case Nil
  then show ?case by (cases n) auto
next
  case (Cons c w)
  then show ?case by (cases n) auto
qed

lemma chunks_lines:
  "\<forall>l \<in> set ls. CHR 0x0A \<notin> set l \<and> length l < 1023 \<Longrightarrow> chunks (concat (map (\<lambda>l. l @ [CHR 0x0A]) ls)) = map (\<lambda>l. l @ [CHR 0x0A]) ls"
proof (induction ls)
  case (Cons l ls)
  have "fgets 1023 (l @ CHR 0x0A # concat (map (\<lambda>l. l @ [CHR 0x0A]) ls)) = (l @ [CHR 0x0A], concat (map (\<lambda>l. l @ [CHR 0x0A]) ls), False)"
    using Cons.prems by (intro fgets_line) auto
  from chunks_fgets [OF this] Cons show ?case by simp
qed simp

text \<open>A text that can be written and read: no NUL, no line break.\<close>

definition plain :: "string \<Rightarrow> bool" where
  "plain s \<longleftrightarrow> CHR 0x00 \<notin> set s \<and> CHR 0x0A \<notin> set s"

text \<open>The names of the entries.\<close>

definition plain_name :: "string \<Rightarrow> bool" where
  "plain_name n \<longleftrightarrow> n \<noteq> [] \<and> plain n \<and> CHR ''='' \<notin> set n \<and> CHR '' '' \<notin> set n \<and> hd n \<noteq> CHR ''#''"

definition trail :: "string \<Rightarrow> string" where
  "trail s = rev (dropWhile (\<lambda>c. c = CHR '' '') (rev s))"

lemma trail_append: "x \<noteq> [] \<Longrightarrow> last x \<noteq> CHR '' '' \<Longrightarrow> trail (x @ y) = x @ trail y"
proof -
  assume x: "x \<noteq> []" "last x \<noteq> CHR '' ''"
  then obtain x' c where c: "x = x' @ [c]" "c \<noteq> CHR '' ''" by (cases x rule: rev_cases) auto
  have "dropWhile (\<lambda>c. c = CHR '' '') (z @ c # w) = dropWhile (\<lambda>c. c = CHR '' '') z @ c # w" for z w
    using c(2) by (induction z) auto
  then show ?thesis using c(1) by (simp add: trail_def)
qed

lemma trim_trail: "trim (trail s) = trim s" "trim s = dropWhile (\<lambda>c. c = CHR '' '') (trail s)"
  by (simp_all add: trim_def trail_def dropWhile_idem)

lemma set_trail: "set (trail s) \<subseteq> set s"
  by (auto simp: trail_def dest: set_dropWhileD)

lemma strchr_first: "c \<notin> set x \<Longrightarrow> strchr (x @ c # y) c = Some (c # y) \<and> takeWhile (\<lambda>d. d \<noteq> c) (x @ c # y) = x"
  by (induction x) auto

lemma config_line_entry:
  assumes n: "plain_name n" and v: "plain v"
  shows "config_line True conf (config_entry n v) = config_set conf n (trim v)"
proof -
  let ?line = "n @ '' = '' @ v" and ?v = "trail (CHR '' '' # v)"
  have z: "CHR 0x00 \<notin> set (?line @ [CHR 0x0A])" using n v by (auto simp: plain_name_def plain_def)
  obtain c n' where c: "n = c # n'" "c \<noteq> CHR ''#''" "c \<noteq> CHR '' ''" using n by (cases n) (auto simp: plain_name_def)
  have "trail ?line = (n @ '' ='') @ ?v" using trail_append [of "n @ '' =''" "CHR '' '' # v"] by simp
  then have s: "trim ?line = (n @ '' '') @ CHR ''='' # ?v" using c by (simp add: trim_trail(2))
  have e: "strchr ((n @ '' '') @ CHR ''='' # ?v) CHR ''='' = Some (CHR ''='' # ?v)"
    "takeWhile (\<lambda>d. d \<noteq> CHR ''='') ((n @ '' '') @ CHR ''='' # ?v) = n @ '' ''"
    using strchr_first [of "CHR ''=''" "n @ '' ''" ?v] n by (auto simp: plain_name_def)
  have "hd n \<in> set n" "last n \<in> set n" "CHR '' '' \<notin> set n" using n by (auto simp: plain_name_def)
  then have "trim n = n" by (intro trim_id) metis
  then have name: "strip True (n @ '' '') = Some n"
    using strip_left [of "n @ '' ''"] n trim_blank_end [of n] by (auto simp: plain_name_def plain_def)
  have val: "strip True ?v = Some (trim v)"
    using strip_left [of ?v] set_trail [of "CHR '' '' # v"] v by (auto simp: trim_trail(1) trim_blank_begin plain_def)
  have line: "strip True ?line = Some ((n @ '' '') @ CHR ''='' # ?v)"
    using strip_left [of ?line] z s by simp
  have str: "c_str (config_entry n v) = ?line @ [CHR 0x0A]" using z by (simp add: config_entry_def)
  have "length (?line @ [CHR 0x0A]) > 1" "hd (?line @ [CHR 0x0A]) \<noteq> CHR ''#''" using c by simp_all
  moreover have "butlast (?line @ [CHR 0x0A]) = ?line" by (rule butlast_snoc)
  ultimately show ?thesis unfolding config_line_def Let_def str     by (simp only: if_False Option.bind.simps line e name val list.sel not_le [symmetric] simp_thms)
qed

section \<open>Properties\<close>

text \<open>A text that fits its buffer and has no blanks around it.\<close>

definition field_ok :: "nat \<Rightarrow> string \<Rightarrow> bool" where
  "field_ok n s \<longleftrightarrow> plain s \<and> length s < n \<and> trim s = s"

definition int_ok :: "int \<Rightarrow> bool" where
  "int_ok i \<longleftrightarrow> - (2 ^ 31) \<le> i \<and> i < 2 ^ 31"

definition config_ok :: "config \<Rightarrow> bool" where
  "config_ok conf \<longleftrightarrow> field_ok 20 (eth_dev conf) \<and> field_ok 20 (server_ip conf) \<and> field_ok 128 (home_dir conf) \<and>
     field_ok 128 (cf_file_prefix conf) \<and> field_ok 100 (log_ip conf) \<and>
     int_ok (server_port conf) \<and> int_ok (server_mgr_port conf) \<and> int_ok (max_line conf) \<and> int_ok (enable_auto conf) \<and>
     int_ok (max_file_count conf) \<and> int_ok (file_size_limit conf) \<and> length (redis_unix_sock conf) \<le> REDIS_INSTANCE \<and>
     (\<forall>s \<in> set (redis_unix_sock conf). s \<noteq> [] \<and> plain s \<and> CHR '' '' \<notin> set s) \<and>
     length (concat (map (\<lambda>s. s @ '' '') (redis_unix_sock conf))) < 1000"

lemma plain_show: "plain (show_d i)" "trim (show_d i) = show_d i"
proof -
  have c: "is_digit c \<or> c = CHR ''-'' \<Longrightarrow> c \<noteq> CHR 0x00 \<and> c \<noteq> CHR 0x0A \<and> c \<noteq> CHR '' ''" for c
    by (auto simp: is_digit_def)
  show "plain (show_d i)" using c show_d_safe [of i] by (auto simp: plain_def)
  have "hd (show_d i) \<in> set (show_d i)" "last (show_d i) \<in> set (show_d i)" using show_d_safe [of i] by simp_all
  then show "trim (show_d i) = show_d i" using c show_d_safe [of i] by (intro trim_id) blast
qed

lemma dec_digits_length: "n < 10 ^ Suc k \<Longrightarrow> length (dec_digits n) \<le> Suc k"
proof (induction k arbitrary: n)
  case 0
  then show ?case by (subst dec_digits.simps) simp
next
  case (Suc k)
  have "n div 10 < 10 ^ Suc k" using Suc.prems by (simp add: less_mult_imp_div_less)
  from Suc.IH [OF this] show ?case by (subst dec_digits.simps) simp
qed

lemma show_d_short: "int_ok i \<Longrightarrow> length (show_d i) < 900"
proof -
  assume "int_ok i"
  then have "nat i < 10 ^ Suc 9" "nat (- i) < 10 ^ Suc 9" by (auto simp: int_ok_def)
  from this [THEN dec_digits_length] show ?thesis by (auto simp: show_d_def)
qed

lemma join_blanks: "concat (map (\<lambda>s. s @ '' '') ss) = (if ss = [] then [] else blank_join ss @ '' '')"
  by (induction ss rule: blank_join.induct) auto

lemma trim_blanks: "\<forall>s \<in> set ss. s \<noteq> [] \<and> CHR '' '' \<notin> set s \<Longrightarrow> trim (concat (map (\<lambda>s. s @ '' '') ss)) = blank_join ss"
proof -
  assume ss: "\<forall>s \<in> set ss. s \<noteq> [] \<and> CHR '' '' \<notin> set s"
  have "ss \<noteq> [] \<Longrightarrow> blank_join ss \<noteq> [] \<and> hd (blank_join ss) \<noteq> CHR '' '' \<and> last (blank_join ss) \<noteq> CHR '' ''"
    using ss
  proof (induction ss rule: blank_join.induct)
    case (2 w)
    then have "w \<noteq> []" "hd w \<in> set w" "last w \<in> set w" "CHR '' '' \<notin> set w" by auto
    then show ?case by (metis blank_join.simps(2))
  next
    case (3 w v ws)
    then have "w \<noteq> []" "hd w \<in> set w" "CHR '' '' \<notin> set w" by auto
    then have "hd (w @ rest) \<noteq> CHR '' ''" for rest by (metis hd_append2)
    then show ?case using 3 by auto
  qed simp
  then have "trim (blank_join ss) = blank_join ss" by (cases "ss = []") (auto intro: trim_id)
  then show ?thesis using trim_blank_end [of "blank_join ss"] by (auto simp: join_blanks)
qed

text \<open>The entries of a configuration, as they are written.\<close>

definition config_entries :: "config \<Rightarrow> (string \<times> string) list" where
  "config_entries conf =
     [(''eth_dev'', eth_dev conf), (''server_ip'', server_ip conf), (''server_port'', show_d (server_port conf)),
      (''server_mgr_port'', show_d (server_mgr_port conf)), (''max_line'', show_d (max_line conf)), (''home_dir'', home_dir conf),
      (''enable_auto'', show_d (enable_auto conf)), (''file_prefix'', cf_file_prefix conf),
      (''file_size_limit'', show_d (file_size_limit conf)), (''max_file_count'', show_d (max_file_count conf)),
      (''redis_sock_path'', concat (map (\<lambda>s. s @ '' '') (redis_unix_sock conf))), (''log_ip'', log_ip conf)]"

lemma config_output_entries: "config_output conf = concat (map (\<lambda>(n, v). config_entry n v) (config_entries conf))"
  by (simp add: config_output_def config_entries_def)

lemma config_entries_ok:
  assumes "config_ok conf"
  shows "\<forall>(n, v) \<in> set (config_entries conf). plain_name n \<and> plain v \<and> length n < 20 \<and> length v < 1000"
proof -
  have "int_ok (server_port conf)" "int_ok (server_mgr_port conf)" "int_ok (max_line conf)" "int_ok (enable_auto conf)"
    "int_ok (max_file_count conf)" "int_ok (file_size_limit conf)" using assms by (auto simp: config_ok_def)
  from this [THEN show_d_short] have s: "length (show_d (server_port conf)) < 1000" "length (show_d (server_mgr_port conf)) < 1000"
    "length (show_d (max_line conf)) < 1000" "length (show_d (enable_auto conf)) < 1000" "length (show_d (max_file_count conf)) < 1000"
    "length (show_d (file_size_limit conf)) < 1000" by simp_all
  have r: "plain (concat (map (\<lambda>s. s @ '' '') (redis_unix_sock conf)))" using assms by (auto simp: config_ok_def plain_def)
  show ?thesis using assms s r by (simp add: config_entries_def config_ok_def field_ok_def plain_show plain_name_def) (simp add: plain_def)
qed

fun set_entries :: "config \<Rightarrow> (string \<times> string) list \<Rightarrow> config option" where
  "set_entries conf [] = Some conf"
| "set_entries conf ((n, v) # es) = do {
     conf1 \<leftarrow> config_set conf n (trim v);
     set_entries conf1 es
   }"

lemma config_lines_entries:
  "\<forall>(n, v) \<in> set es. plain_name n \<and> plain v \<Longrightarrow>
     config_lines True conf (map (\<lambda>(n, v). config_entry n v) es) = set_entries conf es"
  by (induction conf es rule: set_entries.induct) (auto simp: config_line_entry split: Option.bind_split)

lemma chunks_entries:
  assumes "\<forall>(n, v) \<in> set es. plain_name n \<and> plain v \<and> length n < 20 \<and> length v < 1000"
  shows "chunks (concat (map (\<lambda>(n, v). config_entry n v) es)) = map (\<lambda>(n, v). config_entry n v) es"
proof -
  have m: "map (\<lambda>(n, v). config_entry n v) es = map (\<lambda>l. l @ [CHR 0x0A]) (map (\<lambda>(n, v). n @ '' = '' @ v) es)"
    by (simp add: config_entry_def comp_def case_prod_beta)
  show ?thesis unfolding m by (rule chunks_lines) (use assms in \<open>force simp: plain_name_def plain_def\<close>)
qed

text \<open>C39. A configuration that is written to a file and read back is the same, with the name of the
  file, whatever the structure held before; if its texts have no blanks around them and fit, its
  numbers are in range and its socket paths have no blanks; with a compiler that takes the left index
  first.\<close>

theorem config_roundtrip:
  assumes "config_ok conf" "length name < 100"
  shows "config_create True garbage name (Some (config_output conf)) = Some (conf\<lparr>filename := name\<rparr>)"
proof -
  note ok = config_entries_ok [OF assms(1)]
  have F: "field_ok 20 (eth_dev conf)" "field_ok 20 (server_ip conf)" "field_ok 128 (home_dir conf)"
    "field_ok 128 (cf_file_prefix conf)" "field_ok 100 (log_ip conf)" "length (redis_unix_sock conf) \<le> REDIS_INSTANCE"
    and I: "int_ok (server_port conf)" "int_ok (server_mgr_port conf)" "int_ok (max_line conf)" "int_ok (enable_auto conf)"
      "int_ok (max_file_count conf)" "int_ok (file_size_limit conf)"
    and R: "\<forall>s \<in> set (redis_unix_sock conf). s \<noteq> [] \<and> CHR '' '' \<notin> set s"
    using assms(1) by (auto simp: config_ok_def)
  have B: "length (blank_join (redis_unix_sock conf)) < 1024"
    using assms(1) unfolding config_ok_def join_blanks by (auto split: if_splits)
  have "config_create True garbage name (Some (config_output conf)) =
      set_entries (garbage\<lparr>filename := name, redis_unix_sock := []\<rparr>) (config_entries conf)"
    using ok assms(2) chunks_entries [OF ok] config_lines_entries [of "config_entries conf"]
    by (force simp: config_create_def config_output_entries strcpy_buf_def)
  also have "\<dots> = Some (conf\<lparr>filename := name\<rparr>)"
    using F I R B
    by (simp add: config_entries_def config_set_def strcmp_sign field_ok_def int_ok_def strcpy_buf_def plain_show atoi_show_d trim_blanks
        strtok_join)
  finally show ?thesis .
qed

text \<open>C40. What the configuration file can do to the reader: a line that is neither empty nor a comment
  and has no \<open>=\<close> makes it read behind \<open>NULL\<close>. With a compiler that increments first, \<open>strip\<close> runs past
  the buffer for every text that does not begin with a blank, so no file with an entry can be read.\<close>

theorem config_line_faults:
  assumes "plain line" "line \<noteq> []" "hd line \<noteq> CHR ''#''"
  shows "(CHR ''='' \<notin> set line \<longrightarrow> config_line True conf (line @ [CHR 0x0A]) = None) \<and>
    (hd line \<noteq> CHR '' '' \<longrightarrow> config_line False conf (line @ [CHR 0x0A]) = None)"
proof -
  have z: "CHR 0x00 \<notin> set line" "CHR 0x00 \<notin> set (line @ [CHR 0x0A])" using assms(1) by (auto simp: plain_def)
  have str: "c_str (line @ [CHR 0x0A]) = line @ [CHR 0x0A]" using z(2) by (rule c_str_id)
  have l: "\<not> length (line @ [CHR 0x0A]) \<le> 1" "hd (line @ [CHR 0x0A]) \<noteq> CHR ''#''" using assms(2,3) by simp_all
  have "set (trim line) \<subseteq> set line" by (auto simp: trim_def dest!: set_dropWhileD)
  then have "CHR ''='' \<notin> set line \<longrightarrow> strchr (trim line) CHR ''='' = None" by (auto simp: strchr_None)
  moreover have "hd line \<noteq> CHR '' '' \<longrightarrow> strip False line = None"
    using strip_right [OF assms(2)] z(1) assms(2) by (metis hd_in_set)
  ultimately show ?thesis using l strip_left [OF z(1)] by (auto simp: config_line_def Let_def str)
qed

section \<open>Searching backwards\<close>

lemma rev_find_loop_last:
  assumes "n \<le> length s" "ch \<notin> set (drop (n - i) (take n s))" "i \<le> n"
  shows "(rev_find_loop n s ch i = 0 \<and> ch \<notin> set (take n s)) \<or>
    (\<exists>r. rev_find_loop n s ch i = int r \<and> 0 < r \<and> r \<le> n \<and> s ! (r - 1) = ch \<and> ch \<notin> set (drop r (take n s)))"
  using assms
proof (induction n s ch i rule: rev_find_loop.induct)
  case (1 n s ch i)
  note step = rev_find_loop.simps [of n s ch i]
  show ?case
  proof (cases "i < n")
    case False
    then show ?thesis using 1(3,4) step by simp
  next
    case True
    then have "drop (n - (i + 1)) (take n s) = s ! (n - i - 1) # drop (n - i) (take n s)"
      using 1(2) by (subst Cons_nth_drop_Suc [symmetric]) (auto simp: Suc_diff_Suc)
    show ?thesis
    proof (cases "s ! (n - i - 1) = ch")
      case found: True
      then show ?thesis using step True 1(3) by (intro disjI2 exI [of _ "n - i"]) simp
    next
      case missing: False
      then have "ch \<notin> set (drop (n - (i + 1)) (take n s))" using 1(3) \<open>drop (n - (i + 1)) (take n s) = _\<close> by simp
      then show ?thesis using 1(1) [OF True missing 1(2)] step True missing by simp
    qed
  qed
qed

text \<open>The result is one more than the last index of the character, or 0.\<close>

lemma rev_find_str_last:
  assumes "n \<le> length s"
  shows "(rev_find_str n (Some s) ch = 0 \<and> ch \<notin> set (take n s)) \<or>
    (\<exists>r. rev_find_str n (Some s) ch = int r \<and> 0 < r \<and> r \<le> n \<and> s ! (r - 1) = ch \<and> ch \<notin> set (drop r (take n s)))"
  using rev_find_loop_last [of n s ch 0] assms by (simp add: rev_find_str_def)

subsection \<open>An example\<close>

definition demo_config :: config where
  "demo_config = \<lparr>filename = [], eth_dev = ''eth0'', server_ip = ''10.0.0.1'', server_port = 53, server_mgr_port = 8999,
     max_line = - 1, enable_auto = 1, home_dir = ''/a b=c'', cf_file_prefix = [], max_file_count = 3, file_size_limit = 0,
     redis_unix_sock = [''/s1'', ''/s2''], log_ip = ''::1''\<rparr>"

theorem config_roundtrip_witness:
  "config_create True \<lparr>filename = ''x'', eth_dev = ''x'', server_ip = ''x'', server_port = 1, server_mgr_port = 1,
     max_line = 1, enable_auto = 0, home_dir = ''x'', cf_file_prefix = ''x'', max_file_count = 1, file_size_limit = 1,
     redis_unix_sock = [''x''], log_ip = ''x''\<rparr> ''log.conf'' (Some (config_output demo_config)) =
     Some (demo_config\<lparr>filename := ''log.conf''\<rparr>)"
  by (rule config_roundtrip)
    (simp_all add: config_ok_def demo_config_def field_ok_def int_ok_def plain_def REDIS_INSTANCE_def trim_def)

theorem config_line_faults_witness:
  "config_line True demo_config (''eth_dev'' @ [CHR 0x0A]) = None \<and> config_line False demo_config (''a=b'' @ [CHR 0x0A]) = None"
  using config_line_faults [of "''eth_dev''" demo_config] config_line_faults [of "''a=b''" demo_config] by (simp add: plain_def)

end
