(* ===== verification/Spec2Isabelle.thy ===== *)
theory Spec2Isabelle
  imports Name_Props Radix_Props View_Props Memory_Limit Log_Reader Command_Server Log_Utils
begin

text \<open>
  A verification library for logstats, a program that follows the query log of a DNS server, counts
  the queries per view, and answers requests for the counts over a socket.

  \<^bold>\<open>The program and its model.\<close> \<open>main\<close> (\<^verbatim>\<open>main.c\<close>) reads the log line by line and hands each line to the
  house keeper (\<^verbatim>\<open>log_topn.c\<close>), which splits it and counts the query in the statistics of its view and
  in those of all clients. The statistics (\<^verbatim>\<open>log_view_stats.c\<close>) are found in a tree of views
  (\<^verbatim>\<open>log_view_tree.c\<close>); each has two trees of counted names (\<^verbatim>\<open>log_name_tree.c\<close>), for domain names and for
  addresses of clients. A tree of names or views is a red-black tree (\<^verbatim>\<open>dig_rb_tree.c\<close>) with a list of
  its entries by last use (\<^verbatim>\<open>zip_lru_list.c\<close>), which gives up the oldest entries when the memory limit is
  exceeded; a tree of names has also memory pools (\<^verbatim>\<open>dig_mem_pool.c\<close>) for its records and a bounded heap
  (\<^verbatim>\<open>log_heap.c\<close>) of those with the greatest counts. Other threads answer the requests of clients
  (\<^verbatim>\<open>zip_socket.c\<close>, \<^verbatim>\<open>zip_addr.c\<close>) and compute rates every ten seconds. \<^verbatim>\<open>dig_radix_tree.c\<close> is a table of
  IPv4 prefixes beside them, and \<^verbatim>\<open>log_utils.c\<close> reads and writes a configuration file.

  The definitions follow the C functions by name, with explicit state: a record of C is a record here,
  an address a natural number, a block of memory a partial map or a function from addresses; a run
  that aborts (a failed assertion, a \<open>NULL\<close> that is read, a write past an array, a loop without an end)
  is \<open>None\<close> of the option monad. Numbers of 16, 32 and 64 bits are words. Messages that are only printed
  are dropped.

  \<^bold>\<open>The theories\<close>, in the order in which they build on each other:
  \<^item> \<^verbatim>\<open>Prelude\<close>: addresses, the option monad, arrays, unsigned differences; \<^verbatim>\<open>C_String\<close>: strings of C;
    \<^verbatim>\<open>C_Stdio\<close>: \<open>fgets\<close> and \<open>strtok_r\<close>.
  \<^item> \<^verbatim>\<open>Log_Heap\<close>, \<^verbatim>\<open>Node_Value\<close>: the heap over a locale of stores with callbacks, and its instance with the
    records of names. The order of the heap is kept by every operation but insertion, for which the
    exact condition is proved.
  \<^item> \<^verbatim>\<open>Lru_List\<close>: the list, refining operations on a list of entries.
  \<^item> \<^verbatim>\<open>Mem_Pool\<close>: the pool, with its chunks and the free list threaded through the slots.
  \<^item> \<^verbatim>\<open>Rb_Tree\<close>, \<^verbatim>\<open>Rb_Rep\<close>, \<^verbatim>\<open>Rb_Insert\<close>, \<^verbatim>\<open>Rb_Swap\<close>, \<^verbatim>\<open>Rb_Delete\<close>, \<^verbatim>\<open>Rb_Walk\<close>, \<^verbatim>\<open>Rb_Map\<close>: the red-black tree
    with parent pointers, its representation by a tree of addresses, the repairs after insertion and
    deletion, the walks, and the contract of a map as the locale \<open>rb_keys\<close>; \<^verbatim>\<open>Name_Key\<close> interprets it on
    the names, \<^verbatim>\<open>View_Tree\<close> on the views.
  \<^item> \<^verbatim>\<open>Heap_State\<close>, \<^verbatim>\<open>Name_Tree\<close>, \<^verbatim>\<open>Name_Spec\<close>, \<^verbatim>\<open>Name_Props\<close>: the tree of counted names, refining a map of
    counts and a list of names by last use.
  \<^item> \<^verbatim>\<open>Radix_Tree\<close>, \<^verbatim>\<open>Radix_Spec\<close>, \<^verbatim>\<open>Radix_Props\<close>: the prefix trie, refining a map from prefixes to values
    with longest-prefix search.
  \<^item> \<^verbatim>\<open>View_Stats\<close>, \<^verbatim>\<open>View_Props\<close>: the statistics of a view, their eviction and the replies made of them;
    \<^verbatim>\<open>View_Tree\<close>, \<^verbatim>\<open>View_Spec\<close>: the tree of views and its invariant.
  \<^item> \<^verbatim>\<open>Log_Topn\<close>: the operations of the house keeper. \<^verbatim>\<open>Stats_Spec\<close>, \<^verbatim>\<open>Log_Spec\<close>: the abstract log, a list of
    views by last use with their counts, and the relation of the house keeper to it; \<^verbatim>\<open>Log_Props\<close>:
    logs of queries; \<^verbatim>\<open>Request_Props\<close>: requests, flushes, rates and lines; \<^verbatim>\<open>Memory_Limit\<close>: what the
    limit achieves; \<^verbatim>\<open>Keeper_Session\<close>: all steps of the house keeper interleaved.
  \<^item> \<^verbatim>\<open>Log_Reader\<close>: \<open>main\<close> as a step function, and as a relation together with the programs that append to
    the log and rename it. \<^verbatim>\<open>Zip_Socket\<close>: reading and writing in pieces, and the loop that serves a
    client. \<^verbatim>\<open>Zip_Addr\<close>: addresses and networks; \<^verbatim>\<open>Zip_Calls\<close>: the functions around one
    system call. \<^verbatim>\<open>Command_Server\<close>: the server, any number of clients whose
    threads are interleaved with each other and with the log, refining a server that gets and gives whole
    messages. \<^verbatim>\<open>Log_Utils\<close>: the configuration file.

  \<^bold>\<open>What is shown.\<close> Each container refines its abstract counterpart and never aborts inside its
  conditions; from these the house keeper as a whole is shown to stand for the abstract log after every
  sequence of queries, requests, flushes and rounds (\<open>session_refines\<close>), also when they come from the
  threads of clients (\<open>server_refines\<close>), the memory limit to hold and to give up no more than it has to
  (\<open>memory_limit_holds\<close>), logs within it to be counted exactly (\<open>log_counts\<close>), lines to be parsed as a reference parser reads them
  (\<open>lines_parsed\<close>), a flush to free every block of the views (\<open>flush_empties\<close>), the rates to be what the
  counters say (\<open>rates_computed\<close>), and the two ends, the file and the socket, to hand on what they are given
  (\<open>main_counts_lines\<close>, \<open>main_reads_in_order\<close>, \<open>socket_thread_replies\<close>). A configuration that is written
  is read back (\<open>config_roundtrip\<close>). Where the code does not do what
  it is meant to, the theorem states what it does: a heap out of order (\<open>heap_insert_order\<close>, and with
  \<open>view_topn_misorders\<close> a run of insertions whose reply shows it), dangling pointers (\<open>name_delete_dangling\<close>), overflows (\<open>pool_create_overflow\<close>,
  \<open>name_arguments\<close>, \<open>view_counters\<close>, \<open>line_faults_abort\<close>, \<open>config_line_faults\<close>), rates that never change
  because no operation counts the queries they are computed from (\<open>rates_are_constant\<close>), a
  reader that sticks at the end of the log (\<open>main_stuck_at_end\<close>), requests that stop the program
  (\<open>short_request_faults\<close>) and IPv6 networks (\<open>v6_same_network_collapses\<close>).

  \<^bold>\<open>Bounds and parameters.\<close> What the C library and the generated code give is an argument: the memory of
  \<open>malloc\<close> and \<open>realloc\<close> (with its limit), the value that falls off the end of \<open>view_stats_create\<close>, the
  packing of messages, the rounding and printing of floating point numbers, the results of
  system calls and the events of the kernel at \<open>read\<close> and \<open>write\<close>. The theorems on logs ask for fewer than \<open>2 ^ 31\<close> queries, below which the signed
  difference of two counts has the right sign, for fewer than 1024 names and addresses in each view, the
  size of the pools of a tree, which cannot then refuse one, and for 1000 where the heap has to hold
  all of them. The names and views of the queries fit their buffers, their types are in the table,
  and \<open>malloc\<close> leaves 0 in the counter of a new tree of views, which the code never sets. Loops are recursive functions with a measure or \<open>partial_function\<close>s that are proved to
  return; no fuel is used.

  \<^bold>\<open>Not modelled.\<close> The threads and \<open>mlock\<close> as such: each operation of the house keeper that is a step here
  is one section under the lock; the mutexes of the containers, which only one thread uses. Binding,
  listening and the options of sockets, the signal handler, the address of a network device and
  \<open>sleep\<close>: system calls without a state of the program. \<^verbatim>\<open>statsmessage.pb-c.c\<close> is generated; \<^verbatim>\<open>adlist.c\<close> and \<^verbatim>\<open>dig_ring.h\<close> are copies of
  other projects that the program does not use; the web server is another program in another language.
\<close>

end
